(* ===== verification/Carmot_Prelude.thy ===== *)
theory Carmot_Prelude
  imports Main "HOL-Library.AList" "HOL-Library.Word"
begin

text \<open>
  Shared vocabulary of the development: machine words, the containers of the C++ standard
  library the sources use (\<open>std::unordered_set\<close>, \<open>std::unordered_map\<close>, \<open>std::map\<close> and the TBB
  maps, which have the same sequential interface), and the generic lemmas about them.

  An unordered container is a list in its iteration order. No theorem of the development fixes
  that order: statements quantify over every list with distinct keys. A \<open>std::map\<close> is a list that
  is strictly sorted by key. The interface both kinds of map offer to the allocation table is the
  locale \<open>keyed_store\<close>, interpreted below for the two representations.
\<close>

section \<open>Types and collections of simplification rules\<close>

type_synonym u64 = "64 word"
type_synonym u32 = "32 word"

named_theorems container_simps "rules for lookups in updated containers"
named_theorems runtime_simps "unfolding rules for the runtime's small operations"

lemma unat_u64_bound: "unat (x :: u64) < 18446744073709551616"
  using unsigned_less [of x] by simp

lemma unat_u64_max [simp]: "unat (- 1 :: u64) = 18446744073709551615"
  by (simp add: unsigned_minus_1_eq_mask mask_eq_exp_minus_1)

lemma unat_u64_power: "n < 64 \<Longrightarrow> unat (2 ^ n :: u64) = 2 ^ n"
  using unsigned_of_nat [of "2 ^ n", where 'b = 64, where 'a = nat]
  by (simp add: take_bit_eq_mod power_strict_increasing_iff [of "2 :: nat" n 64, simplified])

section \<open>Unordered sets\<close>

definition us_insert :: "'a \<Rightarrow> 'a list \<Rightarrow> 'a list" where
  "us_insert x xs = (if x \<in> set xs then xs else xs @ [x])"

definition us_erase :: "'a \<Rightarrow> 'a list \<Rightarrow> 'a list" where
  "us_erase x xs = filter (\<lambda>y. y \<noteq> x) xs"

definition us_insert_all :: "'a list \<Rightarrow> 'a list \<Rightarrow> 'a list" where
  "us_insert_all new xs = fold us_insert new xs"

definition us_erase_all :: "'a list \<Rightarrow> 'a list \<Rightarrow> 'a list" where
  "us_erase_all old xs = fold us_erase old xs"

lemma set_us_insert [simp]: "set (us_insert x xs) = insert x (set xs)"
  by (auto simp: us_insert_def)

lemma distinct_us_insert [simp]: "distinct (us_insert x xs) = distinct xs"
  by (auto simp: us_insert_def)

lemma set_us_erase [simp]: "set (us_erase x xs) = set xs - {x}"
  by (auto simp: us_erase_def)

lemma distinct_us_erase [simp]: "distinct xs \<Longrightarrow> distinct (us_erase x xs)"
  by (simp add: us_erase_def)

lemma set_us_insert_all [simp]: "set (us_insert_all new xs) = set xs \<union> set new"
  unfolding us_insert_all_def by (induction new arbitrary: xs) auto

lemma distinct_us_insert_all [simp]: "distinct (us_insert_all new xs) = distinct xs"
  unfolding us_insert_all_def by (induction new arbitrary: xs) auto

lemma set_us_erase_all [simp]: "set (us_erase_all old xs) = set xs - set old"
  unfolding us_erase_all_def by (induction old arbitrary: xs) auto

lemma distinct_us_erase_all [simp]: "distinct xs \<Longrightarrow> distinct (us_erase_all old xs)"
  unfolding us_erase_all_def by (induction old arbitrary: xs) auto

section \<open>Unordered maps\<close>

definition um_insert :: "'k \<Rightarrow> 'v \<Rightarrow> ('k \<times> 'v) list \<Rightarrow> ('k \<times> 'v) list" where
  "um_insert k v m = (if map_of m k = None then m @ [(k, v)] else m)"

definition um_assign :: "'k \<Rightarrow> 'v \<Rightarrow> ('k \<times> 'v) list \<Rightarrow> ('k \<times> 'v) list" where
  "um_assign k v m = AList.update k v m"

definition um_erase :: "'k \<Rightarrow> ('k \<times> 'v) list \<Rightarrow> ('k \<times> 'v) list" where
  "um_erase k m = AList.delete k m"

definition um_modify :: "'k \<Rightarrow> ('v \<Rightarrow> 'v) \<Rightarrow> ('k \<times> 'v) list \<Rightarrow> ('k \<times> 'v) list" where
  "um_modify k f m = map (\<lambda>(k', v). (k', if k' = k then f v else v)) m"

abbreviation distinct_keys :: "('k \<times> 'v) list \<Rightarrow> bool" where
  "distinct_keys m \<equiv> distinct (map fst m)"

lemma map_of_um_insert [simp]:
  "map_of (um_insert k v m) = (case map_of m k of None \<Rightarrow> (map_of m)(k \<mapsto> v) | Some _ \<Rightarrow> map_of m)"
  by (auto simp: um_insert_def map_add_def fun_eq_iff split: option.splits)

lemma map_of_um_assign [simp]: "map_of (um_assign k v m) = (map_of m)(k \<mapsto> v)"
  by (simp add: um_assign_def update_conv')

lemma in_um_assignD: "e \<in> set (um_assign k v m) \<Longrightarrow> e = (k, v) \<or> e \<in> set m"
  by (induction m) (auto simp: um_assign_def split: if_splits)

lemma map_of_um_erase [simp]: "map_of (um_erase k m) = (map_of m)(k := None)"
  by (simp add: um_erase_def delete_conv')

lemma map_of_um_modify [simp]:
  "map_of (um_modify k f m) = (map_of m)(k := map_option f (map_of m k))"
  unfolding um_modify_def by (induction m) (auto simp: fun_eq_iff)

lemma keys_um_modify [simp]: "map fst (um_modify k f m) = map fst m"
  unfolding um_modify_def by (induction m) auto

lemma set_um_modify: "set (um_modify k f m) = (\<lambda>(k', v). (k', if k' = k then f v else v)) ` set m"
  by (simp add: um_modify_def)

lemma distinct_keys_um_insert [simp]: "distinct_keys m \<Longrightarrow> distinct_keys (um_insert k v m)"
  by (auto simp: um_insert_def map_of_eq_None_iff)

lemma distinct_keys_um_assign [simp]: "distinct_keys m \<Longrightarrow> distinct_keys (um_assign k v m)"
  by (simp add: um_assign_def distinct_update)

lemma distinct_keys_um_erase [simp]: "distinct_keys m \<Longrightarrow> distinct_keys (um_erase k m)"
  by (simp add: um_erase_def distinct_delete)

section \<open>Ordered maps\<close>

fun om_insert :: "'k::linorder \<Rightarrow> 'v \<Rightarrow> ('k \<times> 'v) list \<Rightarrow> ('k \<times> 'v) list" where
  "om_insert k v [] = [(k, v)]"
| "om_insert k v ((k', v') # m) =
     (if k < k' then (k, v) # (k', v') # m
      else if k = k' then (k', v') # m
      else (k', v') # om_insert k v m)"

fun om_assign :: "'k::linorder \<Rightarrow> 'v \<Rightarrow> ('k \<times> 'v) list \<Rightarrow> ('k \<times> 'v) list" where
  "om_assign k v [] = [(k, v)]"
| "om_assign k v ((k', v') # m) =
     (if k < k' then (k, v) # (k', v') # m
      else if k = k' then (k, v) # m
      else (k', v') # om_assign k v m)"

definition om_erase :: "'k \<Rightarrow> ('k \<times> 'v) list \<Rightarrow> ('k \<times> 'v) list" where
  "om_erase k m = AList.delete k m"

abbreviation ordered_keys :: "('k::linorder \<times> 'v) list \<Rightarrow> bool" where
  "ordered_keys m \<equiv> sorted_wrt (<) (map fst m)"

lemma ordered_keys_distinct: "ordered_keys m \<Longrightarrow> distinct_keys m"
  by (simp add: strict_sorted_iff)

lemma fst_om_insert [simp]: "fst ` set (om_insert k v m) = insert k (fst ` set m)"
  by (induction k v m rule: om_insert.induct) auto

lemma fst_om_assign [simp]: "fst ` set (om_assign k v m) = insert k (fst ` set m)"
  by (induction k v m rule: om_assign.induct) auto

lemma ordered_keys_om_insert [simp]: "ordered_keys m \<Longrightarrow> ordered_keys (om_insert k v m)"
  by (induction k v m rule: om_insert.induct) force+

lemma ordered_keys_om_assign [simp]: "ordered_keys m \<Longrightarrow> ordered_keys (om_assign k v m)"
  by (induction k v m rule: om_assign.induct) force+

lemma ordered_keys_om_erase [simp]: "ordered_keys m \<Longrightarrow> ordered_keys (om_erase k m)"
  by (auto simp: om_erase_def AList.delete_eq sorted_wrt_map intro: sorted_wrt_filter)

lemma map_of_lt_None: "\<forall>e \<in> set m. (k :: 'k::linorder) < fst e \<Longrightarrow> map_of m k = None"
  by (induction m) auto

lemma map_of_om_insert [simp]:
  "ordered_keys m \<Longrightarrow> map_of (om_insert k v m)
     = (case map_of m k of None \<Rightarrow> (map_of m)(k \<mapsto> v) | Some _ \<Rightarrow> map_of m)"
proof (induction k v m rule: om_insert.induct)
  case (2 k v k' v' m)
  have "k < k' \<Longrightarrow> map_of m k = None"
    using "2.prems" by (intro map_of_lt_None) (auto intro: order.strict_trans)
  with 2 show ?case by (auto simp: fun_eq_iff split: option.splits)
qed (simp add: fun_eq_iff)

lemma map_of_om_assign [simp]:
  "ordered_keys m \<Longrightarrow> map_of (om_assign k v m) = (map_of m)(k \<mapsto> v)"
  by (induction k v m rule: om_assign.induct) (auto simp: fun_eq_iff)

lemma map_of_om_erase [simp]: "map_of (om_erase k m) = (map_of m)(k := None)"
  by (simp add: om_erase_def delete_conv')

section \<open>The interface of a map\<close>

text \<open>
  What the allocation table relies on: \<open>insert\<close> never overwrites, \<open>insert_or_assign\<close> always does,
  \<open>erase\<close> removes one key, and iteration visits every key once.
\<close>

locale keyed_store =
  fixes lookup :: "'m \<Rightarrow> 'k \<Rightarrow> 'v option"
    and insert_new :: "'k \<Rightarrow> 'v \<Rightarrow> 'm \<Rightarrow> 'm"
    and assign :: "'k \<Rightarrow> 'v \<Rightarrow> 'm \<Rightarrow> 'm"
    and erase :: "'k \<Rightarrow> 'm \<Rightarrow> 'm"
    and invar :: "'m \<Rightarrow> bool"
  assumes lookup_insert_new: "invar m \<Longrightarrow> lookup (insert_new k v m)
        = (case lookup m k of None \<Rightarrow> (lookup m)(k \<mapsto> v) | Some _ \<Rightarrow> lookup m)"
    and lookup_assign: "invar m \<Longrightarrow> lookup (assign k v m) = (lookup m)(k \<mapsto> v)"
    and lookup_erase: "invar m \<Longrightarrow> lookup (erase k m) = (lookup m)(k := None)"
    and invar_insert_new: "invar m \<Longrightarrow> invar (insert_new k v m)"
    and invar_assign: "invar m \<Longrightarrow> invar (assign k v m)"
    and invar_erase: "invar m \<Longrightarrow> invar (erase k m)"
begin

lemma invar_merge_assign: "invar m \<Longrightarrow> invar (fold (\<lambda>(k, v). assign k v) es m)"
  by (induction es arbitrary: m) (auto simp: invar_assign)

lemma invar_merge_insert: "invar m \<Longrightarrow> invar (fold (\<lambda>(k, v). insert_new k v) es m)"
  by (induction es arbitrary: m) (auto simp: invar_insert_new)

lemma lookup_merge_assign:
  "invar m \<Longrightarrow> distinct_keys es \<Longrightarrow>
   lookup (fold (\<lambda>(k, v). assign k v) es m) = lookup m ++ map_of es"
proof (induction es arbitrary: m)
  case (Cons e es)
  obtain k v where e: "e = (k, v)" by (cases e)
  have "map_of es k = None" using Cons.prems(2) e by (auto simp: map_of_eq_None_iff)
  then show ?case
    using Cons e by (auto simp: invar_assign lookup_assign map_add_def fun_eq_iff split: option.splits)
qed simp

lemma lookup_merge_insert:
  "invar m \<Longrightarrow> distinct_keys es \<Longrightarrow>
   lookup (fold (\<lambda>(k, v). insert_new k v) es m) = map_of es ++ lookup m"
proof (induction es arbitrary: m)
  case (Cons e es)
  obtain k v where e: "e = (k, v)" by (cases e)
  have "map_of es k = None" using Cons.prems(2) e by (auto simp: map_of_eq_None_iff)
  then show ?case
    using Cons e
    by (auto simp: invar_insert_new lookup_insert_new map_add_def fun_eq_iff split: option.splits)
qed simp

lemma insert_then_lookup: "invar m \<Longrightarrow> lookup m k = None \<Longrightarrow> lookup (insert_new k v m) k = Some v"
  by (simp add: lookup_insert_new)

lemma erase_then_lookup: "invar m \<Longrightarrow> lookup (erase k m) k = None"
  by (simp add: lookup_erase)

end

interpretation um: keyed_store map_of um_insert um_assign um_erase distinct_keys
  by unfold_locales auto

interpretation om: keyed_store map_of om_insert om_assign om_erase ordered_keys
  by unfold_locales auto

lemmas um_merge = um.lookup_merge_assign um.lookup_merge_insert
lemmas om_merge = om.lookup_merge_assign om.lookup_merge_insert

section \<open>Loops over an unordered map that touch each key once\<close>

text \<open>A fold whose steps change different keys acts on each key by its own step only.\<close>

lemma fold_indep:
  assumes "\<And>x s. x \<noteq> k \<Longrightarrow> view (f x s) = view s"
    and "k \<notin> set xs"
  shows "view (fold f xs s) = view s"
  using assms(2) by (induction xs arbitrary: s) (auto simp: assms(1))

end
