(* ===== verification/Texas_Helpers.thy ===== *)
theory Texas_Helpers
  imports Carmot_Prelude
begin

text \<open>
  \<open>HelperFunctions.hpp\<close> and \<open>HelperFunctions.cpp\<close>: the operation codes of shadow entries, the alias
  test every table lookup and every pointer patch rests on, and the offset and time-stamp helpers.
\<close>

section \<open>Operation codes\<close>

datatype operations =
    FREE_SLOT | ALLOCATING | ALLOC_ADD | ALLOC_FREE | ESCAPE_ADD
  | STATE_ADD_READ | STATE_ADD_WRITE
  | STATE_ADD_INPUT | STATE_ADD_IO | STATE_ADD_CIO | STATE_ADD_TIO
  | STATE_ADD_OUTPUT | STATE_ADD_CO | STATE_ADD_TO
  | STATE_BEGIN | STATE_END | STATE_REGION_SET | THREAD_KILL | REDUNDANT
  | STATE_COMMIT | DETECT_CYCLE

text \<open>The enumeration in declaration order; an enumerator's value is its position.\<close>

definition operations_list :: "operations list" where
  "operations_list =
     [FREE_SLOT, ALLOCATING, ALLOC_ADD, ALLOC_FREE, ESCAPE_ADD,
      STATE_ADD_READ, STATE_ADD_WRITE,
      STATE_ADD_INPUT, STATE_ADD_IO, STATE_ADD_CIO, STATE_ADD_TIO,
      STATE_ADD_OUTPUT, STATE_ADD_CO, STATE_ADD_TO,
      STATE_BEGIN, STATE_END, STATE_REGION_SET, THREAD_KILL, REDUNDANT,
      STATE_COMMIT, DETECT_CYCLE]"

definition opcode :: "operations \<Rightarrow> nat" where
  "opcode x = (case x of
     FREE_SLOT \<Rightarrow> 0 | ALLOCATING \<Rightarrow> 1 | ALLOC_ADD \<Rightarrow> 2 | ALLOC_FREE \<Rightarrow> 3 | ESCAPE_ADD \<Rightarrow> 4
   | STATE_ADD_READ \<Rightarrow> 5 | STATE_ADD_WRITE \<Rightarrow> 6
   | STATE_ADD_INPUT \<Rightarrow> 7 | STATE_ADD_IO \<Rightarrow> 8 | STATE_ADD_CIO \<Rightarrow> 9 | STATE_ADD_TIO \<Rightarrow> 10
   | STATE_ADD_OUTPUT \<Rightarrow> 11 | STATE_ADD_CO \<Rightarrow> 12 | STATE_ADD_TO \<Rightarrow> 13
   | STATE_BEGIN \<Rightarrow> 14 | STATE_END \<Rightarrow> 15 | STATE_REGION_SET \<Rightarrow> 16 | THREAD_KILL \<Rightarrow> 17
   | REDUNDANT \<Rightarrow> 18 | STATE_COMMIT \<Rightarrow> 19 | DETECT_CYCLE \<Rightarrow> 20)"

definition operation_of :: "nat \<Rightarrow> operations option" where
  "operation_of n = (if n < length operations_list then Some (operations_list ! n) else None)"

lemma operation_of_opcode [simp]: "operation_of (opcode x) = Some x"
  by (cases x) (simp_all add: operation_of_def operations_list_def opcode_def)

lemma opcode_inject: "opcode x = opcode y \<longleftrightarrow> x = y"
  by (metis operation_of_opcode option.inject)

section \<open>Aliasing and offsets\<close>

text \<open>
  The comparison is made on unsigned 64-bit words, so the end of a block near the top of the address
  space wraps around. The result is a signed word, \<open>-1\<close> for \<open>no\<close>.
\<close>

definition doesItAlias :: "u64 \<Rightarrow> u64 \<Rightarrow> u64 \<Rightarrow> u64" where
  "doesItAlias allocAddr len escapeVal =
     (let blockStart = allocAddr in
      if escapeVal \<ge> blockStart \<and> escapeVal < blockStart + len
      then escapeVal - blockStart
      else - 1)"

definition GetOffset :: "u64 \<Rightarrow> u64 \<Rightarrow> u64" where
  "GetOffset baseAddr offAddr = offAddr - baseAddr"

unbundle bit_operations_syntax

definition rdtsc_combine :: "u32 \<Rightarrow> u32 \<Rightarrow> u64" where
  "rdtsc_combine lo hi = (ucast lo OR push_bit 32 (ucast hi))"

text \<open>A block that does not run past the end of the address space.\<close>

definition block_fits :: "u64 \<Rightarrow> u64 \<Rightarrow> bool" where
  "block_fits a n \<longleftrightarrow> unat a + unat n < 2 ^ 64"

definition in_block :: "u64 \<Rightarrow> u64 \<Rightarrow> u64 \<Rightarrow> bool" where
  "in_block a n x \<longleftrightarrow> unat a \<le> unat x \<and> unat x < unat a + unat n"

lemma doesItAlias_range:
  "doesItAlias a n x = - 1 \<longleftrightarrow> \<not> (a \<le> x \<and> x < a + n)"
proof -
  have "x - a \<noteq> - 1" if "a \<le> x" "x < a + n"
  proof
    assume "x - a = - 1"
    then have "unat x - unat a = 18446744073709551615"
      using unat_sub [OF that(1)] by simp
    with unat_u64_bound [of x] have "unat x = unat (- 1 :: u64)" by simp
    then have "x = - 1" by (simp only: word_unat_eq_iff)
    with that(2) show False by simp
  qed
  then show ?thesis by (auto simp: doesItAlias_def Let_def)
qed

lemma block_end_unat: "block_fits a n \<Longrightarrow> unat (a + n) = unat a + unat n"
  by (simp add: block_fits_def unat_word_ariths)

lemma doesItAlias_iff:
  "block_fits a n \<Longrightarrow> doesItAlias a n x = - 1 \<longleftrightarrow> \<not> in_block a n x"
  by (simp add: doesItAlias_range in_block_def word_le_nat_alt word_less_nat_alt block_end_unat)

lemma doesItAlias_offset:
  "block_fits a n \<Longrightarrow> in_block a n x \<Longrightarrow> doesItAlias a n x = x - a \<and> unat (x - a) = unat x - unat a"
  by (auto simp: doesItAlias_def in_block_def word_le_nat_alt word_less_nat_alt block_end_unat
      unat_sub)

end
