(* ===== verification/Texas_Objects.thy ===== *)
theory Texas_Objects
  imports Texas_Helpers
begin

text \<open>
  The objects of the TEXAS runtime: class \<open>Allocation\<close> (\<open>Allocation.hpp\<close>, \<open>Allocation.cpp\<close>) and class
  \<open>State\<close> (\<open>State.hpp\<close>, \<open>State.cpp\<close>). Objects are shared through pointers by the allocation tables,
  the origin map and the states, so they live in an explicit store: an \<open>aref\<close> or \<open>sref\<close> is the address of
  an object, \<open>None\<close> the null pointer. No object is ever deleted by the runtime.

  The seven \<open>Input\<close>, \<open>IO\<close>, \<dots> members of a state and their seven \<open>Final\<close> counterparts are two families
  indexed by \<open>spoor_set\<close>.
\<close>

section \<open>Data\<close>

type_synonym aref = nat
type_synonym sref = nat

type_synonym offset_set = "u64 list"
type_synonym stateAllocationsSet = "(aref \<times> offset_set) list"

record StateCommitInfo =
  useInfo :: "u64 list"
  stateSetToOffsetMap :: "(nat \<times> offset_set) list"
  regionBasedOffsets :: bool

record Allocation =
  pointer :: u64
  len :: u64
  allocToEscapeMap :: "u64 list"
  patchPointer :: u64
  connectionVertex :: nat
  totalPointerWeight :: u64
  alignment :: u64
  origin :: u64
  freshness :: u64
  affiliatedState :: "sref option"
  StateCommitInfoMap :: "(sref \<times> StateCommitInfo) list"

datatype spoor_set =
  Input | IO | CloneableIO | TransferIO | Output | CloneableOutput | TransferOutput

record State =
  functionName :: string
  lineNumber :: u64
  naiveStateSize :: u64
  stateSize :: u64
  stateID :: u64
  temporalGraph :: u64
  parent :: "sref option"
  children :: "sref list"
  AllocsAllocatedInState :: "aref list"
  temporalConnections :: "(aref \<times> (aref \<times> u64) list) list"
  statePtrMap :: "u64 \<rightharpoonup> operations"
  statePtrIterMap :: "u64 \<rightharpoonup> operations"
  currentPtrIterUpgrades :: "u64 set"
  allocationInfo :: "(aref \<times> u64 list) list"
  spoor :: "spoor_set \<Rightarrow> stateAllocationsSet"
  final_spoor :: "spoor_set \<Rightarrow> stateAllocationsSet"

record store =
  allocs :: "aref \<Rightarrow> Allocation"
  next_aref :: aref
  states :: "sref \<Rightarrow> State"
  next_sref :: sref
  stateMap :: "(u64 \<times> sref) list"
  originToAllocMap :: "(u64 \<times> aref) list"
  freshnessSetter :: u64
  stateReductionTracking :: bool

definition upd_alloc :: "aref \<Rightarrow> (Allocation \<Rightarrow> Allocation) \<Rightarrow> store \<Rightarrow> store" where
  "upd_alloc a f h = h\<lparr>allocs := (allocs h)(a := f (allocs h a))\<rparr>"

definition upd_state :: "sref \<Rightarrow> (State \<Rightarrow> State) \<Rightarrow> store \<Rightarrow> store" where
  "upd_state s f h = h\<lparr>states := (states h)(s := f (states h s))\<rparr>"

section \<open>Constructors\<close>

definition new_Allocation :: "u64 \<Rightarrow> u64 \<Rightarrow> u64 \<Rightarrow> Allocation" where
  "new_Allocation ptr n ori =
     \<lparr>pointer = ptr, len = n, allocToEscapeMap = [], patchPointer = 0, connectionVertex = 0,
      totalPointerWeight = 0, alignment = 8, origin = ori, freshness = 0,
      affiliatedState = None, StateCommitInfoMap = []\<rparr>"

definition alloc_Allocation :: "u64 \<Rightarrow> u64 \<Rightarrow> u64 \<Rightarrow> store \<Rightarrow> aref \<times> store" where
  "alloc_Allocation ptr n ori h =
     (next_aref h,
      h\<lparr>allocs := (allocs h)(next_aref h := new_Allocation ptr n ori), next_aref := Suc (next_aref h)\<rparr>)"

definition GetAllocationSize :: "aref \<Rightarrow> store \<Rightarrow> u64" where
  "GetAllocationSize a h = len (allocs h a)"

definition InitSpoorSets :: "State \<Rightarrow> State" where
  "InitSpoorSets st = st\<lparr>spoor := (\<lambda>_. []), final_spoor := (\<lambda>_. [])\<rparr>"

text \<open>A global flag that nothing assigns.\<close>

definition ComputationalSpoorTracking :: bool where
  "ComputationalSpoorTracking = True"

definition new_State :: "string \<Rightarrow> u64 \<Rightarrow> u64 \<Rightarrow> u64 \<Rightarrow> sref option \<Rightarrow> State" where
  "new_State funcName lineNum temporalTracking currentStateID parentState =
     (if ComputationalSpoorTracking then InitSpoorSets else id)
       \<lparr>functionName = funcName, lineNumber = lineNum, naiveStateSize = 0, stateSize = 0,
        stateID = currentStateID, temporalGraph = temporalTracking, parent = parentState,
        children = [], AllocsAllocatedInState = [], temporalConnections = [],
        statePtrMap = Map.empty, statePtrIterMap = Map.empty, currentPtrIterUpgrades = {},
        allocationInfo = [], spoor = (\<lambda>_. []), final_spoor = (\<lambda>_. [])\<rparr>"

definition alloc_State ::
  "string \<Rightarrow> u64 \<Rightarrow> u64 \<Rightarrow> u64 \<Rightarrow> sref option \<Rightarrow> store \<Rightarrow> sref \<times> store" where
  "alloc_State funcName lineNum temporalTracking currentStateID parentState h =
     (let s = next_sref h;
          h1 = h\<lparr>states := (states h)(s := new_State funcName lineNum temporalTracking
                                                currentStateID parentState),
                 next_sref := Suc s\<rparr>
      in (s, case parentState of None \<Rightarrow> h1
             | Some p \<Rightarrow> upd_state p (\<lambda>st. st\<lparr>children := us_insert s (children st)\<rparr>) h1))"

definition SetParentState :: "sref \<Rightarrow> sref option \<Rightarrow> store \<Rightarrow> store" where
  "SetParentState s p h = upd_state s (\<lambda>st. st\<lparr>parent := p\<rparr>) h"

text \<open>The globals of \<open>texas.cpp\<close> before anything is tracked.\<close>

definition empty_store :: store where
  "empty_store =
     \<lparr>allocs = (\<lambda>_. new_Allocation 0 0 0), next_aref = 0,
      states = (\<lambda>_. new_State [] 0 0 0 None), next_sref = 0,
      stateMap = [], originToAllocMap = [], freshnessSetter = 1, stateReductionTracking = True\<rparr>"

section \<open>Walking up the parents of a state\<close>

text \<open>
  The loop \<open>while (tempState != nullptr) \<dots> tempState = tempState->parent\<close>; \<open>None\<close> is a loop
  that does not return. Every state is created after its parent, which makes the loop return.
\<close>

partial_function (option) state_chain :: "(sref \<Rightarrow> State) \<Rightarrow> sref option \<Rightarrow> sref list option" where
  "state_chain sts so =
     (case so of None \<Rightarrow> Some []
      | Some s \<Rightarrow> Option.bind (state_chain sts (parent (sts s))) (\<lambda>ss. Some (s # ss)))"

declare state_chain.simps [code]

declare state_chain.simps [code]

lemma state_chain_None [simp]: "state_chain sts None = Some []"
  by (simp add: state_chain.simps)

lemma state_chain_Some:
  "state_chain sts (Some s)
     = Option.bind (state_chain sts (parent (sts s))) (\<lambda>ss. Some (s # ss))"
  by (subst state_chain.simps) simp

definition parents_ok :: "store \<Rightarrow> bool" where
  "parents_ok h \<longleftrightarrow>
     (\<forall>s p. s < next_sref h \<longrightarrow> parent (states h s) = Some p \<longrightarrow> p < s)"

definition state_ok :: "store \<Rightarrow> sref option \<Rightarrow> bool" where
  "state_ok h so \<longleftrightarrow> (case so of None \<Rightarrow> True | Some s \<Rightarrow> s < next_sref h)"

lemma state_chain_returns_Some:
  assumes "parents_ok h" and "s < next_sref h"
  shows "\<exists>ss. state_chain (states h) (Some s) = Some ss \<and> s \<in> set ss \<and> (\<forall>x \<in> set ss. x \<le> s)"
  using assms(2)
proof (induction s rule: less_induct)
  case (less s)
  show ?case
  proof (cases "parent (states h s)")
    case None
    then show ?thesis by (simp add: state_chain_Some)
  next
    case (Some p)
    with assms(1) less.prems have "p < s" by (auto simp: parents_ok_def)
    with less obtain ss where "state_chain (states h) (Some p) = Some ss" "\<forall>x \<in> set ss. x \<le> p"
      by (meson order.strict_trans)
    with \<open>p < s\<close> Some show ?thesis
      by (subst state_chain_Some) (auto dest: order.trans intro: less_imp_le)
  qed
qed

lemma state_chain_returns:
  "parents_ok h \<Longrightarrow> state_ok h so \<Longrightarrow> \<exists>ss. state_chain (states h) so = Some ss"
  using state_chain_returns_Some by (fastforce simp: state_ok_def split: option.splits)

end
