(* ===== verification/State_Commit.thy ===== *)
theory State_Commit
  imports Texas_Objects
begin

text \<open>
  How tracked accesses travel from allocations to states and from a state's working sets to its final
  sets: \<open>Allocation::commitStateInfo\<close>, \<open>State::CommitAndCleanSet\<close>, \<open>CommitState\<close>, \<open>CleanState\<close>,
  \<open>ReportState\<close> and \<open>GetTransferStateMemoryFootprint\<close>. A map from allocations to offset sets is
  abstracted by \<open>offsets_of\<close>, the function from an allocation to its set of offsets; the lemmas below are
  functional refinements over that abstraction.
\<close>

section \<open>Offset maps\<close>

definition offsets_of :: "('a \<times> 'b list) list \<Rightarrow> 'a \<Rightarrow> 'b set" where
  "offsets_of m a = (case map_of m a of None \<Rightarrow> {} | Some os \<Rightarrow> set os)"

text \<open>\<open>find\<close>, and if absent insert an empty set, then insert every element.\<close>

definition add_offsets :: "'a \<Rightarrow> 'b list \<Rightarrow> ('a \<times> 'b list) list \<Rightarrow> ('a \<times> 'b list) list" where
  "add_offsets a os m = um_modify a (us_insert_all os) (um_insert a [] m)"

lemma offsets_of_Nil [simp]: "offsets_of [] a = {}"
  by (simp add: offsets_of_def)

lemma offsets_of_add [simp]:
  "offsets_of (add_offsets a os m) b = offsets_of m b \<union> (if b = a then set os else {})"
  by (auto simp: offsets_of_def add_offsets_def split: option.splits)

lemma dom_add_offsets [simp]: "dom (map_of (add_offsets a os m)) = insert a (dom (map_of m))"
  by (auto simp: add_offsets_def split: option.splits if_splits)

lemma distinct_keys_add_offsets [simp]: "distinct_keys m \<Longrightarrow> distinct_keys (add_offsets a os m)"
  by (simp add: add_offsets_def)

section \<open>Class State\<close>

definition commit_entry :: "aref \<times> offset_set \<Rightarrow> stateAllocationsSet \<Rightarrow> stateAllocationsSet" where
  "commit_entry e fin =
     (case e of (a, os) \<Rightarrow>
        (case map_of fin a of
           Some _ \<Rightarrow> um_modify a (us_insert_all os) fin
         | None \<Rightarrow> um_insert a os fin))"

definition CommitAndCleanSet ::
  "stateAllocationsSet \<Rightarrow> stateAllocationsSet \<Rightarrow> stateAllocationsSet \<times> stateAllocationsSet" where
  "CommitAndCleanSet tempSet finalSet = ([], fold commit_entry tempSet finalSet)"

definition CommitState :: "State \<Rightarrow> State" where
  "CommitState st =
     st\<lparr>spoor := (\<lambda>k. fst (CommitAndCleanSet (spoor st k) (final_spoor st k))),
        final_spoor := (\<lambda>k. snd (CommitAndCleanSet (spoor st k) (final_spoor st k))),
        currentPtrIterUpgrades := {},
        statePtrMap := Map.empty,
        statePtrIterMap := Map.empty\<rparr>"

definition clean_entry ::
  "aref \<times> offset_set \<Rightarrow> stateAllocationsSet \<times> aref list \<Rightarrow> stateAllocationsSet \<times> aref list" where
  "clean_entry e acc =
     (case (e, acc) of ((a, os), (del, completeCleans)) \<Rightarrow>
        (case map_of del a of
           None \<Rightarrow> (del, completeCleans)
         | Some old \<Rightarrow>
             (let new = us_erase_all os old in
              (um_modify a (\<lambda>_. new) del,
               if new = [] then us_insert a completeCleans else completeCleans))))"

definition CleanState :: "stateAllocationsSet \<Rightarrow> stateAllocationsSet \<Rightarrow> stateAllocationsSet" where
  "CleanState setToDeleteFrom setToUseOffsetsFrom =
     (case fold clean_entry setToUseOffsetsFrom (setToDeleteFrom, []) of
        (del, completeCleans) \<Rightarrow> fold um_erase completeCleans del)"

definition clean_spoor :: "spoor_set \<Rightarrow> spoor_set \<Rightarrow> State \<Rightarrow> State" where
  "clean_spoor del use st =
     st\<lparr>spoor := (spoor st)(del := CleanState (spoor st del) (spoor st use))\<rparr>"

definition GetTransferStateMemoryFootprint :: "sref \<Rightarrow> store \<Rightarrow> u64 \<times> store" where
  "GetTransferStateMemoryFootprint s h =
     (let st = states h s;
          transferAllocs = us_insert_all (map fst (spoor st TransferOutput))
                             (us_insert_all (map fst (spoor st TransferIO)) []);
          size = fold (\<lambda>a n. n + GetAllocationSize a h) transferAllocs 0
      in (size, upd_state s (\<lambda>st. st\<lparr>stateSize := size\<rparr>) h))"

text \<open>The cleaning at the end of \<open>ReportState\<close>, in the order of the code.\<close>

definition ReportState_clean :: "State \<Rightarrow> State" where
  "ReportState_clean st =
     clean_spoor Output CloneableOutput
       (clean_spoor Output TransferOutput
         (clean_spoor CloneableOutput TransferOutput
           (clean_spoor Input IO
             (clean_spoor IO CloneableIO
               (clean_spoor IO TransferIO
                 (clean_spoor CloneableIO TransferIO st))))))"

definition ReportState :: "sref \<Rightarrow> store \<Rightarrow> store" where
  "ReportState s h =
     (let h1 = (if stateReductionTracking h then snd (GetTransferStateMemoryFootprint s h) else h)
      in if ComputationalSpoorTracking then upd_state s ReportState_clean h1 else h1)"

section \<open>Class Allocation: commitStateInfo\<close>

definition spoor_of_code :: "nat \<Rightarrow> spoor_set option" where
  "spoor_of_code c =
     (if c = opcode STATE_ADD_INPUT then Some Input
      else if c = opcode STATE_ADD_IO then Some IO
      else if c = opcode STATE_ADD_CIO then Some CloneableIO
      else if c = opcode STATE_ADD_TIO then Some TransferIO
      else if c = opcode STATE_ADD_OUTPUT then Some Output
      else if c = opcode STATE_ADD_CO then Some CloneableOutput
      else if c = opcode STATE_ADD_TO then Some TransferOutput
      else None)"

text \<open>
  A code outside the seven cases of the \<open>switch\<close> leaves \<open>stateAllocSet\<close> null, and the next line
  dereferences it: the result \<open>None\<close>.
\<close>

fun commit_sets :: "aref \<Rightarrow> (nat \<times> offset_set) list \<Rightarrow> State \<Rightarrow> State option" where
  "commit_sets a [] st = Some st"
| "commit_sets a ((c, os) # rest) st =
     (case spoor_of_code c of
        None \<Rightarrow> None
      | Some k \<Rightarrow>
          commit_sets a rest (st\<lparr>spoor := (spoor st)(k := add_offsets a os (spoor st k))\<rparr>))"

definition commit_one :: "aref \<Rightarrow> StateCommitInfo \<Rightarrow> State \<Rightarrow> State option" where
  "commit_one a info st =
     commit_sets a (stateSetToOffsetMap info)
       (st\<lparr>allocationInfo := add_offsets a (useInfo info) (allocationInfo st)\<rparr>)"

fun commit_all :: "aref \<Rightarrow> (sref \<times> StateCommitInfo) list \<Rightarrow> store \<Rightarrow> store option" where
  "commit_all a [] h = Some h"
| "commit_all a ((s, info) # rest) h =
     (case commit_one a info (states h s) of
        None \<Rightarrow> None
      | Some st \<Rightarrow> commit_all a rest (upd_state s (\<lambda>_. st) h))"

definition erase_shared ::
  "sref list \<Rightarrow> sref list \<Rightarrow> (sref \<times> StateCommitInfo) list \<Rightarrow> (sref \<times> StateCommitInfo) list" where
  "erase_shared affil skip m =
     fold (\<lambda>s1. fold (\<lambda>s2 m. if s1 = s2 then um_erase s2 m else m) skip) affil m"

definition clear_info :: "StateCommitInfo \<Rightarrow> StateCommitInfo" where
  "clear_info i =
     i\<lparr>useInfo := [], stateSetToOffsetMap := map (\<lambda>(c, _). (c, [])) (stateSetToOffsetMap i)\<rparr>"

definition commitStateInfo :: "aref \<Rightarrow> sref option \<Rightarrow> store \<Rightarrow> (bool \<times> store) option" where
  "commitStateInfo a skipState h =
     (case (state_chain (states h) skipState,
            state_chain (states h) (affiliatedState (allocs h a))) of
        (Some skipStateVec, Some affilStateVec) \<Rightarrow>
          (let m = erase_shared affilStateVec skipStateVec (StateCommitInfoMap (allocs h a)) in
           case commit_all a m h of
             None \<Rightarrow> None
           | Some h1 \<Rightarrow>
               Some (m \<noteq> [],
                 upd_alloc a (\<lambda>al. al\<lparr>StateCommitInfoMap := map (\<lambda>(s, i). (s, clear_info i)) m\<rparr>) h1))
      | _ \<Rightarrow> None)"

section \<open>Working sets to final sets\<close>

lemma offsets_of_commit_entry:
  "offsets_of (commit_entry e fin) b = offsets_of fin b \<union> (if b = fst e then set (snd e) else {})"
  by (cases e) (auto simp: commit_entry_def offsets_of_def split: option.splits)

lemma offsets_of_distinct:
  "distinct_keys m \<Longrightarrow> offsets_of m b = (\<Union>e \<in> set m. if b = fst e then set (snd e) else {})"
  by (induction m) (auto simp: offsets_of_def map_of_eq_None_iff split: option.splits if_splits)

lemma offsets_of_fold_commit:
  "offsets_of (fold commit_entry t fin) b
     = offsets_of fin b \<union> (\<Union>e \<in> set t. if b = fst e then set (snd e) else {})"
  by (induction t arbitrary: fin) (auto simp: offsets_of_commit_entry)

lemma distinct_keys_commit_entry: "distinct_keys fin \<Longrightarrow> distinct_keys (commit_entry e fin)"
  by (auto simp: commit_entry_def split: prod.splits option.splits)

lemma distinct_keys_fold_commit: "distinct_keys fin \<Longrightarrow> distinct_keys (fold commit_entry t fin)"
  by (induction t arbitrary: fin) (auto simp: distinct_keys_commit_entry)

lemma offsets_of_CommitAndCleanSet:
  "distinct_keys t \<Longrightarrow>
   offsets_of (snd (CommitAndCleanSet t fin)) b = offsets_of fin b \<union> offsets_of t b"
  by (simp add: CommitAndCleanSet_def offsets_of_fold_commit offsets_of_distinct [of t])

section \<open>Cleaning one set by another\<close>

lemma offsets_of_clean_entry:
  "offsets_of (fst (clean_entry e (d, cs))) b
     = offsets_of d b - (if b = fst e then set (snd e) else {})"
  by (cases e) (auto simp: clean_entry_def offsets_of_def Let_def split: option.splits)

lemma clean_entry_cleans:
  "distinct_keys d \<Longrightarrow> (\<forall>a \<in> set cs. offsets_of d a = {}) \<Longrightarrow>
   \<forall>a \<in> set (snd (clean_entry e (d, cs))). offsets_of (fst (clean_entry e (d, cs))) a = {}"
  using set_us_erase_all [of "snd e" "the (map_of d (fst e))"]
  by (cases e) (auto simp: clean_entry_def Let_def offsets_of_def split: option.splits if_splits
      simp del: map_of_eq_Some_iff set_us_erase_all)

lemma distinct_keys_clean_entry: "distinct_keys d \<Longrightarrow> distinct_keys (fst (clean_entry e (d, cs)))"
  by (auto simp: clean_entry_def Let_def split: prod.splits option.splits)

lemma fold_clean_entry:
  assumes "distinct_keys d" and "\<forall>a \<in> set cs. offsets_of d a = {}"
  shows "offsets_of (fst (fold clean_entry u (d, cs))) b
           = offsets_of d b - (\<Union>e \<in> set u. if b = fst e then set (snd e) else {})
       \<and> (\<forall>a \<in> set (snd (fold clean_entry u (d, cs))).
              offsets_of (fst (fold clean_entry u (d, cs))) a = {})"
  using assms
proof (induction u arbitrary: d cs)
  case (Cons e u)
  obtain d' cs' where e: "clean_entry e (d, cs) = (d', cs')" by (cases "clean_entry e (d, cs)")
  have "distinct_keys d'" and "\<forall>a \<in> set cs'. offsets_of d' a = {}"
    using distinct_keys_clean_entry [OF Cons.prems(1), of e cs]
      clean_entry_cleans [OF Cons.prems, of e] e by auto
  from Cons.IH [OF this] e offsets_of_clean_entry [of e d cs b] show ?case by auto
qed simp

lemma offsets_of_erase:
  "offsets_of (um_erase a m) b = (if b = a then {} else offsets_of m b)"
  by (simp add: offsets_of_def)

lemma offsets_of_fold_erase:
  "\<forall>a \<in> set cs. offsets_of m a = {} \<Longrightarrow> offsets_of (fold um_erase cs m) b = offsets_of m b"
  by (induction cs arbitrary: m) (auto simp: offsets_of_erase)

lemma offsets_of_CleanState:
  assumes "distinct_keys d" and "distinct_keys u"
  shows "offsets_of (CleanState d u) b = offsets_of d b - offsets_of u b"
proof -
  obtain d' cs where f: "fold clean_entry u (d, []) = (d', cs)" by (cases "fold clean_entry u (d, [])")
  have "offsets_of d' b = offsets_of d b - offsets_of u b" and "\<forall>a \<in> set cs. offsets_of d' a = {}"
    using fold_clean_entry [OF assms(1), of "[]" u b] offsets_of_distinct [OF assms(2), of b] f
    by simp_all
  with f show ?thesis by (simp add: CleanState_def offsets_of_fold_erase)
qed

lemma distinct_keys_CleanState:
  assumes "distinct_keys d"
  shows "distinct_keys (CleanState d u)"
proof -
  have "distinct_keys (fst (fold clean_entry u (d, cs)))" for cs
    using assms
  proof (induction u arbitrary: d cs)
    case (Cons e u)
    then show ?case
      using distinct_keys_clean_entry [of d e cs] by (cases "clean_entry e (d, cs)") simp
  qed simp
  moreover have "distinct_keys m \<Longrightarrow> distinct_keys (fold um_erase cs m)" for cs m
    by (induction cs arbitrary: m) auto
  ultimately show ?thesis
    by (metis (mono_tags, lifting) CleanState_def prod.case_eq_if)
qed

lemma CleanState_Nil [simp]: "CleanState d [] = d"
  by (simp add: CleanState_def)

section \<open>Committing the information of an allocation\<close>

lemma map_of_inner_erase:
  "map_of (fold (\<lambda>s2 m. if s1 = s2 then um_erase s2 m else m) skip m)
     = (if s1 \<in> set skip then (map_of m)(s1 := None) else map_of m)"
  by (induction skip arbitrary: m) auto

lemma map_of_erase_shared:
  "map_of (erase_shared affil skip m) s
     = (if s \<in> set affil \<and> s \<in> set skip then None else map_of m s)"
  unfolding erase_shared_def
  by (induction affil arbitrary: m) (auto simp: map_of_inner_erase)

lemma distinct_keys_erase_shared:
  "distinct_keys m \<Longrightarrow> distinct_keys (erase_shared affil skip m)"
proof -
  have inner: "distinct_keys m \<Longrightarrow>
      distinct_keys (fold (\<lambda>s2 m. if s1 = s2 then um_erase s2 m else m) skip m)" for s1 m
    by (induction skip arbitrary: m) auto
  show "distinct_keys m \<Longrightarrow> distinct_keys (erase_shared affil skip m)"
    unfolding erase_shared_def by (induction affil arbitrary: m) (auto simp: inner)
qed

definition codes_ok :: "StateCommitInfo \<Rightarrow> bool" where
  "codes_ok i \<longleftrightarrow> (\<forall>e \<in> set (stateSetToOffsetMap i). spoor_of_code (fst e) \<noteq> None)"

text \<open>The offsets an entry carries for one of the seven sets.\<close>

fun set_offsets :: "(nat \<times> offset_set) list \<Rightarrow> spoor_set \<Rightarrow> u64 set" where
  "set_offsets [] k = {}"
| "set_offsets ((c, os) # m) k = (if spoor_of_code c = Some k then set os else {}) \<union> set_offsets m k"

definition info_offsets :: "StateCommitInfo \<Rightarrow> spoor_set \<Rightarrow> u64 set" where
  "info_offsets i k = set_offsets (stateSetToOffsetMap i) k"

lemma commit_sets_spec:
  "(\<forall>e \<in> set m. spoor_of_code (fst e) \<noteq> None) \<Longrightarrow>
   \<exists>st'. commit_sets a m st = Some st' \<and> allocationInfo st' = allocationInfo st
     \<and> parent st' = parent st \<and> final_spoor st' = final_spoor st
     \<and> (\<forall>k b. offsets_of (spoor st' k) b
               = offsets_of (spoor st k) b \<union> (if b = a then set_offsets m k else {}))"
proof (induction a m st rule: commit_sets.induct)
  case (2 a c os rest st)
  from "2.prems" obtain k where k: "spoor_of_code c = Some k" by auto
  from "2.prems" have "\<forall>e \<in> set rest. spoor_of_code (fst e) \<noteq> None" by simp
  from "2.IH" [OF k this] obtain st' where
    "commit_sets a rest (st\<lparr>spoor := (spoor st)(k := add_offsets a os (spoor st k))\<rparr>) = Some st'"
    "allocationInfo st' = allocationInfo st" "parent st' = parent st" "final_spoor st' = final_spoor st"
    "\<And>k' b. offsets_of (spoor st' k') b
       = offsets_of (((spoor st)(k := add_offsets a os (spoor st k))) k') b
         \<union> (if b = a then set_offsets rest k' else {})"
    by auto
  then show ?case using k by (auto simp: fun_upd_def)
qed simp

lemma commit_sets_error:
  "e \<in> set m \<Longrightarrow> spoor_of_code (fst e) = None \<Longrightarrow> commit_sets a m st = None"
  by (induction a m st rule: commit_sets.induct) (auto split: option.splits)

lemma commit_one_spec:
  assumes "codes_ok i"
  shows "\<exists>st'. commit_one a i st = Some st' \<and> parent st' = parent st \<and> final_spoor st' = final_spoor st
     \<and> (\<forall>b. offsets_of (allocationInfo st') b
              = offsets_of (allocationInfo st) b \<union> (if b = a then set (useInfo i) else {}))
     \<and> (\<forall>k b. offsets_of (spoor st' k) b
              = offsets_of (spoor st k) b \<union> (if b = a then info_offsets i k else {}))"
proof -
  let ?st = "st\<lparr>allocationInfo := add_offsets a (useInfo i) (allocationInfo st)\<rparr>"
  from commit_sets_spec [of "stateSetToOffsetMap i" a ?st] assms show ?thesis
    by (auto simp: commit_one_def codes_ok_def info_offsets_def)
qed

lemma upd_state_simps [simp]:
  "states (upd_state s f h) = (states h)(s := f (states h s))"
  "allocs (upd_state s f h) = allocs h"
  "next_sref (upd_state s f h) = next_sref h"
  "next_aref (upd_state s f h) = next_aref h"
  "stateMap (upd_state s f h) = stateMap h"
  "originToAllocMap (upd_state s f h) = originToAllocMap h"
  "freshnessSetter (upd_state s f h) = freshnessSetter h"
  "stateReductionTracking (upd_state s f h) = stateReductionTracking h"
  by (simp_all add: upd_state_def)

lemma upd_alloc_simps [simp]:
  "states (upd_alloc a f2 h) = states h"
  "allocs (upd_alloc a f2 h) = (allocs h)(a := f2 (allocs h a))"
  "next_sref (upd_alloc a f2 h) = next_sref h"
  "next_aref (upd_alloc a f2 h) = next_aref h"
  "stateMap (upd_alloc a f2 h) = stateMap h"
  "originToAllocMap (upd_alloc a f2 h) = originToAllocMap h"
  "freshnessSetter (upd_alloc a f2 h) = freshnessSetter h"
  "stateReductionTracking (upd_alloc a f2 h) = stateReductionTracking h"
  by (simp_all add: upd_alloc_def)

text \<open>What an allocation's map holds for a state, as sets.\<close>

definition pending :: "(sref \<times> StateCommitInfo) list \<Rightarrow> sref \<Rightarrow> spoor_set \<Rightarrow> u64 set" where
  "pending m s k = (case map_of m s of None \<Rightarrow> {} | Some i \<Rightarrow> info_offsets i k)"

definition pending_use :: "(sref \<times> StateCommitInfo) list \<Rightarrow> sref \<Rightarrow> u64 set" where
  "pending_use m s = (case map_of m s of None \<Rightarrow> {} | Some i \<Rightarrow> set (useInfo i))"

definition infos_ok :: "(sref \<times> StateCommitInfo) list \<Rightarrow> bool" where
  "infos_ok m \<longleftrightarrow> distinct_keys m \<and> list_all (\<lambda>(_, i). codes_ok i) m"

lemma pending_Cons:
  "pending ((s', i) # m) s k = (if s = s' then info_offsets i k else pending m s k)"
  "pending_use ((s', i) # m) s = (if s = s' then set (useInfo i) else pending_use m s)"
  by (auto simp: pending_def pending_use_def)

lemma pending_absent:
  "s \<notin> fst ` set m \<Longrightarrow> pending m s k = {}"
  "s \<notin> fst ` set m \<Longrightarrow> pending_use m s = {}"
  by (auto simp: pending_def pending_use_def map_of_eq_None_iff [THEN iffD2])

lemma infos_ok_Cons:
  "infos_ok ((s', i) # m) \<longleftrightarrow> codes_ok i \<and> s' \<notin> fst ` set m \<and> infos_ok m"
  by (auto simp: infos_ok_def)

lemma infos_ok_erase_shared: "infos_ok m \<Longrightarrow> infos_ok (erase_shared affil skip m)"
proof -
  have inner: "set (fold (\<lambda>s2 m. if s1 = s2 then um_erase s2 m else m) skip m) \<subseteq> set m"
    for s1 and m :: "(sref \<times> StateCommitInfo) list"
    by (induction skip arbitrary: m) (force simp: um_erase_def AList.delete_eq split: if_splits)+
  have "set (erase_shared affil skip m) \<subseteq> set m" for m
    unfolding erase_shared_def by (induction affil arbitrary: m) (auto dest!: subsetD [OF inner])
  then show "infos_ok m \<Longrightarrow> infos_ok (erase_shared affil skip m)"
    unfolding infos_ok_def list_all_iff using distinct_keys_erase_shared by blast
qed

lemma commit_all_spec:
  "infos_ok m \<Longrightarrow>
   \<exists>h'. commit_all a m h = Some h' \<and> allocs h' = allocs h \<and> next_sref h' = next_sref h
     \<and> (\<forall>s. parent (states h' s) = parent (states h s))
     \<and> (\<forall>s b. offsets_of (allocationInfo (states h' s)) b
          = offsets_of (allocationInfo (states h s)) b \<union> (if b = a then pending_use m s else {}))
     \<and> (\<forall>s k b. offsets_of (spoor (states h' s) k) b
          = offsets_of (spoor (states h s) k) b \<union> (if b = a then pending m s k else {}))"
proof (induction a m h rule: commit_all.induct)
  case (1 a h)
  show ?case by (auto simp: pending_def pending_use_def)
next
  case (2 a s i rest h)
  then have ok: "codes_ok i" "infos_ok rest" and fresh: "s \<notin> fst ` set rest"
    by (simp_all add: infos_ok_Cons)
  obtain st where st: "commit_one a i (states h s) = Some st" "parent st = parent (states h s)"
    "\<And>b. offsets_of (allocationInfo st) b
       = offsets_of (allocationInfo (states h s)) b \<union> (if b = a then set (useInfo i) else {})"
    "\<And>k b. offsets_of (spoor st k) b
       = offsets_of (spoor (states h s) k) b \<union> (if b = a then info_offsets i k else {})"
    using commit_one_spec [OF ok(1)] by metis
  from "2.IH" [OF st(1) ok(2)] st(1) show ?case
    by (force simp: st(2-) pending_Cons pending_absent [OF fresh] split: if_splits)
qed

lemma commit_all_error:
  "(s, i) \<in> set m \<Longrightarrow> \<not> codes_ok i \<Longrightarrow> commit_all a m h = None"
  by (induction a m h rule: commit_all.induct)
    (auto simp: commit_one_def codes_ok_def commit_sets_error split: option.splits)

lemma clear_info_empty: "set (useInfo (clear_info i)) = {}" "info_offsets (clear_info i) k = {}"
proof -
  show "set (useInfo (clear_info i)) = {}" by (simp add: clear_info_def)
  have "set_offsets (map (\<lambda>(c, _). (c, [])) m) k = {}" for m
    by (induction m) (auto split: if_splits)
  then show "info_offsets (clear_info i) k = {}" by (simp add: clear_info_def info_offsets_def)
qed

lemma pending_cleared: "pending (map (\<lambda>(s, i). (s, clear_info i)) m) s k = {}"
  "pending_use (map (\<lambda>(s, i). (s, clear_info i)) m) s = {}"
  by (induction m) (auto simp: pending_Cons clear_info_empty pending_absent split: if_splits)

lemma pending_erase_shared:
  "pending (erase_shared affil skip m) s k
     = (if s \<in> set affil \<and> s \<in> set skip then {} else pending m s k)"
  "pending_use (erase_shared affil skip m) s
     = (if s \<in> set affil \<and> s \<in> set skip then {} else pending_use m s)"
  by (simp_all add: pending_def pending_use_def map_of_erase_shared)

lemma commitStateInfo_effect:
  assumes "parents_ok h" and "state_ok h skip" and "state_ok h (affiliatedState (allocs h a))"
    and "infos_ok (StateCommitInfoMap (allocs h a))"
  shows "\<exists>modified h' skipV affV.
     commitStateInfo a skip h = Some (modified, h')
     \<and> state_chain (states h) skip = Some skipV
     \<and> state_chain (states h) (affiliatedState (allocs h a)) = Some affV
     \<and> (\<forall>s k b. offsets_of (spoor (states h' s) k) b
          = offsets_of (spoor (states h s) k) b
            \<union> (if b = a \<and> \<not> (s \<in> set affV \<and> s \<in> set skipV)
               then pending (StateCommitInfoMap (allocs h a)) s k else {}))
     \<and> (\<forall>s b. offsets_of (allocationInfo (states h' s)) b
          = offsets_of (allocationInfo (states h s)) b
            \<union> (if b = a \<and> \<not> (s \<in> set affV \<and> s \<in> set skipV)
               then pending_use (StateCommitInfoMap (allocs h a)) s else {}))
     \<and> (\<forall>s k. pending (StateCommitInfoMap (allocs h' a)) s k = {})
     \<and> (\<forall>b. b \<noteq> a \<longrightarrow> allocs h' b = allocs h b)"
proof -
  obtain skipV affV where v: "state_chain (states h) skip = Some skipV"
    "state_chain (states h) (affiliatedState (allocs h a)) = Some affV"
    using state_chain_returns [OF assms(1)] assms(2,3) by metis
  let ?m = "erase_shared affV skipV (StateCommitInfoMap (allocs h a))"
  obtain h1 where h1: "commit_all a ?m h = Some h1" "allocs h1 = allocs h"
    "\<And>s b. offsets_of (allocationInfo (states h1 s)) b
       = offsets_of (allocationInfo (states h s)) b \<union> (if b = a then pending_use ?m s else {})"
    "\<And>s k b. offsets_of (spoor (states h1 s) k) b
       = offsets_of (spoor (states h s) k) b \<union> (if b = a then pending ?m s k else {})"
    using commit_all_spec [OF infos_ok_erase_shared [OF assms(4), of affV skipV], of a h] by metis
  then show ?thesis
    by (auto simp: commitStateInfo_def v Let_def pending_cleared pending_erase_shared)
qed

lemma commit_sets_frame: "commit_sets a m st = Some st' \<Longrightarrow> parent st' = parent st"
  by (induction a m st rule: commit_sets.induct) (auto split: option.splits)

lemma commit_all_frame:
  "commit_all a m h = Some h' \<Longrightarrow>
   allocs h' = allocs h \<and> next_aref h' = next_aref h \<and> next_sref h' = next_sref h
   \<and> originToAllocMap h' = originToAllocMap h \<and> (\<forall>s. parent (states h' s) = parent (states h s))"
proof (induction a m h rule: commit_all.induct)
  case (2 a s i rest h)
  then obtain st where st: "commit_one a i (states h s) = Some st"
    and r: "commit_all a rest (upd_state s (\<lambda>_. st) h) = Some h'" by (auto split: option.splits)
  have "parent st = parent (states h s)"
    using st commit_sets_frame by (fastforce simp: commit_one_def)
  with "2.IH" [OF st r] show ?case by auto
qed simp

lemma infos_ok_cleared: "infos_ok m \<Longrightarrow> infos_ok (map (\<lambda>(s, i). (s, clear_info i)) m)"
proof -
  have "map fst (map (\<lambda>(s, i). (s, clear_info i)) m) = map fst m" by (induction m) auto
  moreover have "codes_ok i \<Longrightarrow> codes_ok (clear_info i)" for i
    by (auto simp: codes_ok_def clear_info_def)
  ultimately show "infos_ok m \<Longrightarrow> ?thesis"
    unfolding infos_ok_def by (auto simp: list_all_iff simp del: map_map map_eq_conv)
qed

text \<open>What committing keeps of the heap.\<close>

lemma commitStateInfo_frame:
  assumes "commitStateInfo a skip h = Some (m, h')"
  shows "next_aref h' = next_aref h \<and> next_sref h' = next_sref h
    \<and> originToAllocMap h' = originToAllocMap h \<and> (\<forall>s. parent (states h' s) = parent (states h s))
    \<and> (\<forall>b. affiliatedState (allocs h' b) = affiliatedState (allocs h b)
          \<and> len (allocs h' b) = len (allocs h b) \<and> pointer (allocs h' b) = pointer (allocs h b)
          \<and> (b \<noteq> a \<longrightarrow> allocs h' b = allocs h b))
    \<and> (infos_ok (StateCommitInfoMap (allocs h a)) \<longrightarrow> infos_ok (StateCommitInfoMap (allocs h' a)))"
proof -
  obtain skipV affV h1 where
    1: "commit_all a (erase_shared affV skipV (StateCommitInfoMap (allocs h a))) h = Some h1"
    and h': "h' = upd_alloc a (\<lambda>al. al\<lparr>StateCommitInfoMap := map (\<lambda>(s, i). (s, clear_info i))
        (erase_shared affV skipV (StateCommitInfoMap (allocs h a)))\<rparr>) h1"
    using assms by (auto simp: commitStateInfo_def Let_def split: option.splits)
  show ?thesis
    using commit_all_frame [OF 1] unfolding h'
    by (auto simp: infos_ok_erase_shared infos_ok_cleared)
qed

section \<open>Properties\<close>

definition spoor_ok :: "State \<Rightarrow> bool" where
  "spoor_ok st \<longleftrightarrow> (\<forall>k. distinct_keys (spoor st k) \<and> distinct_keys (final_spoor st k))"

definition spoor_at :: "State \<Rightarrow> spoor_set \<Rightarrow> aref \<Rightarrow> u64 set" where
  "spoor_at st k a = offsets_of (spoor st k) a"

text \<open>
  \<open>State::CommitState\<close> moves every offset of the seven working sets into the final set of the same
  name, adds nothing else, and leaves the working sets and the three pointer maps empty.
\<close>

theorem CommitState_conserves:
  assumes "spoor_ok st"
  shows "spoor (CommitState st) k = []
    \<and> offsets_of (final_spoor (CommitState st) k) a
        = offsets_of (final_spoor st k) a \<union> offsets_of (spoor st k) a
    \<and> statePtrMap (CommitState st) = Map.empty \<and> statePtrIterMap (CommitState st) = Map.empty
    \<and> currentPtrIterUpgrades (CommitState st) = {}
    \<and> spoor_ok (CommitState st)"
proof -
  have "spoor_ok (CommitState st)"
    using assms by (simp add: spoor_ok_def CommitState_def CommitAndCleanSet_def
        distinct_keys_fold_commit)
  then show ?thesis
    using assms by (simp add: CommitState_def offsets_of_CommitAndCleanSet spoor_ok_def)
      (simp add: CommitAndCleanSet_def)
qed

theorem CommitState_conserves_witness:
  "offsets_of (final_spoor (CommitState
      ((new_State ''f'' 1 0 0 None)\<lparr>spoor := (\<lambda>_. [])(IO := [(0, [4, 8])]),
         final_spoor := (\<lambda>_. [])(IO := [(0, [12])])\<rparr>)) IO) 0 = {4, 8, 12}"
  using CommitState_conserves [of "(new_State ''f'' 1 0 0 None)\<lparr>spoor := (\<lambda>_. [])(IO := [(0, [4, 8])]),
         final_spoor := (\<lambda>_. [])(IO := [(0, [12])])\<rparr>" IO 0]
  by (auto simp: spoor_ok_def new_State_def InitSpoorSets_def ComputationalSpoorTracking_def offsets_of_def)

lemma spoor_clean_spoor:
  "spoor_ok st \<Longrightarrow> offsets_of (spoor (clean_spoor d u st) k) a
     = offsets_of (spoor st k) a - (if k = d then offsets_of (spoor st u) a else {})"
  by (simp add: clean_spoor_def spoor_ok_def offsets_of_CleanState)

lemma spoor_ok_clean_spoor: "spoor_ok st \<Longrightarrow> spoor_ok (clean_spoor d u st)"
  by (simp add: clean_spoor_def spoor_ok_def distinct_keys_CleanState)

lemmas clean_rules = spoor_clean_spoor spoor_ok_clean_spoor

text \<open>
  The cleaning in \<open>State::ReportState\<close> makes the three IO classes pairwise disjoint and the three output
  classes pairwise disjoint, with Transfer taking precedence over Cloneable and Cloneable over the plain
  class. No offset of an IO class or of an output class is lost by it, and Input loses exactly the offsets that
  stay in plain IO.
\<close>

theorem ReportState_clean_partitions:
  assumes "spoor_ok st"
  shows "spoor_at (ReportState_clean st) TransferIO a = spoor_at st TransferIO a \<and> spoor_at (ReportState_clean st) CloneableIO a = spoor_at st CloneableIO a - spoor_at st TransferIO a
     \<and> spoor_at (ReportState_clean st) IO a = spoor_at st IO a - spoor_at st CloneableIO a - spoor_at st TransferIO a \<and> spoor_at (ReportState_clean st) Input a = spoor_at st Input a - spoor_at (ReportState_clean st) IO a
     \<and> spoor_at (ReportState_clean st) TransferOutput a = spoor_at st TransferOutput a
     \<and> spoor_at (ReportState_clean st) CloneableOutput a = spoor_at st CloneableOutput a - spoor_at st TransferOutput a
     \<and> spoor_at (ReportState_clean st) Output a = spoor_at st Output a - spoor_at st CloneableOutput a - spoor_at st TransferOutput a
     \<and> spoor_at (ReportState_clean st) IO a \<union> spoor_at (ReportState_clean st) CloneableIO a \<union> spoor_at (ReportState_clean st) TransferIO a = spoor_at st IO a \<union> spoor_at st CloneableIO a \<union> spoor_at st TransferIO a
     \<and> spoor_at (ReportState_clean st) Output a \<union> spoor_at (ReportState_clean st) CloneableOutput a \<union> spoor_at (ReportState_clean st) TransferOutput a
         = spoor_at st Output a \<union> spoor_at st CloneableOutput a \<union> spoor_at st TransferOutput a"
  unfolding spoor_at_def ReportState_clean_def using assms(1) by (auto simp: clean_rules)

theorem ReportState_clean_partitions_witness:
  "offsets_of (spoor (ReportState_clean ((new_State ''f'' 1 0 0 None)\<lparr>spoor :=
      (\<lambda>_. [])(IO := [(0, [4, 8])], TransferIO := [(0, [8])])\<rparr>)) IO) 0 = {4}"
  using ReportState_clean_partitions [of "(new_State ''f'' 1 0 0 None)\<lparr>spoor :=
      (\<lambda>_. [])(IO := [(0, [4, 8])], TransferIO := [(0, [8])])\<rparr>" 0]
  by (auto simp: spoor_at_def spoor_ok_def new_State_def InitSpoorSets_def ComputationalSpoorTracking_def offsets_of_def)

text \<open>
  After \<open>CommitState\<close> the cleaning in \<open>ReportState\<close> changes nothing: it runs on the working sets,
  which the commit has emptied, and never on the final sets. \<open>ReportStatistics\<close> commits every state before it
  reports, so a reported final set is not cleaned.
\<close>

theorem ReportState_after_commit_no_clean:
  "ReportState_clean (CommitState st) = CommitState st"
proof -
  have "clean_spoor d u (CommitState st) = CommitState st" for d u
    by (simp add: clean_spoor_def CommitState_def CommitAndCleanSet_def fun_upd_def if_distrib
        cong: if_cong)
  then show ?thesis by (simp add: ReportState_clean_def)
qed

text \<open>
  C6: \<open>Allocation::commitStateInfo\<close> returns, and hands every offset pending for a state to the set of that
  state named by its code, except that states that are ancestors both of the allocation's own state and of the
  skipped state receive nothing. Nothing else is added to any state, and nothing stays pending.
\<close>

theorem commitStateInfo_spec:
  assumes "parents_ok h" and "state_ok h skip" and "state_ok h (affiliatedState (allocs h a))"
    and "infos_ok (StateCommitInfoMap (allocs h a))"
  shows "\<exists>modified h' skipV affV.
     commitStateInfo a skip h = Some (modified, h')
     \<and> state_chain (states h) skip = Some skipV
     \<and> state_chain (states h) (affiliatedState (allocs h a)) = Some affV
     \<and> (\<forall>s k b. offsets_of (spoor (states h' s) k) b
          = offsets_of (spoor (states h s) k) b
            \<union> (if b = a \<and> \<not> (s \<in> set affV \<and> s \<in> set skipV)
               then pending (StateCommitInfoMap (allocs h a)) s k else {}))
     \<and> (\<forall>s b. offsets_of (allocationInfo (states h' s)) b
          = offsets_of (allocationInfo (states h s)) b
            \<union> (if b = a \<and> \<not> (s \<in> set affV \<and> s \<in> set skipV)
               then pending_use (StateCommitInfoMap (allocs h a)) s else {}))
     \<and> (\<forall>s k. pending (StateCommitInfoMap (allocs h' a)) s k = {})
     \<and> (\<forall>b. b \<noteq> a \<longrightarrow> allocs h' b = allocs h b)"
  using commitStateInfo_effect [OF assms] .

definition sample_store :: "nat \<Rightarrow> store" where
  "sample_store code =
     empty_store\<lparr>next_sref := 1, next_aref := 1,
       allocs := (\<lambda>_. (new_Allocation 64 16 1)\<lparr>affiliatedState := None,
         StateCommitInfoMap := [(0, \<lparr>useInfo = [7], stateSetToOffsetMap = [(code, [4])],
                                    regionBasedOffsets = False\<rparr>)]\<rparr>)\<rparr>"

theorem commitStateInfo_spec_witness:
  "\<exists>modified h'. commitStateInfo 0 (Some 0) (sample_store 8) = Some (modified, h')
     \<and> offsets_of (spoor (states h' 0) IO) 0 = {4}"
  using commitStateInfo_spec [of "sample_store 8" "Some 0" 0]
  by (fastforce simp: sample_store_def empty_store_def parents_ok_def state_ok_def new_State_def
      InitSpoorSets_def ComputationalSpoorTracking_def new_Allocation_def infos_ok_def codes_ok_def spoor_of_code_def opcode_def
      pending_def info_offsets_def)

text \<open>
  \<open>Allocation::commitStateInfo\<close> has no result when a pending entry of a state that is not skipped has a set
  code outside the seven access classes: the code then dereferences a null set pointer.
\<close>

theorem commitStateInfo_bad_code:
  assumes "state_chain (states h) skip = Some skipV"
    and "state_chain (states h) (affiliatedState (allocs h a)) = Some affV"
    and "map_of (StateCommitInfoMap (allocs h a)) s = Some i" and "\<not> codes_ok i"
    and "\<not> (s \<in> set affV \<and> s \<in> set skipV)"
  shows "commitStateInfo a skip h = None"
proof -
  have "map_of (erase_shared affV skipV (StateCommitInfoMap (allocs h a))) s = Some i"
    using assms(3,5) by (auto simp: map_of_erase_shared)
  from commit_all_error [OF map_of_SomeD [OF this] assms(4)] show ?thesis
    by (simp add: commitStateInfo_def assms(1,2) Let_def)
qed

theorem commitStateInfo_bad_code_witness:
  "commitStateInfo 0 None (sample_store 5) = None"
  using commitStateInfo_bad_code [of "sample_store 5" None "[]" 0 "[]" 0
      "\<lparr>useInfo = [7], stateSetToOffsetMap = [(5, [4])], regionBasedOffsets = False\<rparr>"]
  by (simp add: sample_store_def empty_store_def new_Allocation_def codes_ok_def spoor_of_code_def
      opcode_def)

end
