(* ===== verification/Allocation_Table.thy ===== *)
theory Allocation_Table
  imports State_Commit
begin

text \<open>
  Class \<open>AllocationTable\<close> (\<open>AllocationTable.hpp\<close>, \<open>AllocationTable.cpp\<close>): an ordered map from block
  addresses to allocations, a hash map for the blocks whose length has a mask, the lookup of the block a
  pointer points into, merging of two tables, and the graph of pointers between blocks with its cycles.

  Parameters of the definitions stand for code outside the runtime: \<open>shift_of\<close> is the truncated
  single-precision \<open>log2\<close>, \<open>mem\<close> the memory of the profiled program (an escape is an address, \<open>mem\<close> its
  content), \<open>scc\<close> the component vector \<open>boost::strong_components\<close> computes.
\<close>

unbundle bit_operations_syntax

section \<open>Data\<close>

record SmartPointerCycle =
  cycle_allocs :: "aref list"
  cycle_states :: "sref list"
  weakPoint :: "aref option"

text \<open>\<open>boost::adjacency_list\<close> with vector storage: parallel edges are kept.\<close>

record graph =
  vertex_entries :: "aref list"
  graph_edges :: "(nat \<times> nat \<times> int) list"

record AllocationTable =
  sortedAllocationTable :: "(u64 \<times> aref) list"
  hashAllocationTable :: "(u64 \<times> aref) list"
  allocConnections :: graph
  masks :: "u64 list"
  maskLengths :: "u64 list"
  cycles :: "SmartPointerCycle list"

definition empty_graph :: graph where
  "empty_graph = \<lparr>vertex_entries = [], graph_edges = []\<rparr>"

definition new_AllocationTable :: AllocationTable where
  "new_AllocationTable =
     \<lparr>sortedAllocationTable = [], hashAllocationTable = [], allocConnections = empty_graph,
      masks = [], maskLengths = [], cycles = []\<rparr>"

section \<open>Masks\<close>

definition mask_for_shift :: "nat \<Rightarrow> u64" where
  "mask_for_shift shiftInt = push_bit shiftInt (drop_bit shiftInt (- 1))"

definition AddMaskForLength :: "(u64 \<Rightarrow> nat) \<Rightarrow> u64 \<Rightarrow> AllocationTable \<Rightarrow> AllocationTable" where
  "AddMaskForLength shift_of n t =
     t\<lparr>masks := us_insert (mask_for_shift (shift_of n)) (masks t),
       maskLengths := us_insert n (maskLengths t)\<rparr>"

definition AllocationTable_mask :: "(u64 \<Rightarrow> nat) \<Rightarrow> u64 \<Rightarrow> AllocationTable" where
  "AllocationTable_mask shift_of n = AddMaskForLength shift_of n new_AllocationTable"

definition AllocationTable_masks :: "(u64 \<Rightarrow> nat) \<Rightarrow> u64 list \<Rightarrow> AllocationTable" where
  "AllocationTable_masks shift_of ns = fold (AddMaskForLength shift_of) ns new_AllocationTable"

definition MaskKey :: "u64 \<Rightarrow> u64 \<Rightarrow> u64" where
  "MaskKey ptr m = ptr AND m"

section \<open>Lookup, insertion, deletion, merging\<close>

fun probe_masks :: "(u64 \<times> aref) list \<Rightarrow> u64 \<Rightarrow> u64 list \<Rightarrow> aref option" where
  "probe_masks tab key [] = None"
| "probe_masks tab key (m # ms) =
     (case map_of tab (MaskKey key m) of Some a \<Rightarrow> Some a | None \<Rightarrow> probe_masks tab key ms)"

text \<open>
  The entries below \<open>lower_bound(key)\<close> and those from it on; the predecessor of the latter is the last of
  the former.
\<close>

definition findSorted :: "(u64 \<times> aref) list \<Rightarrow> store \<Rightarrow> u64 \<Rightarrow> aref option" where
  "findSorted tab h key =
     (let below = takeWhile (\<lambda>e. fst e < key) tab;
          rest = dropWhile (\<lambda>e. fst e < key) tab
      in case rest of
           [] \<Rightarrow> None
         | (blockStart, a) # _ \<Rightarrow>
             if blockStart = key then Some a
             else if below \<noteq> [] then
               (case last below of (prevStart, prev) \<Rightarrow>
                  if doesItAlias prevStart (len (allocs h prev)) key = - 1 then None else Some prev)
             else None)"

definition findAllocation :: "AllocationTable \<Rightarrow> store \<Rightarrow> u64 \<Rightarrow> aref option" where
  "findAllocation t h key =
     (case probe_masks (hashAllocationTable t) key (masks t) of
        Some a \<Rightarrow> Some a
      | None \<Rightarrow> findSorted (sortedAllocationTable t) h key)"

definition InsertAllocation :: "u64 \<Rightarrow> aref \<Rightarrow> store \<Rightarrow> AllocationTable \<Rightarrow> AllocationTable" where
  "InsertAllocation key entry h t =
     (if len (allocs h entry) \<in> set (maskLengths t)
      then t\<lparr>hashAllocationTable := um_insert key entry (hashAllocationTable t)\<rparr>
      else t\<lparr>sortedAllocationTable := om_insert key entry (sortedAllocationTable t)\<rparr>)"

definition DeleteAllocation :: "u64 \<Rightarrow> AllocationTable \<Rightarrow> AllocationTable" where
  "DeleteAllocation key t =
     (if map_of (hashAllocationTable t) key \<noteq> None
      then t\<lparr>hashAllocationTable := um_erase key (hashAllocationTable t)\<rparr>
      else t\<lparr>sortedAllocationTable := om_erase key (sortedAllocationTable t)\<rparr>)"

definition Clear :: "AllocationTable \<Rightarrow> AllocationTable" where
  "Clear t = t\<lparr>hashAllocationTable := [], sortedAllocationTable := []\<rparr>"

definition MergeTable :: "AllocationTable \<Rightarrow> bool \<Rightarrow> AllocationTable \<Rightarrow> AllocationTable" where
  "MergeTable tableToMerge overwrite t =
     (let t1 = t\<lparr>masks := us_insert_all (masks tableToMerge) (masks t)\<rparr> in
      if overwrite then
        t1\<lparr>hashAllocationTable :=
             fold (\<lambda>(k, v). um_assign k v) (hashAllocationTable tableToMerge) (hashAllocationTable t1),
           sortedAllocationTable :=
             fold (\<lambda>(k, v). om_assign k v) (sortedAllocationTable tableToMerge)
               (sortedAllocationTable t1)\<rparr>
      else
        t1\<lparr>hashAllocationTable :=
             fold (\<lambda>(k, v). um_insert k v) (hashAllocationTable tableToMerge) (hashAllocationTable t1),
           sortedAllocationTable :=
             fold (\<lambda>(k, v). om_insert k v) (sortedAllocationTable tableToMerge)
               (sortedAllocationTable t1)\<rparr>)"

section \<open>Operations over all allocations\<close>

fun commit_each :: "(u64 \<times> aref) list \<Rightarrow> store \<Rightarrow> store option" where
  "commit_each [] h = Some h"
| "commit_each ((_, a) # es) h =
     (case commitStateInfo a None h of None \<Rightarrow> None | Some (_, h1) \<Rightarrow> commit_each es h1)"

definition CommitStateInfoForAllocations :: "AllocationTable \<Rightarrow> store \<Rightarrow> store option" where
  "CommitStateInfoForAllocations t h =
     (case commit_each (hashAllocationTable t) h of
        None \<Rightarrow> None
      | Some h1 \<Rightarrow> commit_each (sortedAllocationTable t) h1)"

definition GetMemFootprint :: "AllocationTable \<Rightarrow> store \<Rightarrow> u64" where
  "GetMemFootprint t h =
     fold (\<lambda>(_, a) n. n + len (allocs h a)) (hashAllocationTable t)
       (fold (\<lambda>(_, a) n. n + len (allocs h a)) (sortedAllocationTable t) 0)"

section \<open>The connection graph\<close>

definition add_vertex :: "aref \<Rightarrow> graph \<Rightarrow> nat \<times> graph" where
  "add_vertex a g = (length (vertex_entries g), g\<lparr>vertex_entries := vertex_entries g @ [a]\<rparr>)"

definition add_edge :: "nat \<Rightarrow> nat \<Rightarrow> int \<Rightarrow> graph \<Rightarrow> graph" where
  "add_edge u v w g = g\<lparr>graph_edges := graph_edges g @ [(u, v, w)]\<rparr>"

fun add_vertices :: "(u64 \<times> aref) list \<Rightarrow> graph \<times> store \<Rightarrow> graph \<times> store" where
  "add_vertices [] gh = gh"
| "add_vertices ((_, a) # es) (g, h) =
     (case add_vertex a g of (v, g1) \<Rightarrow>
        add_vertices es (g1, upd_alloc a (\<lambda>al. al\<lparr>connectionVertex := v\<rparr>) h))"

definition add_escape_edge ::
  "AllocationTable \<Rightarrow> (u64 \<Rightarrow> u64) \<Rightarrow> store \<Rightarrow> aref \<Rightarrow> u64 \<Rightarrow> graph \<Rightarrow> graph" where
  "add_escape_edge t mem h a candidateEscape g =
     (if doesItAlias (pointer (allocs h a)) (len (allocs h a)) (mem candidateEscape) = - 1 then g
      else case findAllocation t h candidateEscape of
             None \<Rightarrow> g
           | Some p \<Rightarrow>
               add_edge (connectionVertex (allocs h p)) (connectionVertex (allocs h a)) 1 g)"

definition add_alloc_edges ::
  "AllocationTable \<Rightarrow> (u64 \<Rightarrow> u64) \<Rightarrow> store \<Rightarrow> u64 \<times> aref \<Rightarrow> graph \<Rightarrow> graph" where
  "add_alloc_edges t mem h e g =
     fold (add_escape_edge t mem h (snd e)) (allocToEscapeMap (allocs h (snd e))) g"

definition GenerateConnectionGraph ::
  "(u64 \<Rightarrow> u64) \<Rightarrow> AllocationTable \<Rightarrow> store \<Rightarrow> AllocationTable \<times> store" where
  "GenerateConnectionGraph mem t h =
     (case add_vertices (hashAllocationTable t)
             (add_vertices (sortedAllocationTable t) (empty_graph, h)) of
        (g, h1) \<Rightarrow>
          (t\<lparr>allocConnections :=
               fold (add_alloc_edges t mem h1) (hashAllocationTable t)
                 (fold (add_alloc_edges t mem h1) (sortedAllocationTable t) g)\<rparr>, h1))"

section \<open>Cycles\<close>

definition scc_push :: "int \<times> nat \<Rightarrow> (int \<times> nat list) list \<Rightarrow> (int \<times> nat list) list" where
  "scc_push cv m = (case cv of (c, v) \<Rightarrow> um_modify c (\<lambda>vs. vs @ [v]) (um_insert c [] m))"

definition sccToVertexMap :: "int list \<Rightarrow> (int \<times> nat list) list" where
  "sccToVertexMap component = fold scc_push (zip component [0..<length component]) []"

definition oldest_step :: "store \<Rightarrow> aref \<Rightarrow> aref option \<times> u64 \<Rightarrow> aref option \<times> u64" where
  "oldest_step h a acc =
     (case acc of (oldest, oldVal) \<Rightarrow>
        if freshness (allocs h a) < oldVal then (Some a, freshness (allocs h a)) else acc)"

definition oldest_of :: "store \<Rightarrow> aref list \<Rightarrow> aref option" where
  "oldest_of h vs = fst (fold (oldest_step h) vs (None, - 1))"

definition states_touching :: "store \<Rightarrow> aref list \<Rightarrow> sref list \<Rightarrow> sref list" where
  "states_touching h cyc ss =
     fold (\<lambda>s. fold (\<lambda>a acc. if a \<in> set (AllocsAllocatedInState (states h s)) then us_insert s acc else acc)
                 cyc) ss []"

definition make_cycle :: "store \<Rightarrow> sref list \<Rightarrow> aref list \<Rightarrow> SmartPointerCycle list" where
  "make_cycle h ss cyc =
     (let sts = states_touching h cyc ss in
      if sts = [] then []
      else [\<lparr>cycle_allocs = cyc, cycle_states = sts, weakPoint = oldest_of h cyc\<rparr>])"

definition scc_allocs :: "graph \<Rightarrow> (int \<times> nat list) list \<Rightarrow> aref list list" where
  "scc_allocs g m =
     map (\<lambda>(_, vs). map ((!) (vertex_entries g)) vs) (filter (\<lambda>(_, vs). length vs > 1) m)"

definition FindCyclesInConnectionGraph ::
  "(graph \<Rightarrow> int list) \<Rightarrow> store \<Rightarrow> AllocationTable \<Rightarrow> AllocationTable" where
  "FindCyclesInConnectionGraph scc h t =
     (let g = allocConnections t in
      t\<lparr>cycles := concat (map (make_cycle h (map snd (stateMap h)))
                            (scc_allocs g (sccToVertexMap (scc g))))\<rparr>)"

text \<open>
  With a filter, an unknown state id ends the search at the first component with two vertices,
  before any cycle is recorded.
\<close>

definition FindCyclesInConnectionGraph_filter ::
  "(graph \<Rightarrow> int list) \<Rightarrow> u64 \<Rightarrow> store \<Rightarrow> AllocationTable \<Rightarrow> AllocationTable" where
  "FindCyclesInConnectionGraph_filter scc stateFilter h t =
     (let g = allocConnections t in
      case map_of (stateMap h) stateFilter of
        None \<Rightarrow> t\<lparr>cycles := []\<rparr>
      | Some s \<Rightarrow>
          t\<lparr>cycles := concat (map (make_cycle h [s]) (scc_allocs g (sccToVertexMap (scc g))))\<rparr>)"

section \<open>Well-formed tables\<close>

definition block_len :: "store \<Rightarrow> u64 \<times> aref \<Rightarrow> u64" where
  "block_len h e = len (allocs h (snd e))"

definition holds_key :: "store \<Rightarrow> u64 \<Rightarrow> u64 \<times> aref \<Rightarrow> bool" where
  "holds_key h key e \<longleftrightarrow> fst e = key \<or> in_block (fst e) (block_len h e) key"

text \<open>Blocks in address order, none running past the address space or into the next one.\<close>

definition sorted_ok :: "store \<Rightarrow> (u64 \<times> aref) list \<Rightarrow> bool" where
  "sorted_ok h tab \<longleftrightarrow>
     list_all (\<lambda>e. block_fits (fst e) (block_len h e)) tab
     \<and> sorted_wrt (\<lambda>e f. fst e < fst f \<and> unat (fst e) + unat (block_len h e) \<le> unat (fst f)) tab"

lemma sorted_ok_ordered: "sorted_ok h tab \<Longrightarrow> ordered_keys tab"
  by (auto simp: sorted_ok_def sorted_wrt_map intro: sorted_wrt_mono_rel [rotated])

lemma not_alias_iff:
  "block_fits k n \<Longrightarrow> doesItAlias k n key \<noteq> - 1 \<longleftrightarrow> in_block k n key"
  by (simp add: doesItAlias_iff)

lemma below_unique:
  assumes ok: "sorted_ok h (below @ rest)"
    and ne: "below \<noteq> []" and e: "e \<in> set below" and holds: "in_block (fst e) (block_len h e) key"
    and lt: "fst (last below) < key"
  shows "e = last below"
proof (rule ccontr)
  assume ne_last: "e \<noteq> last below"
  obtain bs l where bs: "below = bs @ [l]" using ne by (metis rev_exhaust)
  with e ne_last have "e \<in> set bs" by auto
  with ok bs have "unat (fst e) + unat (block_len h e) \<le> unat (fst (last below))"
    by (auto simp: sorted_ok_def sorted_wrt_append)
  with holds lt show False by (simp add: in_block_def word_less_nat_alt)
qed

lemma rest_holds:
  assumes ok: "sorted_ok h (f # r)" and e: "e \<in> set (f # r)" and ge: "\<not> fst f < key"
    and holds: "holds_key h key e"
  shows "e = f \<and> fst f = key"
proof -
  have "e = f \<or> fst f < fst e" using ok e by (auto simp: sorted_ok_def)
  with ge holds show ?thesis
    by (auto simp: holds_key_def in_block_def word_less_nat_alt word_unat_eq_iff)
qed

lemma sorted_ok_append_right: "sorted_ok h (xs @ ys) \<Longrightarrow> sorted_ok h ys"
  by (auto simp: sorted_ok_def sorted_wrt_append)

text \<open>\<open>lower_bound\<close> cuts a table at the first entry that is not below the key.\<close>

definition cut_at :: "u64 \<Rightarrow> (u64 \<times> aref) list \<Rightarrow> (u64 \<times> aref) list \<Rightarrow> u64 \<times> aref \<Rightarrow> bool" where
  "cut_at key tab below e \<longleftrightarrow>
     (\<exists>r. tab = below @ e # r) \<and> (\<forall>f \<in> set below. fst f < key) \<and> \<not> fst e < key"

lemma cut_at_exists:
  assumes "e1 \<in> set tab" and "key \<le> fst e1"
  obtains below e where "cut_at key tab below e"
proof -
  have "dropWhile (\<lambda>e. fst e < key) tab \<noteq> []"
    using assms by (auto simp: dropWhile_eq_Nil_conv not_less)
  then obtain e r where "dropWhile (\<lambda>e. fst e < key) tab = e # r" by (meson neq_Nil_conv)
  then have "cut_at key tab (takeWhile (\<lambda>e. fst e < key) tab) e"
    unfolding cut_at_def
    by (metis (mono_tags, lifting) hd_dropWhile list.distinct(1) list.sel(1) set_takeWhileD
        takeWhile_dropWhile_id)
  then show ?thesis by (rule that)
qed

lemma findSorted_cut:
  assumes "cut_at key tab below e"
  shows "findSorted tab h key =
     (if fst e = key then Some (snd e)
      else if below \<noteq> [] \<and> doesItAlias (fst (last below)) (block_len h (last below)) key \<noteq> - 1
      then Some (snd (last below)) else None)"
proof -
  obtain r where tab: "tab = below @ e # r" using assms by (auto simp: cut_at_def)
  have "takeWhile (\<lambda>e. fst e < key) tab = below" "dropWhile (\<lambda>e. fst e < key) tab = e # r"
    using assms by (simp_all add: cut_at_def tab takeWhile_append2 dropWhile_append2)
  then show ?thesis by (auto simp: findSorted_def block_len_def split: prod.split)
qed

lemma holders_cut:
  assumes ok: "sorted_ok h tab" and cut: "cut_at key tab below e"
    and f: "f \<in> set tab" "holds_key h key f"
  shows "if fst e = key then f = e else below \<noteq> [] \<and> f = last below"
proof -
  obtain r where tab: "tab = below @ e # r" using cut by (auto simp: cut_at_def)
  have e: "\<not> fst e < key" and below: "\<And>f. f \<in> set below \<Longrightarrow> fst f < key"
    using cut by (auto simp: cut_at_def)
  show ?thesis
  proof (cases "f \<in> set below")
    case True
    then have ne: "below \<noteq> []" and blk: "in_block (fst f) (block_len h f) key"
      using f(2) below [OF True] by (auto simp: holds_key_def)
    have "unat (fst f) + unat (block_len h f) \<le> unat (fst e)"
      using ok True by (auto simp: tab sorted_ok_def sorted_wrt_append)
    then have "fst e \<noteq> key" using blk by (auto simp: in_block_def)
    moreover have "f = last below"
      using below_unique [OF _ ne True blk below [OF last_in_set [OF ne]]] ok tab by blast
    ultimately show ?thesis using ne by simp
  next
    case False
    then have "f \<in> set (e # r)" using f(1) tab by simp
    from rest_holds [OF sorted_ok_append_right this e f(2)] ok tab show ?thesis by auto
  qed
qed

lemma findSorted_iff:
  assumes ok: "sorted_ok h tab" and upper: "e1 \<in> set tab" "key \<le> fst e1"
  shows "findSorted tab h key = Some a \<longleftrightarrow> (\<exists>k. (k, a) \<in> set tab \<and> holds_key h key (k, a))"
proof -
  obtain below e where cut: "cut_at key tab below e" using cut_at_exists [OF upper] .
  then have tab: "e \<in> set tab" "set below \<subseteq> set tab" by (auto simp: cut_at_def)
  have "block_fits (fst f) (block_len h f)" if "f \<in> set tab" for f
    using ok that by (auto simp: sorted_ok_def list_all_iff)
  then have ali: "doesItAlias (fst f) (block_len h f) key \<noteq> - 1
      \<longleftrightarrow> in_block (fst f) (block_len h f) key" if "f \<in> set tab" for f
    using that not_alias_iff by blast
  have ali_last: "below \<noteq> [] \<Longrightarrow> doesItAlias (fst (last below)) (block_len h (last below)) key \<noteq> - 1
      \<longleftrightarrow> in_block (fst (last below)) (block_len h (last below)) key"
    using ali tab(2) last_in_set by blast
  show ?thesis
  proof
    assume "findSorted tab h key = Some a"
    then consider "fst e = key" "snd e = a"
      | "below \<noteq> []" "in_block (fst (last below)) (block_len h (last below)) key" "snd (last below) = a"
      using findSorted_cut [OF cut, of h] ali_last
      by (auto split: if_splits)
    then show "\<exists>k. (k, a) \<in> set tab \<and> holds_key h key (k, a)"
      by cases (use tab last_in_set in \<open>metis holds_key_def prod.collapse subsetD\<close>)+
  next
    assume "\<exists>k. (k, a) \<in> set tab \<and> holds_key h key (k, a)"
    then obtain f where f: "f \<in> set tab" "holds_key h key f" "snd f = a" by force
    from holders_cut [OF ok cut f(1,2)] f ali [OF f(1)] cut show "findSorted tab h key = Some a"
      using findSorted_cut [OF cut, of h]
      by (auto simp: holds_key_def cut_at_def split: if_splits)
  qed
qed

lemma findSorted_past_end:
  "(\<forall>e \<in> set tab. fst e < key) \<Longrightarrow> findSorted tab h key = None"
  by (simp add: findSorted_def Let_def dropWhile_eq_Nil_conv [THEN iffD2])

section \<open>Masked lookup\<close>

lemma AND_mask_for_shift: "x AND mask_for_shift n = push_bit n (drop_bit n x)"
  by (rule bit_word_eqI) (auto simp: mask_for_shift_def bit_simps)

lemma unat_AND_mask: "unat (x AND mask_for_shift n) = unat x div 2 ^ n * 2 ^ n"
proof -
  have "unat x div 2 ^ n * 2 ^ n < 2 ^ 64"
    using unat_u64_bound [of x] by (intro le_less_trans [OF div_times_less_eq_dividend]) simp
  moreover have "unat (push_bit n (drop_bit n x)) = push_bit n (drop_bit n (unat x)) mod 2 ^ 64"
    using unat_u64_bound [of x] by (simp add: unsigned_push_bit_eq unsigned_drop_bit_eq take_bit_eq_mod)
  ultimately show ?thesis
    by (simp add: AND_mask_for_shift push_bit_eq_mult [of n "_ :: nat"] drop_bit_eq_div [of n "_ :: nat"])
qed

lemma mask_in_block:
  assumes "n < 64" and "k AND mask_for_shift n = k"
  shows "x AND mask_for_shift n = k \<longleftrightarrow> in_block k (2 ^ n) x"
proof -
  have n: "unat (2 ^ n :: u64) = 2 ^ n" using assms(1) by (rule unat_u64_power)
  from unat_AND_mask [of k n] assms(2) obtain q where q: "unat k = q * 2 ^ n" by metis
  have "unat x div 2 ^ n = q \<longleftrightarrow> q * 2 ^ n \<le> unat x \<and> unat x < q * 2 ^ n + 2 ^ n"
    using div_nat_eqI [of "2 ^ n" q "unat x"] div_times_less_eq_dividend [of "unat x" "2 ^ n"]
      dividend_less_div_times [of "2 ^ n" "unat x"]
    by (auto simp: algebra_simps)
  then show ?thesis by (simp add: word_unat_eq_iff unat_AND_mask q in_block_def n)
qed

text \<open>
  At most one mask length \<open>2 ^ n\<close>, as in every table of the runtime (the global table has none): hashed
  blocks are aligned and have that length, keys are in one of the two maps only and no address lies in two blocks.
\<close>

definition hash_ok :: "nat \<Rightarrow> store \<Rightarrow> (u64 \<times> aref) list \<Rightarrow> bool" where
  "hash_ok n h tab \<longleftrightarrow> n < 64 \<and> distinct_keys tab
     \<and> list_all (\<lambda>e. fst e AND mask_for_shift n = fst e \<and> block_len h e = 2 ^ n) tab"

definition table_ok :: "nat \<Rightarrow> store \<Rightarrow> AllocationTable \<Rightarrow> bool" where
  "table_ok n h t \<longleftrightarrow>
     (masks t = [mask_for_shift n] \<or> masks t = [] \<and> hashAllocationTable t = [])
     \<and> hash_ok n h (hashAllocationTable t)
     \<and> sorted_ok h (sortedAllocationTable t)
     \<and> list_all (\<lambda>e. list_all (\<lambda>f. unat (fst e) + unat (block_len h e) \<le> unat (fst f)
                           \<or> unat (fst f) + unat (block_len h f) \<le> unat (fst e) \<and> fst e \<noteq> fst f)
                        (sortedAllocationTable t)) (hashAllocationTable t)"

definition entries :: "AllocationTable \<Rightarrow> (u64 \<times> aref) set" where
  "entries t = set (hashAllocationTable t) \<union> set (sortedAllocationTable t)"

lemma in_hash_holds:
  assumes "hash_ok n h tab" and "e \<in> set tab"
  shows "key AND mask_for_shift n = fst e \<longleftrightarrow> holds_key h key e"
proof -
  have e: "fst e AND mask_for_shift n = fst e" "block_len h e = 2 ^ n" "n < 64"
    using assms by (auto simp: hash_ok_def list_all_iff)
  show ?thesis using mask_in_block [OF e(3,1), of key] e(1,2) by (auto simp: holds_key_def)
qed

lemma probe_one_mask:
  assumes "hash_ok n h tab"
  shows "probe_masks tab key [mask_for_shift n] = Some a
     \<longleftrightarrow> (\<exists>k. (k, a) \<in> set tab \<and> holds_key h key (k, a))"
proof -
  have d: "distinct_keys tab" using assms by (simp add: hash_ok_def)
  have "probe_masks tab key [mask_for_shift n] = map_of tab (key AND mask_for_shift n)"
    by (simp add: MaskKey_def split: option.split)
  then show ?thesis using in_hash_holds [OF assms, of _ key] d by force
qed

lemma hash_excludes_sorted:
  assumes "table_ok n h t" and "e \<in> set (hashAllocationTable t)" and "f \<in> set (sortedAllocationTable t)"
    and "holds_key h key e"
  shows "\<not> holds_key h key f"
proof -
  have sep: "unat (fst e) + unat (block_len h e) \<le> unat (fst f)
       \<or> unat (fst f) + unat (block_len h f) \<le> unat (fst e) \<and> fst e \<noteq> fst f"
    using assms by (auto simp: table_ok_def list_all_iff)
  have "block_len h e = 2 ^ n" "n < 64"
    using assms by (auto simp: table_ok_def hash_ok_def list_all_iff)
  then have "0 < unat (block_len h e)" by (simp add: unat_u64_power)
  then have "in_block (fst e) (block_len h e) key"
    using assms(4) by (auto simp: holds_key_def in_block_def)
  with sep show ?thesis by (auto simp: holds_key_def in_block_def word_unat_eq_iff)
qed

text \<open>A block that the lookup of \<open>key\<close> can reach: hashed, or ordered while some ordered block starts at or above \<open>key\<close>.\<close>

definition reaches :: "AllocationTable \<Rightarrow> u64 \<Rightarrow> u64 \<times> aref \<Rightarrow> bool" where
  "reaches t key e \<longleftrightarrow> e \<in> set (hashAllocationTable t)
     \<or> e \<in> set (sortedAllocationTable t) \<and> (\<exists>e1 \<in> set (sortedAllocationTable t). key \<le> fst e1)"

lemma findSorted_exact:
  assumes "sorted_ok h tab"
  shows "findSorted tab h key = Some a
     \<longleftrightarrow> (\<exists>e1 \<in> set tab. key \<le> fst e1) \<and> (\<exists>k. (k, a) \<in> set tab \<and> holds_key h key (k, a))"
proof (cases "\<exists>e1 \<in> set tab. key \<le> fst e1")
  case True
  then show ?thesis using findSorted_iff [OF assms] by blast
next
  case False
  then show ?thesis using findSorted_past_end [of tab key h] by (auto simp: not_le)
qed

lemma findAllocation_exact:
  assumes ok: "table_ok n h t"
  shows "findAllocation t h key = Some a \<longleftrightarrow> (\<exists>k. reaches t key (k, a) \<and> holds_key h key (k, a))"
proof -
  have h: "hash_ok n h (hashAllocationTable t)" and srt: "sorted_ok h (sortedAllocationTable t)"
    using ok by (auto simp: table_ok_def)
  have probe: "probe_masks (hashAllocationTable t) key (masks t) = Some a
      \<longleftrightarrow> (\<exists>k. (k, a) \<in> set (hashAllocationTable t) \<and> holds_key h key (k, a))" for a
    using probe_one_mask [OF h, of key a] ok by (auto simp: table_ok_def)
  note found = findSorted_exact [OF srt, of key]
  show ?thesis
  proof (cases "probe_masks (hashAllocationTable t) key (masks t)")
    case None
    with probe have "\<not> (\<exists>k. (k, a) \<in> set (hashAllocationTable t) \<and> holds_key h key (k, a))" by simp
    then show ?thesis using None found by (auto simp: findAllocation_def reaches_def)
  next
    case (Some b)
    then obtain k where k: "(k, b) \<in> set (hashAllocationTable t)" "holds_key h key (k, b)"
      using probe by auto
    have "\<not> holds_key h key f" if "f \<in> set (sortedAllocationTable t)" for f
      using hash_excludes_sorted [OF ok k(1) that k(2)] .
    then show ?thesis using Some probe [of a] by (auto simp: findAllocation_def reaches_def)
  qed
qed

text \<open>
  C7: what the lookup of any pointer in a well-formed table returns: \<open>AllocationTable::findAllocation\<close> gives an allocation exactly
  when a block of it starts at the pointer or contains it and is hashed, or is ordered and some ordered block starts
  at or above the pointer. So the addresses inside the highest ordered block, but for its start, are not found.
\<close>

theorem findAllocation_iff:
  assumes "table_ok n h t"
  shows "findAllocation t h key = Some a \<longleftrightarrow>
    (\<exists>k. (fst (k, a) = key \<or> in_block k (len (allocs h a)) key) \<and>
       ((k, a) \<in> set (hashAllocationTable t)
        \<or> (k, a) \<in> set (sortedAllocationTable t) \<and> (\<exists>e1 \<in> set (sortedAllocationTable t). key \<le> fst e1)))"
  using findAllocation_exact [OF assms] by (simp add: reaches_def holds_key_def block_len_def conj_commute)

definition sample_table :: AllocationTable where
  "sample_table = new_AllocationTable\<lparr>
     sortedAllocationTable := [(100, 0), (200, 1)], hashAllocationTable := [(64, 2)],
     masks := [mask_for_shift 3], maskLengths := [8]\<rparr>"

definition sample_blocks :: store where
  "sample_blocks = empty_store\<lparr>next_aref := 3,
     allocs := (\<lambda>a. new_Allocation (if a = 0 then 100 else if a = 1 then 200 else 64)
                      (if a = 0 then 16 else if a = 1 then 4 else 8) (of_nat a))\<rparr>"

lemma sample_table_ok: "table_ok 3 sample_blocks sample_table"
  by (simp add: table_ok_def hash_ok_def sorted_ok_def sample_table_def sample_blocks_def block_len_def
      new_Allocation_def new_AllocationTable_def block_fits_def AND_mask_for_shift word_less_nat_alt)

theorem findAllocation_iff_witness:
  "findAllocation sample_table sample_blocks 110 = Some 0 \<and> findAllocation sample_table sample_blocks 202 \<noteq> Some 1"
  using findAllocation_iff [OF sample_table_ok, of 110 0] findAllocation_iff [OF sample_table_ok, of 202 1]
  by (simp add: in_block_def sample_table_def sample_blocks_def new_Allocation_def new_AllocationTable_def)

text \<open>
  A pointer above the start of every ordered block is never found among them, even when it lies inside
  the last block: \<open>lower_bound\<close> then returns the end of the map and \<open>findAllocation\<close> gives up before it
  looks at the preceding block. This is why \<open>texas_init\<close> registers an entry at the highest address, and a
  table without such an entry, as those of the worker shadows, misses its highest block.
\<close>

theorem findAllocation_misses_last_block:
  assumes "masks t = []" and "\<forall>e \<in> set (sortedAllocationTable t). fst e < key"
  shows "findAllocation t h key = None"
  using assms by (simp add: findAllocation_def findSorted_past_end)

theorem findAllocation_misses_last_block_witness:
  "in_block 200 (len (allocs sample_blocks 1)) 202
   \<and> findAllocation (sample_table\<lparr>masks := []\<rparr>) sample_blocks 202 = None"
  using findAllocation_misses_last_block [of "sample_table\<lparr>masks := []\<rparr>" 202 sample_blocks]
  by (simp add: in_block_def sample_table_def sample_blocks_def new_Allocation_def
      new_AllocationTable_def)

section \<open>Insertion, deletion and merging\<close>

text \<open>The table as one map: hashed entries take precedence, as in \<open>DeleteAllocation\<close>.\<close>

definition table_at :: "AllocationTable \<Rightarrow> u64 \<rightharpoonup> aref" where
  "table_at t = map_of (sortedAllocationTable t) ++ map_of (hashAllocationTable t)"

definition maps_ok :: "AllocationTable \<Rightarrow> bool" where
  "maps_ok t \<longleftrightarrow> ordered_keys (sortedAllocationTable t) \<and> distinct_keys (hashAllocationTable t)
     \<and> fst ` set (sortedAllocationTable t) \<inter> fst ` set (hashAllocationTable t) = {}"

lemma keys_um_insert: "fst ` set (um_insert k v m) = insert k (fst ` set m)"
  using map_of_eq_None_iff [of m k] by (auto simp: um_insert_def)

lemma keys_erase: "fst ` set (um_erase k m) = fst ` set m - {k}" "fst ` set (om_erase k m) = fst ` set m - {k}"
  by (auto simp: um_erase_def om_erase_def AList.delete_eq)

lemma InsertAllocation_effect:
  assumes "maps_ok t"
  shows "(table_at t key = None \<longrightarrow>
            table_at (InsertAllocation key a h t) = (table_at t)(key \<mapsto> a)
            \<and> maps_ok (InsertAllocation key a h t))
     \<and> (map_of (if len (allocs h a) \<in> set (maskLengths t) then hashAllocationTable t
                else sortedAllocationTable t) key \<noteq> None \<longrightarrow>
            table_at (InsertAllocation key a h t) = table_at t)"
proof (intro conjI impI)
  let ?t = "InsertAllocation key a h t"
  assume none: "table_at t key = None"
  then have fresh: "key \<notin> fst ` set (sortedAllocationTable t)" "key \<notin> fst ` set (hashAllocationTable t)"
    and miss: "map_of (sortedAllocationTable t) key = None" "map_of (hashAllocationTable t) key = None"
    by (simp_all add: table_at_def map_of_eq_None_iff)
  show "table_at ?t = (table_at t)(key \<mapsto> a)"
    using assms miss
    by (auto simp: InsertAllocation_def table_at_def maps_ok_def map_add_def fun_eq_iff
        split: option.split)
  show "maps_ok ?t" using assms fresh by (auto simp: InsertAllocation_def maps_ok_def keys_um_insert)
next
  assume "map_of (if len (allocs h a) \<in> set (maskLengths t) then hashAllocationTable t
                else sortedAllocationTable t) key \<noteq> None"
  with assms show "table_at (InsertAllocation key a h t) = table_at t"
    by (auto simp: InsertAllocation_def table_at_def maps_ok_def split: if_splits)
qed

text \<open>
  Inserting a block at an address that has none makes exactly that address map to the new allocation,
  whichever of the two maps it goes to, and keeps the table well formed. Inserting at an address whose block
  is in the same map changes nothing.
\<close>

theorem InsertAllocation_spec:
  assumes "maps_ok t"
  shows "(table_at t key = None \<longrightarrow>
            table_at (InsertAllocation key a h t) = (table_at t)(key \<mapsto> a)
            \<and> maps_ok (InsertAllocation key a h t))
     \<and> (map_of (if len (allocs h a) \<in> set (maskLengths t) then hashAllocationTable t
                else sortedAllocationTable t) key \<noteq> None \<longrightarrow>
            table_at (InsertAllocation key a h t) = table_at t)"
  using InsertAllocation_effect [OF assms] .

theorem InsertAllocation_spec_witness:
  "table_at (InsertAllocation 300 1 sample_blocks sample_table) 300 = Some 1"
  using InsertAllocation_spec [of sample_table 300 1 sample_blocks]
  by (simp add: maps_ok_def table_at_def sample_table_def new_AllocationTable_def word_less_nat_alt)

lemma DeleteAllocation_effect:
  assumes "maps_ok t"
  shows "table_at (DeleteAllocation key t) = (table_at t)(key := None) \<and> maps_ok (DeleteAllocation key t)"
proof -
  have "map_of (hashAllocationTable t) key \<noteq> None \<Longrightarrow> map_of (sortedAllocationTable t) key = None"
    using assms by (auto simp: maps_ok_def map_of_eq_None_iff)
  with assms show ?thesis
    by (auto simp: DeleteAllocation_def table_at_def maps_ok_def keys_erase map_add_def fun_eq_iff
        split: option.splits)
qed

text \<open>
  Deleting an address from a well-formed table removes its block and no other, and keeps the table well
  formed.
\<close>

theorem DeleteAllocation_spec:
  assumes "maps_ok t"
  shows "table_at (DeleteAllocation key t) = (table_at t)(key := None) \<and> maps_ok (DeleteAllocation key t)"
  using DeleteAllocation_effect [OF assms] .

theorem DeleteAllocation_spec_witness:
  "table_at (DeleteAllocation 64 sample_table) = [100 \<mapsto> 0, 200 \<mapsto> 1]"
  using DeleteAllocation_spec [of sample_table 64]
  by (simp add: maps_ok_def table_at_def sample_table_def new_AllocationTable_def word_less_nat_alt
      fun_eq_iff)

text \<open>
  \<open>AllocationTable::MergeTable\<close> takes the union of the masks and of each of the two maps; with
  \<open>overwrite\<close> the merged table's entries win, without it the receiver's do. The mask lengths are not merged.
\<close>

theorem MergeTable_spec:
  assumes "ordered_keys (sortedAllocationTable t)" and "distinct_keys (hashAllocationTable t)"
    and "ordered_keys (sortedAllocationTable r)" and "distinct_keys (hashAllocationTable r)"
  shows "map_of (hashAllocationTable (MergeTable r ov t)) =
       (if ov then map_of (hashAllocationTable t) ++ map_of (hashAllocationTable r)
        else map_of (hashAllocationTable r) ++ map_of (hashAllocationTable t))
    \<and> map_of (sortedAllocationTable (MergeTable r ov t)) =
       (if ov then map_of (sortedAllocationTable t) ++ map_of (sortedAllocationTable r)
        else map_of (sortedAllocationTable r) ++ map_of (sortedAllocationTable t))
    \<and> ordered_keys (sortedAllocationTable (MergeTable r ov t))
    \<and> distinct_keys (hashAllocationTable (MergeTable r ov t))
    \<and> set (masks (MergeTable r ov t)) = set (masks t) \<union> set (masks r)
    \<and> maskLengths (MergeTable r ov t) = maskLengths t"
  using assms ordered_keys_distinct [OF assms(3)]
  by (simp add: MergeTable_def Let_def um_merge om_merge um.invar_merge_assign um.invar_merge_insert
      om.invar_merge_assign om.invar_merge_insert)

theorem MergeTable_spec_witness:
  "map_of (hashAllocationTable (MergeTable sample_table True new_AllocationTable)) 64 = Some 2"
  using MergeTable_spec [of new_AllocationTable sample_table True]
  by (simp add: sample_table_def new_AllocationTable_def word_less_nat_alt)

section \<open>Registering a block keeps lookups correct\<close>

definition blocks_apart :: "store \<Rightarrow> u64 \<times> aref \<Rightarrow> u64 \<times> aref \<Rightarrow> bool" where
  "blocks_apart h e f \<longleftrightarrow> fst e \<noteq> fst f
     \<and> (unat (fst e) + unat (block_len h e) \<le> unat (fst f)
        \<or> unat (fst f) + unat (block_len h f) \<le> unat (fst e))"

lemma sorted_ok_Cons:
  "sorted_ok h (e # tab) \<longleftrightarrow> block_fits (fst e) (block_len h e) \<and> sorted_ok h tab
     \<and> (\<forall>f \<in> set tab. fst e < fst f \<and> unat (fst e) + unat (block_len h e) \<le> unat (fst f))"
  by (auto simp: sorted_ok_def)

lemma set_om_insert_subset: "set (om_insert k a tab) \<subseteq> insert (k, a) (set tab)"
  by (induction k a tab rule: om_insert.induct) auto

lemma set_om_insert_new: "k \<notin> fst ` set tab \<Longrightarrow> set (om_insert k a tab) = insert (k, a) (set tab)"
  by (induction k a tab rule: om_insert.induct) auto

lemma sorted_ok_insert:
  assumes "sorted_ok h tab" and "block_fits k (block_len h (k, a))"
    and "\<forall>e \<in> set tab. blocks_apart h (k, a) e"
  shows "sorted_ok h (om_insert k a tab)"
  using assms
proof (induction k a tab rule: om_insert.induct)
  case (1 k v)
  then show ?case by (simp add: sorted_ok_def)
next
  case (2 k v k' v' m)
  have apart: "blocks_apart h (k, v) (k', v')" and ok: "sorted_ok h m"
    and first: "\<forall>f \<in> set m. k' < fst f \<and> unat k' + unat (block_len h (k', v')) \<le> unat (fst f)"
    and fits: "block_fits k' (block_len h (k', v'))"
    using "2.prems" by (simp_all add: sorted_ok_Cons)
  show ?case
  proof (cases "k < k'")
    case True
    then have "unat k + unat (block_len h (k, v)) \<le> unat k'"
      using apart by (auto simp: blocks_apart_def word_less_nat_alt)
    moreover have "\<forall>f \<in> set m. k < fst f \<and> unat k' \<le> unat (fst f)"
      using True first by (auto simp: word_less_nat_alt)
    ultimately show ?thesis
      using True "2.prems"(1,2) by (auto simp: sorted_ok_Cons)
  next
    case False
    then have less: "k' < k" and gap: "unat k' + unat (block_len h (k', v')) \<le> unat k"
      using apart by (auto simp: blocks_apart_def word_less_nat_alt word_unat_eq_iff)
    have "sorted_ok h (om_insert k v m)" using 2 False less ok by auto
    moreover have "\<forall>f \<in> set (om_insert k v m). k' < fst f \<and> unat k' + unat (block_len h (k', v')) \<le> unat (fst f)"
      using set_om_insert_subset [of k v m] first less gap by auto
    ultimately show ?thesis using less fits by (auto simp: sorted_ok_Cons)
  qed
qed

text \<open>The lengths for which blocks go to the hash table are those of the masks.\<close>

definition lengths_ok :: "nat \<Rightarrow> AllocationTable \<Rightarrow> bool" where
  "lengths_ok n t \<longleftrightarrow> set (maskLengths t) = (if masks t = [] then {} else {2 ^ n})"

lemma InsertAllocation_entries:
  assumes "\<forall>e \<in> entries t. fst e \<noteq> k"
  shows "reaches (InsertAllocation k a h t) x e \<longleftrightarrow>
    (if e = (k, a) then len (allocs h a) \<in> set (maskLengths t) \<or> x \<le> k \<or> (\<exists>e1 \<in> set (sortedAllocationTable t). x \<le> fst e1)
     else reaches t x e \<or> e \<in> set (sortedAllocationTable t) \<and> len (allocs h a) \<notin> set (maskLengths t) \<and> x \<le> k)"
proof -
  have "k \<notin> fst ` set (sortedAllocationTable t)" "map_of (hashAllocationTable t) k = None"
    using assms by (auto simp: entries_def map_of_eq_None_iff)
  then have "set (om_insert k a (sortedAllocationTable t)) = insert (k, a) (set (sortedAllocationTable t))"
    "set (um_insert k a (hashAllocationTable t)) = insert (k, a) (set (hashAllocationTable t))"
    by (simp_all add: set_om_insert_new um_insert_def)
  moreover have "e = (k, a) \<Longrightarrow> e \<notin> entries t" using assms by auto
  ultimately show ?thesis by (auto simp: InsertAllocation_def reaches_def entries_def)
qed

lemma table_ok_insert:
  assumes ok: "table_ok n h t" and len: "lengths_ok n t" and fits: "block_fits k (len (allocs h a))"
    and apart: "\<forall>e \<in> entries t. blocks_apart h (k, a) e"
    and al: "len (allocs h a) \<in> set (maskLengths t) \<Longrightarrow> k AND mask_for_shift n = k"
  shows "table_ok n h (InsertAllocation k a h t)"
proof (cases "len (allocs h a) \<in> set (maskLengths t)")
  case True
  then have m: "masks t = [mask_for_shift n]" "block_len h (k, a) = 2 ^ n"
    using ok len by (auto simp: table_ok_def lengths_ok_def block_len_def split: if_splits)
  have "map_of (hashAllocationTable t) k = None"
    using apart by (force simp: entries_def blocks_apart_def map_of_eq_None_iff)
  then have um: "um_insert k a (hashAllocationTable t) = hashAllocationTable t @ [(k, a)]" by (simp add: um_insert_def)
  have "hash_ok n h (um_insert k a (hashAllocationTable t))"
    using ok al [OF True] m distinct_keys_um_insert [of "hashAllocationTable t" k a]
    by (auto simp: table_ok_def hash_ok_def um)
  then show ?thesis using ok True apart m
    by (auto simp: InsertAllocation_def table_ok_def um list_all_iff entries_def blocks_apart_def)
next
  case False
  have k: "k \<notin> fst ` set (sortedAllocationTable t)" using apart by (auto simp: entries_def blocks_apart_def)
  have "sorted_ok h (om_insert k a (sortedAllocationTable t))"
    using ok fits apart by (intro sorted_ok_insert) (auto simp: table_ok_def entries_def block_len_def)
  then show ?thesis using ok False apart
    by (auto simp: InsertAllocation_def table_ok_def list_all_iff entries_def blocks_apart_def set_om_insert_new [OF k])
qed

text \<open>
  C11: registering a block in a well-formed table that has the entry at the highest address, as \<open>texas_init\<close> puts it into the
  global table. When the block overlaps no registered one, does not run past the address space and is aligned if its
  length is that of the mask, every address of it resolves to it, every lookup of another address gives what it gave,
  and the table stays well formed.
\<close>

theorem InsertAllocation_then_find:
  assumes "table_ok n h t" and "lengths_ok n t" and top: "(- 1, m) \<in> set (sortedAllocationTable t)"
    and "block_fits k (len (allocs h a))" and apart: "\<forall>e \<in> entries t. blocks_apart h (k, a) e"
    and "len (allocs h a) \<in> set (maskLengths t) \<Longrightarrow> k AND mask_for_shift n = k"
  shows "table_ok n h (InsertAllocation k a h t)
    \<and> findAllocation (InsertAllocation k a h t) h x =
        (if x = k \<or> in_block k (len (allocs h a)) x then Some a else findAllocation t h x)"
proof -
  let ?t = "InsertAllocation k a h t"
  have ok: "table_ok n h ?t" using table_ok_insert [OF assms(1,2,4-6)] .
  have up: "\<exists>e1 \<in> set (sortedAllocationTable t). x \<le> fst e1" using top by force
  have ne: "\<forall>e \<in> entries t. fst e \<noteq> k" using apart by (metis blocks_apart_def fst_conv)
  have "e \<in> set (sortedAllocationTable t) \<Longrightarrow> reaches t x e" for e using up by (simp add: reaches_def)
  then have ent: "reaches ?t x e \<longleftrightarrow> e = (k, a) \<or> reaches t x e" for e
    using InsertAllocation_entries [OF ne, of a h x e] up by (cases "e = (k, a)") (simp, metis)
  have new: "findAllocation ?t h x = Some b \<longleftrightarrow>
      b = a \<and> holds_key h x (k, a) \<or> findAllocation t h x = Some b" for b
    using findAllocation_exact [OF ok, of x b] findAllocation_exact [OF assms(1), of x b] ent by auto
  have "findAllocation ?t h x = (if holds_key h x (k, a) then Some a else findAllocation t h x)"
    using new by (cases "findAllocation ?t h x"; cases "findAllocation t h x") auto
  then show ?thesis using ok by (auto simp: holds_key_def block_len_def)
qed

definition topped_table :: AllocationTable where
  "topped_table = sample_table\<lparr>sortedAllocationTable := [(100, 0), (200, 1), (- 1, 3)]\<rparr>"

definition topped_blocks :: store where
  "topped_blocks = sample_blocks\<lparr>allocs := (allocs sample_blocks)(3 := new_Allocation (- 1) 0 3, 4 := new_Allocation 120 24 4)\<rparr>"

theorem InsertAllocation_then_find_witness:
  "findAllocation (InsertAllocation 120 4 topped_blocks topped_table) topped_blocks 121 = Some 4
   \<and> findAllocation (InsertAllocation 120 4 topped_blocks topped_table) topped_blocks 203 = findAllocation topped_table topped_blocks 203"
  using InsertAllocation_then_find [of 3 topped_blocks topped_table 3 120 4 121]
    InsertAllocation_then_find [of 3 topped_blocks topped_table 3 120 4 203]
  by (simp add: topped_table_def topped_blocks_def table_ok_def lengths_ok_def hash_ok_def sorted_ok_def entries_def
      sample_table_def sample_blocks_def block_len_def new_Allocation_def new_AllocationTable_def block_fits_def
      AND_mask_for_shift blocks_apart_def in_block_def word_less_nat_alt)

section \<open>Memory footprint\<close>

lemma footprint_fold:
  "unat (fold (\<lambda>(_, a) n. n + len (allocs h a)) es (n0 :: u64))
     = (unat n0 + (\<Sum>e \<leftarrow> es. unat (block_len h e))) mod 2 ^ 64"
proof (induction es arbitrary: n0)
  case Nil
  then show ?case using unat_u64_bound [of n0] by simp
next
  case (Cons e es)
  then show ?case
    by (cases e) (simp add: block_len_def unat_word_ariths add.assoc mod_add_left_eq)
qed

text \<open>
  \<open>GetMemFootprint\<close> is the sum of the lengths of all the blocks of both maps, modulo \<open>2 ^ 64\<close>.
\<close>

theorem GetMemFootprint_sum:
  "unat (GetMemFootprint t h)
     = ((\<Sum>e \<leftarrow> sortedAllocationTable t. unat (block_len h e))
        + (\<Sum>e \<leftarrow> hashAllocationTable t. unat (block_len h e))) mod 2 ^ 64"
  by (simp add: GetMemFootprint_def footprint_fold mod_add_left_eq)

section \<open>Cycles of the connection graph\<close>

definition edge_rel :: "graph \<Rightarrow> (nat \<times> nat) set" where
  "edge_rel g = {(u, v). \<exists>w. (u, v, w) \<in> set (graph_edges g)}"

text \<open>What \<open>boost::strong_components\<close> documents: one number per vertex, equal exactly for vertices that
  reach each other.\<close>

definition scc_correct :: "(graph \<Rightarrow> int list) \<Rightarrow> graph \<Rightarrow> bool" where
  "scc_correct scc g \<longleftrightarrow> length (scc g) = length (vertex_entries g)
     \<and> (\<forall>u v. u < length (scc g) \<and> v < length (scc g) \<longrightarrow>
          (scc g ! u = scc g ! v \<longleftrightarrow> (u, v) \<in> (edge_rel g)\<^sup>* \<and> (v, u) \<in> (edge_rel g)\<^sup>*))"

definition mutual :: "graph \<Rightarrow> nat \<Rightarrow> nat set" where
  "mutual g u = {v. v < length (vertex_entries g)
                    \<and> (u, v) \<in> (edge_rel g)\<^sup>* \<and> (v, u) \<in> (edge_rel g)\<^sup>*}"

lemma scc_push_at:
  "map_of (scc_push (c, v) m) = (map_of m)(c \<mapsto> (case map_of m c of None \<Rightarrow> [v] | Some vs \<Rightarrow> vs @ [v]))"
  by (auto simp: scc_push_def fun_eq_iff split: option.splits)

lemma scc_push_distinct: "distinct_keys m \<Longrightarrow> distinct_keys (scc_push cv m)"
  by (auto simp: scc_push_def split: prod.splits)

lemma sccToVertexMap_snoc:
  "sccToVertexMap (cs @ [c]) = scc_push (c, length cs) (sccToVertexMap cs)"
  by (simp add: sccToVertexMap_def zip_append [of cs "[0..<length cs]", simplified])

lemma sccToVertexMap_spec:
  "distinct_keys (sccToVertexMap cs)
   \<and> (\<forall>c. map_of (sccToVertexMap cs) c
          = (if c \<in> set cs then Some (filter (\<lambda>v. cs ! v = c) [0..<length cs]) else None))"
proof (induction cs rule: rev_induct)
  case (snoc c cs)
  have f: "filter (\<lambda>v. (cs @ [c]) ! v = c') [0..<length cs] = filter (\<lambda>v. cs ! v = c') [0..<length cs]"
    for c' by (rule filter_cong) (simp_all add: nth_append)
  have "c \<notin> set cs \<Longrightarrow> filter (\<lambda>v. cs ! v = c) [0..<length cs] = []"
    by (auto simp: filter_empty_conv)
  with snoc show ?case
    by (auto simp: sccToVertexMap_snoc scc_push_at scc_push_distinct f)
qed (simp add: sccToVertexMap_def)

lemma sccToVertexMap_in:
  "(c, vs) \<in> set (sccToVertexMap cs) \<longleftrightarrow>
     c \<in> set cs \<and> vs = filter (\<lambda>v. cs ! v = c) [0..<length cs]"
  using sccToVertexMap_spec [of cs] map_of_eq_Some_iff [of "sccToVertexMap cs" c vs]
  by (metis option.distinct(1) option.inject)

lemma bex_nth: "(\<exists>c \<in> set cs. P c) \<longleftrightarrow> (\<exists>u. u < length cs \<and> P (cs ! u))"
  by (auto simp: set_conv_nth)

lemma scc_allocs_spec:
  assumes "scc_correct scc g"
  shows "cyc \<in> set (scc_allocs g (sccToVertexMap (scc g))) \<longleftrightarrow>
     (\<exists>u. u < length (vertex_entries g) \<and> 1 < card (mutual g u)
        \<and> cyc = map ((!) (vertex_entries g)) (sorted_list_of_set (mutual g u)))"
proof -
  let ?cs = "scc g" and ?comp = "\<lambda>u. filter (\<lambda>v. scc g ! v = scc g ! u) [0..<length (scc g)]"
  have len: "length ?cs = length (vertex_entries g)" using assms by (simp add: scc_correct_def)
  have comp: "set (?comp u) = mutual g u" if "u < length ?cs" for u
    using assms that by (auto simp: scc_correct_def mutual_def)
  have lst: "?comp u = sorted_list_of_set (mutual g u)" if "u < length ?cs" for u
    unfolding comp [OF that, symmetric]
    by (rule sorted_list_of_set.idem_if_sorted_distinct [symmetric]) (simp_all add: sorted_wrt_filter)
  have num: "length (?comp u) = card (mutual g u)" if "u < length ?cs" for u
    using comp [OF that] by (metis distinct_card distinct_filter distinct_upt)
  have "cyc \<in> set (scc_allocs g (sccToVertexMap ?cs)) \<longleftrightarrow>
      (\<exists>u. u < length ?cs \<and> 1 < length (?comp u) \<and> cyc = map ((!) (vertex_entries g)) (?comp u))"
  proof -
    have "cyc \<in> set (scc_allocs g (sccToVertexMap ?cs)) \<longleftrightarrow>
        (\<exists>c vs. (c, vs) \<in> set (sccToVertexMap ?cs) \<and> 1 < length vs \<and> cyc = map ((!) (vertex_entries g)) vs)"
      by (auto simp: scc_allocs_def)
    also have "\<dots> \<longleftrightarrow> (\<exists>c \<in> set ?cs. 1 < length (filter (\<lambda>v. ?cs ! v = c) [0..<length ?cs])
        \<and> cyc = map ((!) (vertex_entries g)) (filter (\<lambda>v. ?cs ! v = c) [0..<length ?cs]))"
      by (auto simp: sccToVertexMap_in)
    finally show ?thesis by (simp only: bex_nth)
  qed
  also have "\<dots> \<longleftrightarrow> (\<exists>u. u < length (vertex_entries g) \<and> 1 < card (mutual g u)
        \<and> cyc = map ((!) (vertex_entries g)) (sorted_list_of_set (mutual g u)))"
    by (intro iff_exI) (use num lst len in \<open>auto cong: conj_cong\<close>)
  finally show ?thesis .
qed

lemma oldest_fold:
  "fold (oldest_step h) vs (o0, v0) = (oo, vv) \<Longrightarrow>
   vv \<le> v0 \<and> (\<forall>a \<in> set vs. vv \<le> freshness (allocs h a))
   \<and> (oo = o0 \<and> vv = v0 \<or> (\<exists>a \<in> set vs. oo = Some a \<and> vv = freshness (allocs h a)))"
proof (induction vs arbitrary: o0 v0)
  case (Cons a vs)
  show ?case
  proof (cases "freshness (allocs h a) < v0")
    case True
    then have "oldest_step h a (o0, v0) = (Some a, freshness (allocs h a))"
      by (simp add: oldest_step_def)
    with Cons.prems have "fold (oldest_step h) vs (Some a, freshness (allocs h a)) = (oo, vv)" by simp
    from Cons.IH [OF this] True show ?thesis by auto
  next
    case False
    then have "oldest_step h a (o0, v0) = (o0, v0)" by (simp add: oldest_step_def)
    with Cons.prems have "fold (oldest_step h) vs (o0, v0) = (oo, vv)" by simp
    from Cons.IH [OF this] False show ?thesis by auto
  qed
qed simp

lemma oldest_of_minimal:
  assumes "oldest_of h vs = Some a"
  shows "a \<in> set vs \<and> (\<forall>b \<in> set vs. freshness (allocs h a) \<le> freshness (allocs h b))"
proof -
  obtain oo vv where f: "fold (oldest_step h) vs (None, - 1) = (oo, vv)" by (metis surj_pair)
  with oldest_fold [OF f] assms show ?thesis by (auto simp: oldest_of_def)
qed

lemma set_touch_inner:
  "set (fold (\<lambda>a acc. if a \<in> A then us_insert s acc else acc) cyc acc)
     = set acc \<union> (if set cyc \<inter> A \<noteq> {} then {s} else {})"
  by (induction cyc arbitrary: acc) auto

lemma set_states_touching:
  "set (states_touching h cyc ss)
     = {s \<in> set ss. set cyc \<inter> set (AllocsAllocatedInState (states h s)) \<noteq> {}}"
proof -
  have "set (fold (\<lambda>s. fold (\<lambda>a acc. if a \<in> set (AllocsAllocatedInState (states h s))
                                  then us_insert s acc else acc) cyc) ss acc)
     = set acc \<union> {s \<in> set ss. set cyc \<inter> set (AllocsAllocatedInState (states h s)) \<noteq> {}}" for acc
    by (induction ss arbitrary: acc) (auto simp: set_touch_inner)
  then show ?thesis by (simp add: states_touching_def)
qed

lemma touching_iff:
  "states_touching h cyc (map snd (stateMap h)) \<noteq> [] \<longleftrightarrow>
     (\<exists>s \<in> snd ` set (stateMap h). set cyc \<inter> set (AllocsAllocatedInState (states h s)) \<noteq> {})"
  using set_states_touching [of h cyc "map snd (stateMap h)"] by (auto simp flip: set_empty)

text \<open>
  C12: \<open>FindCyclesInConnectionGraph\<close> records exactly the strongly connected components of two or more
  vertices that contain an allocation made inside some state.
\<close>

theorem FindCycles_exact:
  assumes "scc_correct scc (allocConnections t)"
  shows "(\<exists>c. c \<in> set (cycles (FindCyclesInConnectionGraph scc h t)) \<and> cycle_allocs c = cyc)
     \<longleftrightarrow> (\<exists>u. u < length (vertex_entries (allocConnections t))
            \<and> 1 < card (mutual (allocConnections t) u)
            \<and> cyc = map ((!) (vertex_entries (allocConnections t)))
                      (sorted_list_of_set (mutual (allocConnections t) u)))
         \<and> (\<exists>s. s \<in> snd ` set (stateMap h)
                \<and> set cyc \<inter> set (AllocsAllocatedInState (states h s)) \<noteq> {})"
proof -
  let ?g = "allocConnections t"
  have "(\<exists>c. c \<in> set (cycles (FindCyclesInConnectionGraph scc h t)) \<and> cycle_allocs c = cyc)
     \<longleftrightarrow> cyc \<in> set (scc_allocs ?g (sccToVertexMap (scc ?g)))
       \<and> states_touching h cyc (map snd (stateMap h)) \<noteq> []"
    by (fastforce simp: FindCyclesInConnectionGraph_def make_cycle_def Let_def split: if_splits)
  then show ?thesis
    unfolding touching_iff scc_allocs_spec [OF assms] by blast
qed

definition sample_cycle_graph :: graph where
  "sample_cycle_graph = \<lparr>vertex_entries = [5, 6], graph_edges = [(0, 1, 1), (1, 0, 1)]\<rparr>"

definition sample_cycle_store :: store where
  "sample_cycle_store = empty_store\<lparr>stateMap := [(0, 0)],
     states := (\<lambda>_. (new_State [] 0 0 0 None)\<lparr>AllocsAllocatedInState := [6]\<rparr>)\<rparr>"

lemma sample_cycle_mutual: "mutual sample_cycle_graph 0 = {0, 1}"
  and sample_cycle_scc: "scc_correct (\<lambda>_. [0, 0]) sample_cycle_graph"
proof -
  have e: "edge_rel sample_cycle_graph = {(0, 1), (1, 0)}"
    by (auto simp: edge_rel_def sample_cycle_graph_def)
  then have r: "(u, v) \<in> (edge_rel sample_cycle_graph)\<^sup>*" if "u < 2" "v < 2" for u v
    using that by (auto simp: less_2_cases_iff)
  then show "mutual sample_cycle_graph 0 = {0, 1}"
    by (auto simp: mutual_def sample_cycle_graph_def)
  show "scc_correct (\<lambda>_. [0, 0]) sample_cycle_graph"
    using r by (auto simp: scc_correct_def sample_cycle_graph_def nth_Cons' less_2_cases_iff)
qed

theorem FindCycles_exact_witness:
  "\<exists>c. c \<in> set (cycles (FindCyclesInConnectionGraph (\<lambda>_. [0, 0])
          sample_cycle_store
          (new_AllocationTable\<lparr>allocConnections := sample_cycle_graph\<rparr>)))
     \<and> cycle_allocs c = [5, 6]"
proof (subst FindCycles_exact)
  let ?t = "new_AllocationTable\<lparr>allocConnections := sample_cycle_graph\<rparr>"
  show "scc_correct (\<lambda>_. [0, 0]) (allocConnections ?t)" by (simp add: sample_cycle_scc)
  have "sorted_list_of_set {0, 1 :: nat} = [0, 1]" by simp
  then show "(\<exists>u. u < length (vertex_entries (allocConnections ?t))
      \<and> 1 < card (mutual (allocConnections ?t) u)
      \<and> [5, 6] = map ((!) (vertex_entries (allocConnections ?t)))
           (sorted_list_of_set (mutual (allocConnections ?t) u)))
    \<and> (\<exists>s. s \<in> snd ` set (stateMap sample_cycle_store)
        \<and> set [5, 6] \<inter> set (AllocsAllocatedInState (states sample_cycle_store s)) \<noteq> {})"
    by (intro conjI exI [of _ 0])
      (simp_all add: sample_cycle_mutual sample_cycle_store_def, simp_all add: sample_cycle_graph_def)
qed

text \<open>
  Every cycle that \<open>FindCyclesInConnectionGraph\<close> records names the states that made one of its
  allocations, and its weak point is an allocation of the cycle whose last use is oldest.
\<close>

theorem FindCycles_weak_point:
  assumes "c \<in> set (cycles (FindCyclesInConnectionGraph scc h t))"
  shows "set (cycle_states c) = {s \<in> snd ` set (stateMap h).
       set (cycle_allocs c) \<inter> set (AllocsAllocatedInState (states h s)) \<noteq> {}}
     \<and> (\<forall>a. weakPoint c = Some a \<longrightarrow> a \<in> set (cycle_allocs c)
         \<and> (\<forall>b \<in> set (cycle_allocs c). freshness (allocs h a) \<le> freshness (allocs h b)))"
proof -
  obtain x where "c = \<lparr>cycle_allocs = x, cycle_states = states_touching h x (map snd (stateMap h)),
      weakPoint = oldest_of h x\<rparr>"
    using assms by (auto simp: FindCyclesInConnectionGraph_def make_cycle_def Let_def split: if_splits)
  then show ?thesis using oldest_of_minimal [of h x] by (simp add: set_states_touching)
qed

lemma sample_cycle_found:
  "cycles (FindCyclesInConnectionGraph (\<lambda>_. [0, 0]) sample_cycle_store
       (new_AllocationTable\<lparr>allocConnections := sample_cycle_graph\<rparr>))
     = [\<lparr>cycle_allocs = [5, 6], cycle_states = [0], weakPoint = Some 5\<rparr>]"
  by (simp add: FindCyclesInConnectionGraph_def sample_cycle_graph_def sample_cycle_store_def
      sccToVertexMap_def scc_push_def um_modify_def um_insert_def scc_allocs_def make_cycle_def
      states_touching_def us_insert_def oldest_of_def oldest_step_def empty_store_def new_Allocation_def
      upt_rec word_less_nat_alt)

theorem FindCycles_weak_point_witness:
  "5 \<in> set [5, 6 :: aref] \<and> freshness (allocs sample_cycle_store 5) \<le> freshness (allocs sample_cycle_store 6)"
  using FindCycles_weak_point [of "\<lparr>cycle_allocs = [5, 6], cycle_states = [0], weakPoint = Some 5\<rparr>"
      "\<lambda>_. [0, 0]" sample_cycle_store "new_AllocationTable\<lparr>allocConnections := sample_cycle_graph\<rparr>"]
    sample_cycle_found by simp

section \<open>The edges of the connection graph\<close>

lemma add_vertices_spec:
  assumes "distinct (map snd es)" and "set (vertex_entries g) \<inter> snd ` set es = {}"
    and "\<forall>i < length (vertex_entries g). connectionVertex (allocs h (vertex_entries g ! i)) = i"
  shows "\<exists>g' h'. add_vertices es (g, h) = (g', h') \<and> vertex_entries g' = vertex_entries g @ map snd es
     \<and> graph_edges g' = graph_edges g
     \<and> (\<forall>i < length (vertex_entries g'). connectionVertex (allocs h' (vertex_entries g' ! i)) = i)
     \<and> (\<forall>a. \<exists>v. allocs h' a = (allocs h a)\<lparr>connectionVertex := v\<rparr>)"
  using assms
proof (induction es arbitrary: g h)
  case Nil
  have "\<exists>v. allocs h a = (allocs h a)\<lparr>connectionVertex := v\<rparr>" for a
    by (rule exI [of _ "connectionVertex (allocs h a)"]) simp
  with Nil show ?case by simp
next
  case (Cons e es)
  obtain k a where e: "e = (k, a)" by (metis surj_pair)
  let ?g = "g\<lparr>vertex_entries := vertex_entries g @ [a]\<rparr>"
  let ?h = "upd_alloc a (\<lambda>al. al\<lparr>connectionVertex := length (vertex_entries g)\<rparr>) h"
  have idx: "\<forall>i < length (vertex_entries ?g). connectionVertex (allocs ?h (vertex_entries ?g ! i)) = i"
    using Cons.prems(2,3) e nth_mem by (fastforce simp: nth_append less_Suc_eq)
  have "set (vertex_entries ?g) \<inter> snd ` set es = {}" using Cons.prems(1,2) e by auto
  from Cons.IH [OF _ this idx] Cons.prems(1) e obtain g' h' where gh:
    "add_vertices es (?g, ?h) = (g', h')" "vertex_entries g' = vertex_entries ?g @ map snd es"
    "graph_edges g' = graph_edges ?g"
    "\<forall>i < length (vertex_entries g'). connectionVertex (allocs h' (vertex_entries g' ! i)) = i"
    "\<forall>a. \<exists>v. allocs h' a = (allocs ?h a)\<lparr>connectionVertex := v\<rparr>" by auto
  have "\<exists>v. allocs h' b = (allocs h b)\<lparr>connectionVertex := v\<rparr>" for b
    using gh(5) [rule_format, of b] by (cases "b = a") auto
  with gh e show ?case by (simp add: add_vertex_def)
qed

lemma findSorted_len_cong:
  assumes "\<And>a. len (allocs h' a) = len (allocs h a)"
  shows "findSorted tab h' key = findSorted tab h key"
  unfolding findSorted_def assms ..

lemma findAllocation_len_cong:
  "(\<And>a. len (allocs h' a) = len (allocs h a)) \<Longrightarrow> findAllocation t h' key = findAllocation t h key"
  using findSorted_len_cong [of h' h] unfolding findAllocation_def by presburger

text \<open>The live references the graph is built from: an escape in block \<open>p\<close> holding a pointer into \<open>a\<close>.\<close>

definition refers :: "(u64 \<Rightarrow> u64) \<Rightarrow> AllocationTable \<Rightarrow> store \<Rightarrow> aref \<Rightarrow> u64 list \<Rightarrow> aref \<Rightarrow> bool" where
  "refers mem t h a escs p \<longleftrightarrow>
     (\<exists>esc \<in> set escs. doesItAlias (pointer (allocs h a)) (len (allocs h a)) (mem esc) \<noteq> - 1
        \<and> findAllocation t h esc = Some p)"

definition live_ref :: "(u64 \<Rightarrow> u64) \<Rightarrow> AllocationTable \<Rightarrow> store \<Rightarrow> aref \<Rightarrow> aref \<Rightarrow> bool" where
  "live_ref mem t h p a \<longleftrightarrow> refers mem t h a (allocToEscapeMap (allocs h a)) p"

definition edge_of :: "store \<Rightarrow> aref \<times> aref \<Rightarrow> nat \<times> nat \<times> int" where
  "edge_of h pa = (connectionVertex (allocs h (fst pa)), connectionVertex (allocs h (snd pa)), 1)"

lemma edges_of_escapes:
  "set (graph_edges (fold (add_escape_edge t mem h a) escs g))
     = set (graph_edges g) \<union> edge_of h ` ({p. refers mem t h a escs p} \<times> {a})"
proof (induction escs arbitrary: g)
  case (Cons esc escs)
  have "{p. refers mem t h a (esc # escs) p} = {p. refers mem t h a [esc] p} \<union> {p. refers mem t h a escs p}"
    by (auto simp: refers_def)
  moreover have "set (graph_edges (add_escape_edge t mem h a esc g))
      = set (graph_edges g) \<union> edge_of h ` ({p. refers mem t h a [esc] p} \<times> {a})"
    by (auto simp: add_escape_edge_def add_edge_def edge_of_def refers_def split: option.splits)
  ultimately show ?case
    unfolding fold_Cons comp_apply Cons by (simp add: image_Un Un_assoc Sigma_Un_distrib1)
qed (auto simp: refers_def)

lemma edge_rel_image:
  "set (graph_edges g) = edge_of h ` R \<Longrightarrow>
   edge_rel g = (\<lambda>(p, a). (connectionVertex (allocs h p), connectionVertex (allocs h a))) ` R"
proof -
  have "edge_rel g = (\<lambda>e. (fst e, fst (snd e))) ` set (graph_edges g)"
    by (force simp: edge_rel_def image_iff)
  then show "set (graph_edges g) = edge_of h ` R \<Longrightarrow> ?thesis"
    by (simp add: image_image edge_of_def case_prod_beta')
qed

lemma edges_of_allocs:
  "set (graph_edges (fold (add_alloc_edges t mem h) es g))
     = set (graph_edges g) \<union> edge_of h ` {(p, a). a \<in> snd ` set es \<and> live_ref mem t h p a}"
proof (induction es arbitrary: g)
  case (Cons e es)
  have "set (graph_edges (add_alloc_edges t mem h e g))
      = set (graph_edges g) \<union> edge_of h ` {(p, a). a = snd e \<and> live_ref mem t h p a}"
    unfolding add_alloc_edges_def edges_of_escapes live_ref_def by auto
  moreover have "{(p, a). a \<in> snd ` set (e # es) \<and> live_ref mem t h p a}
      = {(p, a). a = snd e \<and> live_ref mem t h p a} \<union> {(p, a). a \<in> snd ` set es \<and> live_ref mem t h p a}"
    by auto
  ultimately show ?case unfolding fold_Cons comp_apply Cons by (simp add: image_Un Un_assoc)
qed simp

lemma vertices_of_edges:
  "vertex_entries (fold (add_alloc_edges t mem h) es g) = vertex_entries g"
proof -
  have "vertex_entries (fold (add_escape_edge t mem h a) escs g) = vertex_entries g" for a escs g
    by (induction escs arbitrary: g) (auto simp: add_escape_edge_def add_edge_def split: option.splits)
  then have "vertex_entries (add_alloc_edges t mem h e g) = vertex_entries g" for e g
    by (simp add: add_alloc_edges_def)
  then show ?thesis by (induction es arbitrary: g) auto
qed

text \<open>
  When every allocation object is registered once, \<open>GenerateConnectionGraph\<close> builds a graph with one
  vertex per block of the table and an edge between two vertices exactly when one block holds an escape
  whose current content points into the other.
\<close>

theorem GenerateConnectionGraph_edges:
  assumes "distinct (map snd (sortedAllocationTable t @ hashAllocationTable t))"
  shows "\<exists>t' h'. GenerateConnectionGraph mem t h = (t', h')
     \<and> vertex_entries (allocConnections t') = map snd (sortedAllocationTable t @ hashAllocationTable t)
     \<and> (\<forall>i < length (vertex_entries (allocConnections t')).
          connectionVertex (allocs h' (vertex_entries (allocConnections t') ! i)) = i)
     \<and> edge_rel (allocConnections t')
         = (\<lambda>(p, a). (connectionVertex (allocs h' p), connectionVertex (allocs h' a)))
             ` {(p, a). a \<in> snd ` entries t \<and> live_ref mem t h p a}"
proof -
  let ?S = "sortedAllocationTable t" and ?H = "hashAllocationTable t"
  have d: "distinct (map snd ?S)" "distinct (map snd ?H)" "snd ` set ?S \<inter> snd ` set ?H = {}"
    using assms by auto
  obtain g1 h1 where 1: "add_vertices ?S (empty_graph, h) = (g1, h1)" "vertex_entries g1 = map snd ?S"
    "graph_edges g1 = []"
    "\<forall>i < length (vertex_entries g1). connectionVertex (allocs h1 (vertex_entries g1 ! i)) = i"
    "\<And>a. \<exists>v. allocs h1 a = (allocs h a)\<lparr>connectionVertex := v\<rparr>"
    using add_vertices_spec [OF d(1), of empty_graph h] by (auto simp: empty_graph_def)
  obtain g2 h2 where 2: "add_vertices ?H (g1, h1) = (g2, h2)" "vertex_entries g2 = map snd (?S @ ?H)"
    "graph_edges g2 = []"
    "\<forall>i < length (vertex_entries g2). connectionVertex (allocs h2 (vertex_entries g2 ! i)) = i"
    "\<And>a. \<exists>v. allocs h2 a = (allocs h1 a)\<lparr>connectionVertex := v\<rparr>"
    using add_vertices_spec [OF d(2) _ 1(4)] d(3) 1(2,3) by auto
  have same: "pointer (allocs h2 a) = pointer (allocs h a)" "len (allocs h2 a) = len (allocs h a)"
    "allocToEscapeMap (allocs h2 a) = allocToEscapeMap (allocs h a)" for a
    using 1(5) [of a] 2(5) [of a] by auto
  have "GenerateConnectionGraph mem t h =
      (t\<lparr>allocConnections := fold (add_alloc_edges t mem h2) ?H (fold (add_alloc_edges t mem h2) ?S g2)\<rparr>, h2)"
    by (simp add: GenerateConnectionGraph_def 1(1) 2(1))
  moreover have live: "live_ref mem t h2 p a = live_ref mem t h p a" for p a
    unfolding live_ref_def refers_def same findAllocation_len_cong [OF same(2)] ..
  have "{(p, a). a \<in> snd ` set ?S \<and> live_ref mem t h2 p a} \<union> {(p, a). a \<in> snd ` set ?H \<and> live_ref mem t h2 p a}
      = {(p, a). a \<in> snd ` entries t \<and> live_ref mem t h p a}" by (auto simp: entries_def live)
  then have "edge_rel (fold (add_alloc_edges t mem h2) ?H (fold (add_alloc_edges t mem h2) ?S g2))
      = (\<lambda>(p, a). (connectionVertex (allocs h2 p), connectionVertex (allocs h2 a)))
          ` {(p, a). a \<in> snd ` entries t \<and> live_ref mem t h p a}"
    by (intro edge_rel_image) (simp add: edges_of_allocs 2(3) flip: image_Un)
  ultimately show ?thesis using 2(2,4) by (simp add: vertices_of_edges)
qed

theorem GenerateConnectionGraph_edges_witness:
  "vertex_entries (allocConnections (fst (GenerateConnectionGraph (\<lambda>_. 0) sample_table sample_blocks)))
     = [0, 1, 2]"
  using GenerateConnectionGraph_edges [of sample_table "\<lambda>_. 0" sample_blocks]
  by (auto simp: sample_table_def new_AllocationTable_def)

end
