(* ===== verification/Clean_Batch.thy ===== *)
theory Clean_Batch
  imports State_Commit
begin

text \<open>
  The batch cleaner of \<open>texas.cpp\<close> (\<open>cleanBatch\<close>): it reads the entries of a batch in order, runs for every
  state and every pointer a small automaton that classifies how the pointer is used across the invocations of
  the state, and then rewrites every access entry to the class of its pointer.

  The abstract specification is \<open>classify\<close>, a function of the history of one pointer in one state: the list
  of the invocations of the state, each with the accesses it makes to the pointer. The refinement goes
  through \<open>ptr_view\<close>, the automaton state of one pointer, and \<open>project\<close>, the events of a batch one pointer
  of one state sees.
\<close>

section \<open>Entries and batches\<close>

text \<open>The union \<open>sizeState\<close>: the member written last.\<close>

datatype size_state = Size u64 | StatePtr "sref option"

record shadowEntry =
  operation :: u64
  ptr :: u64
  sizeState :: size_state
  stateToSet :: u64
  entryState :: "sref option"
  information :: u64

datatype batch_status = NEW_BATCH | CLEANED_BATCH | KILL_BATCH

record shadowBatch =
  numEntries :: nat
  shadowEntries :: "shadowEntry list"
  status :: batch_status
  batchNumber :: u64

record config =
  trackCycles :: bool
  trackTransfer :: bool
  trackCloneable :: bool
  trackInput :: bool
  trackOutput :: bool
  disableOptimizations :: bool

definition op_word :: "operations \<Rightarrow> u64" where
  "op_word x = of_nat (opcode x)"

definition op_of :: "shadowEntry \<Rightarrow> operations option" where
  "op_of e = operation_of (unat (operation e))"

definition set_op :: "operations \<Rightarrow> shadowEntry \<Rightarrow> shadowEntry" where
  "set_op x e = e\<lparr>operation := op_word x\<rparr>"

definition statePtr_of :: "shadowEntry \<Rightarrow> sref option" where
  "statePtr_of e = (case sizeState e of StatePtr s \<Rightarrow> s | Size _ \<Rightarrow> None)"

section \<open>The first pass\<close>

definition upgrade :: "u64 \<Rightarrow> operations \<Rightarrow> State \<Rightarrow> State" where
  "upgrade p x st = st\<lparr>statePtrMap := (statePtrMap st)(p \<mapsto> x),
                       currentPtrIterUpgrades := insert p (currentPtrIterUpgrades st)\<rparr>"

definition mark :: "u64 \<Rightarrow> State \<Rightarrow> State" where
  "mark p st = st\<lparr>currentPtrIterUpgrades := insert p (currentPtrIterUpgrades st)\<rparr>"

definition access_known :: "bool \<Rightarrow> u64 \<Rightarrow> operations \<Rightarrow> State \<Rightarrow> State" where
  "access_known isWrite p cls st =
     (case cls of
        STATE_ADD_INPUT \<Rightarrow> if isWrite then upgrade p STATE_ADD_IO st else st
      | STATE_ADD_IO \<Rightarrow>
          if p \<in> currentPtrIterUpgrades st then st
          else upgrade p (if isWrite then STATE_ADD_CIO else STATE_ADD_TIO) st
      | STATE_ADD_CIO \<Rightarrow>
          if \<not> isWrite then
            (if p \<in> currentPtrIterUpgrades st then st else upgrade p STATE_ADD_TIO st)
          else mark p st
      | STATE_ADD_TIO \<Rightarrow> mark p st
      | STATE_ADD_OUTPUT \<Rightarrow>
          if p \<in> currentPtrIterUpgrades st then st
          else upgrade p (if isWrite then STATE_ADD_CO else STATE_ADD_TO) st
      | STATE_ADD_CO \<Rightarrow>
          if \<not> isWrite then
            (if p \<in> currentPtrIterUpgrades st then st else upgrade p STATE_ADD_TO st)
          else mark p st
      | STATE_ADD_TO \<Rightarrow> mark p st
      | _ \<Rightarrow> st)"

definition access_new :: "bool \<Rightarrow> u64 \<Rightarrow> State \<Rightarrow> State" where
  "access_new isWrite p st =
     (case statePtrIterMap st p of
        Some k \<Rightarrow>
          if k = STATE_ADD_INPUT \<and> isWrite
          then st\<lparr>statePtrIterMap := (statePtrIterMap st)(p \<mapsto> STATE_ADD_IO)\<rparr> else st
      | None \<Rightarrow>
          st\<lparr>statePtrIterMap := (statePtrIterMap st)
               (p \<mapsto> (if isWrite then STATE_ADD_OUTPUT else STATE_ADD_INPUT))\<rparr>)"

definition access_state :: "bool \<Rightarrow> u64 \<Rightarrow> State \<Rightarrow> State" where
  "access_state isWrite p st =
     (case statePtrMap st p of
        Some cls \<Rightarrow> access_known isWrite p cls st
      | None \<Rightarrow> access_new isWrite p st)"

definition end_state :: "State \<Rightarrow> State" where
  "end_state st = st\<lparr>statePtrMap := statePtrIterMap st ++ statePtrMap st\<rparr>"

definition begin_state :: "State \<Rightarrow> State" where
  "begin_state st = st\<lparr>statePtrIterMap := Map.empty, currentPtrIterUpgrades := {}\<rparr>"

text \<open>
  One iteration of the first loop. \<open>batchState\<close> is the local variable; \<open>None\<close> as result is a null
  dereference (a begin or end entry without a state).
\<close>

definition clean_entry1 ::
  "config \<Rightarrow> shadowEntry \<Rightarrow> sref option \<times> store \<Rightarrow> (shadowEntry \<times> sref option \<times> store) option" where
  "clean_entry1 cfg e bs =
     (case bs of (batchState, h) \<Rightarrow>
       (let access = (\<lambda>w. case batchState of
              None \<Rightarrow> Some (if trackCycles cfg then set_op REDUNDANT e else e, batchState, h)
            | Some s \<Rightarrow> Some (e\<lparr>sizeState := StatePtr batchState\<rparr>, batchState,
                              upd_state s (access_state w (ptr e)) h))
        in case op_of e of
             Some STATE_ADD_READ \<Rightarrow> access False
           | Some STATE_ADD_WRITE \<Rightarrow> access True
           | Some STATE_END \<Rightarrow>
               (case statePtr_of e of None \<Rightarrow> None
                | Some s \<Rightarrow> let h1 = upd_state s end_state h in
                    Some (set_op REDUNDANT e, parent (states h1 s), h1))
           | Some STATE_BEGIN \<Rightarrow>
               (case statePtr_of e of None \<Rightarrow> None
                | Some s \<Rightarrow> Some (set_op REDUNDANT e, Some s, upd_state s begin_state h))
           | _ \<Rightarrow> Some (e, batchState, h)))"

fun clean_pass1 ::
  "config \<Rightarrow> shadowEntry list \<Rightarrow> sref option \<times> store \<Rightarrow> (shadowEntry list \<times> sref option \<times> store) option"
where
  "clean_pass1 cfg [] (bs, h) = Some ([], bs, h)"
| "clean_pass1 cfg (e # es) (bs, h) =
     (case clean_entry1 cfg e (bs, h) of None \<Rightarrow> None
      | Some (e', bs', h') \<Rightarrow>
          (case clean_pass1 cfg es (bs', h') of None \<Rightarrow> None
           | Some (es', r) \<Rightarrow> Some (e' # es', r)))"

section \<open>The second pass\<close>

definition tracked :: "config \<Rightarrow> operations \<Rightarrow> bool option" where
  "tracked cfg cls =
     (case cls of
        STATE_ADD_INPUT \<Rightarrow> Some (trackInput cfg)
      | STATE_ADD_IO \<Rightarrow> Some (trackInput cfg \<or> trackOutput cfg)
      | STATE_ADD_CIO \<Rightarrow> Some (trackCloneable cfg \<or> trackInput cfg \<or> trackOutput cfg)
      | STATE_ADD_TIO \<Rightarrow> Some (trackTransfer cfg \<or> trackInput cfg \<or> trackOutput cfg)
      | STATE_ADD_OUTPUT \<Rightarrow> Some (trackOutput cfg)
      | STATE_ADD_CO \<Rightarrow> Some (trackCloneable cfg \<or> trackOutput cfg)
      | STATE_ADD_TO \<Rightarrow> Some (trackTransfer cfg \<or> trackOutput cfg)
      | _ \<Rightarrow> None)"

definition drop_unless_cycles :: "config \<Rightarrow> shadowEntry \<Rightarrow> shadowEntry" where
  "drop_unless_cycles cfg e = (if \<not> trackCycles cfg then set_op REDUNDANT e else e)"

definition clean_entry2 :: "config \<Rightarrow> store \<Rightarrow> shadowEntry \<Rightarrow> shadowEntry option" where
  "clean_entry2 cfg h e =
     (if op_of e = Some STATE_ADD_READ \<or> op_of e = Some STATE_ADD_WRITE then
        (case statePtr_of e of
           None \<Rightarrow> None
         | Some s \<Rightarrow>
             Some (case statePtrMap (states h s) (ptr e) of
                     None \<Rightarrow> drop_unless_cycles cfg e
                   | Some cls \<Rightarrow>
                       (case tracked cfg cls of
                          None \<Rightarrow> e
                        | Some keep \<Rightarrow> if keep then set_op cls e else drop_unless_cycles cfg e)))
      else Some e)"

fun clean_pass2 :: "config \<Rightarrow> store \<Rightarrow> shadowEntry list \<Rightarrow> shadowEntry list option" where
  "clean_pass2 cfg h [] = Some []"
| "clean_pass2 cfg h (e # es) =
     (case clean_entry2 cfg h e of None \<Rightarrow> None
      | Some e' \<Rightarrow>
          (case clean_pass2 cfg h es of None \<Rightarrow> None | Some es' \<Rightarrow> Some (e' # es')))"

text \<open>
  The loops run over the first \<open>numEntries\<close> slots; the slots behind them are not touched. The result has the
  new value of the global \<open>oldState\<close>.
\<close>

definition cleanBatch ::
  "config \<Rightarrow> shadowBatch \<Rightarrow> sref option \<times> store \<Rightarrow> (shadowBatch \<times> sref option \<times> store) option" where
  "cleanBatch cfg entry os =
     (case clean_pass1 cfg (take (numEntries entry) (shadowEntries entry)) os of
        None \<Rightarrow> None
      | Some (es, batchState, h) \<Rightarrow>
          (case clean_pass2 cfg h es of
             None \<Rightarrow> None
           | Some es' \<Rightarrow>
               let entry' = entry\<lparr>shadowEntries := es' @ drop (numEntries entry) (shadowEntries entry)\<rparr> in
               Some (if disableOptimizations cfg then entry' else entry'\<lparr>status := CLEANED_BATCH\<rparr>,
                     batchState, h)))"

section \<open>The automaton of one pointer\<close>

datatype event = EBegin | EEnd | EAcc bool

type_synonym ptr_view = "operations option \<times> operations option \<times> bool"

definition view :: "State \<Rightarrow> u64 \<Rightarrow> ptr_view" where
  "view st p = (statePtrMap st p, statePtrIterMap st p, p \<in> currentPtrIterUpgrades st)"

fun next_class :: "bool \<Rightarrow> operations \<Rightarrow> bool \<Rightarrow> operations \<times> bool" where
  "next_class w STATE_ADD_INPUT u = (if w then (STATE_ADD_IO, True) else (STATE_ADD_INPUT, u))"
| "next_class w STATE_ADD_IO u =
     (if u then STATE_ADD_IO else if w then STATE_ADD_CIO else STATE_ADD_TIO, True)"
| "next_class w STATE_ADD_CIO u = (if w \<or> u then STATE_ADD_CIO else STATE_ADD_TIO, True)"
| "next_class w STATE_ADD_OUTPUT u =
     (if u then STATE_ADD_OUTPUT else if w then STATE_ADD_CO else STATE_ADD_TO, True)"
| "next_class w STATE_ADD_CO u = (if w \<or> u then STATE_ADD_CO else STATE_ADD_TO, True)"
| "next_class w STATE_ADD_TIO u = (STATE_ADD_TIO, True)"
| "next_class w STATE_ADD_TO u = (STATE_ADD_TO, True)"
| "next_class w c u = (c, u)"

fun view_step :: "event \<Rightarrow> ptr_view \<Rightarrow> ptr_view" where
  "view_step EBegin (c, i, u) = (c, None, False)"
| "view_step EEnd (c, i, u) = (case c of None \<Rightarrow> i | Some _ \<Rightarrow> c, i, u)"
| "view_step (EAcc w) (Some c, i, u) = (case next_class w c u of (c', u') \<Rightarrow> (Some c', i, u'))"
| "view_step (EAcc w) (None, None, u) = (None, Some (if w then STATE_ADD_OUTPUT else STATE_ADD_INPUT), u)"
| "view_step (EAcc w) (None, Some k, u) =
     (None, Some (if k = STATE_ADD_INPUT \<and> w then STATE_ADD_IO else k), u)"

lemma view_access:
  "view (access_state w q st) p = (if p = q then view_step (EAcc w) (view st p) else view st p)"
proof (cases "statePtrMap st q")
  case None
  then show ?thesis
    by (auto simp: view_def access_state_def access_new_def split: option.splits)
next
  case (Some c)
  then show ?thesis
    by (cases c) (auto simp: view_def access_state_def access_known_def upgrade_def mark_def)
qed

lemma view_end: "view (end_state st) p = view_step EEnd (view st p)"
  by (auto simp: view_def end_state_def map_add_def split: option.splits)

lemma view_begin: "view (begin_state st) p = view_step EBegin (view st p)"
  by (simp add: view_def begin_state_def)

lemma parent_steps [simp]:
  "parent (access_state w q st) = parent st" "parent (end_state st) = parent st"
  "parent (begin_state st) = parent st"
proof -
  have "parent (access_known w q c st) = parent st" for c
    by (cases c) (auto simp: access_known_def upgrade_def mark_def)
  then show "parent (access_state w q st) = parent st"
    by (auto simp: access_state_def access_new_def split: option.splits)
qed (simp_all add: end_state_def begin_state_def)

section \<open>What one pointer of one state sees of a batch\<close>

definition acc_events :: "sref \<Rightarrow> u64 \<Rightarrow> sref option \<Rightarrow> bool \<Rightarrow> shadowEntry \<Rightarrow> event list" where
  "acc_events s p bs w e = (if bs = Some s \<and> ptr e = p then [EAcc w] else [])"

fun project ::
  "(sref \<Rightarrow> sref option) \<Rightarrow> sref \<Rightarrow> u64 \<Rightarrow> sref option \<Rightarrow> shadowEntry list \<Rightarrow> event list" where
  "project par s p bs [] = []"
| "project par s p bs (e # es) =
     (case op_of e of
        Some STATE_ADD_READ \<Rightarrow> acc_events s p bs False e @ project par s p bs es
      | Some STATE_ADD_WRITE \<Rightarrow> acc_events s p bs True e @ project par s p bs es
      | Some STATE_END \<Rightarrow>
          (if statePtr_of e = Some s then [EEnd] else [])
          @ project par s p (Option.bind (statePtr_of e) par) es
      | Some STATE_BEGIN \<Rightarrow>
          (if statePtr_of e = Some s then [EBegin] else []) @ project par s p (statePtr_of e) es
      | _ \<Rightarrow> project par s p bs es)"

lemma pass1_refines_automaton:
  assumes "clean_pass1 cfg es (bs, h) = Some (es', bs', h')"
  shows "view (states h' s) p
     = fold view_step (project (\<lambda>x. parent (states h x)) s p bs es) (view (states h s) p)"
    and "(\<lambda>x. parent (states h' x)) = (\<lambda>x. parent (states h x))"
proof -
  have "view (states h' s) p
       = fold view_step (project (\<lambda>x. parent (states h x)) s p bs es) (view (states h s) p)
     \<and> (\<lambda>x. parent (states h' x)) = (\<lambda>x. parent (states h x))"
    using assms
  proof (induction es arbitrary: bs h es')
    case (Cons e es)
    then obtain e1 bs1 h1 es1 where 1: "clean_entry1 cfg e (bs, h) = Some (e1, bs1, h1)"
      and 2: "clean_pass1 cfg es (bs1, h1) = Some (es1, bs', h')"
      by (auto split: option.splits)
    have par: "(\<lambda>x. parent (states h1 x)) = (\<lambda>x. parent (states h x))"
      using 1 by (auto simp: clean_entry1_def Let_def fun_eq_iff
          split: option.splits operations.splits if_splits)
    have "fold view_step (project (\<lambda>x. parent (states h x)) s p bs (e # es)) (view (states h s) p)
        = fold view_step (project (\<lambda>x. parent (states h x)) s p bs1 es) (view (states h1 s) p)"
      using 1 by (auto simp: clean_entry1_def Let_def acc_events_def view_access view_end view_begin
          split: option.splits operations.splits if_splits)
    with Cons.IH [OF 2] par show ?case by simp
  qed simp
  then show "view (states h' s) p
     = fold view_step (project (\<lambda>x. parent (states h x)) s p bs es) (view (states h s) p)"
    and "(\<lambda>x. parent (states h' x)) = (\<lambda>x. parent (states h x))" by simp_all
qed

section \<open>The meaning of a class\<close>

text \<open>
  The history of a pointer in a state: per invocation, the list of its accesses (\<open>True\<close> a write). Only
  invocations that touch the pointer count. A pointer first written is an output; it is cloneable if every later
  invocation starts with a write too, and must be transferred if one starts with a read. A pointer first read
  is an input until an invocation writes it; what later invocations start with then decides in the same way.
\<close>

definition cross_class :: "operations \<Rightarrow> operations \<Rightarrow> operations \<Rightarrow> bool list list \<Rightarrow> operations" where
  "cross_class once cloneable transfer later =
     (if later = [] then once else if list_all hd later then cloneable else transfer)"

definition class_of :: "bool list list \<Rightarrow> operations option" where
  "class_of ne =
     (if ne = [] then None
      else if hd (hd ne) then Some (cross_class STATE_ADD_OUTPUT STATE_ADD_CO STATE_ADD_TO (tl ne))
      else Some (case dropWhile (\<lambda>acc. True \<notin> set acc) ne of
                   [] \<Rightarrow> STATE_ADD_INPUT
                 | _ # later \<Rightarrow> cross_class STATE_ADD_IO STATE_ADD_CIO STATE_ADD_TIO later))"

definition classify :: "bool list list \<Rightarrow> operations option" where
  "classify hist = class_of (filter (\<lambda>acc. acc \<noteq> []) hist)"

definition invocation :: "bool list \<Rightarrow> event list" where
  "invocation acc = EBegin # map EAcc acc @ [EEnd]"

definition history_events :: "bool list list \<Rightarrow> event list" where
  "history_events hist = concat (map invocation hist)"

text \<open>One invocation as one step on the class.\<close>

fun invoke :: "bool list \<Rightarrow> operations option \<Rightarrow> operations option" where
  "invoke [] c = c"
| "invoke (w # ws) None =
     Some (if w then STATE_ADD_OUTPUT else if True \<in> set ws then STATE_ADD_IO else STATE_ADD_INPUT)"
| "invoke (w # ws) (Some STATE_ADD_INPUT) =
     Some (if True \<in> set (w # ws) then STATE_ADD_IO else STATE_ADD_INPUT)"
| "invoke (w # ws) (Some c) = Some (fst (next_class w c False))"

lemma stable_view:
  "c \<noteq> STATE_ADD_INPUT \<Longrightarrow> fold view_step (map EAcc ws) (Some c, i, True) = (Some c, i, True)"
  by (induction ws) (cases c; auto)+

lemma unknown_view:
  "k \<noteq> STATE_ADD_INPUT \<Longrightarrow> fold view_step (map EAcc ws) (None, Some k, u) = (None, Some k, u)"
  by (induction ws) auto

lemma input_iter_view:
  "fold view_step (map EAcc ws) (None, Some STATE_ADD_INPUT, u)
     = (None, Some (if True \<in> set ws then STATE_ADD_IO else STATE_ADD_INPUT), u)"
  by (induction ws) (auto simp: unknown_view)

lemma input_view:
  "fold view_step (map EAcc ws) (Some STATE_ADD_INPUT, i, u)
     = (if True \<in> set ws then (Some STATE_ADD_IO, i, True) else (Some STATE_ADD_INPUT, i, u))"
  by (induction ws) (auto simp: stable_view)

definition access_class :: "operations \<Rightarrow> bool" where
  "access_class c \<longleftrightarrow> c \<in> {STATE_ADD_INPUT, STATE_ADD_IO, STATE_ADD_CIO, STATE_ADD_TIO,
                           STATE_ADD_OUTPUT, STATE_ADD_CO, STATE_ADD_TO}"

lemma fst_invocation:
  assumes "\<And>k. c = Some k \<Longrightarrow> access_class k"
  shows "fst (fold view_step (invocation acc) (c, i, u)) = invoke acc c"
proof (cases acc)
  case Nil
  then show ?thesis by (simp add: invocation_def split: option.split)
next
  case (Cons w ws)
  show ?thesis
  proof (cases c)
    case None
    with Cons show ?thesis by (simp add: invocation_def input_iter_view unknown_view)
  next
    case (Some k)
    with assms have "access_class k" by simp
    with Cons Some show ?thesis
      by (auto simp: access_class_def invocation_def input_view stable_view)
  qed
qed

lemma classify_class: "classify hist = Some k \<Longrightarrow> access_class k"
  by (auto simp: classify_def class_of_def cross_class_def access_class_def
      split: if_splits list.splits)

lemma dropWhile_snoc:
  "dropWhile P (xs @ [x])
     = (case dropWhile P xs of [] \<Rightarrow> if P x then [] else [x] | y # ys \<Rightarrow> y # ys @ [x])"
  by (induction xs) auto

lemma class_of_Nil [simp]: "class_of [] = None"
  by (simp add: class_of_def)

lemma class_of_snoc: "class_of (ne @ [w # ws]) = invoke (w # ws) (class_of ne)"
proof (cases "ne = []")
  case True
  then show ?thesis by (auto simp: class_of_def cross_class_def)
next
  case ne: False
  let ?d = "dropWhile (\<lambda>acc. True \<notin> set acc) ne"
  show ?thesis
  proof (cases "hd (hd ne)")
    case True
    then show ?thesis using ne by (auto simp: class_of_def cross_class_def)
  next
    case False
    then have "class_of (ne @ [w # ws]) = Some (case ?d of
        [] \<Rightarrow> if True \<in> set (w # ws) then STATE_ADD_IO else STATE_ADD_INPUT
      | _ # later \<Rightarrow> cross_class STATE_ADD_IO STATE_ADD_CIO STATE_ADD_TIO (later @ [w # ws]))"
      using ne unfolding class_of_def dropWhile_snoc
      by (cases ?d) (simp_all add: cross_class_def del: dropWhile_eq_Nil_conv)
    also have "\<dots> = invoke (w # ws) (Some (case ?d of
        [] \<Rightarrow> STATE_ADD_INPUT | _ # later \<Rightarrow> cross_class STATE_ADD_IO STATE_ADD_CIO STATE_ADD_TIO later))"
      by (cases ?d) (auto simp: cross_class_def simp del: dropWhile_eq_Nil_conv)
    finally show ?thesis using ne False by (simp add: class_of_def)
  qed
qed

lemma classify_snoc: "classify (hist @ [acc]) = invoke acc (classify hist)"
  by (cases acc) (simp_all add: classify_def class_of_snoc)

lemma history_class:
  "fst (fold view_step (history_events hist) (None, None, False)) = classify hist"
proof (induction hist rule: rev_induct)
  case Nil
  show ?case by (simp add: history_events_def classify_def)
next
  case (snoc acc hist)
  obtain c i u where v: "fold view_step (history_events hist) (None, None, False) = (c, i, u)"
    by (metis surj_pair)
  with snoc have "c = classify hist" by simp
  with v fst_invocation [of c acc i u] classify_class [of hist] show ?case
    by (simp add: history_events_def classify_snoc)
qed

lemma pass1_class:
  assumes "clean_pass1 cfg es (bs, h) = Some (es', bs', h')"
    and "project (\<lambda>x. parent (states h x)) s p bs es = history_events hist"
    and "view (states h s) p = (None, None, False)"
  shows "statePtrMap (states h' s) p = classify hist"
proof -
  have "view (states h' s) p = fold view_step (history_events hist) (None, None, False)"
    using pass1_refines_automaton(1) [OF assms(1), of s p] assms(2,3) by simp
  then have "fst (view (states h' s) p) = classify hist" by (simp add: history_class)
  then show ?thesis by (simp add: view_def)
qed

section \<open>Properties\<close>

text \<open>
  C2: the first pass of \<open>cleanBatch\<close> implements the classification. When a pointer is unknown to a state and
  the batch shows it the invocations \<open>hist\<close> of that state, the state's \<open>statePtrMap\<close> afterwards has exactly
  the class the history means, for every interleaving with other pointers and other states.
\<close>

theorem pass1_classifies:
  assumes "clean_pass1 cfg es (bs, h) = Some (es', bs', h')"
    and "project (\<lambda>x. parent (states h x)) s p bs es = history_events hist"
    and "view (states h s) p = (None, None, False)"
  shows "statePtrMap (states h' s) p = classify hist"
  using pass1_class [OF assms] .

text \<open>Two invocations of state 0 that both write, then read, the pointer 64; pointer 72 is in between.\<close>

definition acc_entry :: "operations \<Rightarrow> u64 \<Rightarrow> shadowEntry" where
  "acc_entry x p = \<lparr>operation = op_word x, ptr = p, sizeState = Size 0, stateToSet = 0,
                    entryState = None, information = 0\<rparr>"

definition mark_entry :: "operations \<Rightarrow> sref \<Rightarrow> shadowEntry" where
  "mark_entry x s = \<lparr>operation = op_word x, ptr = 0, sizeState = StatePtr (Some s), stateToSet = 0,
                     entryState = None, information = 0\<rparr>"

definition sample_entries :: "shadowEntry list" where
  "sample_entries =
     [mark_entry STATE_BEGIN 0, acc_entry STATE_ADD_WRITE 64, acc_entry STATE_ADD_READ 72,
      acc_entry STATE_ADD_READ 64, mark_entry STATE_END 0,
      mark_entry STATE_BEGIN 0, acc_entry STATE_ADD_WRITE 64, mark_entry STATE_END 0]"

definition all_on :: config where
  "all_on = \<lparr>trackCycles = True, trackTransfer = True, trackCloneable = True, trackInput = True,
             trackOutput = True, disableOptimizations = False\<rparr>"

lemmas entry_eval = acc_entry_def mark_entry_def op_of_def op_word_def opcode_def operation_of_def
  operations_list_def statePtr_of_def set_op_def

lemma sample_pass1:
  "\<exists>es' h'. clean_pass1 all_on sample_entries (None, empty_store) = Some (es', None, h')"
  by (simp add: sample_entries_def entry_eval clean_entry1_def Let_def all_on_def empty_store_def
      new_State_def InitSpoorSets_def ComputationalSpoorTracking_def)

theorem pass1_classifies_witness:
  "\<exists>es' h'. clean_pass1 all_on sample_entries (None, empty_store) = Some (es', None, h')
     \<and> statePtrMap (states h' 0) 64 = Some STATE_ADD_CO"
proof -
  obtain es' h' where r: "clean_pass1 all_on sample_entries (None, empty_store) = Some (es', None, h')"
    using sample_pass1 by blast
  have p: "project (\<lambda>x. parent (states empty_store x)) 0 64 None sample_entries
      = history_events [[True, False], [True]]"
    by (simp add: sample_entries_def entry_eval acc_events_def history_events_def invocation_def)
  have v: "view (states empty_store 0) 64 = (None, None, False)"
    by (simp add: view_def empty_store_def new_State_def InitSpoorSets_def
        ComputationalSpoorTracking_def)
  have "classify [[True, False], [True]] = Some STATE_ADD_CO"
    by (simp add: classify_def class_of_def cross_class_def)
  with pass1_classifies [OF r p v] r show ?thesis by auto
qed

section \<open>What the cleaner returns\<close>

definition is_access :: "shadowEntry \<Rightarrow> bool" where
  "is_access e \<longleftrightarrow> op_of e = Some STATE_ADD_READ \<or> op_of e = Some STATE_ADD_WRITE"

definition is_mark :: "shadowEntry \<Rightarrow> bool" where
  "is_mark e \<longleftrightarrow> op_of e = Some STATE_BEGIN \<or> op_of e = Some STATE_END"

lemma op_word_inverse: "operation_of (unat (op_word x)) = Some x"
  by (cases x) (simp_all add: op_word_def opcode_def operation_of_def operations_list_def)

lemma op_of_set_op [simp]: "op_of (set_op x e) = Some x"
  by (simp add: op_of_def set_op_def op_word_inverse)

lemma is_access_set_op [simp]:
  "is_access (set_op x e) \<longleftrightarrow> x = STATE_ADD_READ \<or> x = STATE_ADD_WRITE"
  by (simp add: is_access_def)

lemma is_access_update [simp]: "is_access (e\<lparr>sizeState := x\<rparr>) = is_access e"
  by (simp add: is_access_def op_of_def)

text \<open>The state each entry is attributed to by the first pass, as in the variable \<open>batchState\<close>.\<close>

fun attributed :: "(sref \<Rightarrow> sref option) \<Rightarrow> sref option \<Rightarrow> shadowEntry list \<Rightarrow> sref option list" where
  "attributed par bs [] = []"
| "attributed par bs (e # es) =
     bs # attributed par (if op_of e = Some STATE_END then Option.bind (statePtr_of e) par
                          else if op_of e = Some STATE_BEGIN then statePtr_of e else bs) es"

lemma length_attributed [simp]: "length (attributed par bs es) = length es"
  by (induction es arbitrary: bs) auto

definition cleaned_once :: "config \<Rightarrow> shadowEntry \<Rightarrow> sref option \<Rightarrow> shadowEntry" where
  "cleaned_once cfg e bs =
     (if is_access e then
        (case bs of None \<Rightarrow> if trackCycles cfg then set_op REDUNDANT e else e
         | Some s \<Rightarrow> e\<lparr>sizeState := StatePtr bs\<rparr>)
      else if is_mark e then set_op REDUNDANT e else e)"

lemma pass1_entries:
  "clean_pass1 cfg es (bs, h) = Some (es', bs', h') \<Longrightarrow>
   es' = map2 (cleaned_once cfg) es (attributed (\<lambda>x. parent (states h x)) bs es)"
proof (induction es arbitrary: bs h es')
  case (Cons e es)
  then obtain e1 bs1 h1 es1 where 1: "clean_entry1 cfg e (bs, h) = Some (e1, bs1, h1)"
    and 2: "clean_pass1 cfg es (bs1, h1) = Some (es1, bs', h')" and es': "es' = e1 # es1"
    by (auto split: option.splits)
  have par: "(\<lambda>x. parent (states h1 x)) = (\<lambda>x. parent (states h x))"
    using 1 by (auto simp: clean_entry1_def Let_def fun_eq_iff
        split: option.splits operations.splits if_splits)
  have "e1 = cleaned_once cfg e bs"
    using 1 by (auto simp: clean_entry1_def Let_def cleaned_once_def is_access_def is_mark_def
        split: option.splits operations.splits if_splits)
  moreover have "bs1 = (if op_of e = Some STATE_END
        then Option.bind (statePtr_of e) (\<lambda>x. parent (states h x))
        else if op_of e = Some STATE_BEGIN then statePtr_of e else bs)"
    using 1 by (auto simp: clean_entry1_def Let_def split: option.splits operations.splits if_splits)
  ultimately show ?case using Cons.IH [OF 2] par es' by simp
qed simp

lemma pass1_returns:
  "(\<forall>e \<in> set es. is_mark e \<longrightarrow> statePtr_of e \<noteq> None) \<Longrightarrow>
   \<exists>es' bs' h'. clean_pass1 cfg es (bs, h) = Some (es', bs', h')"
proof (induction es arbitrary: bs h)
  case (Cons e es)
  have "\<exists>e1 bs1 h1. clean_entry1 cfg e (bs, h) = Some (e1, bs1, h1)"
    using Cons.prems
    by (auto simp: clean_entry1_def Let_def is_mark_def split: option.splits operations.splits)
  then obtain e1 bs1 h1 where "clean_entry1 cfg e (bs, h) = Some (e1, bs1, h1)" by blast
  moreover obtain es' bs' h' where "clean_pass1 cfg es (bs1, h1) = Some (es', bs', h')"
    using Cons.IH [of bs1 h1] Cons.prems by auto
  ultimately show ?case by simp
qed simp

lemma pass2_returns:
  "(\<forall>e \<in> set es. is_access e \<longrightarrow> statePtr_of e \<noteq> None) \<Longrightarrow> \<exists>es'. clean_pass2 cfg h es = Some es'"
  by (induction es) (auto simp: clean_entry2_def is_access_def split: option.splits)

text \<open>
  C14: with cycle tracking on, as by default, \<open>cleanBatch\<close> never dereferences a null state when every begin and
  end entry carries a state: it returns for every batch and every initial state.
\<close>

theorem cleanBatch_returns:
  assumes "trackCycles cfg"
    and "\<forall>e \<in> set (take (numEntries b) (shadowEntries b)). is_mark e \<longrightarrow> statePtr_of e \<noteq> None"
  shows "\<exists>b' os' h'. cleanBatch cfg b (os, h) = Some (b', os', h')"
proof -
  obtain es' bs' h' where
    1: "clean_pass1 cfg (take (numEntries b) (shadowEntries b)) (os, h) = Some (es', bs', h')"
    using pass1_returns [OF assms(2)] by blast
  have "is_access (cleaned_once cfg e o1) \<longrightarrow> statePtr_of (cleaned_once cfg e o1) \<noteq> None" for e o1
    using assms(1) by (auto simp: cleaned_once_def statePtr_of_def split: option.splits)
  then have "\<forall>e \<in> set es'. is_access e \<longrightarrow> statePtr_of e \<noteq> None"
    using pass1_entries [OF 1] by (auto simp: set_zip)
  then obtain es'' where "clean_pass2 cfg h' es' = Some es''" using pass2_returns by blast
  with 1 show ?thesis by (simp add: cleanBatch_def Let_def)
qed

theorem cleanBatch_returns_witness:
  "\<exists>b' os' h'. cleanBatch all_on \<lparr>numEntries = 8, shadowEntries = sample_entries, status = NEW_BATCH,
       batchNumber = 0\<rparr> (None, empty_store) = Some (b', os', h')"
  by (rule cleanBatch_returns)
    (simp_all add: all_on_def sample_entries_def entry_eval is_mark_def)

text \<open>
  With cycle tracking off, an access entry outside every state makes \<open>cleanBatch\<close> dereference whatever its
  slot held before: the first pass keeps the entry without setting its state. The guard of that branch is
  the opposite of the one the second pass uses, which drops entries when cycles are not tracked.
\<close>

theorem cleanBatch_stateless_access_fails:
  assumes "\<not> trackCycles cfg" and "is_access e" and "statePtr_of e = None"
  shows "cleanBatch cfg \<lparr>numEntries = 1, shadowEntries = e # rest, status = st, batchNumber = n\<rparr> (None, h)
     = None"
  using assms by (auto simp: cleanBatch_def clean_entry1_def clean_entry2_def is_access_def Let_def)

theorem cleanBatch_stateless_access_fails_witness:
  "cleanBatch (all_on\<lparr>trackCycles := False\<rparr>) \<lparr>numEntries = 1,
      shadowEntries = [acc_entry STATE_ADD_READ 64], status = NEW_BATCH, batchNumber = 0\<rparr>
      (None, empty_store) = None"
  using cleanBatch_stateless_access_fails [of "all_on\<lparr>trackCycles := False\<rparr>"
      "acc_entry STATE_ADD_READ 64" "[]" NEW_BATCH 0 empty_store]
  by (simp add: all_on_def is_access_def entry_eval)

section \<open>How entries are rewritten\<close>

definition final_op :: "config \<Rightarrow> operations option \<Rightarrow> shadowEntry \<Rightarrow> operations option" where
  "final_op cfg cls e =
     (case cls of
        Some c \<Rightarrow> if tracked cfg c = Some True then Some c
                  else if trackCycles cfg then op_of e else Some REDUNDANT
      | None \<Rightarrow> if trackCycles cfg then op_of e else Some REDUNDANT)"

lemma pass2_nth:
  "clean_pass2 cfg h es = Some es' \<Longrightarrow>
   length es' = length es \<and> (\<forall>i < length es. clean_entry2 cfg h (es ! i) = Some (es' ! i))"
proof (induction es arbitrary: es')
  case (Cons e es)
  then obtain e1 es1 where "clean_entry2 cfg h e = Some e1" "clean_pass2 cfg h es = Some es1"
    "es' = e1 # es1" by (auto split: option.splits)
  with Cons.IH show ?case by (auto simp: nth_Cons split: nat.split)
qed simp

lemma op_of_update [simp]: "op_of (e\<lparr>sizeState := x\<rparr>) = op_of e"
  by (simp add: op_of_def)

text \<open>What both passes make of a slot, when its state attributes the class \<open>cls\<close> to its pointer.\<close>

definition rewritten :: "config \<Rightarrow> operations option \<Rightarrow> shadowEntry \<Rightarrow> shadowEntry" where
  "rewritten cfg cls e =
     (case cls of
        Some c \<Rightarrow> if tracked cfg c = Some True then set_op c e else drop_unless_cycles cfg e
      | None \<Rightarrow> drop_unless_cycles cfg e)"

definition cleaned :: "config \<Rightarrow> operations option \<Rightarrow> shadowEntry \<Rightarrow> sref option \<Rightarrow> shadowEntry" where
  "cleaned cfg cls e bs =
     (if is_access e then
        (case bs of None \<Rightarrow> set_op REDUNDANT e
         | Some s \<Rightarrow> rewritten cfg cls (e\<lparr>sizeState := StatePtr (Some s)\<rparr>))
      else if is_mark e then set_op REDUNDANT e else e)"

lemma op_of_rewritten: "op_of (rewritten cfg cls e) = final_op cfg cls e"
  by (simp add: rewritten_def final_op_def drop_unless_cycles_def split: option.split)

lemma clean_entry2_rewrites:
  assumes "is_access e" and "statePtr_of e = Some s"
    and "\<And>c. statePtrMap (states h s) (ptr e) = Some c \<Longrightarrow> access_class c"
  shows "clean_entry2 cfg h e = Some (rewritten cfg (statePtrMap (states h s) (ptr e)) e)"
  using assms
  by (auto simp: clean_entry2_def is_access_def rewritten_def access_class_def tracked_def split: option.splits)

lemma cleanBatch_decompose:
  assumes "cleanBatch cfg b (os, h) = Some (b', os', h')"
  obtains es es' where
    "clean_pass1 cfg (take (numEntries b) (shadowEntries b)) (os, h) = Some (es, os', h')"
    "clean_pass2 cfg h' es = Some es'"
    "shadowEntries b' = es' @ drop (numEntries b) (shadowEntries b)"
  using assms by (auto simp: cleanBatch_def Let_def split: option.splits if_splits)

lemma cleanBatch_size:
  assumes "cleanBatch cfg b (os, h) = Some (b', os', h')"
  shows "length (shadowEntries b') = length (shadowEntries b) \<and> numEntries b' = numEntries b"
proof -
  obtain es es' where 1: "clean_pass1 cfg (take (numEntries b) (shadowEntries b)) (os, h) = Some (es, os', h')"
    and 2: "clean_pass2 cfg h' es = Some es'"
    and out: "shadowEntries b' = es' @ drop (numEntries b) (shadowEntries b)"
    using cleanBatch_decompose [OF assms] by blast
  have "numEntries b' = numEntries b"
    using assms by (auto simp: cleanBatch_def Let_def split: option.splits if_splits)
  then show ?thesis using pass1_entries [OF 1] pass2_nth [OF 2] out by auto
qed

text \<open>Every slot of a cleaned batch, from the automaton of its pointer.\<close>

definition batch_entries :: "shadowBatch \<Rightarrow> shadowEntry list" where
  "batch_entries b = take (numEntries b) (shadowEntries b)"

lemma cleanBatch_slot:
  assumes clean: "cleanBatch cfg b (os, h) = Some (b', os', h')"
    and i: "i < numEntries b" "i < length (shadowEntries b)"
    and out: "is_access (shadowEntries b ! i) \<Longrightarrow>
      attributed (\<lambda>x. parent (states h x)) os (batch_entries b) ! i = None \<Longrightarrow> trackCycles cfg"
    and cls: "\<And>s. is_access (shadowEntries b ! i) \<Longrightarrow>
      attributed (\<lambda>x. parent (states h x)) os (batch_entries b) ! i = Some s \<Longrightarrow>
      fst (fold view_step (project (\<lambda>x. parent (states h x)) s (ptr (shadowEntries b ! i)) os (batch_entries b))
        (view (states h s) (ptr (shadowEntries b ! i)))) = c"
    and ok: "\<And>k. c = Some k \<Longrightarrow> access_class k"
  shows "shadowEntries b' ! i
      = cleaned cfg c (shadowEntries b ! i) (attributed (\<lambda>x. parent (states h x)) os (batch_entries b) ! i)
    \<and> length (shadowEntries b') = length (shadowEntries b)
    \<and> drop (numEntries b) (shadowEntries b') = drop (numEntries b) (shadowEntries b)"
proof -
  let ?in = "batch_entries b" and ?e = "shadowEntries b ! i"
  let ?at = "attributed (\<lambda>x. parent (states h x)) os ?in ! i"
  obtain es es' where 1: "clean_pass1 cfg ?in (os, h) = Some (es, os', h')"
    and 2: "clean_pass2 cfg h' es = Some es'"
    and b': "shadowEntries b' = es' @ drop (numEntries b) (shadowEntries b)"
    using cleanBatch_decompose [OF clean] unfolding batch_entries_def by blast
  note p1 = pass1_entries [OF 1]
  have len: "length es = length ?in" "length es' = length ?in" using p1 pass2_nth [OF 2] by simp_all
  have li: "i < length ?in" using i by (simp add: batch_entries_def)
  have esi: "es ! i = cleaned_once cfg ?e ?at" using i li by (simp add: p1 batch_entries_def)
  have slot: "clean_entry2 cfg h' (es ! i) = Some (es' ! i)" using pass2_nth [OF 2] li len by simp
  have "es' ! i = cleaned cfg c ?e ?at"
  proof (cases "is_access ?e \<and> ?at \<noteq> None")
    case True
    then obtain s where s: "?at = Some s" by auto
    have "fst (view (states h' s) (ptr ?e)) = c"
      using pass1_refines_automaton(1) [OF 1, of s "ptr ?e"] cls True s by simp
    then have map: "statePtrMap (states h' s) (ptr ?e) = c" by (simp add: view_def)
    have "clean_entry2 cfg h' (es ! i) = Some (rewritten cfg c (es ! i))"
      using clean_entry2_rewrites [of "es ! i" s h' cfg] True map ok by (simp add: esi s cleaned_once_def statePtr_of_def)
    then show ?thesis using slot True by (simp add: esi s cleaned_once_def cleaned_def)
  next
    case False
    then have "es ! i = cleaned cfg c ?e ?at" using out by (auto simp: esi cleaned_once_def cleaned_def)
    moreover have "\<not> is_access (es ! i)" using False out by (auto simp: esi cleaned_once_def split: if_splits)
    ultimately show ?thesis using slot by (simp add: clean_entry2_def is_access_def)
  qed
  moreover have "shadowEntries b' ! i = es' ! i" using b' li len by (simp add: nth_append)
  moreover have "length (shadowEntries b') = length (shadowEntries b)" using cleanBatch_size [OF clean] by simp
  moreover have "drop (numEntries b) (shadowEntries b') = drop (numEntries b) (shadowEntries b)"
    using b' len i by (auto simp: batch_entries_def min_def)
  ultimately show ?thesis by simp
qed

section \<open>Sequences of batches\<close>








lemma no_end_no_class:
  "EEnd \<notin> set evs \<Longrightarrow> fst (fold view_step evs (None, i, u)) = None"
proof (induction evs arbitrary: i u)
  case (Cons ev evs)
  then show ?case by (cases ev; cases i) auto
qed simp







section \<open>Invocations that span two batches\<close>

text \<open>
  An access of an invocation that has not ended when its batch is cleaned never reaches the state's sets. The
  pointer is new to the state and no end entry of the state is in the batch, so the pointer has no class
  yet and the entry becomes \<open>REDUNDANT\<close>, or stays a plain access for the cycle tracker: no entry of the batch
  is rewritten to an access class, although the same accesses in one batch with the end entry are.
\<close>

theorem cleanBatch_open_invocation_drops:
  assumes clean: "cleanBatch cfg b (os, h) = Some (b', os', h')"
    and i: "i < numEntries b" "i < length (shadowEntries b)"
    and acc: "is_access (shadowEntries b ! i)"
    and st: "attributed (\<lambda>x. parent (states h x)) os (take (numEntries b) (shadowEntries b)) ! i = Some s"
    and new: "statePtrMap (states h s) (ptr (shadowEntries b ! i)) = None"
    and open_inv: "EEnd \<notin> set (project (\<lambda>x. parent (states h x)) s (ptr (shadowEntries b ! i)) os
                 (take (numEntries b) (shadowEntries b)))"
  shows "op_of (shadowEntries b' ! i)
     = (if trackCycles cfg then op_of (shadowEntries b ! i) else Some REDUNDANT)"
proof -
  obtain it u where "view (states h s) (ptr (shadowEntries b ! i)) = (None, it, u)"
    using new by (simp add: view_def)
  then have "shadowEntries b' ! i = cleaned cfg None (shadowEntries b ! i) (Some s)"
    using cleanBatch_slot [OF clean i, of None] acc st no_end_no_class [OF open_inv, of it u]
    by (simp add: batch_entries_def)
  then show ?thesis using acc by (simp add: cleaned_def op_of_rewritten final_op_def)
qed

theorem cleanBatch_open_invocation_drops_witness:
  "\<exists>b' os' h'. cleanBatch (all_on\<lparr>trackCycles := False\<rparr>) \<lparr>numEntries = 2,
       shadowEntries = [mark_entry STATE_BEGIN 0, acc_entry STATE_ADD_WRITE 64], status = NEW_BATCH,
       batchNumber = 0\<rparr> (None, empty_store) = Some (b', os', h')
     \<and> op_of (shadowEntries b' ! 1) = Some REDUNDANT"
proof -
  let ?b = "\<lparr>numEntries = 2, shadowEntries = [mark_entry STATE_BEGIN 0, acc_entry STATE_ADD_WRITE 64],
      status = NEW_BATCH, batchNumber = 0\<rparr>"
  obtain b' os' h' where
    r: "cleanBatch (all_on\<lparr>trackCycles := False\<rparr>) ?b (None, empty_store) = Some (b', os', h')"
    by (simp add: cleanBatch_def entry_eval clean_entry1_def clean_entry2_def Let_def
        all_on_def empty_store_def new_State_def InitSpoorSets_def ComputationalSpoorTracking_def
        drop_unless_cycles_def)
  show ?thesis
    using cleanBatch_open_invocation_drops [OF r, of 1 0] r
    by (simp add: entry_eval is_access_def acc_events_def empty_store_def new_State_def
        InitSpoorSets_def ComputationalSpoorTracking_def all_on_def)
qed

end
