(* ===== verification/Shadow_Worker.thy ===== *)
theory Shadow_Worker
  imports Allocation_Table Clean_Batch
begin

text \<open>
  Class \<open>Shadow\<close> (\<open>Shadow.hpp\<close>, \<open>Shadow.cpp\<close>): the worker that executes the entries of a cleaned batch on an
  allocation table. A queue of overflow work holds pointers to slots of the batch, here indices, because a
  worker updates an entry in place while it walks up the parents of a state.

  \<open>mem\<close> is the memory of the profiled program and \<open>scc\<close> the component function of the graph library, as in the
  theory of the table. \<open>None\<close> is a read outside the batch, a null dereference, the inactive member of the union
  \<open>sizeState\<close>, or a wait that never ends. A \<open>DETECT_CYCLE\<close> entry sets its synchronisation variable to 1 and spins until
  another thread has set it back: \<open>sync p\<close> says whether a thread that waits for the variable at \<open>p\<close> does so.
\<close>

section \<open>Data\<close>

record worker =
  localAllocationTable :: AllocationTable
  w_store :: store
  w_slots :: "shadowEntry list"
  overflowWork :: "nat list"
  leftOverflow :: "nat list option"

definition push_overflow :: "nat \<Rightarrow> worker \<Rightarrow> worker" where
  "push_overflow i w =
     (if leftOverflow w \<noteq> None then w\<lparr>overflowWork := overflowWork w @ [i]\<rparr> else w)"

definition push_left :: "nat \<Rightarrow> worker \<Rightarrow> worker" where
  "push_left i w = w\<lparr>leftOverflow := map_option (\<lambda>q. q @ [i]) (leftOverflow w)\<rparr>"

definition size_of :: "shadowEntry \<Rightarrow> u64 option" where
  "size_of e = (case sizeState e of Size n \<Rightarrow> Some n | StatePtr _ \<Rightarrow> None)"

section \<open>Allocations and escapes\<close>

definition origin_alloc :: "shadowEntry \<Rightarrow> u64 \<Rightarrow> store \<Rightarrow> aref \<times> store" where
  "origin_alloc e n h =
     (case map_of (originToAllocMap h) (information e) of
        None \<Rightarrow>
          (case alloc_Allocation (ptr e) n (information e) h of
             (a, h1) \<Rightarrow> (a, h1\<lparr>originToAllocMap := um_insert (information e) a (originToAllocMap h1)\<rparr>))
      | Some a \<Rightarrow> (a, upd_alloc a (\<lambda>al. al\<lparr>pointer := ptr e, len := n\<rparr>) h))"

definition add_allocated :: "aref \<Rightarrow> sref \<Rightarrow> store \<Rightarrow> store" where
  "add_allocated a s h =
     upd_state s (\<lambda>st. st\<lparr>AllocsAllocatedInState := us_insert a (AllocsAllocatedInState st)\<rparr>) h"

definition processAddAlloc :: "nat \<Rightarrow> worker \<Rightarrow> worker option" where
  "processAddAlloc i w =
     (let e = w_slots w ! i in
      case size_of e of None \<Rightarrow> None
      | Some n \<Rightarrow>
          (case origin_alloc e n (w_store w) of
             (a, h1) \<Rightarrow>
               (let t1 = InsertAllocation (ptr e) a h1 (localAllocationTable w);
                    h2 = upd_alloc a (\<lambda>al. al\<lparr>affiliatedState := entryState e\<rparr>) h1
                in case state_chain (states h2) (entryState e) of
                     None \<Rightarrow> None
                   | Some ss \<Rightarrow>
                       Some (w\<lparr>localAllocationTable := t1, w_store := fold (add_allocated a) ss h2\<rparr>))))"

definition processAddEscape :: "(u64 \<Rightarrow> u64) \<Rightarrow> nat \<Rightarrow> worker \<Rightarrow> worker" where
  "processAddEscape mem i w =
     (let addressEscaping = ptr (w_slots w ! i) in
      if addressEscaping = 0 \<or> mem addressEscaping = 0 then w
      else case findAllocation (localAllocationTable w) (w_store w) (mem addressEscaping) of
             None \<Rightarrow> push_overflow i w
           | Some a \<Rightarrow>
               w\<lparr>w_store := upd_alloc a (\<lambda>al. al\<lparr>allocToEscapeMap :=
                                us_insert addressEscaping (allocToEscapeMap al)\<rparr>) (w_store w)\<rparr>)"

definition processFreeAllocation :: "nat \<Rightarrow> worker \<Rightarrow> worker option" where
  "processFreeAllocation i w =
     (let e = w_slots w ! i in
      case findAllocation (localAllocationTable w) (w_store w) (ptr e) of
        None \<Rightarrow> Some (push_overflow i w)
      | Some a \<Rightarrow>
          (case commitStateInfo a (entryState e) (w_store w) of
             None \<Rightarrow> None
           | Some (_, h1) \<Rightarrow>
               Some (w\<lparr>localAllocationTable := DeleteAllocation (ptr e) (localAllocationTable w),
                       w_store := h1\<rparr>)))"

section \<open>Accesses\<close>

definition new_info :: StateCommitInfo where
  "new_info = \<lparr>useInfo = [], stateSetToOffsetMap = [], regionBasedOffsets = False\<rparr>"

definition add_use :: "u64 \<Rightarrow> StateCommitInfo \<Rightarrow> StateCommitInfo" where
  "add_use u i = i\<lparr>useInfo := us_insert u (useInfo i)\<rparr>"

definition add_info_offset :: "nat \<Rightarrow> u64 list \<Rightarrow> StateCommitInfo \<Rightarrow> StateCommitInfo" where
  "add_info_offset c os i = i\<lparr>stateSetToOffsetMap := add_offsets c os (stateSetToOffsetMap i)\<rparr>"

definition modify_info ::
  "sref \<Rightarrow> (StateCommitInfo \<Rightarrow> StateCommitInfo) \<Rightarrow> Allocation \<Rightarrow> Allocation" where
  "modify_info s f al =
     al\<lparr>StateCommitInfoMap := um_modify s f (um_insert s new_info (StateCommitInfoMap al))\<rparr>"

definition record_access :: "shadowEntry \<Rightarrow> sref \<Rightarrow> Allocation \<Rightarrow> Allocation" where
  "record_access e s al =
     modify_info s
       (add_info_offset (unat (operation e)) [ptr e - pointer al]
        \<circ> (if information e \<noteq> 0 then add_use (information e) else id)) al"

definition touch :: "config \<Rightarrow> aref \<Rightarrow> store \<Rightarrow> store" where
  "touch cfg a h =
     (if trackCycles cfg
      then (upd_alloc a (\<lambda>al. al\<lparr>freshness := freshnessSetter h\<rparr>) h)
             \<lparr>freshnessSetter := freshnessSetter h + 1\<rparr>
      else h)"

definition set_statePtr :: "nat \<Rightarrow> sref \<Rightarrow> worker \<Rightarrow> worker" where
  "set_statePtr i s w = w\<lparr>w_slots := (w_slots w)[i := (w_slots w ! i)\<lparr>sizeState := StatePtr (Some s)\<rparr>]\<rparr>"

partial_function (option) processAddToState :: "config \<Rightarrow> nat \<Rightarrow> worker \<Rightarrow> worker option" where
  "processAddToState cfg i w =
     (case findAllocation (localAllocationTable w) (w_store w) (ptr (w_slots w ! i)) of
        None \<Rightarrow> Some (push_overflow i w)
      | Some a \<Rightarrow>
          if trackCycles cfg \<and> is_access (w_slots w ! i)
          then Some (w\<lparr>w_store := touch cfg a (w_store w)\<rparr>)
          else (case statePtr_of (w_slots w ! i) of
                  None \<Rightarrow> None
                | Some s \<Rightarrow>
                    (case parent (states (w_store w) s) of
                       None \<Rightarrow>
                         Some (w\<lparr>w_store := upd_alloc a (record_access (w_slots w ! i) s)
                                              (touch cfg a (w_store w))\<rparr>)
                     | Some p \<Rightarrow>
                         processAddToState cfg i
                           (set_statePtr i p
                             (w\<lparr>w_store := upd_alloc a (record_access (w_slots w ! i) s)
                                              (touch cfg a (w_store w))\<rparr>)))))"

definition record_region :: "shadowEntry \<Rightarrow> u64 \<Rightarrow> sref \<Rightarrow> Allocation \<Rightarrow> Allocation" where
  "record_region e n s al =
     (let beginningOffset = GetOffset (pointer al) (ptr e);
          endOffset = beginningOffset + n
      in modify_info s
           ((\<lambda>i. i\<lparr>regionBasedOffsets := True\<rparr>)
            \<circ> add_info_offset (unat (stateToSet e)) [beginningOffset, endOffset]
            \<circ> add_use (information e)) al)"

definition set_entryState :: "nat \<Rightarrow> sref \<Rightarrow> worker \<Rightarrow> worker" where
  "set_entryState i s w = w\<lparr>w_slots := (w_slots w)[i := (w_slots w ! i)\<lparr>entryState := Some s\<rparr>]\<rparr>"

partial_function (option) processStateRegionSet :: "nat \<Rightarrow> worker \<Rightarrow> worker option" where
  "processStateRegionSet i w =
     (case findAllocation (localAllocationTable w) (w_store w) (ptr (w_slots w ! i)) of
        None \<Rightarrow> Some (push_overflow i w)
      | Some a \<Rightarrow>
          (case (size_of (w_slots w ! i), entryState (w_slots w ! i)) of
             (Some n, Some s) \<Rightarrow>
               (case parent (states (w_store w) s) of
                  None \<Rightarrow>
                    Some (w\<lparr>w_store := upd_alloc a (record_region (w_slots w ! i) n s) (w_store w)\<rparr>)
                | Some p \<Rightarrow>
                    processStateRegionSet i
                      (set_entryState i p
                        (w\<lparr>w_store := upd_alloc a (record_region (w_slots w ! i) n s) (w_store w)\<rparr>)))
           | _ \<Rightarrow> None))"

declare processAddToState.simps [code] processStateRegionSet.simps [code]

section \<open>Running a batch\<close>

definition commit_step :: "nat \<Rightarrow> worker \<Rightarrow> worker option" where
  "commit_step i w =
     (if leftOverflow w = None then
        (case (CommitStateInfoForAllocations (localAllocationTable w) (w_store w),
               statePtr_of (w_slots w ! i)) of
           (Some h1, Some s) \<Rightarrow> Some (w\<lparr>w_store := upd_state s CommitState h1\<rparr>)
         | _ \<Rightarrow> None)
      else Some (push_left i w))"

definition detect_step :: "(u64 \<Rightarrow> u64) \<Rightarrow> (graph \<Rightarrow> int list) \<Rightarrow> (u64 \<Rightarrow> bool) \<Rightarrow> nat \<Rightarrow> worker \<Rightarrow> worker option" where
  "detect_step mem scc sync i w =
     (if leftOverflow w = None then
        (case (GenerateConnectionGraph mem (localAllocationTable w) (w_store w), size_of (w_slots w ! i)) of
           ((t1, h1), Some n) \<Rightarrow>
             (let syncVar = ptr (w_slots w ! i) in
              if syncVar = 0 \<or> \<not> sync syncVar then None
              else Some (w\<lparr>localAllocationTable :=
                              (if n = - 1 then FindCyclesInConnectionGraph scc h1 t1
                               else FindCyclesInConnectionGraph_filter scc n h1 t1),
                           w_store := h1\<rparr>))
         | _ \<Rightarrow> None)
      else Some (push_left i w))"

definition process_entry ::
  "config \<Rightarrow> (u64 \<Rightarrow> u64) \<Rightarrow> (graph \<Rightarrow> int list) \<Rightarrow> (u64 \<Rightarrow> bool) \<Rightarrow> nat \<Rightarrow> worker \<Rightarrow> worker option" where
  "process_entry cfg mem scc sync i w =
     (if i < length (w_slots w) then
        (case op_of (w_slots w ! i) of
           Some ALLOC_ADD \<Rightarrow> processAddAlloc i w
         | Some ALLOC_FREE \<Rightarrow> processFreeAllocation i w
         | Some ESCAPE_ADD \<Rightarrow> Some (processAddEscape mem i w)
         | Some STATE_ADD_READ \<Rightarrow> processAddToState cfg i w
         | Some STATE_ADD_WRITE \<Rightarrow> processAddToState cfg i w
         | Some STATE_ADD_INPUT \<Rightarrow> processAddToState cfg i w
         | Some STATE_ADD_IO \<Rightarrow> processAddToState cfg i w
         | Some STATE_ADD_CIO \<Rightarrow> processAddToState cfg i w
         | Some STATE_ADD_TIO \<Rightarrow> processAddToState cfg i w
         | Some STATE_ADD_OUTPUT \<Rightarrow> processAddToState cfg i w
         | Some STATE_ADD_CO \<Rightarrow> processAddToState cfg i w
         | Some STATE_ADD_TO \<Rightarrow> processAddToState cfg i w
         | Some STATE_COMMIT \<Rightarrow> commit_step i w
         | Some STATE_REGION_SET \<Rightarrow> processStateRegionSet i w
         | Some DETECT_CYCLE \<Rightarrow> detect_step mem scc sync i w
         | _ \<Rightarrow> Some w)
      else None)"

fun process_all ::
  "config \<Rightarrow> (u64 \<Rightarrow> u64) \<Rightarrow> (graph \<Rightarrow> int list) \<Rightarrow> (u64 \<Rightarrow> bool) \<Rightarrow> nat list \<Rightarrow> worker \<Rightarrow> worker option" where
  "process_all cfg mem scc sync [] w = Some w"
| "process_all cfg mem scc sync (i # is) w =
     (case process_entry cfg mem scc sync i w of None \<Rightarrow> None | Some w1 \<Rightarrow> process_all cfg mem scc sync is w1)"

text \<open>
  \<open>right\<close> is the state of the right shadow when it has set \<open>done\<close>: its table and its overflow work. The table
  of the right shadow is cleared after the merge.
\<close>

definition processShadowBatch ::
  "config \<Rightarrow> (u64 \<Rightarrow> u64) \<Rightarrow> (graph \<Rightarrow> int list) \<Rightarrow> (u64 \<Rightarrow> bool) \<Rightarrow> nat \<Rightarrow> nat \<Rightarrow> (AllocationTable \<times> nat list) option
   \<Rightarrow> worker \<Rightarrow> (worker \<times> AllocationTable option) option" where
  "processShadowBatch cfg mem scc sync leftBound rightBound right w =
     (case process_all cfg mem scc sync [leftBound..<Suc rightBound] (w\<lparr>overflowWork := []\<rparr>) of
        None \<Rightarrow> None
      | Some w1 \<Rightarrow>
          (case right of
             None \<Rightarrow> Some (w1, None)
           | Some (rt, work) \<Rightarrow>
               (case process_all cfg mem scc sync work
                       (w1\<lparr>localAllocationTable := MergeTable rt True (localAllocationTable w1)\<rparr>) of
                  None \<Rightarrow> None
                | Some w2 \<Rightarrow> Some (w2, Some (Clear rt)))))"

definition Shadow_new :: "AllocationTable \<Rightarrow> nat list option \<Rightarrow> store \<Rightarrow> shadowEntry list \<Rightarrow> worker" where
  "Shadow_new table left h slots =
     \<lparr>localAllocationTable = table, w_store = h, w_slots = slots, overflowWork = [], leftOverflow = left\<rparr>"

section \<open>The bounds of a shadow\<close>

definition shadow_bounds :: "nat \<Rightarrow> nat \<Rightarrow> nat \<Rightarrow> nat \<times> nat" where
  "shadow_bounds num_shadows n tid =
     (let subBatchSize = n div num_shadows; extraWork = n mod num_shadows in
      if subBatchSize = 0 then (0, if tid = 0 then extraWork else 0)
      else (tid * subBatchSize,
            (tid + 1) * subBatchSize - 1 + (if tid + 1 = num_shadows then extraWork else 0)))"

section \<open>Pending information of an allocation\<close>

lemma set_offsets_append [simp]: "set_offsets (m @ n) k = set_offsets m k \<union> set_offsets n k"
  by (induction m) auto

lemma set_offsets_modify:
  "set_offsets (um_modify c (us_insert_all os) m) k
     = set_offsets m k \<union> (if c \<in> fst ` set m \<and> spoor_of_code c = Some k then set os else {})"
  by (induction m) (auto simp: um_modify_def split: if_splits)

lemma set_offsets_add:
  "set_offsets (add_offsets c os m) k
     = set_offsets m k \<union> (if spoor_of_code c = Some k then set os else {})"
proof -
  have "set_offsets (um_insert c [] m) k = set_offsets m k" by (simp add: um_insert_def)
  then show ?thesis by (simp add: add_offsets_def set_offsets_modify keys_um_insert)
qed

lemma info_offsets_add [simp]:
  "info_offsets (add_info_offset c os i) k
     = info_offsets i k \<union> (if spoor_of_code c = Some k then set os else {})"
  "info_offsets (add_use u i) k = info_offsets i k"
  "info_offsets (i\<lparr>regionBasedOffsets := b\<rparr>) k = info_offsets i k"
  "info_offsets new_info k = {}"
  by (simp_all add: info_offsets_def add_info_offset_def set_offsets_add add_use_def new_info_def)

lemma pending_modify_info:
  assumes "\<And>i k. info_offsets (f i) k = info_offsets i k \<union> D k"
  shows "pending (StateCommitInfoMap (modify_info s f al)) s' k
     = pending (StateCommitInfoMap al) s' k \<union> (if s' = s then D k else {})"
  using assms by (auto simp: pending_def modify_info_def split: option.splits)

definition access_delta :: "shadowEntry \<Rightarrow> u64 \<Rightarrow> spoor_set \<Rightarrow> u64 set" where
  "access_delta e base k =
     (if spoor_of_code (unat (operation e)) = Some k then {ptr e - base} else {})"

lemma pending_record_access:
  "pending (StateCommitInfoMap (record_access e s al)) s' k
     = pending (StateCommitInfoMap al) s' k \<union> (if s' = s then access_delta e (pointer al) k else {})"
  unfolding record_access_def
  by (rule pending_modify_info) (simp add: access_delta_def)

definition region_delta :: "shadowEntry \<Rightarrow> u64 \<Rightarrow> u64 \<Rightarrow> spoor_set \<Rightarrow> u64 set" where
  "region_delta e n base k =
     (if spoor_of_code (unat (stateToSet e)) = Some k then {ptr e - base, ptr e - base + n} else {})"

lemma pending_record_region:
  "pending (StateCommitInfoMap (record_region e n s al)) s' k
     = pending (StateCommitInfoMap al) s' k \<union> (if s' = s then region_delta e n (pointer al) k else {})"
  unfolding record_region_def Let_def
  by (rule pending_modify_info) (simp add: region_delta_def GetOffset_def)

lemma record_keeps [simp]:
  "pointer (record_access e s al) = pointer al" "len (record_access e s al) = len al"
  "pointer (record_region e n s al) = pointer al" "len (record_region e n s al) = len al"
  by (simp_all add: record_access_def record_region_def modify_info_def Let_def)

lemma touch_keeps [simp]:
  "states (touch cfg a h) = states h" "next_sref (touch cfg a h) = next_sref h"
  "pointer (allocs (touch cfg a h) b) = pointer (allocs h b)"
  "len (allocs (touch cfg a h) b) = len (allocs h b)"
  "StateCommitInfoMap (allocs (touch cfg a h) b) = StateCommitInfoMap (allocs h b)"
  by (simp_all add: touch_def)

lemma set_slot_keeps [simp]:
  "w_store (set_statePtr i s w) = w_store w" "localAllocationTable (set_statePtr i s w) = localAllocationTable w"
  "overflowWork (set_statePtr i s w) = overflowWork w" "leftOverflow (set_statePtr i s w) = leftOverflow w"
  "w_store (set_entryState i s w) = w_store w"
  "localAllocationTable (set_entryState i s w) = localAllocationTable w"
  "overflowWork (set_entryState i s w) = overflowWork w" "leftOverflow (set_entryState i s w) = leftOverflow w"
  by (simp_all add: set_statePtr_def set_entryState_def)

lemma findAllocation_upd:
  "(\<And>al. len (f al) = len al) \<Longrightarrow> findAllocation t (upd_alloc a f h) key = findAllocation t h key"
  by (rule findAllocation_len_cong) simp

lemma parents_ok_cong:
  "states h' = states h \<Longrightarrow> next_sref h' = next_sref h \<Longrightarrow> parents_ok h' = parents_ok h"
  by (simp add: parents_ok_def)

section \<open>Well-formed heaps\<close>

text \<open>
  Parents are created before their children, every allocation's pending information has codes of the seven
  classes only, and all references are to existing objects.
\<close>

definition heap_ok :: "store \<Rightarrow> bool" where
  "heap_ok h \<longleftrightarrow> parents_ok h
     \<and> (\<forall>a. infos_ok (StateCommitInfoMap (allocs h a)) \<and> state_ok h (affiliatedState (allocs h a)))"

definition entry_ok :: "config \<Rightarrow> (u64 \<Rightarrow> bool) \<Rightarrow> store \<Rightarrow> shadowEntry \<Rightarrow> bool" where
  "entry_ok cfg sync h e \<longleftrightarrow>
     (case op_of e of
        Some ALLOC_ADD \<Rightarrow> size_of e \<noteq> None \<and> state_ok h (entryState e)
      | Some ALLOC_FREE \<Rightarrow> state_ok h (entryState e)
      | Some STATE_ADD_READ \<Rightarrow> trackCycles cfg
      | Some STATE_ADD_WRITE \<Rightarrow> trackCycles cfg
      | Some STATE_COMMIT \<Rightarrow> statePtr_of e \<noteq> None
      | Some STATE_REGION_SET \<Rightarrow> size_of e \<noteq> None \<and> entryState e \<noteq> None \<and> state_ok h (entryState e)
                                  \<and> spoor_of_code (unat (stateToSet e)) \<noteq> None
      | Some DETECT_CYCLE \<Rightarrow> size_of e \<noteq> None \<and> ptr e \<noteq> 0 \<and> sync (ptr e)
      | Some x \<Rightarrow> access_class x \<longrightarrow> statePtr_of e \<noteq> None \<and> state_ok h (statePtr_of e)
      | None \<Rightarrow> True)"

lemma codes_ok_add [simp]:
  "codes_ok i \<Longrightarrow> spoor_of_code c \<noteq> None \<Longrightarrow> codes_ok (add_info_offset c os i)"
  "codes_ok (add_use u i) = codes_ok i" "codes_ok (i\<lparr>regionBasedOffsets := b\<rparr>) = codes_ok i"
  "codes_ok new_info"
  by (auto simp: codes_ok_def add_info_offset_def add_use_def new_info_def add_offsets_def set_um_modify
      um_insert_def)

lemma infos_ok_modify_info:
  assumes "infos_ok (StateCommitInfoMap al)" and "\<And>i. codes_ok i \<Longrightarrow> codes_ok (f i)"
  shows "infos_ok (StateCommitInfoMap (modify_info s f al))"
  using assms
  by (auto simp: infos_ok_def modify_info_def list_all_iff set_um_modify um_insert_def map_of_eq_None_iff)

lemma infos_ok_record:
  "infos_ok (StateCommitInfoMap al) \<Longrightarrow> spoor_of_code (unat (operation e)) \<noteq> None \<Longrightarrow>
   infos_ok (StateCommitInfoMap (record_access e s al))"
  "infos_ok (StateCommitInfoMap al) \<Longrightarrow> spoor_of_code (unat (stateToSet e)) \<noteq> None \<Longrightarrow>
   infos_ok (StateCommitInfoMap (record_region e n s al))"
  unfolding record_access_def record_region_def Let_def by (rule infos_ok_modify_info; simp)+

lemma affiliated_record [simp]:
  "affiliatedState (record_access e s al) = affiliatedState al"
  "affiliatedState (record_region e n s al) = affiliatedState al"
  by (simp_all add: record_access_def record_region_def modify_info_def Let_def)

lemma affiliated_touch [simp]: "affiliatedState (allocs (touch cfg a h) b) = affiliatedState (allocs h b)"
  "next_aref (touch cfg a h) = next_aref h"
  by (simp_all add: touch_def)

lemma state_ok_cong: "next_sref h' = next_sref h \<Longrightarrow> state_ok h' x = state_ok h x"
  by (simp add: state_ok_def split: option.split)

lemma heap_ok_touch: "heap_ok h \<Longrightarrow> heap_ok (touch cfg a h)"
  by (simp add: heap_ok_def parents_ok_cong [of "touch cfg a h" h] state_ok_cong [of "touch cfg a h" h])

lemma heap_ok_upd_alloc:
  assumes "heap_ok h" and "infos_ok (StateCommitInfoMap (f (allocs h a)))"
    and "state_ok h (affiliatedState (f (allocs h a)))"
  shows "heap_ok (upd_alloc a f h)"
  using assms
  by (simp add: heap_ok_def parents_ok_cong [of "upd_alloc a f h" h] state_ok_cong [of "upd_alloc a f h" h])

lemma heap_ok_alloc:
  "heap_ok h \<Longrightarrow> infos_ok (StateCommitInfoMap (allocs h a)) \<and> state_ok h (affiliatedState (allocs h a))"
  by (simp add: heap_ok_def)

section \<open>Walking up the parents of a state\<close>

text \<open>
  The contract \<open>processAddToState\<close> and \<open>processStateRegionSet\<close> share: both record an entry at the allocation
  it falls into for the entry's current state, then for the parent of that state, and so on.
\<close>

locale parent_walk =
  fixes proc :: "nat \<Rightarrow> worker \<Rightarrow> worker option"
    and cur :: "shadowEntry \<Rightarrow> sref option"
    and set_cur :: "sref \<Rightarrow> shadowEntry \<Rightarrow> shadowEntry"
    and active :: "shadowEntry \<Rightarrow> bool"
    and record_at :: "shadowEntry \<Rightarrow> sref \<Rightarrow> aref \<Rightarrow> store \<Rightarrow> store"
    and delta :: "shadowEntry \<Rightarrow> u64 \<Rightarrow> spoor_set \<Rightarrow> u64 set"
    and good :: "shadowEntry \<Rightarrow> bool"
  assumes proc_top: "\<And>i w s a.
      findAllocation (localAllocationTable w) (w_store w) (ptr (w_slots w ! i)) = Some a \<Longrightarrow>
      active (w_slots w ! i) \<Longrightarrow> cur (w_slots w ! i) = Some s \<Longrightarrow>
      parent (states (w_store w) s) = None \<Longrightarrow>
      proc i w = Some (w\<lparr>w_store := record_at (w_slots w ! i) s a (w_store w)\<rparr>)"
    and proc_up: "\<And>i w s a p.
      findAllocation (localAllocationTable w) (w_store w) (ptr (w_slots w ! i)) = Some a \<Longrightarrow>
      active (w_slots w ! i) \<Longrightarrow> cur (w_slots w ! i) = Some s \<Longrightarrow>
      parent (states (w_store w) s) = Some p \<Longrightarrow>
      proc i w = proc i (w\<lparr>w_store := record_at (w_slots w ! i) s a (w_store w),
                           w_slots := (w_slots w)[i := set_cur p (w_slots w ! i)]\<rparr>)"
    and record_keeps_states: "states (record_at e s a h) = states h"
      "next_sref (record_at e s a h) = next_sref h"
    and record_keeps_block: "len (allocs (record_at e s a h) b) = len (allocs h b)"
      "pointer (allocs (record_at e s a h) b) = pointer (allocs h b)"
    and pending_record: "pending (StateCommitInfoMap (allocs (record_at e s a h) b)) s' k
        = pending (StateCommitInfoMap (allocs h b)) s' k
          \<union> (if b = a \<and> s' = s then delta e (pointer (allocs h a)) k else {})"
    and set_cur_entry: "cur (set_cur p e) = Some p" "ptr (set_cur p e) = ptr e"
      "active (set_cur p e) = active e" "delta (set_cur p e) = delta e"
      "set_cur p (set_cur q e) = set_cur p e" "good (set_cur p e) = good e"
    and record_heap_ok: "heap_ok h \<Longrightarrow> good e \<Longrightarrow> heap_ok (record_at e s a h)"
    and record_keeps_refs: "next_aref (record_at e s a h) = next_aref h"
begin

lemma walk_safe:
  assumes "heap_ok (w_store w)" and "s < next_sref (w_store w)" and "i < length (w_slots w)"
    and "findAllocation (localAllocationTable w) (w_store w) (ptr (w_slots w ! i)) = Some a"
    and "cur (w_slots w ! i) = Some s" and "active (w_slots w ! i)" and "good (w_slots w ! i)"
  shows "\<exists>w'. proc i w = Some w' \<and> heap_ok (w_store w')
     \<and> next_sref (w_store w') = next_sref (w_store w) \<and> next_aref (w_store w') = next_aref (w_store w)
     \<and> localAllocationTable w' = localAllocationTable w
     \<and> (w_slots w' = w_slots w
        \<or> (\<exists>p < next_sref (w_store w). w_slots w' = (w_slots w)[i := set_cur p (w_slots w ! i)]))"
  using assms
proof (induction s arbitrary: w rule: less_induct)
  case (less s w)
  let ?e = "w_slots w ! i"
  let ?h = "record_at ?e s a (w_store w)"
  have ok: "heap_ok ?h" using less.prems record_heap_ok by blast
  show ?case
  proof (cases "parent (states (w_store w) s)")
    case None
    with less.prems proc_top have "proc i w = Some (w\<lparr>w_store := ?h\<rparr>)" by blast
    with ok show ?thesis by (simp add: record_keeps_states record_keeps_refs)
  next
    case (Some p)
    let ?w = "w\<lparr>w_store := ?h, w_slots := (w_slots w)[i := set_cur p ?e]\<rparr>"
    have "p < s" using Some less.prems(1,2) by (auto simp: heap_ok_def parents_ok_def)
    have step: "proc i w = proc i ?w" using less.prems Some proc_up by blast
    have find: "findAllocation (localAllocationTable w) ?h key
        = findAllocation (localAllocationTable w) (w_store w) key" for key
      by (rule findAllocation_len_cong) (simp add: record_keeps_block)
    have "\<exists>w'. proc i ?w = Some w' \<and> heap_ok (w_store w')
       \<and> next_sref (w_store w') = next_sref (w_store ?w) \<and> next_aref (w_store w') = next_aref (w_store ?w)
       \<and> localAllocationTable w' = localAllocationTable ?w
       \<and> (w_slots w' = w_slots ?w
          \<or> (\<exists>q < next_sref (w_store ?w). w_slots w' = (w_slots ?w)[i := set_cur q (w_slots ?w ! i)]))"
      using less.prems \<open>p < s\<close> ok
      by (intro less.IH) (simp_all add: find set_cur_entry record_keeps_states)
    then obtain w' where w': "proc i ?w = Some w'" "heap_ok (w_store w')"
      "next_sref (w_store w') = next_sref (w_store w)" "next_aref (w_store w') = next_aref (w_store w)"
      "localAllocationTable w' = localAllocationTable w"
      "w_slots w' = (w_slots w)[i := set_cur p ?e]
       \<or> (\<exists>q < next_sref (w_store w). w_slots w' = (w_slots w)[i := set_cur q ?e])"
      using less.prems(3) by (auto simp: record_keeps_states record_keeps_refs set_cur_entry)
    have "p < next_sref (w_store w)" using \<open>p < s\<close> less.prems(2) by simp
    with w' step show ?thesis by auto
  qed
qed

lemma walk:
  assumes "parents_ok (w_store w)" and "s < next_sref (w_store w)" and "i < length (w_slots w)"
    and "findAllocation (localAllocationTable w) (w_store w) (ptr (w_slots w ! i)) = Some a"
    and "cur (w_slots w ! i) = Some s" and "active (w_slots w ! i)"
  shows "\<exists>w' ss. proc i w = Some w' \<and> state_chain (states (w_store w)) (Some s) = Some ss
     \<and> localAllocationTable w' = localAllocationTable w \<and> overflowWork w' = overflowWork w
     \<and> leftOverflow w' = leftOverflow w \<and> states (w_store w') = states (w_store w)
     \<and> (\<forall>b s' k. pending (StateCommitInfoMap (allocs (w_store w') b)) s' k
          = pending (StateCommitInfoMap (allocs (w_store w) b)) s' k
            \<union> (if b = a \<and> s' \<in> set ss
               then delta (w_slots w ! i) (pointer (allocs (w_store w) a)) k else {}))"
  using assms
proof (induction s arbitrary: w rule: less_induct)
  case (less s w)
  let ?e = "w_slots w ! i"
  let ?h = "record_at ?e s a (w_store w)"
  show ?case
  proof (cases "parent (states (w_store w) s)")
    case None
    with less.prems proc_top have "proc i w = Some (w\<lparr>w_store := ?h\<rparr>)" by blast
    with None show ?thesis by (simp add: state_chain_Some pending_record record_keeps_states)
  next
    case (Some p)
    let ?w = "w\<lparr>w_store := ?h, w_slots := (w_slots w)[i := set_cur p ?e]\<rparr>"
    have "p < s" using Some less.prems(1,2) by (auto simp: parents_ok_def)
    have step: "proc i w = proc i ?w" using less.prems Some proc_up by blast
    have find: "findAllocation (localAllocationTable w) ?h key
        = findAllocation (localAllocationTable w) (w_store w) key" for key
      by (rule findAllocation_len_cong) (simp add: record_keeps_block)
    have "\<exists>w' ss. proc i ?w = Some w' \<and> state_chain (states (w_store ?w)) (Some p) = Some ss
       \<and> localAllocationTable w' = localAllocationTable ?w \<and> overflowWork w' = overflowWork ?w
       \<and> leftOverflow w' = leftOverflow ?w \<and> states (w_store w') = states (w_store ?w)
       \<and> (\<forall>b s' k. pending (StateCommitInfoMap (allocs (w_store w') b)) s' k
            = pending (StateCommitInfoMap (allocs (w_store ?w) b)) s' k
              \<union> (if b = a \<and> s' \<in> set ss
                 then delta (w_slots ?w ! i) (pointer (allocs (w_store ?w) a)) k else {}))"
      using less.prems \<open>p < s\<close>
      by (intro less.IH)
        (simp_all add: find set_cur_entry record_keeps_states parents_ok_cong [of ?h "w_store w"])
    then obtain w' ss where IH: "proc i ?w = Some w'"
      "state_chain (states (w_store w)) (Some p) = Some ss"
      "localAllocationTable w' = localAllocationTable w" "overflowWork w' = overflowWork w"
      "leftOverflow w' = leftOverflow w" "states (w_store w') = states (w_store w)"
      "\<And>b s' k. pending (StateCommitInfoMap (allocs (w_store w') b)) s' k
         = pending (StateCommitInfoMap (allocs ?h b)) s' k
           \<union> (if b = a \<and> s' \<in> set ss then delta ?e (pointer (allocs (w_store w) a)) k else {})"
      using less.prems(3) by (auto simp: record_keeps_states record_keeps_block set_cur_entry)
    have chain: "state_chain (states (w_store w)) (Some s) = Some (s # ss)"
      using IH(2) Some by (subst state_chain_Some) simp
    have "pending (StateCommitInfoMap (allocs (w_store w') b)) s' k
        = pending (StateCommitInfoMap (allocs (w_store w) b)) s' k
          \<union> (if b = a \<and> s' \<in> set (s # ss)
             then delta ?e (pointer (allocs (w_store w) a)) k else {})" for b s' k
      unfolding IH(7) pending_record by auto
    with IH(1,3-6) step chain show ?thesis by auto
  qed
qed

end

interpretation access_walk: parent_walk "processAddToState cfg" statePtr_of
    "\<lambda>p e. e\<lparr>sizeState := StatePtr (Some p)\<rparr>" "\<lambda>e. \<not> (trackCycles cfg \<and> is_access e)"
    "\<lambda>e s a h. upd_alloc a (record_access e s) (touch cfg a h)" access_delta
    "\<lambda>e. spoor_of_code (unat (operation e)) \<noteq> None"
  for cfg :: config
proof unfold_locales
  fix i and w :: worker and s a
  assume "findAllocation (localAllocationTable w) (w_store w) (ptr (w_slots w ! i)) = Some a"
    "\<not> (trackCycles cfg \<and> is_access (w_slots w ! i))" "statePtr_of (w_slots w ! i) = Some s"
    "parent (states (w_store w) s) = None"
  then show "processAddToState cfg i w
      = Some (w\<lparr>w_store := upd_alloc a (record_access (w_slots w ! i) s) (touch cfg a (w_store w))\<rparr>)"
    by (subst processAddToState.simps) auto
next
  fix i and w :: worker and s a p
  assume "findAllocation (localAllocationTable w) (w_store w) (ptr (w_slots w ! i)) = Some a"
    "\<not> (trackCycles cfg \<and> is_access (w_slots w ! i))" "statePtr_of (w_slots w ! i) = Some s"
    "parent (states (w_store w) s) = Some p"
  then show "processAddToState cfg i w = processAddToState cfg i
      (w\<lparr>w_store := upd_alloc a (record_access (w_slots w ! i) s) (touch cfg a (w_store w)),
         w_slots := (w_slots w)[i := (w_slots w ! i)\<lparr>sizeState := StatePtr (Some p)\<rparr>]\<rparr>)"
    by (subst processAddToState.simps) (auto simp: set_statePtr_def)
next
  fix h :: store and e :: shadowEntry and s a
  assume h: "heap_ok h" and e: "spoor_of_code (unat (operation e)) \<noteq> None"
  show "heap_ok (upd_alloc a (record_access e s) (touch cfg a h))"
    using heap_ok_alloc [OF heap_ok_touch [OF h], of cfg a a] e
    by (intro heap_ok_upd_alloc heap_ok_touch h) (simp_all add: infos_ok_record)
qed (simp_all add: pending_record_access statePtr_of_def access_delta_def fun_eq_iff)

interpretation region_walk: parent_walk processStateRegionSet entryState
    "\<lambda>p e. e\<lparr>entryState := Some p\<rparr>" "\<lambda>e. size_of e \<noteq> None"
    "\<lambda>e s a h. upd_alloc a (record_region e (the (size_of e)) s) h"
    "\<lambda>e base k. region_delta e (the (size_of e)) base k"
    "\<lambda>e. spoor_of_code (unat (stateToSet e)) \<noteq> None"
proof unfold_locales
  fix i and w :: worker and s a
  assume "findAllocation (localAllocationTable w) (w_store w) (ptr (w_slots w ! i)) = Some a"
    "size_of (w_slots w ! i) \<noteq> None" "entryState (w_slots w ! i) = Some s"
    "parent (states (w_store w) s) = None"
  then show "processStateRegionSet i w = Some (w\<lparr>w_store :=
      upd_alloc a (record_region (w_slots w ! i) (the (size_of (w_slots w ! i))) s) (w_store w)\<rparr>)"
    by (subst processStateRegionSet.simps) auto
next
  fix i and w :: worker and s a p
  assume "findAllocation (localAllocationTable w) (w_store w) (ptr (w_slots w ! i)) = Some a"
    "size_of (w_slots w ! i) \<noteq> None" "entryState (w_slots w ! i) = Some s"
    "parent (states (w_store w) s) = Some p"
  then show "processStateRegionSet i w = processStateRegionSet i (w\<lparr>w_store :=
        upd_alloc a (record_region (w_slots w ! i) (the (size_of (w_slots w ! i))) s) (w_store w),
      w_slots := (w_slots w)[i := (w_slots w ! i)\<lparr>entryState := Some p\<rparr>]\<rparr>)"
    by (subst processStateRegionSet.simps) (auto simp: set_entryState_def)
next
  fix h :: store and e :: shadowEntry and s a
  assume h: "heap_ok h" and e: "spoor_of_code (unat (stateToSet e)) \<noteq> None"
  show "heap_ok (upd_alloc a (record_region e (the (size_of e)) s) h)"
    using heap_ok_alloc [OF h, of a] e by (intro heap_ok_upd_alloc h) (simp_all add: infos_ok_record)
qed (simp_all add: pending_record_region size_of_def region_delta_def fun_eq_iff)

section \<open>The batch keeps its size\<close>

lemma map_same_update: "f y = f (xs ! i) \<Longrightarrow> map f (xs[i := y]) = map f xs"
  by (cases "i < length xs") (simp_all add: map_update list_update_same_conv list_update_beyond)

definition same_ops :: "worker \<Rightarrow> worker \<Rightarrow> bool" where
  "same_ops w w' \<longleftrightarrow> map operation (w_slots w') = map operation (w_slots w) \<and> (leftOverflow w' = None \<longleftrightarrow> leftOverflow w = None)"

lemma AddToState_ops: "processAddToState cfg i w = Some w' \<Longrightarrow> same_ops w w'"
  by (erule processAddToState.raw_induct [rotated])
    (fastforce simp: push_overflow_def set_statePtr_def same_ops_def map_same_update split: option.splits if_splits)

lemma RegionSet_ops: "processStateRegionSet i w = Some w' \<Longrightarrow> same_ops w w'"
  by (erule processStateRegionSet.raw_induct [rotated])
    (fastforce simp: push_overflow_def set_entryState_def same_ops_def map_same_update split: option.splits if_splits)

lemma process_entry_ops:
  assumes "process_entry cfg mem scc sync i w = Some w'"
  shows "same_ops w w'"
proof -
  have "processAddAlloc i w = Some w' \<Longrightarrow> same_ops w w'"
    by (auto simp: processAddAlloc_def same_ops_def Let_def split: option.splits prod.splits)
  moreover have "processFreeAllocation i w = Some w' \<Longrightarrow> same_ops w w'"
    by (auto simp: processFreeAllocation_def push_overflow_def same_ops_def Let_def split: option.splits if_splits)
  moreover have "same_ops w (processAddEscape mem i w)"
    by (auto simp: processAddEscape_def push_overflow_def same_ops_def Let_def split: option.splits)
  moreover have "commit_step i w = Some w' \<Longrightarrow> same_ops w w'"
    by (auto simp: commit_step_def push_left_def same_ops_def split: option.splits if_splits)
  moreover have "detect_step mem scc sync i w = Some w' \<Longrightarrow> same_ops w w'"
    by (auto simp: detect_step_def push_left_def same_ops_def Let_def split: option.splits if_splits prod.splits)
  moreover have "same_ops w w" by (simp add: same_ops_def)
  ultimately show ?thesis
    using assms AddToState_ops [of cfg i w w'] RegionSet_ops [of i w w']
    by (auto simp: process_entry_def split: if_splits option.splits operations.splits)
qed

lemma process_entry_length: "process_entry cfg mem scc sync i w = Some w' \<Longrightarrow> length (w_slots w') = length (w_slots w)"
  using process_entry_ops map_eq_imp_length_eq unfolding same_ops_def by blast

text \<open>
  A request for cycles that a worker without a left neighbour meets, and that nobody answers, stops the worker for ever.
\<close>

lemma process_all_hangs:
  assumes "j \<in> set is" "j < length (w_slots w)" "op_of (w_slots w ! j) = Some DETECT_CYCLE" "leftOverflow w = None" and nobody: "\<And>p. \<not> sync p"
  shows "process_all cfg mem scc sync is w = None"
  using assms(1-4)
proof (induction "is" arbitrary: w)
  case (Cons i "is")
  show ?case
  proof (cases "process_entry cfg mem scc sync i w")
    case (Some w1)
    note ops = process_entry_ops [OF Some, unfolded same_ops_def]
    have len: "length (w_slots w1) = length (w_slots w)" by (rule process_entry_length [OF Some])
    have "map operation (w_slots w1) ! j = map operation (w_slots w) ! j" using ops by simp
    then have "op_of (w_slots w1 ! j) = Some DETECT_CYCLE" using Cons.prems(2,3) len by (simp add: op_of_def)
    moreover have "i \<noteq> j"
    proof
      assume "i = j"
      then have "process_entry cfg mem scc sync i w = None"
        using Cons.prems nobody by (auto simp: process_entry_def detect_step_def Let_def split: prod.split option.split)
      with Some show False by simp
    qed
    ultimately show ?thesis using Cons ops len Some by simp
  qed simp
qed simp

section \<open>Every entry can be executed\<close>

definition worker_ok :: "config \<Rightarrow> (u64 \<Rightarrow> bool) \<Rightarrow> worker \<Rightarrow> bool" where
  "worker_ok cfg sync w \<longleftrightarrow> heap_ok (w_store w) \<and> (\<forall>e \<in> set (w_slots w). entry_ok cfg sync (w_store w) e)"

lemma entry_ok_cong:
  assumes "next_sref h' = next_sref h"
  shows "entry_ok cfg sync h' e = entry_ok cfg sync h e"
  unfolding entry_ok_def state_ok_cong [OF assms] ..

lemma worker_ok_step:
  "worker_ok cfg sync w \<Longrightarrow> heap_ok (w_store w') \<Longrightarrow> next_sref (w_store w') = next_sref (w_store w) \<Longrightarrow>
   w_slots w' = w_slots w \<Longrightarrow> worker_ok cfg sync w'"
  by (simp add: worker_ok_def entry_ok_cong [of "w_store w'" "w_store w"])

lemma heap_ok_upd_state:
  assumes "heap_ok h" and "\<And>st. parent (f st) = parent st"
  shows "heap_ok (upd_state s f h)"
proof -
  have "parents_ok (upd_state s f h)" using assms by (auto simp: heap_ok_def parents_ok_def)
  then show ?thesis
    using assms(1) by (simp add: heap_ok_def state_ok_cong [of "upd_state s f h" h])
qed

lemma heap_ok_fields:
  assumes "heap_ok h" and "states h' = states h" and "next_sref h' = next_sref h" and "allocs h' = allocs h"
  shows "heap_ok h'"
  using assms by (simp add: heap_ok_def parents_ok_cong [of h' h] state_ok_cong [of h' h])

lemma heap_ok_origin_alloc:
  assumes "heap_ok h" and "origin_alloc e n h = (a, h')"
  shows "heap_ok h'" and "next_sref h' = next_sref h" and "states h' = states h"
proof -
  have new: "infos_ok (StateCommitInfoMap (new_Allocation x y z))"
    "state_ok h (affiliatedState (new_Allocation x y z))" for x y z
    by (simp_all add: new_Allocation_def infos_ok_def state_ok_def)
  have "heap_ok h' \<and> next_sref h' = next_sref h \<and> states h' = states h"
  proof (cases "map_of (originToAllocMap h) (information e)")
    case None
    have "heap_ok (upd_alloc (next_aref h) (\<lambda>_. new_Allocation (ptr e) n (information e)) h)"
      using new by (intro heap_ok_upd_alloc assms(1)) simp_all
    then show ?thesis
      using assms(2) None
      by (auto simp: origin_alloc_def alloc_Allocation_def upd_alloc_def elim!: heap_ok_fields)
  next
    case (Some b)
    have "heap_ok (upd_alloc b (\<lambda>al. al\<lparr>pointer := ptr e, len := n\<rparr>) h)"
      using heap_ok_alloc [OF assms(1), of b] by (intro heap_ok_upd_alloc assms(1)) simp_all
    then show ?thesis using assms(2) Some by (auto simp: origin_alloc_def)
  qed
  then show "heap_ok h'" "next_sref h' = next_sref h" "states h' = states h" by simp_all
qed

lemma heap_ok_add_allocated:
  "heap_ok h \<Longrightarrow> heap_ok (fold (add_allocated a) ss h)"
  "next_sref (fold (add_allocated a) ss h) = next_sref h"
  by (induction ss arbitrary: h) (auto simp: add_allocated_def heap_ok_upd_state)

lemma AddAlloc_safe:
  assumes "worker_ok cfg sync w" and "size_of (w_slots w ! i) \<noteq> None"
    and "state_ok (w_store w) (entryState (w_slots w ! i))"
  shows "\<exists>w'. processAddAlloc i w = Some w' \<and> worker_ok cfg sync w' \<and> w_slots w' = w_slots w"
proof -
  let ?e = "w_slots w ! i"
  obtain n where n: "size_of ?e = Some n" using assms(2) by auto
  obtain a h1 where o: "origin_alloc ?e n (w_store w) = (a, h1)" by (metis surj_pair)
  have ok: "heap_ok (w_store w)" using assms(1) by (simp add: worker_ok_def)
  note h1 = heap_ok_origin_alloc [OF ok o]
  let ?h2 = "upd_alloc a (\<lambda>al. al\<lparr>affiliatedState := entryState ?e\<rparr>) h1"
  have h2: "heap_ok ?h2"
    using heap_ok_alloc [OF h1(1), of a] assms(3) h1(2)
    by (intro heap_ok_upd_alloc h1(1)) (simp_all add: state_ok_cong [of h1 "w_store w"])
  have st: "state_ok ?h2 (entryState ?e)"
    using assms(3) h1(2) by (simp add: state_ok_cong [of ?h2 "w_store w"])
  obtain ss where "state_chain (states ?h2) (entryState ?e) = Some ss"
    using state_chain_returns [of ?h2] h2 st unfolding heap_ok_def by blast
  then have "processAddAlloc i w = Some (w\<lparr>w_store := fold (add_allocated a) ss ?h2,
      localAllocationTable := InsertAllocation (ptr ?e) a h1 (localAllocationTable w)\<rparr>)"
    by (simp add: processAddAlloc_def n o Let_def)
  then show ?thesis
    using worker_ok_step [OF assms(1)] h1(2) heap_ok_add_allocated(1) [OF h2]
    by (simp add: heap_ok_add_allocated(2))
qed

lemma heap_ok_commit:
  assumes "heap_ok h" and "commitStateInfo a skip h = Some (m, h')"
  shows "heap_ok h' \<and> next_sref h' = next_sref h"
proof -
  note f = commitStateInfo_frame [OF assms(2)]
  have "infos_ok (StateCommitInfoMap (allocs h' b))" for b
    using f assms(1) by (cases "b = a") (auto simp: heap_ok_def)
  moreover have "parents_ok h'" using f assms(1) by (simp add: heap_ok_def parents_ok_def)
  ultimately show ?thesis
    using f assms(1) by (simp add: heap_ok_def state_ok_cong [of h' h])
qed

lemma commit_returns:
  assumes "heap_ok h" and "state_ok h skip"
  shows "\<exists>m h'. commitStateInfo a skip h = Some (m, h') \<and> heap_ok h' \<and> next_sref h' = next_sref h"
  using commitStateInfo_effect [of h skip a] heap_ok_commit [OF assms(1)] assms
  by (fastforce simp: heap_ok_def)

lemma commit_each_returns:
  "heap_ok h \<Longrightarrow> \<exists>h'. commit_each es h = Some h' \<and> heap_ok h' \<and> next_sref h' = next_sref h"
proof (induction es arbitrary: h)
  case (Cons e es)
  obtain m h1 where "commitStateInfo (snd e) None h = Some (m, h1)" "heap_ok h1" "next_sref h1 = next_sref h"
    using commit_returns [OF Cons.prems, of None "snd e"] by (auto simp: state_ok_def)
  with Cons.IH [of h1] show ?case by (cases e) auto
qed simp

lemma commit_step_safe:
  assumes "worker_ok cfg sync w" and "statePtr_of (w_slots w ! i) \<noteq> None"
  shows "\<exists>w'. commit_step i w = Some w' \<and> worker_ok cfg sync w' \<and> w_slots w' = w_slots w"
proof (cases "leftOverflow w")
  case None
  have ok: "heap_ok (w_store w)" using assms(1) by (simp add: worker_ok_def)
  obtain h1 where h1: "CommitStateInfoForAllocations (localAllocationTable w) (w_store w) = Some h1"
    "heap_ok h1" "next_sref h1 = next_sref (w_store w)"
    using commit_each_returns [OF ok, of "hashAllocationTable (localAllocationTable w)"]
      commit_each_returns [of _ "sortedAllocationTable (localAllocationTable w)"]
    by (fastforce simp: CommitStateInfoForAllocations_def)
  obtain s where s: "statePtr_of (w_slots w ! i) = Some s" using assms(2) by auto
  have "heap_ok (upd_state s CommitState h1)"
    using h1(2) by (intro heap_ok_upd_state) (simp_all add: CommitState_def)
  then show ?thesis using worker_ok_step [OF assms(1)] h1 s None by (simp add: commit_step_def)
next
  case (Some q)
  then show ?thesis using assms(1) by (simp add: commit_step_def push_left_def worker_ok_def)
qed

lemma heap_ok_add_vertices:
  "heap_ok h \<Longrightarrow> add_vertices es (g, h) = (g', h') \<Longrightarrow> heap_ok h' \<and> next_sref h' = next_sref h"
proof (induction es arbitrary: g h)
  case (Cons e es)
  have "heap_ok (upd_alloc (snd e) (\<lambda>al. al\<lparr>connectionVertex := v\<rparr>) h)" for v
    using heap_ok_alloc [OF Cons.prems(1), of "snd e"] by (intro heap_ok_upd_alloc Cons.prems(1)) simp_all
  from Cons.IH [OF this] Cons.prems(2) show ?case by (cases e) (fastforce simp: add_vertex_def)
qed simp

lemma detect_step_safe:
  assumes "worker_ok cfg sync w" and "size_of (w_slots w ! i) \<noteq> None" and "ptr (w_slots w ! i) \<noteq> 0" "sync (ptr (w_slots w ! i))"
  shows "\<exists>w'. detect_step mem scc sync i w = Some w' \<and> worker_ok cfg sync w' \<and> w_slots w' = w_slots w"
proof (cases "leftOverflow w")
  case None
  obtain g1 h1 where 1: "add_vertices (sortedAllocationTable (localAllocationTable w))
      (empty_graph, w_store w) = (g1, h1)" by (metis surj_pair)
  obtain g2 h2 where 2: "add_vertices (hashAllocationTable (localAllocationTable w)) (g1, h1) = (g2, h2)"
    by (metis surj_pair)
  have "heap_ok h2 \<and> next_sref h2 = next_sref (w_store w)"
    using heap_ok_add_vertices [OF _ 1] heap_ok_add_vertices [OF _ 2] assms(1)
    by (simp add: worker_ok_def)
  then show ?thesis
    using worker_ok_step [OF assms(1)] assms(2-4) None 1 2
    by (auto simp: detect_step_def GenerateConnectionGraph_def Let_def)
next
  case (Some q)
  then show ?thesis using assms(1) by (simp add: detect_step_def push_left_def worker_ok_def)
qed

lemma Free_safe:
  assumes "worker_ok cfg sync w" and "state_ok (w_store w) (entryState (w_slots w ! i))"
  shows "\<exists>w'. processFreeAllocation i w = Some w' \<and> worker_ok cfg sync w' \<and> w_slots w' = w_slots w"
proof (cases "findAllocation (localAllocationTable w) (w_store w) (ptr (w_slots w ! i))")
  case None
  then show ?thesis using assms(1) by (simp add: processFreeAllocation_def push_overflow_def worker_ok_def)
next
  case (Some a)
  obtain m h' where c: "commitStateInfo a (entryState (w_slots w ! i)) (w_store w) = Some (m, h')"
    "heap_ok h'" "next_sref h' = next_sref (w_store w)"
    using commit_returns [of "w_store w" "entryState (w_slots w ! i)" a] assms
    by (auto simp: worker_ok_def)
  with Some show ?thesis
    using worker_ok_step [OF assms(1)] by (simp add: processFreeAllocation_def)
qed

lemma Escape_safe:
  assumes "worker_ok cfg sync w"
  shows "worker_ok cfg sync (processAddEscape mem i w) \<and> w_slots (processAddEscape mem i w) = w_slots w"
proof -
  have "heap_ok (upd_alloc a (\<lambda>al. al\<lparr>allocToEscapeMap := us_insert x (allocToEscapeMap al)\<rparr>) (w_store w))"
    for a x using assms heap_ok_alloc [of "w_store w" a] heap_ok_upd_alloc by (simp add: worker_ok_def)
  then have "heap_ok (w_store (processAddEscape mem i w))"
    "next_sref (w_store (processAddEscape mem i w)) = next_sref (w_store w)"
    "w_slots (processAddEscape mem i w) = w_slots w"
    using assms
    by (auto simp: processAddEscape_def push_overflow_def worker_ok_def Let_def split: option.split)
  with worker_ok_step [OF assms] show ?thesis by blast
qed

lemma worker_ok_slot:
  assumes "worker_ok cfg sync w" and "heap_ok (w_store w')" and "next_sref (w_store w') = next_sref (w_store w)"
    and "w_slots w' = w_slots w \<or> w_slots w' = (w_slots w)[i := e]" and "entry_ok cfg sync (w_store w) e"
  shows "worker_ok cfg sync w' \<and> length (w_slots w') = length (w_slots w)"
  using assms set_update_subset_insert [of "w_slots w" i e]
  by (auto simp: worker_ok_def entry_ok_cong [of "w_store w'" "w_store w"])

lemma access_code: "op_of e = Some x \<Longrightarrow> access_class x \<Longrightarrow> spoor_of_code (unat (operation e)) \<noteq> None"
proof -
  assume "op_of e = Some x" "access_class x"
  then have "unat (operation e) = opcode x"
    by (auto simp: op_of_def operation_of_def operations_list_def access_class_def opcode_def nth_Cons'
        split: if_splits)
  with \<open>access_class x\<close> show ?thesis by (auto simp: access_class_def spoor_of_code_def opcode_def)
qed

lemma AddToState_safe:
  assumes ok: "worker_ok cfg sync w" and i: "i < length (w_slots w)" and x: "op_of (w_slots w ! i) = Some x"
    and kind: "access_class x \<or> is_access (w_slots w ! i)"
  shows "\<exists>w'. processAddToState cfg i w = Some w' \<and> worker_ok cfg sync w' \<and> length (w_slots w') = length (w_slots w)"
proof (cases "findAllocation (localAllocationTable w) (w_store w) (ptr (w_slots w ! i))")
  case None
  then have "processAddToState cfg i w = Some (push_overflow i w)"
    by (subst processAddToState.simps) simp
  then show ?thesis using ok by (simp add: push_overflow_def worker_ok_def)
next
  case (Some a)
  let ?e = "w_slots w ! i"
  have h: "heap_ok (w_store w)" and e: "entry_ok cfg sync (w_store w) ?e"
    using ok i by (simp_all add: worker_ok_def)
  show ?thesis
  proof (cases "is_access ?e")
    case True
    then have "trackCycles cfg" using e x by (auto simp: entry_ok_def is_access_def)
    then have "processAddToState cfg i w = Some (w\<lparr>w_store := touch cfg a (w_store w)\<rparr>)"
      using Some True by (subst processAddToState.simps) simp
    then show ?thesis using worker_ok_step [OF ok] heap_ok_touch [OF h] by simp
  next
    case False
    then have cls: "access_class x" using kind by simp
    then obtain s where s: "statePtr_of ?e = Some s" "s < next_sref (w_store w)"
      using e x by (auto simp: entry_ok_def access_class_def state_ok_def)
    have "entry_ok cfg sync (w_store w) (?e\<lparr>sizeState := StatePtr (Some p)\<rparr>)" if "p < next_sref (w_store w)" for p
      using cls x that by (auto simp: entry_ok_def access_class_def state_ok_def statePtr_of_def)
    with access_walk.walk_safe [OF h s(2) i Some s(1), of cfg] False access_code [OF x cls] show ?thesis
      using worker_ok_slot [OF ok] e by blast
  qed
qed

lemma RegionSet_safe:
  assumes ok: "worker_ok cfg sync w" and i: "i < length (w_slots w)"
    and x: "op_of (w_slots w ! i) = Some STATE_REGION_SET"
  shows "\<exists>w'. processStateRegionSet i w = Some w' \<and> worker_ok cfg sync w' \<and> length (w_slots w') = length (w_slots w)"
proof (cases "findAllocation (localAllocationTable w) (w_store w) (ptr (w_slots w ! i))")
  case None
  then have "processStateRegionSet i w = Some (push_overflow i w)"
    by (subst processStateRegionSet.simps) simp
  then show ?thesis using ok by (simp add: push_overflow_def worker_ok_def)
next
  case (Some a)
  let ?e = "w_slots w ! i"
  have h: "heap_ok (w_store w)" and e: "entry_ok cfg sync (w_store w) ?e"
    using ok i by (simp_all add: worker_ok_def)
  then obtain s where s: "entryState ?e = Some s" "s < next_sref (w_store w)"
    and c: "size_of ?e \<noteq> None" "spoor_of_code (unat (stateToSet ?e)) \<noteq> None"
    using x by (auto simp: entry_ok_def state_ok_def)
  have "entry_ok cfg sync (w_store w) (?e\<lparr>entryState := Some p\<rparr>)" if "p < next_sref (w_store w)" for p
    using x c that by (simp add: entry_ok_def op_of_def state_ok_def size_of_def)
  with region_walk.walk_safe [OF h s(2) i Some s(1) c] show ?thesis
    using worker_ok_slot [OF ok] e by blast
qed

lemma process_entry_safe:
  assumes ok: "worker_ok cfg sync w" and i: "i < length (w_slots w)"
  shows "\<exists>w'. process_entry cfg mem scc sync i w = Some w' \<and> worker_ok cfg sync w'
     \<and> length (w_slots w') = length (w_slots w)"
proof (cases "op_of (w_slots w ! i)")
  case None
  then show ?thesis using ok i by (simp add: process_entry_def)
next
  case (Some x)
  have e: "entry_ok cfg sync (w_store w) (w_slots w ! i)" using ok i by (simp add: worker_ok_def)
  note access = AddToState_safe [OF ok i Some]
  show ?thesis
    using e Some ok i access AddAlloc_safe [OF ok, of i] Free_safe [OF ok, of i] Escape_safe [OF ok, of mem i]
      commit_step_safe [OF ok, of i] detect_step_safe [OF ok, of i mem scc] RegionSet_safe [OF ok i]
    by (cases x) (auto simp: process_entry_def entry_ok_def access_class_def is_access_def)
qed

lemma process_all_safe:
  "worker_ok cfg sync w \<Longrightarrow> \<forall>i \<in> set is. i < length (w_slots w) \<Longrightarrow>
   \<exists>w'. process_all cfg mem scc sync is w = Some w' \<and> worker_ok cfg sync w' \<and> length (w_slots w') = length (w_slots w)"
proof (induction "is" arbitrary: w)
  case (Cons i "is")
  then obtain w1 where "process_entry cfg mem scc sync i w = Some w1" "worker_ok cfg sync w1"
    "length (w_slots w1) = length (w_slots w)"
    using process_entry_safe [of cfg sync w i mem scc] by auto
  with Cons.IH [of w1] Cons.prems(2) show ?case by auto
qed simp

section \<open>Properties\<close>

text \<open>
  C5: a worker executes every batch of well-formed entries to the end. With a well-formed heap, bounds and
  overflow work inside the batch, and requests for cycles whose synchronisation variable exists and is set back by
  the thread that waits for it, \<open>processShadowBatch\<close> returns: no null dereference, no read outside the batch,
  no endless walk up the parents and no endless wait; and the heap and the entries stay well formed.
\<close>

theorem processShadowBatch_safe:
  assumes "worker_ok cfg sync w" and "rightBound < length (w_slots w)"
    and "\<forall>rt work. right = Some (rt, work) \<longrightarrow> (\<forall>i \<in> set work. i < length (w_slots w))"
  shows "\<exists>w' rt'. processShadowBatch cfg mem scc sync leftBound rightBound right w = Some (w', rt')
     \<and> worker_ok cfg sync w'"
proof -
  have "worker_ok cfg sync (w\<lparr>overflowWork := []\<rparr>)" using assms(1) by (simp add: worker_ok_def)
  moreover have "\<forall>i \<in> set [leftBound..<Suc rightBound]. i < length (w_slots (w\<lparr>overflowWork := []\<rparr>))"
    using assms(2) by auto
  ultimately obtain w1 where
    1: "process_all cfg mem scc sync [leftBound..<Suc rightBound] (w\<lparr>overflowWork := []\<rparr>) = Some w1"
    "worker_ok cfg sync w1" "length (w_slots w1) = length (w_slots w)"
    using process_all_safe [of cfg sync "w\<lparr>overflowWork := []\<rparr>" "[leftBound..<Suc rightBound]" mem scc]
    by auto
  show ?thesis
  proof (cases right)
    case None
    with 1 show ?thesis by (simp add: processShadowBatch_def)
  next
    case (Some r)
    obtain rt work where r: "r = (rt, work)" by (metis surj_pair)
    let ?w = "w1\<lparr>localAllocationTable := MergeTable rt True (localAllocationTable w1)\<rparr>"
    have "worker_ok cfg sync ?w" "\<forall>i \<in> set work. i < length (w_slots ?w)"
      using 1 assms(3) Some r by (simp_all add: worker_ok_def)
    from process_all_safe [OF this, of mem scc] 1(1) Some r show ?thesis
      by (auto simp: processShadowBatch_def)
  qed
qed

definition sample_worker :: worker where
  "sample_worker = Shadow_new sample_table None sample_blocks
     [acc_entry REDUNDANT 0,
      (acc_entry ALLOC_ADD 300)\<lparr>sizeState := Size 24, information := 9\<rparr>]"

lemma sample_worker_ok: "worker_ok all_on (\<lambda>_. True) sample_worker"
  by (simp add: sample_worker_def Shadow_new_def worker_ok_def heap_ok_def sample_blocks_def
      new_Allocation_def infos_ok_def state_ok_def parents_ok_def empty_store_def entry_ok_def entry_eval
      size_of_def access_class_def new_State_def InitSpoorSets_def ComputationalSpoorTracking_def)

theorem processShadowBatch_safe_witness:
  "\<exists>w' rt'. processShadowBatch all_on (\<lambda>_. 0) (\<lambda>_. []) (\<lambda>_. True) 0 1 None sample_worker = Some (w', rt')
     \<and> worker_ok all_on (\<lambda>_. True) w'"
  by (rule processShadowBatch_safe [OF sample_worker_ok]) (simp_all add: sample_worker_def Shadow_new_def)

lemma batch_past_end:
  assumes "leftBound \<le> length (w_slots w)" and "length (w_slots w) \<le> rightBound"
  shows "processShadowBatch cfg mem scc sync leftBound rightBound right w = None"
proof -
  have len: "process_entry cfg mem scc sync i v = Some v' \<Longrightarrow> length (w_slots v') = length (w_slots v)" for i v v'
    by (rule process_entry_length)
  have "\<exists>j \<in> set is. j \<ge> length (w_slots v) \<Longrightarrow> process_all cfg mem scc sync is v = None" for "is" v
  proof (induction "is" arbitrary: v)
    case (Cons i "is")
    show ?case
    proof (cases "process_entry cfg mem scc sync i v")
      case (Some v')
      then have "i < length (w_slots v)" by (auto simp: process_entry_def split: if_splits)
      with Cons Some len [OF Some] show ?thesis by auto
    qed simp
  qed simp
  then have "process_all cfg mem scc sync [leftBound..<Suc rightBound] (w\<lparr>overflowWork := []\<rparr>) = None"
    using assms by (auto intro!: bexI [of _ "length (w_slots w)"])
  then show ?thesis by (simp add: processShadowBatch_def)
qed

text \<open>
  A right bound at or past the end of the batch makes the worker read an entry outside it, because the loop
  includes the right bound. \<open>serialProcessShadowBatch\<close> sets the bound to the number of entries, so a batch that
  was closed because its window is full is always read one entry past its end.
\<close>

theorem processShadowBatch_reads_past_end:
  assumes "leftBound \<le> length (w_slots w)" and "length (w_slots w) \<le> rightBound"
  shows "processShadowBatch cfg mem scc sync leftBound rightBound right w = None"
  using batch_past_end [OF assms] .

theorem processShadowBatch_reads_past_end_witness:
  "processShadowBatch all_on (\<lambda>_. 0) (\<lambda>_. []) (\<lambda>_. True) 0 2 None sample_worker = None"
  using processShadowBatch_reads_past_end [of 0 sample_worker 2 all_on "\<lambda>_. 0" "\<lambda>_. []" "\<lambda>_. True" None]
  by (simp add: sample_worker_def Shadow_new_def)

text \<open>
  C10: when the table has the block an access entry falls into, \<open>processAddToState\<close> returns and adds the offset
  of the access to the class of the entry, for the entry's state and for every ancestor of it, and adds nothing
  for any other state or allocation. The table and the overflow work do not change.
\<close>

theorem processAddToState_records:
  assumes "parents_ok (w_store w)" and "s < next_sref (w_store w)" and "i < length (w_slots w)"
    and "findAllocation (localAllocationTable w) (w_store w) (ptr (w_slots w ! i)) = Some a"
    and "statePtr_of (w_slots w ! i) = Some s" and "\<not> (trackCycles cfg \<and> is_access (w_slots w ! i))"
  shows "\<exists>w' ss. processAddToState cfg i w = Some w' \<and> state_chain (states (w_store w)) (Some s) = Some ss
     \<and> localAllocationTable w' = localAllocationTable w \<and> overflowWork w' = overflowWork w
     \<and> leftOverflow w' = leftOverflow w \<and> states (w_store w') = states (w_store w)
     \<and> (\<forall>b s' k. pending (StateCommitInfoMap (allocs (w_store w') b)) s' k
          = pending (StateCommitInfoMap (allocs (w_store w) b)) s' k
            \<union> (if b = a \<and> s' \<in> set ss
               then access_delta (w_slots w ! i) (pointer (allocs (w_store w) a)) k else {}))"
  using access_walk.walk [OF assms] .

definition access_worker :: worker where
  "access_worker = Shadow_new sample_table None
     (sample_blocks\<lparr>next_sref := 2,
        states := (\<lambda>s. new_State [] 0 0 0 (if s = 1 then Some 0 else None))\<rparr>)
     [(acc_entry STATE_ADD_CO 104)\<lparr>sizeState := StatePtr (Some 1)\<rparr>,
      (acc_entry STATE_REGION_SET 104)\<lparr>sizeState := Size 8, entryState := Some 1,
                                        stateToSet := op_word STATE_ADD_INPUT\<rparr>]"

lemma access_worker_ok:
  "parents_ok (w_store access_worker)" "next_sref (w_store access_worker) = 2"
  "length (w_slots access_worker) = 2"
  "ptr (w_slots access_worker ! 0) = 104" "ptr (w_slots access_worker ! 1) = 104"
  "statePtr_of (w_slots access_worker ! 0) = Some 1" "entryState (w_slots access_worker ! 1) = Some 1"
  "size_of (w_slots access_worker ! 1) = Some 8" "\<not> is_access (w_slots access_worker ! 0)"
  "pointer (allocs (w_store access_worker) 0) = 100"
  "findAllocation (localAllocationTable access_worker) (w_store access_worker) 104 = Some 0"
  "state_chain (states (w_store access_worker)) (Some 1) = Some [1, 0]"
  "spoor_of_code (unat (operation (w_slots access_worker ! 0))) = Some CloneableOutput"
  "spoor_of_code (unat (stateToSet (w_slots access_worker ! 1))) = Some Input"
  by (simp_all add: access_worker_def Shadow_new_def parents_ok_def new_State_def InitSpoorSets_def
      ComputationalSpoorTracking_def sample_blocks_def entry_eval size_of_def is_access_def
      new_Allocation_def findAllocation_def findSorted_def Let_def sample_table_def new_AllocationTable_def
      MaskKey_def AND_mask_for_shift doesItAlias_def word_less_nat_alt word_le_nat_alt state_chain_Some
      spoor_of_code_def)

theorem processAddToState_records_witness:
  "\<exists>w'. processAddToState all_on 0 access_worker = Some w'
     \<and> 4 \<in> pending (StateCommitInfoMap (allocs (w_store w') 0)) 0 CloneableOutput"
  using processAddToState_records [of access_worker 1 0 0 all_on]
  by (auto simp: access_worker_ok access_delta_def simp del: One_nat_def)

text \<open>
  \<open>processStateRegionSet\<close> adds the first offset and the end offset of the region to the class the entry
  names, for its state and every ancestor, and nothing else.
\<close>

theorem processStateRegionSet_records:
  assumes "parents_ok (w_store w)" and "s < next_sref (w_store w)" and "i < length (w_slots w)"
    and "findAllocation (localAllocationTable w) (w_store w) (ptr (w_slots w ! i)) = Some a"
    and "entryState (w_slots w ! i) = Some s" and "size_of (w_slots w ! i) \<noteq> None"
  shows "\<exists>w' ss. processStateRegionSet i w = Some w' \<and> state_chain (states (w_store w)) (Some s) = Some ss
     \<and> localAllocationTable w' = localAllocationTable w \<and> overflowWork w' = overflowWork w
     \<and> leftOverflow w' = leftOverflow w \<and> states (w_store w') = states (w_store w)
     \<and> (\<forall>b s' k. pending (StateCommitInfoMap (allocs (w_store w') b)) s' k
          = pending (StateCommitInfoMap (allocs (w_store w) b)) s' k
            \<union> (if b = a \<and> s' \<in> set ss
               then region_delta (w_slots w ! i) (the (size_of (w_slots w ! i)))
                      (pointer (allocs (w_store w) a)) k else {}))"
  using region_walk.walk [OF assms] .

theorem processStateRegionSet_records_witness:
  "\<exists>w'. processStateRegionSet 1 access_worker = Some w'
     \<and> 12 \<in> pending (StateCommitInfoMap (allocs (w_store w') 0)) 0 Input"
  using processStateRegionSet_records [of access_worker 1 1 0]
  by (auto simp: access_worker_ok region_delta_def simp del: One_nat_def)

text \<open>
  Freeing a tracked block commits its pending offsets to the states, except the ancestors shared with the
  freeing state, and removes exactly its address from the table.
\<close>

theorem processFreeAllocation_commits:
  assumes "heap_ok (w_store w)" and "state_ok (w_store w) (entryState (w_slots w ! i))"
    and "findAllocation (localAllocationTable w) (w_store w) (ptr (w_slots w ! i)) = Some a"
    and "maps_ok (localAllocationTable w)"
  shows "\<exists>w' skipV affV. processFreeAllocation i w = Some w'
     \<and> state_chain (states (w_store w)) (entryState (w_slots w ! i)) = Some skipV
     \<and> state_chain (states (w_store w)) (affiliatedState (allocs (w_store w) a)) = Some affV
     \<and> table_at (localAllocationTable w') = (table_at (localAllocationTable w))(ptr (w_slots w ! i) := None)
     \<and> (\<forall>s k b. offsets_of (spoor (states (w_store w') s) k) b
          = offsets_of (spoor (states (w_store w) s) k) b
            \<union> (if b = a \<and> \<not> (s \<in> set affV \<and> s \<in> set skipV)
               then pending (StateCommitInfoMap (allocs (w_store w) a)) s k else {}))
     \<and> (\<forall>s k. pending (StateCommitInfoMap (allocs (w_store w') a)) s k = {})"
proof -
  have "parents_ok (w_store w)" "state_ok (w_store w) (affiliatedState (allocs (w_store w) a))"
    "infos_ok (StateCommitInfoMap (allocs (w_store w) a))" using assms(1) by (simp_all add: heap_ok_def)
  from commitStateInfo_effect [OF this(1) assms(2) this(2,3)] assms(3)
    DeleteAllocation_effect [OF assms(4), of "ptr (w_slots w ! i)"]
  show ?thesis by (auto simp: processFreeAllocation_def Let_def)
qed

theorem processFreeAllocation_commits_witness:
  "\<exists>w'. processFreeAllocation 0 (Shadow_new sample_table None sample_blocks [acc_entry ALLOC_FREE 100]) = Some w'
     \<and> table_at (localAllocationTable w') 100 = None"
proof -
  let ?w = "Shadow_new sample_table None sample_blocks [acc_entry ALLOC_FREE 100]"
  have "heap_ok (w_store ?w)" using sample_worker_ok by (simp add: worker_ok_def sample_worker_def Shadow_new_def)
  moreover have "state_ok (w_store ?w) (entryState (w_slots ?w ! 0))"
    by (simp add: Shadow_new_def state_ok_def acc_entry_def)
  moreover have "findAllocation (localAllocationTable ?w) (w_store ?w) (ptr (w_slots ?w ! 0)) = Some 0"
    by (simp add: Shadow_new_def acc_entry_def findAllocation_def findSorted_def Let_def sample_table_def
        new_AllocationTable_def MaskKey_def AND_mask_for_shift word_less_nat_alt)
  moreover have "maps_ok (localAllocationTable ?w)"
    by (simp add: Shadow_new_def maps_ok_def sample_table_def new_AllocationTable_def word_less_nat_alt)
  ultimately show ?thesis
    using processFreeAllocation_commits [of ?w 0 0] by (auto simp: Shadow_new_def acc_entry_def)
qed

section \<open>Registering a block\<close>

lemma origin_alloc_effect:
  assumes "origin_alloc e n h = (a, h')"
  shows "pointer (allocs h' a) = ptr e" and "len (allocs h' a) = n"
    and "map_of (originToAllocMap h') (information e) = Some a"
    and "map_of (originToAllocMap h) (information e) = Some b \<Longrightarrow> a = b"
  using assms
  by (auto simp: origin_alloc_def alloc_Allocation_def new_Allocation_def split: option.splits)

lemma add_allocated_fold:
  "allocs (fold (add_allocated a) ss h) = allocs h"
  "originToAllocMap (fold (add_allocated a) ss h) = originToAllocMap h"
  "s \<in> set ss \<Longrightarrow> a \<in> set (AllocsAllocatedInState (states (fold (add_allocated a) ss h) s))"
proof -
  show "allocs (fold (add_allocated a) ss h) = allocs h"
    "originToAllocMap (fold (add_allocated a) ss h) = originToAllocMap h"
    by (induction ss arbitrary: h) (auto simp: add_allocated_def)
  have keep: "a \<in> set (AllocsAllocatedInState (states h s)) \<Longrightarrow>
      a \<in> set (AllocsAllocatedInState (states (fold (add_allocated a) ss h) s))" for ss h
    by (induction ss arbitrary: h) (auto simp: add_allocated_def)
  show "s \<in> set ss \<Longrightarrow> a \<in> set (AllocsAllocatedInState (states (fold (add_allocated a) ss h) s))"
  proof (induction ss arbitrary: h)
    case (Cons x ss)
    show ?case
    proof (cases "x = s")
      case True
      have "a \<in> set (AllocsAllocatedInState (states (add_allocated a s h) s))"
        by (simp add: add_allocated_def)
      from keep [OF this, of ss] True show ?thesis by simp
    qed (use Cons in simp)
  qed simp
qed

lemma AddAlloc_effect:
  assumes "heap_ok (w_store w)" and "size_of (w_slots w ! i) = Some n"
    and "state_ok (w_store w) (entryState (w_slots w ! i))"
  shows "\<exists>w' a h1 ss. processAddAlloc i w = Some w'
     \<and> origin_alloc (w_slots w ! i) n (w_store w) = (a, h1)
     \<and> state_chain (states (w_store w)) (entryState (w_slots w ! i)) = Some ss
     \<and> localAllocationTable w' = InsertAllocation (ptr (w_slots w ! i)) a h1 (localAllocationTable w)
     \<and> w_store w' = fold (add_allocated a) ss
          (upd_alloc a (\<lambda>al. al\<lparr>affiliatedState := entryState (w_slots w ! i)\<rparr>) h1)"
proof -
  obtain a h1 where o: "origin_alloc (w_slots w ! i) n (w_store w) = (a, h1)" by (metis surj_pair)
  obtain ss where ss: "state_chain (states (w_store w)) (entryState (w_slots w ! i)) = Some ss"
    using state_chain_returns [of "w_store w"] assms(1,3) by (auto simp: heap_ok_def)
  show ?thesis
    using o ss assms(2) heap_ok_origin_alloc(3) [OF assms(1) o] by (simp add: processAddAlloc_def Let_def)
qed

text \<open>
  Registering a block at an address that has none makes the address map to an allocation object with the
  block's address, length and state, remembers the object under its origin, and lists it in the block's state and
  all ancestors of that state.
\<close>

theorem processAddAlloc_registers:
  assumes "heap_ok (w_store w)" and "size_of (w_slots w ! i) = Some n"
    and "state_ok (w_store w) (entryState (w_slots w ! i))" and "maps_ok (localAllocationTable w)"
    and "table_at (localAllocationTable w) (ptr (w_slots w ! i)) = None"
  shows "\<exists>w' a ss. processAddAlloc i w = Some w'
     \<and> table_at (localAllocationTable w') = (table_at (localAllocationTable w))(ptr (w_slots w ! i) \<mapsto> a)
     \<and> maps_ok (localAllocationTable w')
     \<and> pointer (allocs (w_store w') a) = ptr (w_slots w ! i) \<and> len (allocs (w_store w') a) = n
     \<and> affiliatedState (allocs (w_store w') a) = entryState (w_slots w ! i)
     \<and> map_of (originToAllocMap (w_store w')) (information (w_slots w ! i)) = Some a
     \<and> state_chain (states (w_store w)) (entryState (w_slots w ! i)) = Some ss
     \<and> (\<forall>s \<in> set ss. a \<in> set (AllocsAllocatedInState (states (w_store w') s)))"
proof -
  obtain w' a h1 ss where w': "processAddAlloc i w = Some w'"
    "origin_alloc (w_slots w ! i) n (w_store w) = (a, h1)"
    "state_chain (states (w_store w)) (entryState (w_slots w ! i)) = Some ss"
    "localAllocationTable w' = InsertAllocation (ptr (w_slots w ! i)) a h1 (localAllocationTable w)"
    "w_store w' = fold (add_allocated a) ss
       (upd_alloc a (\<lambda>al. al\<lparr>affiliatedState := entryState (w_slots w ! i)\<rparr>) h1)"
    using AddAlloc_effect [OF assms(1-3)] by blast
  show ?thesis
    using w' origin_alloc_effect(1-3) [OF w'(2)] InsertAllocation_effect [OF assms(4)] assms(5)
    by (simp add: add_allocated_fold)
qed

lemma sample_worker_add:
  "heap_ok (w_store sample_worker)" "size_of (w_slots sample_worker ! 1) = Some 24"
  "state_ok (w_store sample_worker) (entryState (w_slots sample_worker ! 1))"
  "maps_ok (localAllocationTable sample_worker)"
  "table_at (localAllocationTable sample_worker) (ptr (w_slots sample_worker ! 1)) = None"
  "ptr (w_slots sample_worker ! 1) = 300"
proof -
  show "heap_ok (w_store sample_worker)" using sample_worker_ok by (simp add: worker_ok_def)
qed (simp_all add: sample_worker_def Shadow_new_def size_of_def acc_entry_def state_ok_def maps_ok_def
    sample_table_def new_AllocationTable_def word_less_nat_alt table_at_def)

theorem processAddAlloc_registers_witness:
  "\<exists>w' a. processAddAlloc 1 sample_worker = Some w' \<and> table_at (localAllocationTable w') 300 = Some a
     \<and> len (allocs (w_store w') a) = 24"
  using processAddAlloc_registers [OF sample_worker_add(1-5)] sample_worker_add(6) by auto

text \<open>
  Allocation objects are shared per origin. When the origin of a new block already has an object, registering
  the block changes that object's address and length in place, so every earlier block of the origin that is still in
  the table is described by the address and the length of the newest one.
\<close>

theorem processAddAlloc_reuses_object:
  assumes "heap_ok (w_store w)" and "size_of (w_slots w ! i) = Some n"
    and "state_ok (w_store w) (entryState (w_slots w ! i))" and "maps_ok (localAllocationTable w)"
    and "table_at (localAllocationTable w) (ptr (w_slots w ! i)) = None"
    and "map_of (originToAllocMap (w_store w)) (information (w_slots w ! i)) = Some a"
    and "table_at (localAllocationTable w) old = Some a"
  shows "\<exists>w'. processAddAlloc i w = Some w' \<and> table_at (localAllocationTable w') old = Some a
     \<and> table_at (localAllocationTable w') (ptr (w_slots w ! i)) = Some a
     \<and> pointer (allocs (w_store w') a) = ptr (w_slots w ! i) \<and> len (allocs (w_store w') a) = n
     \<and> old \<noteq> ptr (w_slots w ! i)"
proof -
  obtain w' b h1 ss where w': "processAddAlloc i w = Some w'"
    "origin_alloc (w_slots w ! i) n (w_store w) = (b, h1)"
    "localAllocationTable w' = InsertAllocation (ptr (w_slots w ! i)) b h1 (localAllocationTable w)"
    "w_store w' = fold (add_allocated b) ss
       (upd_alloc b (\<lambda>al. al\<lparr>affiliatedState := entryState (w_slots w ! i)\<rparr>) h1)"
    using AddAlloc_effect [OF assms(1-3)] by blast
  have "b = a" using origin_alloc_effect(4) [OF w'(2) assms(6)] .
  then show ?thesis
    using w' origin_alloc_effect(1,2) [OF w'(2)] InsertAllocation_effect [OF assms(4)] assms(5,7)
    by (auto simp: add_allocated_fold)
qed

theorem processAddAlloc_reuses_object_witness:
  "\<exists>w'. processAddAlloc 1 (sample_worker\<lparr>w_store := sample_blocks\<lparr>originToAllocMap := [(9, 0)]\<rparr>\<rparr>) = Some w'
     \<and> table_at (localAllocationTable w') 100 = Some 0 \<and> pointer (allocs (w_store w') 0) = 300"
proof -
  let ?w = "sample_worker\<lparr>w_store := sample_blocks\<lparr>originToAllocMap := [(9, 0)]\<rparr>\<rparr>"
  have "heap_ok (w_store ?w)"
    using sample_worker_add(1) by (auto simp: sample_worker_def Shadow_new_def elim!: heap_ok_fields)
  moreover have "state_ok (w_store ?w) (entryState (w_slots ?w ! 1))"
    using sample_worker_add(3) by (simp add: sample_worker_def Shadow_new_def state_ok_def split: option.splits)
  moreover have "map_of (originToAllocMap (w_store ?w)) (information (w_slots ?w ! 1)) = Some 0"
    "table_at (localAllocationTable ?w) 100 = Some 0"
    by (simp_all add: sample_worker_def Shadow_new_def acc_entry_def table_at_def sample_table_def
        new_AllocationTable_def)
  ultimately show ?thesis
    using processAddAlloc_reuses_object [of ?w 1 24 0 100] sample_worker_add(2,4-6) by auto
qed

section \<open>Sharing a batch between shadows\<close>

text \<open>
  With at least as many entries as shadows the bounds of \<open>shadowRun\<close> cut the batch into consecutive ranges
  that together are exactly its indices: no entry is left out and none is processed twice.
\<close>

theorem shadow_bounds_partition:
  assumes "0 < num" and "num \<le> n"
  shows "concat (map (\<lambda>t. case shadow_bounds num n t of (l, r) \<Rightarrow> [l..<Suc r]) [0..<num]) = [0..<n]"
proof -
  let ?k = "n div num" and ?f = "\<lambda>t. case shadow_bounds num n t of (l, r) \<Rightarrow> [l..<Suc r]"
  have k: "0 < ?k" using assms by (simp add: div_greater_zero_iff)
  have low: "?f t = [t * ?k..<(t + 1) * ?k]" if "t + 1 < num" for t
    using that k by (simp add: shadow_bounds_def Let_def del: upt_Suc)
  have pre: "concat (map ?f [0..<t]) = [0..<t * ?k]" if "t < num" for t
    using that
  proof (induction t)
    case (Suc t)
    then show ?case using low [of t] upt_add_eq_append [of 0 "t * ?k" ?k] by (simp add: add.commute)
  qed simp
  obtain m where m: "num = Suc m" using assms(1) by (cases num) auto
  have last: "?f m = [m * ?k..<n]"
    using k m mult_div_mod_eq [of num n]
    by (simp add: shadow_bounds_def Let_def algebra_simps del: upt_Suc)
  have "m * ?k \<le> n" using m by (metis div_times_less_eq_dividend le_trans mult.commute mult_le_mono1 lessI less_imp_le)
  then show ?thesis
    using pre [of m] last m upt_add_eq_append [of 0 "m * ?k" "n - m * ?k"] by simp
qed

theorem shadow_bounds_partition_witness:
  "concat (map (\<lambda>t. case shadow_bounds 4 10 t of (l, r) \<Rightarrow> [l..<Suc r]) [0..<4]) = [0..<10]"
  by (rule shadow_bounds_partition) simp_all

text \<open>
  With fewer entries than shadows every shadow but the first still processes entry 0, and the first one
  reads one entry past the batch: the entries are executed more than once.
\<close>

theorem shadow_bounds_small:
  assumes "n < num" and "0 < t"
  shows "shadow_bounds num n t = (0, 0) \<and> shadow_bounds num n 0 = (0, n)"
  using assms by (simp add: shadow_bounds_def)

theorem shadow_bounds_small_witness: "shadow_bounds 4 2 3 = (0, 0) \<and> shadow_bounds 4 2 0 = (0, 2)"
  by (rule shadow_bounds_small) simp_all

text \<open>
  A commit that reaches a shadow other than the leftmost is put on the overflow queue of its left neighbour,
  not on its own, although the left neighbour reads the queue of its right shadow. The queue the neighbour reads
  does not change, and for the leftmost neighbour nobody reads the queue the entry went to.
\<close>

theorem commit_of_right_shadow_not_forwarded:
  assumes "leftOverflow w = Some q"
  shows "\<exists>w'. commit_step i w = Some w' \<and> overflowWork w' = overflowWork w
     \<and> leftOverflow w' = Some (q @ [i]) \<and> w_store w' = w_store w"
  using assms by (simp add: commit_step_def push_left_def)

theorem commit_of_right_shadow_not_forwarded_witness:
  "\<exists>w'. commit_step 0 (Shadow_new sample_table (Some []) sample_blocks [mark_entry STATE_COMMIT 0]) = Some w'
     \<and> overflowWork w' = [] \<and> leftOverflow w' = Some [0]"
  using commit_of_right_shadow_not_forwarded
    [of "Shadow_new sample_table (Some []) sample_blocks [mark_entry STATE_COMMIT 0]" "[]" 0]
  by (auto simp: Shadow_new_def)

end
