(* ===== verification/Texas_Runtime.thy ===== *)
theory Texas_Runtime
  imports Shadow_Worker
begin

text \<open>
  The entry points of \<open>texas.cpp\<close>: the calls the instrumented program makes write entries into the slots of
  the current batch; a full batch goes to the background thread, or is processed at once when optimisations are
  disabled. The abstract view of the main thread is an append-only log of entries; the theorems show that slots and
  batches implement it.

  The queues between the threads come from the VIRGIL library. They are parameters: \<open>queue_ops\<close> has the operations
  the code calls, and the locale \<open>fifo\<close> states what is relied on. \<open>waitPop\<close> on an empty queue blocks, which the
  model shows as the result \<open>None\<close>, like a failure inside a batch. The contents of freshly allocated buffers are a
  parameter too.
\<close>

section \<open>State of the runtime\<close>

record ('w, 'r) queue_ops =
  wpush :: "shadowBatch \<Rightarrow> 'w \<Rightarrow> 'w"
  wpop :: "'w \<Rightarrow> (shadowBatch \<times> 'w) option"
  rpush :: "shadowEntry list \<Rightarrow> 'r \<Rightarrow> 'r"
  rpop :: "'r \<Rightarrow> (shadowEntry list \<times> 'r) option"

record environment =
  env_mem :: "u64 \<Rightarrow> u64"
  env_scc :: "graph \<Rightarrow> int list"
  env_sync :: "u64 \<Rightarrow> bool"

record ('w, 'r) runtime =
  r_store :: store
  allocationMap :: "AllocationTable option"
  inRT :: bool
  activeState :: "sref option"
  currentStateID :: u64
  oldState :: "sref option"
  r_config :: config
  SHADOW_WINDOW :: nat
  NUM_BATCHES :: nat
  slotStart :: nat
  texasWorkEntries :: "shadowEntry list"
  texasWorkEntriesQueue :: 'w
  texasReadyBatchEntriesQueue :: 'r
  curBatchNumber :: u64

section \<open>Batches\<close>

definition serialProcessShadowBatch ::
  "('w, 'r) queue_ops \<Rightarrow> environment \<Rightarrow> shadowBatch \<Rightarrow> ('w, 'r) runtime \<Rightarrow> ('w, 'r) runtime option" where
  "serialProcessShadowBatch q env b r =
     (case (cleanBatch (r_config r) b (oldState r, r_store r), allocationMap r) of
        (Some (b1, old, h1), Some t) \<Rightarrow>
          (case processShadowBatch (r_config r) (env_mem env) (env_scc env)
                  (\<lambda>p. \<not> disableOptimizations (r_config r) \<and> env_sync env p) 0 (numEntries b1) None
                  (Shadow_new t None h1 (shadowEntries b1)) of
             None \<Rightarrow> None
           | Some (w, _) \<Rightarrow>
               Some (r\<lparr>r_store := w_store w, allocationMap := Some (localAllocationTable w),
                       oldState := old,
                       texasReadyBatchEntriesQueue := rpush q (w_slots w) (texasReadyBatchEntriesQueue r)\<rparr>))
      | _ \<Rightarrow> None)"

definition waitPop :: "('w, 'r) queue_ops \<Rightarrow> ('w, 'r) runtime \<Rightarrow> ('w, 'r) runtime option" where
  "waitPop q r =
     (case rpop q (texasReadyBatchEntriesQueue r) of
        None \<Rightarrow> None
      | Some (b, rq) \<Rightarrow> Some (r\<lparr>texasWorkEntries := b, texasReadyBatchEntriesQueue := rq\<rparr>))"

definition batchFull ::
  "('w, 'r) queue_ops \<Rightarrow> environment \<Rightarrow> bool \<Rightarrow> ('w, 'r) runtime \<Rightarrow> ('w, 'r) runtime option" where
  "batchFull q env capacityFill r =
     (let newBatch = \<lparr>numEntries = (if capacityFill then SHADOW_WINDOW r else slotStart r),
                      shadowEntries = texasWorkEntries r, status = NEW_BATCH,
                      batchNumber = curBatchNumber r\<rparr>;
          r1 = r\<lparr>curBatchNumber := curBatchNumber r + 1\<rparr>
      in case (if disableOptimizations (r_config r) then serialProcessShadowBatch q env newBatch r1
               else Some (r1\<lparr>texasWorkEntriesQueue := wpush q newBatch (texasWorkEntriesQueue r1)\<rparr>)) of
           None \<Rightarrow> None
         | Some r2 \<Rightarrow> waitPop q (r2\<lparr>slotStart := 0\<rparr>))"

text \<open>The slot and the incremented index; the caller writes the fields of the slot.\<close>

definition getFreeSlot ::
  "('w, 'r) queue_ops \<Rightarrow> environment \<Rightarrow> ('w, 'r) runtime \<Rightarrow> (nat \<times> ('w, 'r) runtime) option" where
  "getFreeSlot q env r =
     (case (if slotStart r \<ge> SHADOW_WINDOW r then batchFull q env True r else Some r) of
        None \<Rightarrow> None
      | Some r1 \<Rightarrow> Some (slotStart r1, r1\<lparr>slotStart := slotStart r1 + 1\<rparr>))"

definition put_entry ::
  "('w, 'r) queue_ops \<Rightarrow> environment \<Rightarrow> (shadowEntry \<Rightarrow> shadowEntry) \<Rightarrow> ('w, 'r) runtime
   \<Rightarrow> ('w, 'r) runtime option" where
  "put_entry q env f r =
     (case getFreeSlot q env r of
        None \<Rightarrow> None
      | Some (i, r1) \<Rightarrow>
          Some (r1\<lparr>texasWorkEntries := (texasWorkEntries r1)[i := f (texasWorkEntries r1 ! i)]\<rparr>))"

section \<open>Initialisation\<close>

definition texas_init ::
  "('w, 'r) queue_ops \<Rightarrow> 'w \<Rightarrow> 'r \<Rightarrow> (nat \<Rightarrow> shadowEntry list) \<Rightarrow> ('w, 'r) runtime
   \<Rightarrow> ('w, 'r) runtime option" where
  "texas_init q emptyW emptyR buffers r =
     (if allocationMap r = None then
        (let rq = fold (rpush q) (map buffers [0..<NUM_BATCHES r]) emptyR;
             r1 = r\<lparr>texasWorkEntriesQueue := emptyW, texasReadyBatchEntriesQueue := rq,
                    r_store := (r_store r)\<lparr>originToAllocMap := []\<rparr>\<rparr>
         in case waitPop q r1 of
              None \<Rightarrow> None
            | Some r2 \<Rightarrow>
                (case alloc_Allocation (- 1) 0 0 (r_store r2) of
                   (maxEntry, h) \<Rightarrow>
                     Some (r2\<lparr>r_store := h,
                              allocationMap := Some (InsertAllocation (- 1) maxEntry h new_AllocationTable)\<rparr>)))
      else Some r)"

text \<open>
  \<open>ENTER_RT\<close> and \<open>EXIT_RT\<close>: a call made while the runtime is running is ignored. The runtime is initialised
  before \<open>main\<close> by the constructor of \<open>__texasStartup\<close>, so the table exists.
\<close>

definition guarded ::
  "(('w, 'r) runtime \<Rightarrow> ('w, 'r) runtime option) \<Rightarrow> ('w, 'r) runtime \<Rightarrow> ('w, 'r) runtime option" where
  "guarded body r =
     (if inRT r then Some r
      else case body (r\<lparr>inRT := True\<rparr>) of None \<Rightarrow> None | Some r1 \<Rightarrow> Some (r1\<lparr>inRT := False\<rparr>))"

section \<open>Allocation calls\<close>

definition alloc_add_entry :: "u64 \<Rightarrow> u64 \<Rightarrow> u64 \<Rightarrow> sref option \<Rightarrow> shadowEntry \<Rightarrow> shadowEntry" where
  "alloc_add_entry address n ori st e =
     e\<lparr>operation := op_word ALLOC_ADD, ptr := address, sizeState := Size n, information := ori,
       entryState := st\<rparr>"

definition AddToAllocationTable_state ::
  "('w, 'r) queue_ops \<Rightarrow> environment \<Rightarrow> u64 \<Rightarrow> u64 \<Rightarrow> u64 \<Rightarrow> sref option \<Rightarrow> ('w, 'r) runtime
   \<Rightarrow> ('w, 'r) runtime option" where
  "AddToAllocationTable_state q env address n ori st =
     guarded (put_entry q env (alloc_add_entry address n ori st))"

definition AddToAllocationTable ::
  "('w, 'r) queue_ops \<Rightarrow> environment \<Rightarrow> u64 \<Rightarrow> u64 \<Rightarrow> u64 \<Rightarrow> ('w, 'r) runtime \<Rightarrow> ('w, 'r) runtime option" where
  "AddToAllocationTable q env address n ori r =
     guarded (\<lambda>r. put_entry q env (alloc_add_entry address n ori (activeState r)) r) r"

definition AddCallocToAllocationTable ::
  "('w, 'r) queue_ops \<Rightarrow> environment \<Rightarrow> u64 \<Rightarrow> u64 \<Rightarrow> u64 \<Rightarrow> u64 \<Rightarrow> ('w, 'r) runtime
   \<Rightarrow> ('w, 'r) runtime option" where
  "AddCallocToAllocationTable q env address n sizeOfEntry ori =
     AddToAllocationTable q env address (n * sizeOfEntry) ori"

definition AddCallocToAllocationTable_state ::
  "('w, 'r) queue_ops \<Rightarrow> environment \<Rightarrow> u64 \<Rightarrow> u64 \<Rightarrow> u64 \<Rightarrow> u64 \<Rightarrow> sref option \<Rightarrow> ('w, 'r) runtime
   \<Rightarrow> ('w, 'r) runtime option" where
  "AddCallocToAllocationTable_state q env address n sizeOfEntry ori st =
     AddToAllocationTable_state q env address (n * sizeOfEntry) ori st"

definition free_entry :: "u64 \<Rightarrow> sref option \<Rightarrow> shadowEntry \<Rightarrow> shadowEntry" where
  "free_entry address st e = e\<lparr>operation := op_word ALLOC_FREE, ptr := address, entryState := st\<rparr>"

definition RemoveFromAllocationTable_state ::
  "('w, 'r) queue_ops \<Rightarrow> environment \<Rightarrow> u64 \<Rightarrow> sref option \<Rightarrow> ('w, 'r) runtime \<Rightarrow> ('w, 'r) runtime option" where
  "RemoveFromAllocationTable_state q env address st = guarded (put_entry q env (free_entry address st))"

definition RemoveFromAllocationTable ::
  "('w, 'r) queue_ops \<Rightarrow> environment \<Rightarrow> u64 \<Rightarrow> ('w, 'r) runtime \<Rightarrow> ('w, 'r) runtime option" where
  "RemoveFromAllocationTable q env address r =
     guarded (\<lambda>r. put_entry q env (free_entry address (activeState r)) r) r"

definition HandleReallocInAllocationTable ::
  "('w, 'r) queue_ops \<Rightarrow> environment \<Rightarrow> u64 \<Rightarrow> u64 \<Rightarrow> u64 \<Rightarrow> u64 \<Rightarrow> ('w, 'r) runtime
   \<Rightarrow> ('w, 'r) runtime option" where
  "HandleReallocInAllocationTable q env address newAddress n ori r =
     Option.bind (RemoveFromAllocationTable q env address r) (AddToAllocationTable q env newAddress n ori)"

definition HandleReallocInAllocationTable_state ::
  "('w, 'r) queue_ops \<Rightarrow> environment \<Rightarrow> u64 \<Rightarrow> u64 \<Rightarrow> u64 \<Rightarrow> u64 \<Rightarrow> sref option \<Rightarrow> ('w, 'r) runtime
   \<Rightarrow> ('w, 'r) runtime option" where
  "HandleReallocInAllocationTable_state q env address newAddress n ori st r =
     Option.bind (RemoveFromAllocationTable_state q env address st r)
       (AddToAllocationTable_state q env newAddress n ori st)"

definition AddToEscapeTable ::
  "('w, 'r) queue_ops \<Rightarrow> environment \<Rightarrow> u64 \<Rightarrow> ('w, 'r) runtime \<Rightarrow> ('w, 'r) runtime option" where
  "AddToEscapeTable q env addressEscaping r =
     (if \<not> trackCycles (r_config r) then Some r
      else guarded (put_entry q env
             (\<lambda>e. e\<lparr>operation := op_word ESCAPE_ADD, ptr := addressEscaping\<rparr>)) r)"

definition FindCycleInAllocationMap_id ::
  "('w, 'r) queue_ops \<Rightarrow> environment \<Rightarrow> u64 \<Rightarrow> u64 \<Rightarrow> ('w, 'r) runtime \<Rightarrow> ('w, 'r) runtime option" where
  "FindCycleInAllocationMap_id q env sync sid r =
     Option.bind
       (put_entry q env (\<lambda>e. e\<lparr>ptr := sync, operation := op_word DETECT_CYCLE, sizeState := Size sid\<rparr>) r)
       (batchFull q env False)"

definition FindCycleInAllocationMap ::
  "('w, 'r) queue_ops \<Rightarrow> environment \<Rightarrow> u64 \<Rightarrow> ('w, 'r) runtime \<Rightarrow> ('w, 'r) runtime option" where
  "FindCycleInAllocationMap q env sync = FindCycleInAllocationMap_id q env sync (- 1)"

section \<open>State calls\<close>

fun find_state :: "string \<Rightarrow> u64 \<Rightarrow> store \<Rightarrow> (u64 \<times> sref) list \<Rightarrow> sref option" where
  "find_state f l h [] = None"
| "find_state f l h ((_, s) # m) =
     (if functionName (states h s) = f \<and> lineNumber (states h s) = l then Some s
      else find_state f l h m)"

definition enter_state ::
  "string \<Rightarrow> u64 \<Rightarrow> u64 \<Rightarrow> ('w, 'r) runtime \<Rightarrow> sref \<times> ('w, 'r) runtime" where
  "enter_state funcName lineNum temporalTracking r =
     (case find_state funcName lineNum (r_store r) (stateMap (r_store r)) of
        Some s \<Rightarrow> (s, r\<lparr>activeState := Some s\<rparr>)
      | None \<Rightarrow>
          (case alloc_State funcName lineNum temporalTracking (currentStateID r) (activeState r) (r_store r) of
             (s, h) \<Rightarrow>
               (s, r\<lparr>r_store := h\<lparr>stateMap := um_assign (currentStateID r) s (stateMap h)\<rparr>,
                    activeState := Some s, currentStateID := currentStateID r + 1\<rparr>)))"

definition record_naive_size :: "sref \<Rightarrow> ('w, 'r) runtime \<Rightarrow> ('w, 'r) runtime option" where
  "record_naive_size s r =
     (if stateReductionTracking (r_store r) then
        (case allocationMap r of
           None \<Rightarrow> None
         | Some t \<Rightarrow>
             (let naiveSize = GetMemFootprint t (r_store r) in
              Some (if naiveSize > naiveStateSize (states (r_store r) s)
                    then r\<lparr>r_store := upd_state s (\<lambda>st. st\<lparr>naiveStateSize := naiveSize\<rparr>) (r_store r)\<rparr>
                    else r)))
      else Some r)"

definition GetState ::
  "('w, 'r) queue_ops \<Rightarrow> environment \<Rightarrow> string \<Rightarrow> u64 \<Rightarrow> u64 \<Rightarrow> ('w, 'r) runtime
   \<Rightarrow> (u64 \<times> ('w, 'r) runtime) option" where
  "GetState q env funcName lineNum temporalTracking r =
     (case enter_state funcName lineNum temporalTracking r of
        (s, r1) \<Rightarrow>
          (case record_naive_size s r1 of
             None \<Rightarrow> None
           | Some r2 \<Rightarrow>
               (case put_entry q env
                       (\<lambda>e. e\<lparr>operation := op_word STATE_BEGIN, sizeState := StatePtr (Some s)\<rparr>) r2 of
                  None \<Rightarrow> None
                | Some r3 \<Rightarrow> Some (stateID (states (r_store r3) s), r3))))"

definition EndState ::
  "('w, 'r) queue_ops \<Rightarrow> environment \<Rightarrow> u64 \<Rightarrow> ('w, 'r) runtime \<Rightarrow> (u64 \<times> ('w, 'r) runtime) option" where
  "EndState q env uid r =
     (case activeState r of
        None \<Rightarrow> Some (1, r)
      | Some s \<Rightarrow>
          (case put_entry q env
                  (\<lambda>e. e\<lparr>operation := op_word STATE_END, sizeState := StatePtr (Some s)\<rparr>) r of
             None \<Rightarrow> None
           | Some r1 \<Rightarrow> Some (0, r1\<lparr>activeState := parent (states (r_store r1) s)\<rparr>)))"

definition EndStateInvocation ::
  "('w, 'r) queue_ops \<Rightarrow> environment \<Rightarrow> u64 \<Rightarrow> ('w, 'r) runtime \<Rightarrow> (u64 \<times> ('w, 'r) runtime) option" where
  "EndStateInvocation q env uid r =
     (case map_of (stateMap (r_store r)) uid of
        None \<Rightarrow> Some (- 1, r)
      | Some s \<Rightarrow>
          (case Option.bind
                  (put_entry q env
                     (\<lambda>e. e\<lparr>operation := op_word STATE_COMMIT, sizeState := StatePtr (Some s)\<rparr>) r)
                  (batchFull q env False) of
             None \<Rightarrow> None
           | Some r1 \<Rightarrow> Some (0, r1)))"

text \<open>The access code is computed as an \<open>int\<close> and stored in the 64-bit field.\<close>

definition access_entry :: "u64 \<Rightarrow> int \<Rightarrow> u64 \<Rightarrow> shadowEntry \<Rightarrow> shadowEntry" where
  "access_entry allocPtr rw uid e =
     e\<lparr>operation := word_of_int (int (opcode STATE_ADD_READ) + rw), ptr := allocPtr, information := uid\<rparr>"

definition AddToState ::
  "('w, 'r) queue_ops \<Rightarrow> environment \<Rightarrow> u64 \<Rightarrow> int \<Rightarrow> u64 \<Rightarrow> ('w, 'r) runtime \<Rightarrow> ('w, 'r) runtime option" where
  "AddToState q env allocPtr rw uid r =
     guarded (\<lambda>r. if activeState r = None then Some r
                   else put_entry q env (access_entry allocPtr rw uid) r) r"

definition AddToStateMulti ::
  "('w, 'r) queue_ops \<Rightarrow> environment \<Rightarrow> u64 \<Rightarrow> u64 \<Rightarrow> int \<Rightarrow> int \<Rightarrow> u64 \<Rightarrow> ('w, 'r) runtime
   \<Rightarrow> ('w, 'r) runtime option" where
  "AddToStateMulti q env p1 p2 rw rw2 uid r =
     Option.bind (AddToState q env p1 rw uid r)
       (\<lambda>r1. if p2 \<noteq> 0 then AddToState q env p2 rw2 uid r1 else Some r1)"

definition AddRedundantOp ::
  "('w, 'r) queue_ops \<Rightarrow> environment \<Rightarrow> ('w, 'r) runtime \<Rightarrow> ('w, 'r) runtime option" where
  "AddRedundantOp q env =
     guarded (put_entry q env
       (\<lambda>e. e\<lparr>information := 0, operation := op_word REDUNDANT, ptr := 0, sizeState := Size 0\<rparr>))"

text \<open>
  For an unknown id \<open>stateMap[stateID]\<close> inserts a null state, which the traversal of \<open>stateMap\<close> in
  \<open>GetState\<close> or in \<open>ReportStatistics\<close> dereferences; the model gives no result at once. The cast to \<open>char\<close>
  keeps the low byte, signed.
\<close>

definition SetStateRegion ::
  "('w, 'r) queue_ops \<Rightarrow> environment \<Rightarrow> u64 \<Rightarrow> u64 \<Rightarrow> u64 \<Rightarrow> u64 \<Rightarrow> u64 \<Rightarrow> ('w, 'r) runtime
   \<Rightarrow> ('w, 'r) runtime option" where
  "SetStateRegion q env startPtr lengthInBytes sid setCode info r =
     guarded (\<lambda>r.
       case map_of (stateMap (r_store r)) sid of
         None \<Rightarrow> None
       | Some s \<Rightarrow>
           put_entry q env
             (\<lambda>e. e\<lparr>information := info, operation := op_word STATE_REGION_SET, ptr := startPtr,
                    entryState := Some s, sizeState := Size lengthInBytes,
                    stateToSet := scast (ucast setCode :: 8 word)\<rparr>) r) r"

section \<open>Reporting\<close>

definition ReportStates :: "store \<Rightarrow> store" where
  "ReportStates h = fold (\<lambda>(_, s). ReportState s) (stateMap h) h"

definition finish_report :: "environment \<Rightarrow> ('w, 'r) runtime \<Rightarrow> ('w, 'r) runtime option" where
  "finish_report env r =
     (case allocationMap r of
        None \<Rightarrow> None
      | Some t \<Rightarrow>
          (case CommitStateInfoForAllocations t (r_store r) of
             None \<Rightarrow> None
           | Some h1 \<Rightarrow>
               (case (if trackCycles (r_config r)
                      then (case GenerateConnectionGraph (env_mem env) t h1 of
                              (t2, h2) \<Rightarrow> (FindCyclesInConnectionGraph (env_scc env) h2 t2, h2))
                      else (t, h1)) of
                  (t3, h3) \<Rightarrow>
                    Some (r\<lparr>allocationMap := Some t3,
                            r_store := ReportStates (fold (\<lambda>(_, s). upd_state s CommitState) (stateMap h3) h3),
                            inRT := True\<rparr>))))"

text \<open>
  The background thread of the default mode: it pops batches and processes them one after the other until it pops
  the kill batch. \<open>fuel\<close> bounds the number of batches; a queue of \<open>n\<close> batches needs \<open>n\<close>.
\<close>

fun singleShadowProcessShadowBatches ::
  "('w, 'r) queue_ops \<Rightarrow> environment \<Rightarrow> nat \<Rightarrow> ('w, 'r) runtime \<Rightarrow> ('w, 'r) runtime option" where
  "singleShadowProcessShadowBatches q env 0 r = None"
| "singleShadowProcessShadowBatches q env (Suc fuel) r =
     (case wpop q (texasWorkEntriesQueue r) of
        None \<Rightarrow> None
      | Some (b, wq) \<Rightarrow>
          (let r1 = r\<lparr>texasWorkEntriesQueue := wq\<rparr> in
           case status b of
             KILL_BATCH \<Rightarrow> Some r1
           | NEW_BATCH \<Rightarrow>
               Option.bind (serialProcessShadowBatch q env b r1)
                 (singleShadowProcessShadowBatches q env fuel)
           | CLEANED_BATCH \<Rightarrow> singleShadowProcessShadowBatches q env fuel r1))"

definition kill_batch :: shadowBatch where
  "kill_batch = \<lparr>numEntries = 0, shadowEntries = [], status = KILL_BATCH, batchNumber = 0\<rparr>"

definition ReportStatistics ::
  "('w, 'r) queue_ops \<Rightarrow> environment \<Rightarrow> nat \<Rightarrow> ('w, 'r) runtime \<Rightarrow> ('w, 'r) runtime option" where
  "ReportStatistics q env fuel r =
     (let newBatch = \<lparr>numEntries = slotStart r, shadowEntries = texasWorkEntries r, status = NEW_BATCH,
                      batchNumber = curBatchNumber r\<rparr>;
          r1 = r\<lparr>curBatchNumber := curBatchNumber r + 1\<rparr>
      in Option.bind
           (if \<not> disableOptimizations (r_config r)
            then singleShadowProcessShadowBatches q env fuel
                   (r1\<lparr>texasWorkEntriesQueue :=
                         wpush q kill_batch (wpush q newBatch (texasWorkEntriesQueue r1))\<rparr>)
            else serialProcessShadowBatch q env newBatch r1)
           (finish_report env))"

section \<open>The log of the main thread\<close>

text \<open>What the code relies on of the two queues: first in, first out.\<close>

definition queues_fifo ::
  "('w, 'r) queue_ops \<Rightarrow> ('w \<Rightarrow> shadowBatch list) \<Rightarrow> ('r \<Rightarrow> shadowEntry list list) \<Rightarrow> bool" where
  "queues_fifo q welems relems \<longleftrightarrow>
     (\<forall>b wq. welems (wpush q b wq) = welems wq @ [b])
   \<and> (\<forall>wq. wpop q wq = None \<longleftrightarrow> welems wq = [])
   \<and> (\<forall>wq b wq'. wpop q wq = Some (b, wq') \<longrightarrow> welems wq = b # welems wq')
   \<and> (\<forall>b rq. relems (rpush q b rq) = relems rq @ [b])
   \<and> (\<forall>rq. rpop q rq = None \<longleftrightarrow> relems rq = [])
   \<and> (\<forall>rq b rq'. rpop q rq = Some (b, rq') \<longrightarrow> relems rq = b # relems rq')"

definition batch_entries :: "shadowBatch \<Rightarrow> shadowEntry list" where
  "batch_entries b = take (numEntries b) (shadowEntries b)"

definition entry_log :: "('w \<Rightarrow> shadowBatch list) \<Rightarrow> ('w, 'r) runtime \<Rightarrow> shadowEntry list" where
  "entry_log welems r = concat (map batch_entries (welems (texasWorkEntriesQueue r)))
     @ take (slotStart r) (texasWorkEntries r)"

definition buffers_ok :: "('r \<Rightarrow> shadowEntry list list) \<Rightarrow> ('w, 'r) runtime \<Rightarrow> bool" where
  "buffers_ok relems r \<longleftrightarrow> 0 < SHADOW_WINDOW r \<and> slotStart r \<le> SHADOW_WINDOW r
     \<and> length (texasWorkEntries r) = SHADOW_WINDOW r
     \<and> (\<forall>b \<in> set (relems (texasReadyBatchEntriesQueue r)). length b = SHADOW_WINDOW r)"

lemma waitPop_ready:
  assumes "queues_fifo q welems relems" and "relems (texasReadyBatchEntriesQueue r) \<noteq> []"
  shows "\<exists>b rq. rpop q (texasReadyBatchEntriesQueue r) = Some (b, rq)
     \<and> relems (texasReadyBatchEntriesQueue r) = b # relems rq
     \<and> waitPop q r = Some (r\<lparr>texasWorkEntries := b, texasReadyBatchEntriesQueue := rq\<rparr>)"
proof -
  have "rpop q (texasReadyBatchEntriesQueue r) \<noteq> None"
    using assms unfolding queues_fifo_def by metis
  then obtain b rq where "rpop q (texasReadyBatchEntriesQueue r) = Some (b, rq)" by auto
  moreover from this have "relems (texasReadyBatchEntriesQueue r) = b # relems rq"
    using assms(1) unfolding queues_fifo_def by metis
  ultimately show ?thesis by (simp add: waitPop_def)
qed

lemma batchFull_effect:
  assumes fifo: "queues_fifo q welems relems" and ok: "buffers_ok relems r"
    and ready: "relems (texasReadyBatchEntriesQueue r) \<noteq> []"
    and opt: "\<not> disableOptimizations (r_config r)"
    and cap: "cap \<longrightarrow> slotStart r = SHADOW_WINDOW r"
  shows "\<exists>r'. batchFull q env cap r = Some r' \<and> entry_log welems r' = entry_log welems r
     \<and> slotStart r' = 0 \<and> buffers_ok relems r' \<and> r_store r' = r_store r \<and> activeState r' = activeState r
     \<and> r_config r' = r_config r \<and> inRT r' = inRT r \<and> SHADOW_WINDOW r' = SHADOW_WINDOW r"
proof -
  let ?b = "\<lparr>numEntries = (if cap then SHADOW_WINDOW r else slotStart r),
     shadowEntries = texasWorkEntries r, status = NEW_BATCH, batchNumber = curBatchNumber r\<rparr>"
  let ?r = "r\<lparr>curBatchNumber := curBatchNumber r + 1,
     texasWorkEntriesQueue := wpush q ?b (texasWorkEntriesQueue r), slotStart := 0\<rparr>"
  obtain b rq where b: "relems (texasReadyBatchEntriesQueue r) = b # relems rq"
    "waitPop q ?r = Some (?r\<lparr>texasWorkEntries := b, texasReadyBatchEntriesQueue := rq\<rparr>)"
    using waitPop_ready [OF fifo, of ?r] ready by auto
  have "batchFull q env cap r = Some (?r\<lparr>texasWorkEntries := b, texasReadyBatchEntriesQueue := rq\<rparr>)"
    using b(2) opt by (simp add: batchFull_def Let_def)
  moreover have "welems (wpush q ?b (texasWorkEntriesQueue r)) = welems (texasWorkEntriesQueue r) @ [?b]"
    using fifo unfolding queues_fifo_def by metis
  ultimately show ?thesis
    using ok b(1) cap by (auto simp: entry_log_def batch_entries_def buffers_ok_def)
qed

lemma put_entry_effect:
  assumes fifo: "queues_fifo q welems relems" and ok: "buffers_ok relems r"
    and ready: "slotStart r = SHADOW_WINDOW r \<Longrightarrow> relems (texasReadyBatchEntriesQueue r) \<noteq> []"
    and opt: "\<not> disableOptimizations (r_config r)"
  shows "\<exists>r' e. put_entry q env f r = Some r' \<and> entry_log welems r' = entry_log welems r @ [f e]
     \<and> buffers_ok relems r' \<and> r_store r' = r_store r \<and> activeState r' = activeState r
     \<and> r_config r' = r_config r \<and> inRT r' = inRT r"
proof -
  obtain r1 where r1: "(if slotStart r \<ge> SHADOW_WINDOW r then batchFull q env True r else Some r) = Some r1"
    "entry_log welems r1 = entry_log welems r" "buffers_ok relems r1" "slotStart r1 < SHADOW_WINDOW r1"
    "r_store r1 = r_store r" "activeState r1 = activeState r" "r_config r1 = r_config r" "inRT r1 = inRT r"
  proof (cases "slotStart r \<ge> SHADOW_WINDOW r")
    case True
    with ok have full: "slotStart r = SHADOW_WINDOW r" by (simp add: buffers_ok_def)
    from batchFull_effect [OF fifo ok ready [OF full] opt, of True env] full ok True that show ?thesis
      by (auto simp: buffers_ok_def)
  next
    case False
    with ok that show ?thesis by simp
  qed
  let ?i = "slotStart r1"
  have "take (Suc ?i) ((texasWorkEntries r1)[?i := x]) = take ?i (texasWorkEntries r1) @ [x]" for x
    using r1(3,4) by (simp add: take_Suc_conv_app_nth buffers_ok_def)
  then show ?thesis
    using r1 by (auto simp: put_entry_def getFreeSlot_def entry_log_def buffers_ok_def)
qed

text \<open>
  C8: in the default mode, batching implements an append-only log. As long as a free buffer is ready whenever the
  current one is full, a call of the instrumented program appends exactly one entry with the fields it
  sets to the log of entries, whether or not the call closes a batch; nothing is lost, duplicated or reordered, and
  nothing else of the main thread's state changes.
\<close>

theorem put_entry_appends:
  assumes "queues_fifo q welems relems" and "buffers_ok relems r"
    and "slotStart r = SHADOW_WINDOW r \<Longrightarrow> relems (texasReadyBatchEntriesQueue r) \<noteq> []"
    and "\<not> disableOptimizations (r_config r)"
  shows "\<exists>r' e. put_entry q env f r = Some r' \<and> entry_log welems r' = entry_log welems r @ [f e]
     \<and> buffers_ok relems r' \<and> r_store r' = r_store r \<and> activeState r' = activeState r
     \<and> r_config r' = r_config r \<and> inRT r' = inRT r"
  using put_entry_effect [OF assms] .

definition list_queues :: "(shadowBatch list, shadowEntry list list) queue_ops" where
  "list_queues = \<lparr>wpush = (\<lambda>b wq. wq @ [b]), wpop = (\<lambda>wq. case wq of [] \<Rightarrow> None | b # bs \<Rightarrow> Some (b, bs)),
     rpush = (\<lambda>b rq. rq @ [b]), rpop = (\<lambda>rq. case rq of [] \<Rightarrow> None | b # bs \<Rightarrow> Some (b, bs))\<rparr>"

lemma list_queues_fifo: "queues_fifo list_queues (\<lambda>wq. wq) (\<lambda>rq. rq)"
  by (auto simp: queues_fifo_def list_queues_def split: list.splits)

definition sample_runtime :: "(shadowBatch list, shadowEntry list list) runtime" where
  "sample_runtime =
     \<lparr>r_store = empty_store, allocationMap = Some new_AllocationTable, inRT = False, activeState = None,
      currentStateID = 0, oldState = None, r_config = all_on, SHADOW_WINDOW = 1, NUM_BATCHES = 2,
      slotStart = 1, texasWorkEntries = [acc_entry ALLOC_FREE 8], texasWorkEntriesQueue = [],
      texasReadyBatchEntriesQueue = [[acc_entry REDUNDANT 0]], curBatchNumber = 0\<rparr>"

theorem put_entry_appends_witness:
  "\<exists>r' e. put_entry list_queues \<lparr>env_mem = (\<lambda>_. 0), env_scc = (\<lambda>_. []), env_sync = (\<lambda>_. True)\<rparr> (free_entry 16 None) sample_runtime
       = Some r'
     \<and> entry_log (\<lambda>wq. wq) r' = [acc_entry ALLOC_FREE 8, free_entry 16 None e]"
proof -
  have "buffers_ok (\<lambda>rq. rq) sample_runtime" "\<not> disableOptimizations (r_config sample_runtime)"
    "texasReadyBatchEntriesQueue sample_runtime \<noteq> []"
    "entry_log (\<lambda>wq. wq) sample_runtime = [acc_entry ALLOC_FREE 8]"
    by (simp_all add: buffers_ok_def sample_runtime_def all_on_def entry_log_def)
  with put_entry_appends [OF list_queues_fifo, of sample_runtime] show ?thesis by fastforce
qed

section \<open>Calls\<close>

text \<open>
  \<open>HandleReallocInAllocationTable\<close> logs the release of the old block before the new block, both attributed
  to the active state, and does nothing when the runtime itself makes the call.
\<close>

theorem realloc_logs_free_then_add:
  assumes "queues_fifo q welems relems" and "buffers_ok relems r" and "\<not> inRT r"
    and "slotStart r + 2 \<le> SHADOW_WINDOW r" and "\<not> disableOptimizations (r_config r)"
  shows "\<exists>r' e1 e2. HandleReallocInAllocationTable q env old new n ori r = Some r'
     \<and> entry_log welems r' = entry_log welems r @ [e1, e2]
     \<and> op_of e1 = Some ALLOC_FREE \<and> ptr e1 = old \<and> entryState e1 = activeState r
     \<and> op_of e2 = Some ALLOC_ADD \<and> ptr e2 = new \<and> size_of e2 = Some n \<and> information e2 = ori
     \<and> entryState e2 = activeState r \<and> \<not> inRT r'"
proof -
  let ?i = "slotStart r" and ?s = "texasWorkEntries r"
  let ?e1 = "free_entry old (activeState r) (?s ! ?i)"
  let ?e2 = "alloc_add_entry new n ori (activeState r) (?s ! Suc ?i)"
  have i: "Suc ?i < SHADOW_WINDOW r" "length ?s = SHADOW_WINDOW r" using assms(2,4) by (simp_all add: buffers_ok_def)
  have "HandleReallocInAllocationTable q env old new n ori r
      = Some (r\<lparr>texasWorkEntries := ?s[?i := ?e1, Suc ?i := ?e2], slotStart := ?i + 2\<rparr>)"
    using i assms(3) by (simp add: HandleReallocInAllocationTable_def RemoveFromAllocationTable_def
        AddToAllocationTable_def guarded_def put_entry_def getFreeSlot_def)
  moreover have "take (?i + 2) (?s[?i := ?e1, Suc ?i := ?e2]) = take ?i ?s @ [?e1, ?e2]"
    using i by (simp add: take_Suc_conv_app_nth)
  ultimately show ?thesis
    using assms(3) by (auto simp: entry_log_def free_entry_def alloc_add_entry_def op_of_def op_word_inverse
        size_of_def)
qed

theorem realloc_logs_free_then_add_witness:
  "\<exists>r' e1 e2. HandleReallocInAllocationTable list_queues \<lparr>env_mem = (\<lambda>_. 0), env_scc = (\<lambda>_. []), env_sync = (\<lambda>_. True)\<rparr> 8 16 4 1
       (sample_runtime\<lparr>SHADOW_WINDOW := 2, slotStart := 0,
          texasWorkEntries := [acc_entry REDUNDANT 0, acc_entry REDUNDANT 0],
          texasReadyBatchEntriesQueue := []\<rparr>) = Some r'
     \<and> entry_log (\<lambda>wq. wq) r' = [e1, e2] \<and> op_of e1 = Some ALLOC_FREE \<and> op_of e2 = Some ALLOC_ADD"
  using realloc_logs_free_then_add [OF list_queues_fifo, of "sample_runtime\<lparr>SHADOW_WINDOW := 2, slotStart := 0,
          texasWorkEntries := [acc_entry REDUNDANT 0, acc_entry REDUNDANT 0],
          texasReadyBatchEntriesQueue := []\<rparr>" "\<lparr>env_mem = (\<lambda>_. 0), env_scc = (\<lambda>_. []), env_sync = (\<lambda>_. True)\<rparr>" 8 16 4 1]
  by (fastforce simp: buffers_ok_def sample_runtime_def all_on_def entry_log_def)

section \<open>Initialisation\<close>

text \<open>
  After \<open>texas_init\<close> the global table is well formed and has an entry at the highest address, so every
  pointer is at or below an ordered entry and lookups are exact.
\<close>

theorem texas_init_table:
  assumes "allocationMap r = None" and "n < 64"
    and "texas_init q emptyW emptyR buffers r = Some r'"
  shows "\<exists>t e1. allocationMap r' = Some t \<and> table_ok n (r_store r') t \<and> e1 \<in> set (sortedAllocationTable t)
     \<and> key \<le> fst e1"
proof -
  obtain r2 where r2: "texas_init q emptyW emptyR buffers r =
      Some (r2\<lparr>r_store := snd (alloc_Allocation (- 1) 0 0 (r_store r2)),
        allocationMap := Some (InsertAllocation (- 1) (next_aref (r_store r2))
          (snd (alloc_Allocation (- 1) 0 0 (r_store r2))) new_AllocationTable)\<rparr>)"
    using assms by (auto simp: texas_init_def Let_def alloc_Allocation_def split: option.splits)
  let ?h = "snd (alloc_Allocation (- 1) 0 0 (r_store r2))" and ?a = "next_aref (r_store r2)"
  have t: "InsertAllocation (- 1) ?a ?h new_AllocationTable
      = new_AllocationTable\<lparr>sortedAllocationTable := [(- 1, ?a)]\<rparr>"
    by (simp add: InsertAllocation_def new_AllocationTable_def)
  have "table_ok n ?h (new_AllocationTable\<lparr>sortedAllocationTable := [(- 1, ?a)]\<rparr>)"
    using assms(2) by (simp add: table_ok_def new_AllocationTable_def hash_ok_def sorted_ok_def block_fits_def
        block_len_def alloc_Allocation_def new_Allocation_def)
  moreover have "key \<le> fst (- 1 :: u64, ?a)" by simp
  ultimately show ?thesis using r2 assms(3) t by (fastforce simp: new_AllocationTable_def)
qed

theorem texas_init_table_witness:
  "\<exists>r' t. texas_init list_queues [] [] (\<lambda>_. [acc_entry REDUNDANT 0])
       (sample_runtime\<lparr>allocationMap := None\<rparr>) = Some r'
     \<and> allocationMap r' = Some t \<and> table_ok 3 (r_store r') t"
proof -
  let ?r = "sample_runtime\<lparr>allocationMap := None\<rparr>"
  obtain r' where r': "texas_init list_queues [] [] (\<lambda>_. [acc_entry REDUNDANT 0]) ?r = Some r'"
    by (simp add: texas_init_def Let_def sample_runtime_def list_queues_def waitPop_def
        alloc_Allocation_def numeral_2_eq_2)
  from texas_init_table [OF _ _ r', of 3] r' show ?thesis by fastforce
qed

section \<open>Entering and leaving states\<close>

lemma record_naive_size_keeps:
  assumes "allocationMap r = Some t"
  shows "\<exists>h. record_naive_size s r = Some (r\<lparr>r_store := h\<rparr>) \<and> next_sref h = next_sref (r_store r)
     \<and> stateMap h = stateMap (r_store r) \<and> (\<forall>x. parent (states h x) = parent (states (r_store r) x)
          \<and> functionName (states h x) = functionName (states (r_store r) x)
          \<and> lineNumber (states h x) = lineNumber (states (r_store r) x))"
proof -
  have "r = r\<lparr>r_store := r_store r\<rparr>" by simp
  then show ?thesis
    using assms unfolding record_naive_size_def Let_def
    by (cases "stateReductionTracking (r_store r)";
        cases "naiveStateSize (states (r_store r) s) < GetMemFootprint t (r_store r)") force+
qed

text \<open>
  Leaving a state returns to the parent recorded when the state was created. For a state that exists already
  \<open>GetState\<close> followed by \<open>EndState\<close> therefore ends in that parent whatever state was active before, so a state
  entered again from elsewhere, or recursively, does not restore the caller's state.
\<close>

theorem EndState_goes_to_creation_parent:
  assumes "find_state f l (r_store r) (stateMap (r_store r)) = Some s"
    and "queues_fifo q welems relems" and "buffers_ok relems r" and "slotStart r + 2 \<le> SHADOW_WINDOW r"
    and "\<not> disableOptimizations (r_config r)" and "allocationMap r \<noteq> None"
  shows "\<exists>uid r1 r2. GetState q env f l tt r = Some (uid, r1) \<and> EndState q env uid r1 = Some (0, r2)
     \<and> activeState r1 = Some s \<and> activeState r2 = parent (states (r_store r) s)"
proof -
  let ?r = "r\<lparr>activeState := Some s\<rparr>"
  obtain t where "allocationMap ?r = Some t" using assms(6) by auto
  from record_naive_size_keeps [OF this, of s] obtain h where
    r2: "record_naive_size s ?r = Some (?r\<lparr>r_store := h\<rparr>)"
    and same: "parent (states h s) = parent (states (r_store r) s)" by auto
  show ?thesis
    using r2 same assms(1,4)
    by (simp add: GetState_def enter_state_def EndState_def put_entry_def getFreeSlot_def)
qed

theorem EndState_goes_to_creation_parent_witness:
  "\<exists>uid r1 r2. GetState list_queues \<lparr>env_mem = (\<lambda>_. 0), env_scc = (\<lambda>_. []), env_sync = (\<lambda>_. True)\<rparr> ''f'' 3 0
       (sample_runtime\<lparr>SHADOW_WINDOW := 2, slotStart := 0, activeState := Some 7,
          texasWorkEntries := [acc_entry REDUNDANT 0, acc_entry REDUNDANT 0],
          r_store := empty_store\<lparr>stateMap := [(0, 0)], states := (\<lambda>_. new_State ''f'' 3 0 0 None)\<rparr>,
          texasReadyBatchEntriesQueue := []\<rparr>) = Some (uid, r1)
     \<and> EndState list_queues \<lparr>env_mem = (\<lambda>_. 0), env_scc = (\<lambda>_. []), env_sync = (\<lambda>_. True)\<rparr> uid r1 = Some (0, r2)
     \<and> activeState r2 = None"
proof -
  let ?r = "sample_runtime\<lparr>SHADOW_WINDOW := 2, slotStart := 0, activeState := Some 7,
          texasWorkEntries := [acc_entry REDUNDANT 0, acc_entry REDUNDANT 0],
          r_store := empty_store\<lparr>stateMap := [(0, 0)], states := (\<lambda>_. new_State ''f'' 3 0 0 None)\<rparr>,
          texasReadyBatchEntriesQueue := []\<rparr>"
  have "find_state ''f'' 3 (r_store ?r) (stateMap (r_store ?r)) = Some 0"
    "parent (states (r_store ?r) 0) = None"
    by (simp_all add: new_State_def InitSpoorSets_def ComputationalSpoorTracking_def)
  with EndState_goes_to_creation_parent [of "''f''" 3 ?r 0 list_queues "\<lambda>wq. wq" "\<lambda>rq. rq"] show ?thesis
    by (fastforce simp: list_queues_fifo buffers_ok_def sample_runtime_def all_on_def)
qed

text \<open>Parents are created first, and the active state and every state of \<open>stateMap\<close> exist.\<close>

definition states_ok :: "('w, 'r) runtime \<Rightarrow> bool" where
  "states_ok r \<longleftrightarrow> parents_ok (r_store r) \<and> state_ok (r_store r) (activeState r)
     \<and> (\<forall>s \<in> snd ` set (stateMap (r_store r)). s < next_sref (r_store r))"

lemma find_state_in: "find_state f l h m = Some s \<Longrightarrow> s \<in> snd ` set m"
  by (induction m) (auto split: if_splits)

lemma snd_um_assign: "snd ` set (um_assign k v m) \<subseteq> insert v (snd ` set m)"
  unfolding um_assign_def by (induction m) auto

lemma enter_state_ok:
  assumes "states_ok r" and "enter_state f l tt r = (s, r')"
  shows "states_ok r' \<and> activeState r' = Some s
    \<and> functionName (states (r_store r') s) = f \<and> lineNumber (states (r_store r') s) = l
    \<and> allocationMap r' = allocationMap r \<and> slotStart r' = slotStart r \<and> SHADOW_WINDOW r' = SHADOW_WINDOW r"
proof (cases "find_state f l (r_store r) (stateMap (r_store r))")
  case (Some x)
  have r': "s = x" "r' = r\<lparr>activeState := Some x\<rparr>" using assms(2) Some by (auto simp: enter_state_def)
  have "functionName (states h x) = f \<and> lineNumber (states h x) = l"
    if "find_state f l h m = Some x" for h m using that by (induction m) (auto split: if_splits)
  from this [OF Some] have "functionName (states (r_store r) x) = f" "lineNumber (states (r_store r) x) = l"
    by simp_all
  moreover have "x < next_sref (r_store r)"
    using assms(1) find_state_in [OF Some] unfolding states_ok_def by blast
  ultimately show ?thesis using r' assms(1) by (simp add: states_ok_def state_ok_def)
next
  case None
  let ?h = "r_store r"
  obtain h where h: "alloc_State f l tt (currentStateID r) (activeState r) ?h = (next_sref ?h, h)"
    by (simp add: alloc_State_def Let_def)
  have nx: "next_sref h = Suc (next_sref ?h)" "stateMap h = stateMap ?h"
    using h by (auto simp: alloc_State_def Let_def split: option.splits)
  have par: "parent (states h x) = (if x = next_sref ?h then activeState r else parent (states ?h x))"
    and new: "functionName (states h (next_sref ?h)) = f" "lineNumber (states h (next_sref ?h)) = l" for x
    using h assms(1) by (auto simp: alloc_State_def Let_def new_State_def InitSpoorSets_def states_ok_def
        state_ok_def ComputationalSpoorTracking_def split: option.splits)
  have "parents_ok h"
    using assms(1) nx par by (auto simp: parents_ok_def states_ok_def state_ok_def less_Suc_eq)
  moreover have r': "s = next_sref ?h" "r' = r\<lparr>r_store := h\<lparr>stateMap := um_assign (currentStateID r) s (stateMap h)\<rparr>,
      activeState := Some s, currentStateID := currentStateID r + 1\<rparr>"
    using assms(2) None h by (auto simp: enter_state_def)
  moreover have "\<forall>x \<in> snd ` set (um_assign (currentStateID r) s (stateMap h)). x < next_sref h"
    using snd_um_assign [of "currentStateID r" s "stateMap h"] assms(1) nx r'(1)
    by (fastforce simp: states_ok_def)
  ultimately show ?thesis using nx new by (auto simp: states_ok_def state_ok_def parents_ok_def)
qed

text \<open>
  C13: with room in the current batch, \<open>GetState\<close> returns, keeps the invariant that makes every walk up the parents end, makes
  a state active whose function and line are the requested ones, and returns that state's id.
\<close>

theorem GetState_enters:
  assumes "states_ok r" and "allocationMap r \<noteq> None" and "slotStart r < SHADOW_WINDOW r"
  shows "\<exists>s r'. GetState q env f l tt r = Some (stateID (states (r_store r') s), r')
     \<and> states_ok r' \<and> activeState r' = Some s
     \<and> functionName (states (r_store r') s) = f \<and> lineNumber (states (r_store r') s) = l"
proof -
  obtain s r1 where e: "enter_state f l tt r = (s, r1)" by (metis surj_pair)
  note r1 = enter_state_ok [OF assms(1) e]
  obtain t where "allocationMap r1 = Some t" using assms(2) r1 by auto
  from record_naive_size_keeps [OF this, of s] obtain h where
    n: "record_naive_size s r1 = Some (r1\<lparr>r_store := h\<rparr>)" "next_sref h = next_sref (r_store r1)"
    "stateMap h = stateMap (r_store r1)" "\<forall>x. parent (states h x) = parent (states (r_store r1) x)"
    "functionName (states h s) = f" "lineNumber (states h s) = l" using r1 by auto
  show ?thesis
    using e n r1 assms(3)
    by (auto simp: GetState_def put_entry_def getFreeSlot_def states_ok_def parents_ok_def state_ok_def)
qed

theorem GetState_enters_witness:
  "\<exists>s r'. GetState list_queues \<lparr>env_mem = (\<lambda>_. 0), env_scc = (\<lambda>_. []), env_sync = (\<lambda>_. True)\<rparr> ''g'' 5 0
       (sample_runtime\<lparr>SHADOW_WINDOW := 2\<rparr>) = Some (stateID (states (r_store r') s), r')
     \<and> states_ok r' \<and> activeState r' = Some s
     \<and> functionName (states (r_store r') s) = ''g'' \<and> lineNumber (states (r_store r') s) = 5"
  by (rule GetState_enters)
    (simp_all add: states_ok_def sample_runtime_def parents_ok_def empty_store_def state_ok_def)

section \<open>The background thread\<close>

fun serve_all ::
  "('w, 'r) queue_ops \<Rightarrow> environment \<Rightarrow> shadowBatch list \<Rightarrow> ('w, 'r) runtime \<Rightarrow> ('w, 'r) runtime option" where
  "serve_all q env [] r = Some r"
| "serve_all q env (b # bs) r = Option.bind (serialProcessShadowBatch q env b r) (serve_all q env bs)"

lemma serial_work_queue:
  "serialProcessShadowBatch q env b (r\<lparr>texasWorkEntriesQueue := x\<rparr>)
     = map_option (\<lambda>r'. r'\<lparr>texasWorkEntriesQueue := x\<rparr>) (serialProcessShadowBatch q env b r)"
  "serialProcessShadowBatch q env b r = Some r' \<Longrightarrow> texasWorkEntriesQueue r' = texasWorkEntriesQueue r"
  by (auto simp: serialProcessShadowBatch_def split: option.splits prod.splits)

lemma serve_all_work_queue:
  "serve_all q env bs (r\<lparr>texasWorkEntriesQueue := x\<rparr>)
     = map_option (\<lambda>r'. r'\<lparr>texasWorkEntriesQueue := x\<rparr>) (serve_all q env bs r)"
proof (induction bs arbitrary: r)
  case (Cons b bs)
  then show ?case
    by (cases "serialProcessShadowBatch q env b r") (simp_all add: serial_work_queue)
qed simp

lemma pop_head:
  assumes "queues_fifo q welems relems" and "welems wq = b # bs"
  shows "\<exists>wq'. wpop q wq = Some (b, wq') \<and> welems wq' = bs"
proof -
  have "wpop q wq \<noteq> None" using assms unfolding queues_fifo_def by (metis list.distinct(1))
  then obtain c wq' where "wpop q wq = Some (c, wq')" by auto
  moreover from this have "welems wq = c # welems wq'" using assms(1) unfolding queues_fifo_def by metis
  ultimately show ?thesis using assms(2) by simp
qed

lemma drop_front:
  assumes "queues_fifo q welems relems" and "welems wq = bs @ b # rest"
  shows "\<exists>wq'. welems wq' = rest"
  using assms(2)
proof (induction bs arbitrary: wq)
  case Nil
  then show ?case using pop_head [OF assms(1)] by fastforce
next
  case (Cons c bs)
  then show ?case using pop_head [OF assms(1)] by (metis append_Cons)
qed

text \<open>
  C9: the background thread processes the batches of its queue in the order they were pushed, each exactly once,
  and stops at the kill batch, leaving what was pushed behind it. One unit of fuel per batch is enough.
\<close>

theorem single_shadow_drains:
  assumes "queues_fifo q welems relems"
    and "welems (texasWorkEntriesQueue r) = bs @ kill_batch # rest"
    and "\<forall>b \<in> set bs. status b = NEW_BATCH" and "length bs < fuel"
  shows "\<exists>wq. welems wq = rest \<and> singleShadowProcessShadowBatches q env fuel r
     = map_option (\<lambda>r'. r'\<lparr>texasWorkEntriesQueue := wq\<rparr>) (serve_all q env bs r)"
  using assms
proof (induction bs arbitrary: r fuel)
  case Nil
  obtain fuel' where f: "fuel = Suc fuel'" using Nil.prems(4) by (cases fuel) auto
  obtain wq where wq: "wpop q (texasWorkEntriesQueue r) = Some (kill_batch, wq)" "welems wq = rest"
    using pop_head [OF Nil.prems(1)] Nil.prems(2) by fastforce
  then show ?case by (auto simp: f Let_def kill_batch_def)
next
  case (Cons b bs)
  obtain fuel' where f: "fuel = Suc fuel'" using Cons.prems(4) by (cases fuel) auto
  obtain wq where wq: "wpop q (texasWorkEntriesQueue r) = Some (b, wq)"
    "welems wq = bs @ kill_batch # rest"
    using pop_head [OF Cons.prems(1)] Cons.prems(2) by fastforce
  have new: "status b = NEW_BATCH" using Cons.prems(3) by simp
  show ?case
  proof (cases "serialProcessShadowBatch q env b r")
    case None
    obtain wq' where "welems wq' = rest"
      using drop_front [OF Cons.prems(1) wq(2)] by blast
    then show ?thesis using None wq(1) new by (auto simp: f Let_def serial_work_queue)
  next
    case (Some r1)
    let ?r = "r1\<lparr>texasWorkEntriesQueue := wq\<rparr>"
    obtain wq' where "welems wq' = rest" "singleShadowProcessShadowBatches q env fuel' ?r
        = map_option (\<lambda>r'. r'\<lparr>texasWorkEntriesQueue := wq'\<rparr>) (serve_all q env bs ?r)"
      using Cons.IH [OF Cons.prems(1), of ?r fuel'] wq(2) Cons.prems(3,4) f by auto
    then show ?thesis
      using Some wq(1) new
      by (auto simp: f Let_def serial_work_queue serve_all_work_queue option.map_comp comp_def)
  qed
qed

theorem single_shadow_drains_witness:
  "\<exists>wq. wq = [] \<and> singleShadowProcessShadowBatches list_queues \<lparr>env_mem = (\<lambda>_. 0), env_scc = (\<lambda>_. []), env_sync = (\<lambda>_. True)\<rparr> 2
       (sample_runtime\<lparr>texasWorkEntriesQueue := [\<lparr>numEntries = 0, shadowEntries = [acc_entry REDUNDANT 0],
          status = NEW_BATCH, batchNumber = 0\<rparr>, kill_batch]\<rparr>)
     = map_option (\<lambda>r'. r'\<lparr>texasWorkEntriesQueue := wq\<rparr>)
         (serve_all list_queues \<lparr>env_mem = (\<lambda>_. 0), env_scc = (\<lambda>_. []), env_sync = (\<lambda>_. True)\<rparr>
            [\<lparr>numEntries = 0, shadowEntries = [acc_entry REDUNDANT 0], status = NEW_BATCH, batchNumber = 0\<rparr>]
            (sample_runtime\<lparr>texasWorkEntriesQueue := [\<lparr>numEntries = 0, shadowEntries = [acc_entry REDUNDANT 0],
               status = NEW_BATCH, batchNumber = 0\<rparr>, kill_batch]\<rparr>))"
  by (rule single_shadow_drains [OF list_queues_fifo]) simp_all

text \<open>
  C36: a batch that fills its window is never processed cleanly: \<open>serialProcessShadowBatch\<close> passes the number of
  entries as the inclusive right bound, and the worker then reads the slot behind the buffer. Both the default
  mode and the mode without optimisations process batches through this function.
\<close>

theorem serial_full_batch_overruns:
  assumes "numEntries b = length (shadowEntries b)"
  shows "serialProcessShadowBatch q env b r = None"
proof (cases "cleanBatch (r_config r) b (oldState r, r_store r)")
  case None
  then show ?thesis by (simp add: serialProcessShadowBatch_def split: option.split)
next
  case (Some c)
  obtain b1 old h1 where c: "c = (b1, old, h1)" by (metis surj_pair)
  have "length (shadowEntries b1) = length (shadowEntries b)" "numEntries b1 = numEntries b"
    using cleanBatch_size [of "r_config r" b "oldState r" "r_store r"] Some c by auto
  then show ?thesis
    using Some c batch_past_end [of 0 "Shadow_new t None h1 (shadowEntries b1)" "numEntries b1" for t] assms
    by (auto simp: serialProcessShadowBatch_def Shadow_new_def split: option.split)
qed

theorem serial_full_batch_overruns_witness:
  "serialProcessShadowBatch list_queues \<lparr>env_mem = (\<lambda>_. 0), env_scc = (\<lambda>_. []), env_sync = (\<lambda>_. True)\<rparr>
     \<lparr>numEntries = 1, shadowEntries = [acc_entry REDUNDANT 0], status = NEW_BATCH, batchNumber = 0\<rparr>
     sample_runtime = None"
  by (rule serial_full_batch_overruns) simp

text \<open>
  In the mode without optimisations the thread that asks for cycles is the one that serves the request, so nobody sets
  the synchronisation variable back and the call never returns.
\<close>

theorem serial_detection_hangs:
  assumes "disableOptimizations (r_config r)" and i: "i < numEntries b" "i < length (shadowEntries b)"
    and e: "op_of (shadowEntries b ! i) = Some DETECT_CYCLE"
  shows "serialProcessShadowBatch q env b r = None"
proof (cases "cleanBatch (r_config r) b (oldState r, r_store r)")
  case None
  then show ?thesis by (simp add: serialProcessShadowBatch_def split: option.split)
next
  case (Some c)
  obtain b1 old h1 where c: "c = (b1, old, h1)" by (metis surj_pair)
  have size: "length (shadowEntries b1) = length (shadowEntries b)" "numEntries b1 = numEntries b"
    using cleanBatch_size [of "r_config r" b "oldState r" "r_store r"] Some c by auto
  have "shadowEntries b1 ! i = shadowEntries b ! i"
    using cleanBatch_slot [OF Some [unfolded c] i, of None] e by (simp add: is_access_def is_mark_def cleaned_def)
  then have "process_all (r_config r) mem scc (\<lambda>p. \<not> disableOptimizations (r_config r) \<and> sync p) [0..<Suc (numEntries b1)]
      ((Shadow_new t None h1 (shadowEntries b1))\<lparr>overflowWork := []\<rparr>) = None" for mem scc sync t
    using assms(1) i e size by (intro process_all_hangs [of i]) (auto simp: Shadow_new_def)
  then show ?thesis
    using Some c by (auto simp: serialProcessShadowBatch_def processShadowBatch_def split: option.split)
qed

end
