(* ===== verification/Batch_Master.thy ===== *)
theory Batch_Master
  imports Texas_Runtime
begin

text \<open>
  \<open>processShadowBatches\<close> of \<open>texas.cpp\<close>: the master thread of the parallel mode, which takes batches off the work queue,
  has one batch at a time cleaned by a cleaner thread and one batch at a time processed by the shadows. Each of
  the four blocks of its loop is one function and one step; the main thread, the cleaner thread and the shadows
  take their steps between any two of them. The counters are natural numbers: they stay below \<open>2 ^ 64\<close>, which is
  a guard of the step that makes a batch. A read through \<open>end()\<close> sets \<open>fault\<close>. What the cleaner and the shadows do to a
  batch is the subject of the theories on cleaning and on the shadows; here they append it to a log when done.
\<close>

section \<open>State\<close>

datatype master_pc = AtPop | AtClean | AtServe | AtCheck | Halted

record master =
  m_queue :: "shadowBatch list"
  newShadowBatches :: "nat \<rightharpoonup> shadowBatch"
  cleanedShadowBatches :: "nat \<rightharpoonup> shadowBatch"
  batchBeingCleaned :: nat
  batchBeingProcessed :: nat
  cleaningBatchNumber :: nat
  servingBatchNumber :: nat
  curBatch :: nat
  m_kill :: bool
  fault :: bool
  pc :: master_pc
  in_clean :: "shadowBatch option"
  in_serve :: "shadowBatch option"
  clean_log :: "shadowBatch list"
  serve_log :: "shadowBatch list"
  made :: "shadowBatch option"
  pushed :: "shadowBatch list"
  kill_sent :: bool

definition master_init :: master where
  "master_init = \<lparr>m_queue = [], newShadowBatches = Map.empty, cleanedShadowBatches = Map.empty,
     batchBeingCleaned = 0, batchBeingProcessed = 0, cleaningBatchNumber = 0, servingBatchNumber = 0,
     curBatch = 0, m_kill = False, fault = False, pc = AtPop, in_clean = None, in_serve = None,
     clean_log = [], serve_log = [], made = None, pushed = [], kill_sent = False\<rparr>"

section \<open>The loop of the master\<close>

text \<open>\<open>unordered_map::insert\<close> keeps a value that is there.\<close>

definition insert_absent :: "nat \<Rightarrow> 'v \<Rightarrow> (nat \<rightharpoonup> 'v) \<Rightarrow> (nat \<rightharpoonup> 'v)" where
  "insert_absent k v m = (if m k = None then m(k \<mapsto> v) else m)"

definition master_pop :: "master \<Rightarrow> master" where
  "master_pop m =
     (case m_queue m of
        [] \<Rightarrow> m\<lparr>pc := AtClean\<rparr>
      | b # bs \<Rightarrow>
          (case status b of
             KILL_BATCH \<Rightarrow> m\<lparr>m_queue := bs, m_kill := True, pc := AtClean\<rparr>
           | NEW_BATCH \<Rightarrow>
               m\<lparr>m_queue := bs,
                 newShadowBatches := insert_absent (unat (batchNumber b)) b (newShadowBatches m), pc := AtClean\<rparr>
           | CLEANED_BATCH \<Rightarrow> m\<lparr>m_queue := bs, pc := AtClean\<rparr>))"

definition master_clean :: "master \<Rightarrow> master" where
  "master_clean m =
     (if batchBeingCleaned m = 0 then
        (case newShadowBatches m (cleaningBatchNumber m) of
           None \<Rightarrow> m\<lparr>pc := AtServe\<rparr>
         | Some b \<Rightarrow> m\<lparr>batchBeingCleaned := 1, in_clean := Some b, pc := AtServe\<rparr>)
      else if batchBeingCleaned m = 2 then
        (case newShadowBatches m (cleaningBatchNumber m) of
           None \<Rightarrow> m\<lparr>fault := True, pc := AtServe\<rparr>
         | Some b \<Rightarrow>
             m\<lparr>cleanedShadowBatches := insert_absent (cleaningBatchNumber m) b (cleanedShadowBatches m),
               newShadowBatches := (newShadowBatches m)(cleaningBatchNumber m := None),
               cleaningBatchNumber := cleaningBatchNumber m + 1, batchBeingCleaned := 0, pc := AtServe\<rparr>)
      else m\<lparr>pc := AtServe\<rparr>)"

definition master_serve :: "master \<Rightarrow> master" where
  "master_serve m =
     (if batchBeingProcessed m = 0 then
        (case cleanedShadowBatches m (servingBatchNumber m) of
           None \<Rightarrow> m\<lparr>pc := AtCheck\<rparr>
         | Some b \<Rightarrow>
             m\<lparr>cleanedShadowBatches :=
                  (if servingBatchNumber m \<noteq> 0
                   then (cleanedShadowBatches m)(servingBatchNumber m - 1 := None) else cleanedShadowBatches m),
               batchBeingProcessed := 1, in_serve := Some b, pc := AtCheck\<rparr>)
      else if batchBeingProcessed m = 2 then
        m\<lparr>servingBatchNumber := servingBatchNumber m + 1, batchBeingProcessed := 0, pc := AtCheck\<rparr>
      else m\<lparr>pc := AtCheck\<rparr>)"

definition master_check :: "master \<Rightarrow> master" where
  "master_check m =
     (if m_kill m \<and> servingBatchNumber m \<ge> curBatch m \<and> servingBatchNumber m \<noteq> 0
         \<and> batchBeingProcessed m = 0 \<and> batchBeingCleaned m = 0
      then m\<lparr>pc := Halted\<rparr> else m\<lparr>pc := AtPop\<rparr>)"

section \<open>The other threads\<close>

text \<open>
  The cleaner thread sets its flag to 2 when \<open>cleanBatch\<close> is done; the leftmost shadow sets the other flag to 2 when
  \<open>shadowRun\<close> is done. The main thread increments the counter before it pushes a batch, in \<open>batchFull\<close> and in
  \<open>ReportStatistics\<close>, which also pushes the kill batch after its last batch.
\<close>

definition cleaner_done :: "master \<Rightarrow> master" where
  "cleaner_done m =
     (case in_clean m of
        None \<Rightarrow> m
      | Some b \<Rightarrow> m\<lparr>batchBeingCleaned := 2, in_clean := None, clean_log := clean_log m @ [b]\<rparr>)"

definition shadows_done :: "master \<Rightarrow> master" where
  "shadows_done m =
     (case in_serve m of
        None \<Rightarrow> m
      | Some b \<Rightarrow> m\<lparr>batchBeingProcessed := 2, in_serve := None, serve_log := serve_log m @ [b]\<rparr>)"

definition make_batch :: "nat \<Rightarrow> shadowEntry list \<Rightarrow> master \<Rightarrow> master" where
  "make_batch n es m =
     m\<lparr>made := Some \<lparr>numEntries = n, shadowEntries = es, status = NEW_BATCH, batchNumber = of_nat (curBatch m)\<rparr>,
       curBatch := curBatch m + 1\<rparr>"

definition push_batch :: "shadowBatch \<Rightarrow> master \<Rightarrow> master" where
  "push_batch b m = m\<lparr>m_queue := m_queue m @ [b], pushed := pushed m @ [b], made := None\<rparr>"

definition push_kill :: "master \<Rightarrow> master" where
  "push_kill m = m\<lparr>m_queue := m_queue m @ [kill_batch], kill_sent := True\<rparr>"

inductive mstep :: "master \<Rightarrow> master \<Rightarrow> bool" where
  pop: "pc m = AtPop \<Longrightarrow> mstep m (master_pop m)"
| clean: "pc m = AtClean \<Longrightarrow> mstep m (master_clean m)"
| serve: "pc m = AtServe \<Longrightarrow> mstep m (master_serve m)"
| check: "pc m = AtCheck \<Longrightarrow> mstep m (master_check m)"
| cleaned: "in_clean m \<noteq> None \<Longrightarrow> mstep m (cleaner_done m)"
| served: "in_serve m \<noteq> None \<Longrightarrow> mstep m (shadows_done m)"
| make: "\<not> kill_sent m \<Longrightarrow> made m = None \<Longrightarrow> curBatch m < 2 ^ 64 \<Longrightarrow> mstep m (make_batch n es m)"
| push: "made m = Some b \<Longrightarrow> mstep m (push_batch b m)"
| kill: "\<not> kill_sent m \<Longrightarrow> made m = None \<Longrightarrow> pushed m \<noteq> [] \<Longrightarrow> mstep m (push_kill m)"

inductive_cases mstepE: "mstep m m'"

definition master_reachable :: "master \<Rightarrow> bool" where
  "master_reachable m \<longleftrightarrow> mstep\<^sup>*\<^sup>* master_init m"

section \<open>The invariant\<close>

text \<open>
  Everything follows from three counts: the number of batches taken off the queue, cleaned, and served. Batch \<open>i\<close> is in
  \<open>newShadowBatches\<close> when it is taken off and not cleaned, and in \<open>cleanedShadowBatches\<close> when it is cleaned and
  not served.
\<close>

definition numbers_ok :: "master \<Rightarrow> bool" where
  "numbers_ok m \<longleftrightarrow> (\<forall>i < length (pushed m). unat (batchNumber (pushed m ! i)) = i \<and> status (pushed m ! i) = NEW_BATCH)
     \<and> curBatch m = length (pushed m) + (if made m = None then 0 else 1)
     \<and> (\<forall>b. made m = Some b \<longrightarrow> unat (batchNumber b) = length (pushed m) \<and> status b = NEW_BATCH)"

definition queue_ok :: "nat \<Rightarrow> master \<Rightarrow> bool" where
  "queue_ok k m \<longleftrightarrow> k \<le> length (pushed m)
     \<and> m_queue m = drop k (pushed m) @ (if kill_sent m \<and> \<not> m_kill m then [kill_batch] else [])
     \<and> (m_kill m \<longrightarrow> kill_sent m \<and> k = length (pushed m)) \<and> (kill_sent m \<longrightarrow> made m = None \<and> pushed m \<noteq> [])"

definition clean_ok :: "nat \<Rightarrow> master \<Rightarrow> bool" where
  "clean_ok k m \<longleftrightarrow> cleaningBatchNumber m \<le> k
     \<and> newShadowBatches m = (\<lambda>i. if cleaningBatchNumber m \<le> i \<and> i < k then Some (pushed m ! i) else None)
     \<and> batchBeingCleaned m \<le> 2 \<and> (batchBeingCleaned m \<noteq> 0 \<longrightarrow> cleaningBatchNumber m < k)
     \<and> in_clean m = (if batchBeingCleaned m = 1 then Some (pushed m ! cleaningBatchNumber m) else None)
     \<and> clean_log m = take (cleaningBatchNumber m + (if batchBeingCleaned m = 2 then 1 else 0)) (pushed m)"

definition serve_ok :: "master \<Rightarrow> bool" where
  "serve_ok m \<longleftrightarrow> servingBatchNumber m \<le> cleaningBatchNumber m
     \<and> (\<forall>i. cleaningBatchNumber m \<le> i \<longrightarrow> cleanedShadowBatches m i = None)
     \<and> (\<forall>i. servingBatchNumber m \<le> i \<and> i < cleaningBatchNumber m \<longrightarrow> cleanedShadowBatches m i = Some (pushed m ! i))
     \<and> batchBeingProcessed m \<le> 2 \<and> (batchBeingProcessed m \<noteq> 0 \<longrightarrow> servingBatchNumber m < cleaningBatchNumber m)
     \<and> in_serve m = (if batchBeingProcessed m = 1 then Some (pushed m ! servingBatchNumber m) else None)
     \<and> serve_log m = take (servingBatchNumber m + (if batchBeingProcessed m = 2 then 1 else 0)) (pushed m)"

definition master_inv :: "nat \<Rightarrow> master \<Rightarrow> bool" where
  "master_inv k m \<longleftrightarrow> numbers_ok m \<and> queue_ok k m \<and> clean_ok k m \<and> serve_ok m \<and> \<not> fault m
     \<and> (pc m = Halted \<longrightarrow> m_kill m \<and> length (pushed m) \<le> servingBatchNumber m)"

lemmas master_inv_defs = master_inv_def numbers_ok_def queue_ok_def clean_ok_def serve_ok_def

lemma kill_status [simp]: "status kill_batch = KILL_BATCH"
  by (simp add: kill_batch_def)

lemma inv_pop:
  assumes "master_inv k m" "pc m = AtPop"
  shows "\<exists>k'. master_inv k' (master_pop m)"
proof (cases "k < length (pushed m)")
  case True
  then have d: "drop k (pushed m) = pushed m ! k # drop (Suc k) (pushed m)" by (simp add: Cons_nth_drop_Suc)
  have nk: "\<not> m_kill m" using assms(1) True by (auto simp: master_inv_defs)
  have "master_inv (Suc k) (master_pop m)"
    using assms True nk
    by (auto simp: master_inv_defs master_pop_def d insert_absent_def fun_eq_iff less_Suc_eq)
  then show ?thesis by blast
next
  case False
  have "master_inv k (master_pop m)"
    using assms False by (cases "kill_sent m \<and> \<not> m_kill m") (auto simp: master_inv_defs master_pop_def)
  then show ?thesis by blast
qed

lemma inv_clean: "master_inv k m \<Longrightarrow> pc m = AtClean \<Longrightarrow> master_inv k (master_clean m)"
  by (auto simp: master_inv_defs master_clean_def insert_absent_def fun_eq_iff less_Suc_eq split: option.splits)

lemma serve_ok_next:
  assumes "serve_ok m"
  shows "serve_ok (master_serve m)"
proof -
  note ok = assms [unfolded serve_ok_def]
  consider "batchBeingProcessed m = 0" | "batchBeingProcessed m = 1" | "batchBeingProcessed m = 2"
    using ok by linarith
  then show ?thesis
  proof cases
    case 1
    show ?thesis
    proof (cases "cleanedShadowBatches m (servingBatchNumber m)")
      case None
      then show ?thesis using assms 1 by (simp add: serve_ok_def master_serve_def)
    next
      case (Some b)
      then have lt: "servingBatchNumber m < cleaningBatchNumber m" using ok by (metis leI option.distinct(1))
      then have "b = pushed m ! servingBatchNumber m" using ok Some by simp
      then show ?thesis using ok 1 Some lt by (auto simp: serve_ok_def master_serve_def)
    qed
  next
    case 2
    then show ?thesis using assms by (simp add: serve_ok_def master_serve_def)
  next
    case 3
    then show ?thesis using ok by (simp add: serve_ok_def master_serve_def)
  qed
qed

lemma master_serve_fields:
  "pushed (master_serve m) = pushed m" "m_queue (master_serve m) = m_queue m" "made (master_serve m) = made m"
  "curBatch (master_serve m) = curBatch m" "kill_sent (master_serve m) = kill_sent m"
  "m_kill (master_serve m) = m_kill m" "newShadowBatches (master_serve m) = newShadowBatches m"
  "cleaningBatchNumber (master_serve m) = cleaningBatchNumber m" "in_clean (master_serve m) = in_clean m"
  "batchBeingCleaned (master_serve m) = batchBeingCleaned m" "clean_log (master_serve m) = clean_log m"
  "fault (master_serve m) = fault m" "pc (master_serve m) = AtCheck"
  by (simp_all add: master_serve_def split: option.split)

lemma master_serve_other:
  "numbers_ok (master_serve m) = numbers_ok m" "queue_ok k (master_serve m) = queue_ok k m"
  "clean_ok k (master_serve m) = clean_ok k m"
  unfolding numbers_ok_def queue_ok_def clean_ok_def master_serve_fields by (rule refl)+

lemma inv_serve: "master_inv k m \<Longrightarrow> pc m = AtServe \<Longrightarrow> master_inv k (master_serve m)"
  using serve_ok_next by (simp add: master_inv_def master_serve_other master_serve_fields)

lemma set_pc_other:
  "numbers_ok (m\<lparr>pc := p\<rparr>) = numbers_ok m" "queue_ok k (m\<lparr>pc := p\<rparr>) = queue_ok k m"
  "clean_ok k (m\<lparr>pc := p\<rparr>) = clean_ok k m" "serve_ok (m\<lparr>pc := p\<rparr>) = serve_ok m"
  by (simp_all add: numbers_ok_def queue_ok_def clean_ok_def serve_ok_def cong: if_cong)

lemma inv_check: "master_inv k m \<Longrightarrow> pc m = AtCheck \<Longrightarrow> master_inv k (master_check m)"
  by (auto simp: master_inv_def master_check_def set_pc_other numbers_ok_def)

lemma inv_cleaner: "master_inv k m \<Longrightarrow> in_clean m \<noteq> None \<Longrightarrow> master_inv k (cleaner_done m)"
  by (auto simp: master_inv_defs cleaner_done_def take_Suc_conv_app_nth split: if_splits)

lemma inv_shadows: "master_inv k m \<Longrightarrow> in_serve m \<noteq> None \<Longrightarrow> master_inv k (shadows_done m)"
  by (auto simp: master_inv_defs shadows_done_def take_Suc_conv_app_nth split: if_splits)

lemma inv_make:
  "master_inv k m \<Longrightarrow> \<not> kill_sent m \<Longrightarrow> made m = None \<Longrightarrow> curBatch m < 2 ^ 64 \<Longrightarrow> master_inv k (make_batch n es m)"
  by (auto simp: master_inv_defs make_batch_def unat_of_nat)

lemma inv_push: "master_inv k m \<Longrightarrow> made m = Some b \<Longrightarrow> master_inv k (push_batch b m)"
  by (auto simp: master_inv_defs push_batch_def nth_append fun_eq_iff)

lemma inv_kill:
  "master_inv k m \<Longrightarrow> \<not> kill_sent m \<Longrightarrow> made m = None \<Longrightarrow> pushed m \<noteq> [] \<Longrightarrow> master_inv k (push_kill m)"
  by (auto simp: master_inv_defs push_kill_def)

lemma inv_mstep: "mstep m m' \<Longrightarrow> master_inv k m \<Longrightarrow> \<exists>k'. master_inv k' m'"
proof (induction rule: mstep.induct)
  case (pop m)
  then show ?case using inv_pop by blast
qed (blast intro: inv_clean inv_serve inv_check inv_cleaner inv_shadows inv_make inv_push inv_kill)+

lemma inv_msteps: "mstep\<^sup>*\<^sup>* m m' \<Longrightarrow> master_inv k m \<Longrightarrow> \<exists>k'. master_inv k' m'"
  by (induction rule: rtranclp_induct) (use inv_mstep in blast)+

lemma inv_init: "master_inv 0 master_init"
  by (simp add: master_inv_defs master_init_def)

lemma inv_reachable: "master_reachable m \<Longrightarrow> \<exists>k. master_inv k m"
  using inv_msteps [OF _ inv_init] unfolding master_reachable_def by blast

section \<open>Every batch is served\<close>

text \<open>What is left to do after the kill batch was sent: entries to take off, batches to clean and to serve.\<close>

definition to_clean :: "master \<Rightarrow> nat" where
  "to_clean m = 2 * (length (pushed m) - cleaningBatchNumber m) - (if batchBeingCleaned m \<noteq> 0 then 1 else 0)"

definition to_serve :: "master \<Rightarrow> nat" where
  "to_serve m = 2 * (length (pushed m) - servingBatchNumber m) - (if batchBeingProcessed m \<noteq> 0 then 1 else 0)"

definition work_left :: "master \<Rightarrow> nat" where
  "work_left m = length (m_queue m) + to_clean m + to_serve m"

definition finish_threads :: "master \<Rightarrow> master" where
  "finish_threads m = shadows_done (cleaner_done m)"

lemma finish_threads_steps: "mstep\<^sup>*\<^sup>* m (finish_threads m)"
proof -
  have "mstep\<^sup>*\<^sup>* m (cleaner_done m)"
    using mstep.cleaned [of m] by (cases "in_clean m") (auto simp: cleaner_done_def)
  moreover have "mstep\<^sup>*\<^sup>* m' (shadows_done m')" for m'
    using mstep.served [of m'] by (cases "in_serve m'") (auto simp: shadows_done_def)
  ultimately show ?thesis unfolding finish_threads_def by (meson rtranclp_trans)
qed

lemma finish_threads_fields:
  assumes "master_inv k m"
  shows "master_inv k (finish_threads m)" "work_left (finish_threads m) = work_left m" "pc (finish_threads m) = pc m"
    "kill_sent (finish_threads m) = kill_sent m" "pushed (finish_threads m) = pushed m"
    "batchBeingCleaned (finish_threads m) \<noteq> 1" "batchBeingProcessed (finish_threads m) \<noteq> 1"
proof -
  have "master_inv k (cleaner_done m)"
    using inv_cleaner [OF assms] assms by (cases "in_clean m") (auto simp: cleaner_done_def)
  then show "master_inv k (finish_threads m)"
    using inv_shadows [of k "cleaner_done m"]
    by (cases "in_serve (cleaner_done m)") (auto simp: finish_threads_def shadows_done_def)
  have c: "batchBeingCleaned m = 1 \<longleftrightarrow> in_clean m \<noteq> None" and v: "batchBeingProcessed m = 1 \<longleftrightarrow> in_serve m \<noteq> None"
    using assms by (auto simp: master_inv_def clean_ok_def serve_ok_def)
  show "work_left (finish_threads m) = work_left m"
    using c v by (cases "in_clean m"; cases "in_serve m")
      (simp_all add: finish_threads_def cleaner_done_def shadows_done_def work_left_def to_clean_def to_serve_def)
  show "pc (finish_threads m) = pc m" "kill_sent (finish_threads m) = kill_sent m" "pushed (finish_threads m) = pushed m"
    "batchBeingCleaned (finish_threads m) \<noteq> 1" "batchBeingProcessed (finish_threads m) \<noteq> 1"
    using c v by (simp_all add: finish_threads_def cleaner_done_def shadows_done_def split: option.split)
qed

lemma pop_work:
  "to_clean (master_pop m) = to_clean m" "to_serve (master_pop m) = to_serve m" "pc (master_pop m) = AtClean"
  "length (m_queue (master_pop m)) = length (m_queue m) - 1" "kill_sent (master_pop m) = kill_sent m"
  "pushed (master_pop m) = pushed m" "batchBeingCleaned (master_pop m) = batchBeingCleaned m"
  "batchBeingProcessed (master_pop m) = batchBeingProcessed m"
  by (simp_all add: master_pop_def to_clean_def to_serve_def split: list.split batch_status.split)

lemma clean_work:
  assumes "master_inv k m" "batchBeingCleaned m \<noteq> 1"
  shows "to_serve (master_clean m) = to_serve m" "pc (master_clean m) = AtServe" "m_queue (master_clean m) = m_queue m"
    "kill_sent (master_clean m) = kill_sent m" "pushed (master_clean m) = pushed m" "m_kill (master_clean m) = m_kill m"
    "batchBeingProcessed (master_clean m) = batchBeingProcessed m"
    "to_clean (master_clean m) < to_clean m
     \<or> to_clean (master_clean m) = to_clean m \<and> batchBeingCleaned (master_clean m) = 0
       \<and> cleaningBatchNumber (master_clean m) = k"
proof -
  show "to_serve (master_clean m) = to_serve m" "pc (master_clean m) = AtServe" "m_queue (master_clean m) = m_queue m"
    "kill_sent (master_clean m) = kill_sent m" "pushed (master_clean m) = pushed m" "m_kill (master_clean m) = m_kill m"
    "batchBeingProcessed (master_clean m) = batchBeingProcessed m"
    by (simp_all add: master_clean_def to_serve_def split: option.split)
  have k: "k \<le> length (pushed m)" "cleaningBatchNumber m \<le> k"
    "newShadowBatches m (cleaningBatchNumber m) = (if cleaningBatchNumber m < k then Some (pushed m ! cleaningBatchNumber m) else None)"
    "batchBeingCleaned m = 0 \<or> batchBeingCleaned m = 2 \<and> cleaningBatchNumber m < k"
    using assms by (auto simp: master_inv_def queue_ok_def clean_ok_def)
  then show "to_clean (master_clean m) < to_clean m
     \<or> to_clean (master_clean m) = to_clean m \<and> batchBeingCleaned (master_clean m) = 0
       \<and> cleaningBatchNumber (master_clean m) = k"
    by (cases "cleaningBatchNumber m < k") (auto simp: master_clean_def to_clean_def)
qed

lemma serve_work:
  assumes "master_inv k m" "batchBeingProcessed m \<noteq> 1"
  shows "to_clean (master_serve m) = to_clean m"
    "to_serve (master_serve m) < to_serve m
     \<or> to_serve (master_serve m) = to_serve m \<and> batchBeingProcessed (master_serve m) = 0
       \<and> servingBatchNumber (master_serve m) = cleaningBatchNumber m"
proof -
  show "to_clean (master_serve m) = to_clean m" by (simp add: to_clean_def master_serve_fields)
  have k: "cleaningBatchNumber m \<le> length (pushed m)" "servingBatchNumber m \<le> cleaningBatchNumber m"
    "cleanedShadowBatches m (servingBatchNumber m)
      = (if servingBatchNumber m < cleaningBatchNumber m then Some (pushed m ! servingBatchNumber m) else None)"
    "batchBeingProcessed m = 0 \<or> batchBeingProcessed m = 2 \<and> servingBatchNumber m < cleaningBatchNumber m"
    using assms by (auto simp: master_inv_def queue_ok_def clean_ok_def serve_ok_def)
  then show "to_serve (master_serve m) < to_serve m
     \<or> to_serve (master_serve m) = to_serve m \<and> batchBeingProcessed (master_serve m) = 0
       \<and> servingBatchNumber (master_serve m) = cleaningBatchNumber m"
    by (cases "servingBatchNumber m < cleaningBatchNumber m") (auto simp: master_serve_def to_serve_def)
qed

definition master_round :: "master \<Rightarrow> master" where
  "master_round m = master_check (master_serve (master_clean (master_pop m)))"

lemma master_round_steps:
  assumes "pc m = AtPop"
  shows "mstep\<^sup>*\<^sup>* m (master_round m)"
proof -
  have pcs: "pc (master_pop m) = AtClean" "pc (master_clean (master_pop m)) = AtServe"
    by (simp_all add: pop_work master_clean_def split: option.split)
  show ?thesis
    unfolding master_round_def
    by (meson assms mstep.check mstep.clean mstep.pop mstep.serve master_serve_fields(13) pcs
        converse_rtranclp_into_rtranclp rtranclp.rtrancl_refl)
qed

lemma master_round_progress:
  assumes inv: "master_inv k m" and pc: "pc m = AtPop" and idle: "batchBeingCleaned m \<noteq> 1" "batchBeingProcessed m \<noteq> 1"
    and ks: "kill_sent m"
  shows "pc (master_round m) = Halted \<or> pc (master_round m) = AtPop \<and> work_left (master_round m) < work_left m"
proof -
  let ?a = "master_pop m" let ?b = "master_clean ?a" let ?c = "master_serve ?b"
  obtain k1 where i1: "master_inv k1 ?a" using inv_pop [OF inv pc] by blast
  have i2: "master_inv k1 ?b" using inv_clean [OF i1] pop_work(3) by blast
  have i3: "master_inv k1 ?c" using inv_serve [OF i2] clean_work(2) [OF i1] idle pop_work(7) by simp
  note w1 = clean_work [OF i1] and w2 = serve_work [OF i2]
  have i: "batchBeingCleaned ?a \<noteq> 1" "batchBeingProcessed ?b \<noteq> 1" using idle pop_work w1(7) by simp_all
  have wl: "work_left (master_round m) = work_left ?c" "pc (master_round m) \<in> {Halted, AtPop}"
    by (simp_all add: master_round_def master_check_def work_left_def to_clean_def to_serve_def)
  have eq: "work_left ?c = length (m_queue m) - 1 + to_clean ?b + to_serve ?c"
    using w1(3) i w2(1) by (simp add: work_left_def master_serve_fields pop_work)
  have le: "to_clean ?b \<le> to_clean m" "to_serve ?c \<le> to_serve m"
    using w1(1,8) w2(2) i pop_work(1,2) by auto
  show ?thesis
  proof (cases "work_left ?c < work_left m")
    case True
    then show ?thesis using wl by auto
  next
    case False
    then have ge: "length (m_queue m) + to_clean m + to_serve m \<le> length (m_queue m) - 1 + to_clean ?b + to_serve ?c"
      using eq by (simp add: work_left_def)
    have "length (m_queue m) = 0" and c: "to_clean ?b = to_clean m" and v: "to_serve ?c = to_serve m"
      using ge le by linarith+
    then have q: "m_queue m = []" by simp
    have mq: "m_queue ?a = []" "kill_sent ?a" using q ks pop_work(4,5) [of m] by auto
    then have k1: "k1 = length (pushed ?a)" "m_kill ?a" "pushed ?a \<noteq> []" "made ?a = None"
      using i1 by (auto simp: master_inv_def queue_ok_def split: if_splits)
    have cn: "batchBeingCleaned ?b = 0" "cleaningBatchNumber ?b = k1" using w1(8) [OF i(1)] c pop_work(1) by auto
    have sn: "batchBeingProcessed ?c = 0" "servingBatchNumber ?c = k1"
      using w2(2) [OF i(2)] v w1(1) [OF i(1)] pop_work(2) cn(2) by auto
    have cur: "curBatch ?c = length (pushed ?c) + (if made ?c = None then 0 else 1)"
      using i3 by (simp add: master_inv_def numbers_ok_def)
    have "made ?c = None" "m_kill ?c" "pushed ?c = pushed ?a"
      using i3 ks w1(4,5,6) [OF i(1)] pop_work(5) k1(2)
      by (auto simp: master_serve_fields master_inv_def queue_ok_def)
    then have "pc (master_round m) = Halted"
      using cur sn cn k1 by (simp add: master_round_def master_check_def master_serve_fields)
    then show ?thesis by simp
  qed
qed

lemma halts_from_pop:
  assumes "master_inv k m" "pc m = AtPop" "kill_sent m"
  shows "\<exists>m'. mstep\<^sup>*\<^sup>* m m' \<and> pc m' = Halted"
  using assms
proof (induction "work_left m" arbitrary: m k rule: less_induct)
  case less
  let ?f = "finish_threads m"
  note f = finish_threads_fields [OF less.prems(1)]
  have st: "mstep\<^sup>*\<^sup>* m (master_round ?f)"
    using finish_threads_steps [of m] master_round_steps [of ?f] f(3) less.prems(2) by (auto intro: rtranclp_trans)
  have "pc (master_round ?f) = Halted \<or> pc (master_round ?f) = AtPop \<and> work_left (master_round ?f) < work_left ?f"
    using master_round_progress [OF f(1)] f(3,4,6,7) less.prems(2,3) by simp
  then show ?case
  proof
    assume r: "pc (master_round ?f) = AtPop \<and> work_left (master_round ?f) < work_left ?f"
    have ks: "kill_sent (master_round ?f)"
      using f(4) less.prems(3)
      by (simp add: master_round_def master_check_def master_serve_fields master_clean_def pop_work split: option.split)
    obtain k' where "master_inv k' (master_round ?f)" using inv_msteps [OF st less.prems(1)] by blast
    then obtain m' where "mstep\<^sup>*\<^sup>* (master_round ?f) m'" "pc m' = Halted"
      using less.hyps [of "master_round ?f" k'] r ks f(2) by auto
    then show ?thesis using st by (meson rtranclp_trans)
  qed (use st in blast)
qed

lemma kill_sent_stays: "mstep m m' \<Longrightarrow> kill_sent m \<Longrightarrow> kill_sent m' \<and> pushed m' = pushed m \<or> made m \<noteq> None"
  by (induction rule: mstep.induct)
    (auto simp: pop_work master_serve_fields master_clean_def master_check_def cleaner_done_def shadows_done_def
      split: option.split)

lemma kill_sent_steps:
  "mstep\<^sup>*\<^sup>* m m' \<Longrightarrow> master_inv k m \<Longrightarrow> kill_sent m \<Longrightarrow> kill_sent m' \<and> pushed m' = pushed m"
proof (induction rule: rtranclp_induct)
  case (step m1 m2)
  then obtain k1 where "master_inv k1 m1" using inv_msteps by blast
  then have "made m1 = None" using step by (auto simp: master_inv_def queue_ok_def)
  then show ?case using kill_sent_stays [OF step.hyps(2)] step by auto
qed simp

lemma reaches_pop: "\<exists>m'. mstep\<^sup>*\<^sup>* m m' \<and> (pc m' = AtPop \<or> pc m' = Halted)"
proof -
  have ch: "\<exists>m'. mstep\<^sup>*\<^sup>* m m' \<and> (pc m' = AtPop \<or> pc m' = Halted)" if "pc m = AtCheck" for m
  proof -
    have "pc (master_check m) = AtPop \<or> pc (master_check m) = Halted" by (simp add: master_check_def)
    then show ?thesis using mstep.check [OF that] by blast
  qed
  have sv: "\<exists>m'. mstep\<^sup>*\<^sup>* m m' \<and> (pc m' = AtPop \<or> pc m' = Halted)" if "pc m = AtServe" for m
    using mstep.serve [OF that] ch [of "master_serve m"] master_serve_fields(13)
    by (meson converse_rtranclp_into_rtranclp)
  have "pc (master_clean m) = AtServe" by (simp add: master_clean_def split: option.split)
  then have "\<exists>m'. mstep\<^sup>*\<^sup>* m m' \<and> (pc m' = AtPop \<or> pc m' = Halted)" if "pc m = AtClean"
    using mstep.clean [OF that] sv by (meson converse_rtranclp_into_rtranclp)
  then show ?thesis using ch sv by (cases "pc m") auto
qed

section \<open>Properties\<close>

text \<open>
  C37: In every interleaving of the master, the cleaner, the shadows and the main thread, the batches are cleaned in the
  order they were pushed and served in that order, each at most once and only after it was cleaned; the master
  never reads through \<open>end()\<close>; and when it returns, every batch that was pushed has been served.
\<close>

theorem master_serves_in_order:
  assumes "master_reachable m"
  shows "serve_log m = take (length (serve_log m)) (pushed m) \<and> clean_log m = take (length (clean_log m)) (pushed m)
    \<and> length (serve_log m) \<le> length (clean_log m) \<and> \<not> fault m \<and> (pc m = Halted \<longrightarrow> serve_log m = pushed m)"
proof -
  obtain k where i: "master_inv k m" using inv_reachable [OF assms] by blast
  then have b: "cleaningBatchNumber m + (if batchBeingCleaned m = 2 then 1 else 0) \<le> length (pushed m)"
    "servingBatchNumber m + (if batchBeingProcessed m = 2 then 1 else 0) \<le> cleaningBatchNumber m"
    by (auto simp: master_inv_defs)
  have l: "clean_log m = take (cleaningBatchNumber m + (if batchBeingCleaned m = 2 then 1 else 0)) (pushed m)"
    "serve_log m = take (servingBatchNumber m + (if batchBeingProcessed m = 2 then 1 else 0)) (pushed m)"
    "\<not> fault m" "pc m = Halted \<longrightarrow> length (pushed m) \<le> servingBatchNumber m"
    using i by (simp_all add: master_inv_def clean_ok_def serve_ok_def)
  show ?thesis using b l(3,4) unfolding l(1,2) by (auto simp: min_def split: if_splits)
qed

text \<open>A run of one batch: made, pushed, killed, and one loop of the master that takes it off the queue.\<close>

definition one_batch :: master where
  "one_batch = master_pop (push_kill (push_batch
     \<lparr>numEntries = 0, shadowEntries = [], status = NEW_BATCH, batchNumber = 0\<rparr> (make_batch 0 [] master_init)))"

lemma one_batch_reachable: "master_reachable one_batch"
proof -
  let ?b = "\<lparr>numEntries = 0, shadowEntries = [], status = NEW_BATCH, batchNumber = 0\<rparr>"
  let ?m1 = "make_batch 0 [] master_init" let ?m2 = "push_batch ?b ?m1" let ?m3 = "push_kill ?m2"
  have "mstep master_init ?m1" by (rule mstep.make) (simp_all add: master_init_def)
  moreover have "mstep ?m1 ?m2" by (rule mstep.push) (simp add: make_batch_def master_init_def)
  moreover have "mstep ?m2 ?m3"
    by (rule mstep.kill) (simp_all add: push_batch_def make_batch_def master_init_def)
  moreover have "mstep ?m3 one_batch"
    unfolding one_batch_def
    by (rule mstep.pop) (simp add: push_kill_def push_batch_def make_batch_def master_init_def)
  ultimately show ?thesis
    unfolding master_reachable_def by (meson rtranclp.rtrancl_into_rtrancl rtranclp.rtrancl_refl)
qed

theorem master_serves_in_order_witness:
  "master_reachable one_batch \<and> length (pushed one_batch) = 1 \<and> serve_log one_batch = [] \<and> \<not> fault one_batch"
  using one_batch_reachable master_serves_in_order [OF one_batch_reachable]
  by (simp add: one_batch_def master_pop_def push_kill_def push_batch_def make_batch_def master_init_def)

text \<open>
  C38: The master can always finish. From every reachable state in which the kill batch was sent there is a run to
  the return of the master, in which it serves exactly the batches that were pushed; no interleaving leads to a state
  in which the threads wait for each other.
\<close>

theorem master_can_finish:
  assumes "master_reachable m" and "kill_sent m"
  shows "\<exists>m'. mstep\<^sup>*\<^sup>* m m' \<and> pc m' = Halted \<and> serve_log m' = pushed m"
proof -
  obtain k where i: "master_inv k m" using inv_reachable [OF assms(1)] by blast
  obtain m1 where m1: "mstep\<^sup>*\<^sup>* m m1" "pc m1 = AtPop \<or> pc m1 = Halted" using reaches_pop by blast
  obtain k1 where i1: "master_inv k1 m1" using inv_msteps [OF m1(1) i] by blast
  have ks: "kill_sent m1" using kill_sent_steps [OF m1(1) i assms(2)] by simp
  obtain m2 where m2: "mstep\<^sup>*\<^sup>* m1 m2" "pc m2 = Halted" using halts_from_pop [OF i1 _ ks] m1(2) by blast
  have run: "mstep\<^sup>*\<^sup>* m m2" using m1(1) m2(1) by (rule rtranclp_trans)
  obtain k2 where "master_inv k2 m2" using inv_msteps [OF run i] by blast
  then have "serve_log m2 = pushed m2" using m2(2) by (auto simp: master_inv_def serve_ok_def)
  then show ?thesis using run m2(2) kill_sent_steps [OF run i assms(2)] by auto
qed

theorem master_can_finish_witness:
  "master_reachable one_batch \<and> kill_sent one_batch \<and>
   (\<exists>m'. mstep\<^sup>*\<^sup>* one_batch m' \<and> pc m' = Halted \<and> length (serve_log m') = 1)"
proof -
  have ks: "kill_sent one_batch" "length (pushed one_batch) = 1"
    by (simp_all add: one_batch_def master_pop_def push_kill_def push_batch_def make_batch_def master_init_def)
  then show ?thesis using one_batch_reachable master_can_finish [OF one_batch_reachable ks(1)] by auto
qed

end
