(* ===== verification/State_Packer.thy ===== *)
theory State_Packer
  imports Carmot_Prelude
begin

text \<open>
  \<open>state_packer.c\<close>: laying out the allocations of a state one after the other in a fresh region and moving them
  there. A null packer is \<open>None\<close>. Memory is a function from addresses to bytes; \<open>mmap\<close> is a parameter that maps size
  and the huge-page flag to an address (\<open>-1\<close> for failure); \<open>open\<close> succeeds or not by a parameter, and the
  record \<open>move_effects\<close> has what is written to the movement file and which threads are signalled. The number
  of open files, the shell command that lists the threads and the signal delivery are outside the model.
\<close>

section \<open>Data\<close>

record state_packer_state =
  cache_line_size :: u64
  min_alignment :: u64
  current_offset :: u64
  page_alignment :: u64
  allocation_alignment :: u64
  allocation_size :: u64
  allocation_ptr :: u64

type_synonym memory = "u64 \<Rightarrow> 8 word"

definition HUGE_PAGE :: u64 where "HUGE_PAGE = 1073741824"
definition LARGE_PAGE :: u64 where "LARGE_PAGE = 2097152"
definition STANDARD_PAGE :: u64 where "STANDARD_PAGE = 4096"

definition get_current_offset :: "state_packer_state \<Rightarrow> u64" where
  "get_current_offset st = current_offset st"

section \<open>Layout\<close>

definition state_packer_new :: "u64 \<Rightarrow> u64 \<Rightarrow> state_packer_state" where
  "state_packer_new min_al line =
     \<lparr>cache_line_size = line, min_alignment = min_al, current_offset = 0, page_alignment = 0,
      allocation_alignment = 0, allocation_size = 0, allocation_ptr = 0\<rparr>"

definition state_packer_start_layout :: "state_packer_state option \<Rightarrow> int \<times> state_packer_state option" where
  "state_packer_start_layout st =
     (case st of None \<Rightarrow> (1, None) | Some s \<Rightarrow> (0, Some (s\<lparr>current_offset := 0\<rparr>)))"

text \<open>The three adjustments of the offset, on machine words.\<close>

definition align_offset :: "u64 \<Rightarrow> u64 \<Rightarrow> u64" where
  "align_offset al off = off + (off mod al)"

definition skip_to_next :: "u64 \<Rightarrow> u64 \<Rightarrow> u64 \<Rightarrow> u64" where
  "skip_to_next unit n off =
     (let into = off mod unit in
      if into \<noteq> 0 \<and> n + into > unit then off + (unit - into) else off)"

definition state_packer_add_allocation ::
  "state_packer_state option \<Rightarrow> u64 \<Rightarrow> u64 \<Rightarrow> u64 \<Rightarrow> u64 \<Rightarrow> int \<times> state_packer_state option \<times> u64" where
  "state_packer_add_allocation st ptr_to_allocation n alignment_of_allocation old_target =
     (case st of
        None \<Rightarrow> (1, None, old_target)
      | Some s \<Rightarrow>
          (let al0 = min_alignment s;
               al1 = (if alignment_of_allocation > al0 then alignment_of_allocation else al0);
               al = (if al1 = 0 then 8 else al1);
               off1 = align_offset al (current_offset s);
               line = (if cache_line_size s = 0 then 64 else cache_line_size s);
               off2 = skip_to_next line n off1;
               page = (if page_alignment s = 0 then 4096 else page_alignment s);
               off3 = skip_to_next page n off2
           in (0, Some (s\<lparr>cache_line_size := line, page_alignment := page, current_offset := off3 + n\<rparr>), off3)))"

section \<open>Moving\<close>

definition state_packer_start_move ::
  "(u64 \<Rightarrow> bool \<Rightarrow> u64) \<Rightarrow> state_packer_state option \<Rightarrow> int \<times> state_packer_state option" where
  "state_packer_start_move mmap st =
     (case st of
        None \<Rightarrow> (1, None)
      | Some s \<Rightarrow>
          (let offset = 0 :: int;
               al0 = current_offset s;
               size0 = current_offset s;
               al = (if al0 > HUGE_PAGE then HUGE_PAGE else if al0 > LARGE_PAGE then LARGE_PAGE else STANDARD_PAGE);
               huge = (al0 > LARGE_PAGE);
               alloc_offset = size0 mod al;
               size = (if offset \<noteq> 0 then size0 + (size0 - alloc_offset) else size0);
               p = mmap size huge
           in (if p = - 1 then 1 else 0,
               Some (s\<lparr>allocation_alignment := al, allocation_size := size, allocation_ptr := p\<rparr>))))"

definition memcpy :: "u64 \<Rightarrow> u64 \<Rightarrow> u64 \<Rightarrow> memory \<Rightarrow> memory" where
  "memcpy dst src n m = (\<lambda>x. if x - dst < n then m (src + (x - dst)) else m x)"

record move_effects =
  written_pointers :: "(u64 \<times> u64) option"
  signalled :: "nat list"

definition signal_process_threads :: "nat list option \<Rightarrow> int \<times> nat list" where
  "signal_process_threads tids = (case tids of None \<Rightarrow> (- 1, []) | Some ts \<Rightarrow> (0, ts))"

text \<open>\<open>target_var\<close> is the address of the caller's variable \<open>*target\<close>, which is what the file receives.\<close>

definition state_packer_move_allocation ::
  "bool \<Rightarrow> nat list option \<Rightarrow> state_packer_state option \<Rightarrow> u64 \<Rightarrow> u64 \<Rightarrow> u64 \<Rightarrow> u64 \<Rightarrow> memory
   \<Rightarrow> int \<times> u64 \<times> memory \<times> move_effects" where
  "state_packer_move_allocation file_opens tids st ptr_to_allocation n target_var target m =
     (case st of
        None \<Rightarrow> (1, target, m, \<lparr>written_pointers = None, signalled = []\<rparr>)
      | Some s \<Rightarrow>
          (let target' = target + allocation_ptr s;
               m' = memcpy target' ptr_to_allocation n m
           in if \<not> file_opens then (1, target', m', \<lparr>written_pointers = None, signalled = []\<rparr>)
              else (0, target', m',
                    \<lparr>written_pointers = Some (ptr_to_allocation, target_var),
                     signalled = snd (signal_process_threads tids)\<rparr>)))"

definition state_packer_finish :: "state_packer_state option \<Rightarrow> int" where
  "state_packer_finish st = 0"

definition state_packer_free_mem :: "state_packer_state option \<Rightarrow> int" where
  "state_packer_free_mem st = 1"

definition state_packer_free :: "state_packer_state option \<Rightarrow> int" where
  "state_packer_free st = 1"

section \<open>Packing a whole state\<close>

text \<open>The protocol of the header file: start, add every allocation in order. An allocation is (address, length, alignment).\<close>

fun pack_all :: "(u64 \<times> u64 \<times> u64) list \<Rightarrow> state_packer_state \<Rightarrow> u64 list \<times> state_packer_state" where
  "pack_all [] s = ([], s)"
| "pack_all ((p, n, al) # as) s =
     (case state_packer_add_allocation (Some s) p n al 0 of
        (_, Some s1, t) \<Rightarrow> (case pack_all as s1 of (ts, s2) \<Rightarrow> (t # ts, s2))
      | (_, None, _) \<Rightarrow> ([], s))"

fun move_all ::
  "(u64 \<times> u64 \<times> u64) list \<Rightarrow> u64 list \<Rightarrow> state_packer_state \<Rightarrow> memory \<Rightarrow> u64 list \<times> memory" where
  "move_all ((p, n, _) # as) (t # ts) s m =
     (case state_packer_move_allocation True (Some []) (Some s) p n 0 t m of
        (_, t', m', _) \<Rightarrow> (case move_all as ts s m' of (ts', m'') \<Rightarrow> (t' # ts', m'')))"
| "move_all _ _ s m = ([], m)"

section \<open>Offsets without wrap-around\<close>

definition used_line :: "state_packer_state \<Rightarrow> u64" where
  "used_line s = (if cache_line_size s = 0 then 64 else cache_line_size s)"

definition used_page :: "state_packer_state \<Rightarrow> u64" where
  "used_page s = (if page_alignment s = 0 then 4096 else page_alignment s)"

text \<open>A bound under which none of the additions of one call wraps.\<close>

definition add_fits :: "state_packer_state \<Rightarrow> u64 \<Rightarrow> bool" where
  "add_fits s n \<longleftrightarrow>
     2 * unat (current_offset s) + unat (used_line s) + unat (used_page s) + unat n < 2 ^ 64"

lemma unat_add_no_wrap: "unat a + unat b < 2 ^ 64 \<Longrightarrow> unat (a + b :: u64) = unat a + unat b"
  by (simp add: unat_word_ariths)

lemma align_offset_bounds:
  assumes "2 * unat off < 2 ^ 64"
  shows "unat (align_offset al off) = unat off + unat off mod unat al"
    and "unat (align_offset al off) \<le> 2 * unat off"
proof -
  have m: "unat off mod unat al \<le> unat off" by (rule mod_less_eq_dividend)
  show e: "unat (align_offset al off) = unat off + unat off mod unat al"
  proof -
    have "unat off + unat off mod unat al < 2 ^ 64" using assms m by linarith
    then show ?thesis unfolding align_offset_def by (subst unat_add_no_wrap) (simp_all add: unat_mod)
  qed
  then show "unat (align_offset al off) \<le> 2 * unat off" using m by simp
qed

lemma skip_bounds:
  assumes "unat off + unat unit + unat n < 2 ^ 64" and "unit \<noteq> 0"
  shows "unat off \<le> unat (skip_to_next unit n off)"
    and "unat (skip_to_next unit n off) \<le> unat off + unat unit"
    and "unat n \<le> unat unit \<Longrightarrow> unat (skip_to_next unit n off) mod unat unit + unat n \<le> unat unit"
    and "skip_to_next unit n off = off \<or> unat unit dvd unat (skip_to_next unit n off)"
proof -
  let ?into = "off mod unit"
  have u: "0 < unat unit" using assms(2) by (simp add: unat_gt_0)
  have into: "unat ?into = unat off mod unat unit" "unat ?into < unat unit" "unat ?into \<le> unat off"
    using u by (simp_all add: unat_mod)
  have diff: "unat (unit - ?into) = unat unit - unat ?into"
    using into(2) by (simp add: unat_sub word_le_nat_alt)
  have sum: "unat (off + (unit - ?into)) = unat off + (unat unit - unat ?into)"
    using assms(1) diff by (subst unat_add_no_wrap) simp_all
  have test: "n + ?into > unit \<longleftrightarrow> unat n + unat ?into > unat unit"
    using assms(1) into by (simp add: word_less_nat_alt unat_add_no_wrap)
  have "unat unit dvd unat off + (unat unit - unat off mod unat unit)"
  proof -
    have "unat off + (unat unit - unat off mod unat unit) = (unat off - unat off mod unat unit) + unat unit"
      using into by simp
    then show ?thesis by (metis dvd_add dvd_minus_mod dvd_refl)
  qed
  then have dvd: "unat unit dvd unat (off + (unit - ?into))" using sum into(1) by simp
  show "unat off \<le> unat (skip_to_next unit n off)"
    using sum by (simp add: skip_to_next_def Let_def)
  show "unat (skip_to_next unit n off) \<le> unat off + unat unit"
    using sum by (simp add: skip_to_next_def Let_def)
  show "skip_to_next unit n off = off \<or> unat unit dvd unat (skip_to_next unit n off)"
    using dvd by (simp add: skip_to_next_def Let_def)
  show "unat (skip_to_next unit n off) mod unat unit + unat n \<le> unat unit" if "unat n \<le> unat unit"
  proof (cases "?into \<noteq> 0 \<and> n + ?into > unit")
    case True
    then show ?thesis using dvd that by (simp add: skip_to_next_def Let_def dvd_eq_mod_eq_0)
  next
    case False
    then have "skip_to_next unit n off = off" unfolding skip_to_next_def Let_def by (rule if_not_P)
    moreover have "unat off mod unat unit + unat n \<le> unat unit"
      using False test that into(1) by (cases "?into = 0") simp_all
    ultimately show ?thesis by simp
  qed
qed

lemma add_allocation_eq:
  "state_packer_add_allocation (Some s) p n al t0 =
     (let al1 = (if al > min_alignment s then al else min_alignment s);
          off1 = align_offset (if al1 = 0 then 8 else al1) (current_offset s);
          t = skip_to_next (used_page s) n (skip_to_next (used_line s) n off1)
      in (0, Some (s\<lparr>cache_line_size := used_line s, page_alignment := used_page s,
                     current_offset := t + n\<rparr>), t))"
  by (simp add: state_packer_add_allocation_def used_line_def used_page_def Let_def)

lemma used_pos: "used_line s \<noteq> 0" "used_page s \<noteq> 0"
  by (simp_all add: used_line_def used_page_def)

lemma add_allocation_bounds:
  assumes "add_fits s n" and "state_packer_add_allocation (Some s) p n al t0 = (r, s', t)"
  shows "r = 0 \<and> (\<exists>s1. s' = Some s1 \<and> unat (current_offset s1) = unat t + unat n
      \<and> used_line s1 = used_line s \<and> used_page s1 = used_page s \<and> min_alignment s1 = min_alignment s)
    \<and> unat (current_offset s) \<le> unat t
    \<and> (unat n \<le> unat (used_page s) \<longrightarrow> unat t mod unat (used_page s) + unat n \<le> unat (used_page s))
    \<and> (unat n \<le> unat (used_line s) \<longrightarrow> unat (used_line s) dvd unat (used_page s) \<longrightarrow>
         unat t mod unat (used_line s) + unat n \<le> unat (used_line s))"
proof -
  define off1 where "off1 = align_offset (let al1 = (if al > min_alignment s then al else min_alignment s)
      in if al1 = 0 then 8 else al1) (current_offset s)"
  define off2 where "off2 = skip_to_next (used_line s) n off1"
  have t: "t = skip_to_next (used_page s) n off2" and s': "s' = Some (s\<lparr>cache_line_size := used_line s,
      page_alignment := used_page s, current_offset := t + n\<rparr>)" and r: "r = 0"
    using assms(2) by (auto simp: add_allocation_eq off1_def off2_def Let_def)
  have fit: "2 * unat (current_offset s) + unat (used_line s) + unat (used_page s) + unat n < 2 ^ 64"
    using assms(1) by (simp add: add_fits_def)
  have o1: "unat (current_offset s) \<le> unat off1" "unat off1 \<le> 2 * unat (current_offset s)"
    using align_offset_bounds [of "current_offset s"] fit by (simp_all add: off1_def)
  note b2 = skip_bounds [OF _ used_pos(1), of off1 s n, folded off2_def]
  have o2: "unat off1 \<le> unat off2" "unat off2 \<le> unat off1 + unat (used_line s)"
    "unat n \<le> unat (used_line s) \<Longrightarrow> unat off2 mod unat (used_line s) + unat n \<le> unat (used_line s)"
    using b2(1-3) o1 fit by simp_all
  note b3 = skip_bounds [OF _ used_pos(2), of off2 s n, folded t]
  have o3: "unat off2 \<le> unat t" "unat t \<le> unat off2 + unat (used_page s)"
    "unat n \<le> unat (used_page s) \<Longrightarrow> unat t mod unat (used_page s) + unat n \<le> unat (used_page s)"
    "t = off2 \<or> unat (used_page s) dvd unat t"
    using b3 o1 o2(2) fit by simp_all
  define s1 where "s1 = s\<lparr>cache_line_size := used_line s, page_alignment := used_page s,
      current_offset := t + n\<rparr>"
  have "unat (t + n) = unat t + unat n"
    using fit o1 o2(2) o3(2) by (intro unat_add_no_wrap) linarith
  then have s1: "s' = Some s1" "unat (current_offset s1) = unat t + unat n" "used_line s1 = used_line s"
    "used_page s1 = used_page s" "min_alignment s1 = min_alignment s"
    using s' by (simp_all add: s1_def used_line_def used_page_def)
  have line: "unat t mod unat (used_line s) + unat n \<le> unat (used_line s)"
    if "unat n \<le> unat (used_line s)" "unat (used_line s) dvd unat (used_page s)"
    using o3(4)
  proof
    assume "t = off2"
    then show ?thesis using o2(3) [OF that(1)] by simp
  next
    assume "unat (used_page s) dvd unat t"
    then have "unat t mod unat (used_line s) = 0" using that(2) dvd_trans by (metis dvd_eq_mod_eq_0)
    then show ?thesis using that(1) by simp
  qed
  have "unat (current_offset s) \<le> unat t" using o1(1) o2(1) o3(1) by linarith
  with s1 r line o3(3) show ?thesis by blast
qed

section \<open>The layout of a state\<close>

fun pack_fits :: "(u64 \<times> u64 \<times> u64) list \<Rightarrow> state_packer_state \<Rightarrow> bool" where
  "pack_fits [] s \<longleftrightarrow> True"
| "pack_fits ((p, n, al) # as) s \<longleftrightarrow> add_fits s n \<and>
     (case state_packer_add_allocation (Some s) p n al 0 of
        (_, Some s1, _) \<Rightarrow> pack_fits as s1 | (_, None, _) \<Rightarrow> True)"

fun laid_out :: "nat \<Rightarrow> nat \<Rightarrow> (u64 \<times> u64 \<times> u64) list \<Rightarrow> u64 list \<Rightarrow> bool" where
  "laid_out lo hi [] [] \<longleftrightarrow> lo \<le> hi"
| "laid_out lo hi ((p, n, al) # as) (t # ts) \<longleftrightarrow> lo \<le> unat t \<and> laid_out (unat t + unat n) hi as ts"
| "laid_out lo hi _ _ \<longleftrightarrow> False"

lemma pack_all_laid_out:
  "pack_fits as s \<Longrightarrow> \<exists>ts s'. pack_all as s = (ts, s')
     \<and> laid_out (unat (current_offset s)) (unat (current_offset s')) as ts"
proof (induction as s rule: pack_fits.induct)
  case (2 p n al as s)
  obtain r s1 t where a: "state_packer_add_allocation (Some s) p n al 0 = (r, s1, t)" by (metis surj_pair)
  from "2.prems" add_allocation_bounds [OF _ a] obtain s2 where
    s2: "s1 = Some s2" "unat (current_offset s2) = unat t + unat n" "unat (current_offset s) \<le> unat t"
    by auto
  from "2.IH" [OF a [symmetric] refl s2(1)] "2.prems" a s2(1) obtain ts s' where
    "pack_all as s2 = (ts, s')" "laid_out (unat (current_offset s2)) (unat (current_offset s')) as ts" by auto
  with a s2 show ?case by simp
qed simp

lemma laid_out_le: "laid_out lo hi as ts \<Longrightarrow> lo \<le> hi \<and> length ts = length as"
  by (induction lo hi as ts rule: laid_out.induct) auto

lemma laid_out_nth:
  "laid_out lo hi as ts \<Longrightarrow> i < length as \<Longrightarrow>
   lo \<le> unat (ts ! i) \<and> unat (ts ! i) + unat (fst (snd (as ! i))) \<le> hi"
proof (induction lo hi as ts arbitrary: i rule: laid_out.induct)
  case (2 lo hi p n al as t ts)
  then show ?case using laid_out_le [of "unat t + unat n" hi as ts] by (cases i) fastforce+
qed auto

lemma laid_out_disjoint:
  "laid_out lo hi as ts \<Longrightarrow> i < j \<Longrightarrow> j < length as \<Longrightarrow>
   unat (ts ! i) + unat (fst (snd (as ! i))) \<le> unat (ts ! j)"
proof (induction lo hi as ts arbitrary: i j rule: laid_out.induct)
  case (2 lo hi p n al as t ts)
  then obtain j' where "j = Suc j'" by (cases j) auto
  then show ?case
    using 2 laid_out_nth [of "unat t + unat n" hi as ts j'] by (cases i) auto
qed auto

section \<open>Moving a state\<close>

lemma memcpy_outside:
  assumes "unat t + unat n \<le> hi" and "unat base + hi < 2 ^ 64"
    and "unat (x - base) < unat t \<or> hi \<le> unat (x - base)"
  shows "memcpy (t + base) src n m x = m x"
proof -
  have "\<not> x - (t + base) < n"
  proof
    assume "x - (t + base) < n"
    then have lt: "unat (x - base - t) < unat n" by (simp add: word_less_nat_alt algebra_simps)
    show False
    proof (cases "t \<le> x - base")
      case True
      then have "unat (x - base - t) = unat (x - base) - unat t" by (rule unat_sub)
      with lt assms(1,3) True show False by (auto simp: word_le_nat_alt)
    next
      case False
      then have "unat (x - base - t) = unat (x - base) + 2 ^ 64 - unat t"
        by (simp add: unat_sub_if' word_le_nat_alt)
      with lt assms(1,2) show False using unat_u64_bound [of t] by simp
    qed
  qed
  then show ?thesis by (simp add: memcpy_def)
qed

lemma memcpy_inside: "k < n \<Longrightarrow> memcpy dst src n m (dst + k) = m (src + k)"
  by (simp add: memcpy_def)

definition sources_outside :: "u64 \<Rightarrow> nat \<Rightarrow> (u64 \<times> u64 \<times> u64) list \<Rightarrow> bool" where
  "sources_outside base hi as \<longleftrightarrow> (\<forall>(p, n, _) \<in> set as. \<forall>k. k < n \<longrightarrow> hi \<le> unat (p + k - base))"

lemma move_all_effect:
  assumes "laid_out lo hi as ts" and "unat (allocation_ptr s) + hi < 2 ^ 64"
    and "sources_outside (allocation_ptr s) hi as"
  shows "\<exists>ts' m'. move_all as ts s m = (ts', m') \<and> length ts' = length as
     \<and> (\<forall>x. unat (x - allocation_ptr s) < lo \<or> hi \<le> unat (x - allocation_ptr s) \<longrightarrow> m' x = m x)
     \<and> (\<forall>i < length as. ts' ! i = ts ! i + allocation_ptr s
          \<and> (\<forall>k. k < fst (snd (as ! i)) \<longrightarrow> m' (ts' ! i + k) = m (fst (as ! i) + k)))"
  using assms
proof (induction lo hi as ts arbitrary: m rule: laid_out.induct)
  case (2 lo hi p n al as t ts)
  let ?b = "allocation_ptr s" and ?m = "memcpy (t + allocation_ptr s) p n m"
  have out: "laid_out (unat t + unat n) hi as ts" "sources_outside ?b hi as" "lo \<le> unat t"
    using "2.prems" by (auto simp: sources_outside_def)
  have hi: "unat t + unat n \<le> hi" using laid_out_le [OF out(1)] by simp
  note keep = memcpy_outside [OF hi "2.prems"(2)]
  obtain ts' m' where IH: "move_all as ts s ?m = (ts', m')" "length ts' = length as"
    "\<And>x. unat (x - ?b) < unat t + unat n \<or> hi \<le> unat (x - ?b) \<Longrightarrow> m' x = ?m x"
    "\<And>i. i < length as \<Longrightarrow> ts' ! i = ts ! i + ?b
       \<and> (\<forall>k. k < fst (snd (as ! i)) \<longrightarrow> m' (ts' ! i + k) = ?m (fst (as ! i) + k))"
    using "2.IH" [OF out(1) "2.prems"(2) out(2), of ?m] by blast
  have first: "m' (t + ?b + k) = m (p + k)" if "k < n" for k
  proof -
    have k: "unat k < unat n" using that by (simp add: word_less_nat_alt)
    have "unat (t + k) = unat t + unat k" using k hi "2.prems"(2) by (intro unat_add_no_wrap) linarith
    then have "unat (t + ?b + k - ?b) < unat t + unat n" using k by (simp add: algebra_simps)
    then have "m' (t + ?b + k) = ?m (t + ?b + k)" using IH(3) by blast
    then show ?thesis using memcpy_inside [OF that] by metis
  qed
  have rest: "?m (fst (as ! i) + k) = m (fst (as ! i) + k)"
    if "i < length as" "k < fst (snd (as ! i))" for i k
  proof (rule keep)
    have "as ! i \<in> set as" using that(1) by simp
    then have "case as ! i of (p, n, _) \<Rightarrow> \<forall>k. k < n \<longrightarrow> hi \<le> unat (p + k - ?b)"
      by (rule bspec [OF out(2) [unfolded sources_outside_def]])
    then show "unat (fst (as ! i) + k - ?b) < unat t \<or> hi \<le> unat (fst (as ! i) + k - ?b)"
      using that(2) by (simp add: case_prod_beta)
  qed
  have eq: "ts' ! i = ts ! i + ?b"
    and dat: "k < fst (snd (as ! i)) \<Longrightarrow> m' (ts ! i + ?b + k) = m (fst (as ! i) + k)"
    if "i < length as" for i k using IH(4) [OF that] rest [OF that] by metis+
  have all: "\<forall>i < length ((p, n, al) # as). ((t + ?b) # ts') ! i = (t # ts) ! i + ?b
      \<and> (\<forall>k. k < fst (snd (((p, n, al) # as) ! i)) \<longrightarrow>
           m' (((t + ?b) # ts') ! i + k) = m (fst (((p, n, al) # as) ! i) + k))"
    using first eq dat by (simp add: nth_Cons split: nat.split)
  have frame: "m' x = m x" if "unat (x - ?b) < lo \<or> hi \<le> unat (x - ?b)" for x
    using IH(3) [of x] keep [of x p m] that out(3) hi by auto
  have "move_all ((p, n, al) # as) (t # ts) s m = ((t + ?b) # ts', m')"
    using IH(1) by (simp add: state_packer_move_allocation_def Let_def)
  with IH(2) all frame show ?case by auto
qed auto

section \<open>Properties\<close>

text \<open>
  C33: the packer gives every allocation of a state a place of its own. If no addition wraps, the offsets written by
  \<open>state_packer_add_allocation\<close> for a sequence of allocations are increasing, the blocks do not overlap, and
  all of them end at or below the final offset, which is the size \<open>state_packer_start_move\<close> asks \<open>mmap\<close> for.
\<close>

theorem packer_layout_disjoint:
  assumes "pack_fits as s"
  shows "\<exists>ts s'. pack_all as s = (ts, s') \<and> length ts = length as
     \<and> (\<forall>i < length as. unat (ts ! i) + unat (fst (snd (as ! i))) \<le> unat (current_offset s'))
     \<and> (\<forall>i j. i < j \<and> j < length as \<longrightarrow> unat (ts ! i) + unat (fst (snd (as ! i))) \<le> unat (ts ! j))
     \<and> (\<forall>mmap s''. snd (state_packer_start_move mmap (Some s')) = Some s'' \<longrightarrow>
          allocation_size s'' = current_offset s')"
proof -
  obtain ts s' where p: "pack_all as s = (ts, s')"
    "laid_out (unat (current_offset s)) (unat (current_offset s')) as ts"
    using pack_all_laid_out [OF assms] by blast
  show ?thesis
    using p laid_out_nth [OF p(2)] laid_out_disjoint [OF p(2)] laid_out_le [OF p(2)]
    by (auto simp: state_packer_start_move_def Let_def)
qed

definition sample_allocs :: "(u64 \<times> u64 \<times> u64) list" where
  "sample_allocs = [(1000, 13, 8), (2000, 8, 8), (3000, 60, 8)]"

lemma sample_allocs_fit: "pack_fits sample_allocs (state_packer_new 8 64)"
  by (simp add: sample_allocs_def add_fits_def used_line_def used_page_def state_packer_new_def
      state_packer_add_allocation_def Let_def align_offset_def skip_to_next_def)

theorem packer_layout_disjoint_witness:
  "\<exists>ts s'. pack_all sample_allocs (state_packer_new 8 64) = (ts, s') \<and> unat (ts ! 0) + 13 \<le> unat (ts ! 1)"
  using packer_layout_disjoint [OF sample_allocs_fit] by (fastforce simp: sample_allocs_def)

text \<open>
  An allocation that fits into a cache line is never laid across two lines, and one that fits into a page
  never across two pages, when the page size is a multiple of the line size and no addition wraps.
\<close>

theorem packer_no_straddle:
  assumes "add_fits s n" and "state_packer_add_allocation (Some s) p n al t0 = (r, s', t)"
    and "unat (used_line s) dvd unat (used_page s)"
  shows "(unat n \<le> unat (used_line s) \<longrightarrow> unat t mod unat (used_line s) + unat n \<le> unat (used_line s))
     \<and> (unat n \<le> unat (used_page s) \<longrightarrow> unat t mod unat (used_page s) + unat n \<le> unat (used_page s))"
  using add_allocation_bounds [OF assms(1,2)] assms(3) by blast

theorem packer_no_straddle_witness:
  "\<exists>r s' t. state_packer_add_allocation (Some ((state_packer_new 8 64)\<lparr>current_offset := 40\<rparr>)) 0 60 8 0 = (r, s', t)
     \<and> unat t mod 64 + 60 \<le> 64"
proof -
  let ?s = "(state_packer_new 8 64)\<lparr>current_offset := 40\<rparr>"
  obtain r s' t where a: "state_packer_add_allocation (Some ?s) 0 60 8 0 = (r, s', t)" by (metis surj_pair)
  have "add_fits ?s 60" "unat (used_line ?s) = 64" "unat (used_page ?s) = 4096"
    by (simp_all add: add_fits_def used_line_def used_page_def state_packer_new_def)
  with packer_no_straddle [OF _ a] a show ?thesis by simp
qed

text \<open>
  The comment says the offset is rounded up to the alignment; the code adds the remainder instead. With
  alignment 8, a second allocation after one of 13 bytes is placed at offset 18.
\<close>

theorem packer_misaligns:
  "fst (pack_all sample_allocs (state_packer_new 8 64)) = [0, 18, 64] \<and> (18 :: u64) mod 8 \<noteq> 0"
  by (simp add: sample_allocs_def state_packer_new_def state_packer_add_allocation_def Let_def
      align_offset_def skip_to_next_def word_less_nat_alt)

text \<open>
  Moving a packed state preserves its contents. When the region does not wrap and no allocation lies inside it,
  moving the allocations one after the other in packing order puts every one at its offset in the region with the
  bytes it had before, and changes nothing outside the region.
\<close>

theorem packer_moves_intact:
  assumes "pack_fits as s" and "pack_all as s = (ts, s')"
    and "unat base + unat (current_offset s') < 2 ^ 64"
    and "sources_outside base (unat (current_offset s')) as"
  shows "\<exists>ts' m'. move_all as ts (s'\<lparr>allocation_ptr := base\<rparr>) m = (ts', m')
     \<and> (\<forall>x. unat (current_offset s') \<le> unat (x - base) \<longrightarrow> m' x = m x)
     \<and> (\<forall>i < length as. ts' ! i = ts ! i + base
          \<and> (\<forall>k. k < fst (snd (as ! i)) \<longrightarrow> m' (ts' ! i + k) = m (fst (as ! i) + k)))"
proof -
  have "laid_out (unat (current_offset s)) (unat (current_offset s')) as ts"
    using pack_all_laid_out [OF assms(1)] assms(2) by simp
  from move_all_effect [OF this, of "s'\<lparr>allocation_ptr := base\<rparr>" m] assms(3,4) show ?thesis by auto
qed

theorem packer_moves_intact_witness:
  "\<exists>ts' m'. move_all sample_allocs [0, 18, 64]
       ((snd (pack_all sample_allocs (state_packer_new 8 64)))\<lparr>allocation_ptr := 65536\<rparr>) (\<lambda>x. ucast x) = (ts', m')
     \<and> m' (ts' ! 1 + 3) = ucast (2003 :: u64)"
proof -
  let ?s = "snd (pack_all sample_allocs (state_packer_new 8 64))"
  have p: "pack_all sample_allocs (state_packer_new 8 64) = ([0, 18, 64], ?s)" "current_offset ?s = 124"
    by (simp_all add: sample_allocs_def state_packer_new_def state_packer_add_allocation_def Let_def
        align_offset_def skip_to_next_def word_less_nat_alt)
  have far: "124 \<le> unat (b + k - 65536 :: u64)" if "k < n" "n \<le> 100" "b \<le> 4000" for b k n :: u64
  proof -
    have "unat (b + k) = unat b + unat k" "unat k < 100" "unat b \<le> 4000"
      using that by (simp_all add: word_less_nat_alt word_le_nat_alt unat_word_ariths)
    then show ?thesis by (simp add: unat_sub_if')
  qed
  have "sources_outside 65536 124 sample_allocs"
    unfolding sources_outside_def sample_allocs_def
    using far [of _ 13 1000] far [of _ 8 2000] far [of _ 60 3000] by simp
  then have so: "sources_outside 65536 (unat (current_offset ?s)) sample_allocs" unfolding p(2) by simp
  have "unat (65536 :: u64) + unat (current_offset ?s) < 2 ^ 64" unfolding p(2) by simp
  from packer_moves_intact [OF sample_allocs_fit p(1) this so, of "\<lambda>x. ucast x"]
  obtain ts' m' where r: "move_all sample_allocs [0, 18, 64] (?s\<lparr>allocation_ptr := 65536\<rparr>) (\<lambda>x. ucast x) = (ts', m')"
    and all: "\<forall>i < length sample_allocs. \<forall>k. k < fst (snd (sample_allocs ! i)) \<longrightarrow>
       m' (ts' ! i + k) = ucast (fst (sample_allocs ! i) + k)" by blast
  have "1 < length sample_allocs" "3 < fst (snd (sample_allocs ! 1))" "fst (sample_allocs ! 1) + 3 = 2003"
    by (simp_all add: sample_allocs_def)
  with all have "m' (ts' ! 1 + 3) = ucast (2003 :: u64)" by metis
  with r show ?thesis by blast
qed

end
