(* ===== verification/State_Optimizer.thy ===== *)
theory State_Optimizer
  imports State_Packer "HOL-Library.Multiset"
begin

text \<open>
  \<open>state_optimizer.cpp\<close>: choosing the order in which the allocations of a state are packed, and packing them.
  Allocations are references into a store of entries that have the fields the file uses; the unordered set of
  unplaced allocations is a distinct list in its order of iteration. The temporal connections of an allocation are the
  list of its neighbours and weights; \<open>find\<close> on an allocation with none is read through \<open>end()\<close>, which is \<open>None\<close>.
  \<open>processStateWindow\<close> is not in the repository and is the parameter \<open>window\<close>. The compiled branch is the one
  that writes the packing to a file, because \<open>ONLINE\<close> is not defined.
\<close>

section \<open>Data\<close>

type_synonym eref = nat

record allocEntry =
  e_pointer :: u64
  e_length :: u64
  e_alignment :: u64
  patchPointer :: u64

record opt_state =
  s_allocations :: "eref list"
  temporalConnections :: "eref \<rightharpoonup> (eref \<times> u64) list"

datatype hueristic_t =
    TEMPORAL_HEAVIEST_EDGE_FIRST | POINTER_HEAVIEST_EDGE_FIRST
  | TEMPORAL_HEAVIEST_NODE_FIRST | POINTER_HEAVIEST_NODE_FIRST

section \<open>The order of the allocations\<close>

text \<open>
  One neighbour of an allocation \<open>c\<close> against the heaviest one so far. \<open>result\<close> is what the code assigns when the
  neighbour is heavier.
\<close>

fun take_heavier ::
  "eref list \<Rightarrow> eref \<Rightarrow> (eref \<Rightarrow> 'r) \<Rightarrow> eref \<times> u64 \<Rightarrow> u64 \<times> 'r \<Rightarrow> u64 \<times> 'r" where
  "take_heavier unplaced c result (x, w) (weight, best) =
     (if x \<in> set unplaced \<and> x \<noteq> c \<and> weight < w then (w, result x) else (weight, best))"

text \<open>The scan for a new pair to start with.\<close>

fun start_scan ::
  "(eref \<rightharpoonup> (eref \<times> u64) list) \<Rightarrow> eref list \<Rightarrow> eref list \<Rightarrow> u64 \<times> eref option \<times> eref option
   \<Rightarrow> (u64 \<times> eref option \<times> eref option) option" where
  "start_scan tc unplaced [] best = Some best"
| "start_scan tc unplaced (c # cs) best =
     (case tc c of
        None \<Rightarrow> None
      | Some es \<Rightarrow> start_scan tc unplaced cs (fold (take_heavier unplaced c (\<lambda>x. (Some c, Some x))) es best))"

lemma take_heavier_fold:
  assumes "fold (take_heavier U c f) es (w0, r0) = (w1, r1)"
  shows "w0 \<le> w1 \<and> (\<forall>(x, w) \<in> set es. x \<in> set U \<and> x \<noteq> c \<longrightarrow> w \<le> w1)
    \<and> (w1 = w0 \<and> r1 = r0 \<or> (\<exists>x. r1 = f x \<and> x \<in> set U \<and> x \<noteq> c \<and> (x, w1) \<in> set es \<and> w0 < w1))"
  using assms
proof (induction es arbitrary: w0 r0)
  case (Cons e es)
  obtain x w where e: "e = (x, w)" by (cases e)
  show ?case
  proof (cases "x \<in> set U \<and> x \<noteq> c \<and> w0 < w")
    case True
    then have "fold (take_heavier U c f) es (w, f x) = (w1, r1)"
      using Cons.prems e by simp
    from Cons.IH [OF this] True e show ?thesis by auto
  next
    case False
    then have "fold (take_heavier U c f) es (w0, r0) = (w1, r1)"
      using Cons.prems e by (simp split: if_splits)
    from Cons.IH [OF this] False e show ?thesis by auto
  qed
qed simp

lemma start_scan_some:
  "(\<forall>c \<in> set cs. tc c \<noteq> None) \<Longrightarrow> start_scan tc U cs best \<noteq> None"
  by (induction cs arbitrary: best) (auto split: option.split)

definition edge_in :: "(eref \<rightharpoonup> (eref \<times> u64) list) \<Rightarrow> eref list \<Rightarrow> eref \<Rightarrow> eref \<Rightarrow> u64 \<Rightarrow> bool" where
  "edge_in tc U c x w \<longleftrightarrow> (\<exists>es. tc c = Some es \<and> (x, w) \<in> set es) \<and> x \<in> set U \<and> x \<noteq> c"

lemma take_heavier_edges:
  assumes "tc c = Some es" and "fold (take_heavier U c f) es (w0, r0) = (w1, r1)"
  shows "w0 \<le> w1" and "edge_in tc U c x w \<Longrightarrow> w \<le> w1"
    and "w1 = w0 \<and> r1 = r0 \<or> (\<exists>x. r1 = f x \<and> edge_in tc U c x w1 \<and> w0 < w1)"
  using take_heavier_fold [OF assms(2)] assms(1) unfolding edge_in_def by auto

lemma start_scan_heaviest:
  assumes "start_scan tc U cs (w0, r0) = Some (w1, r1)"
  shows "w0 \<le> w1 \<and> (\<forall>c \<in> set cs. \<forall>x w. edge_in tc U c x w \<longrightarrow> w \<le> w1)
    \<and> (w1 = w0 \<and> r1 = r0 \<or> (\<exists>c x. c \<in> set cs \<and> r1 = (Some c, Some x) \<and> edge_in tc U c x w1 \<and> w0 < w1))"
  using assms
proof (induction cs arbitrary: w0 r0)
  case (Cons c cs)
  then obtain es where es: "tc c = Some es" by (auto split: option.splits)
  obtain w2 r2 where f: "fold (take_heavier U c (\<lambda>x. (Some c, Some x))) es (w0, r0) = (w2, r2)"
    by (cases "fold (take_heavier U c (\<lambda>x. (Some c, Some x))) es (w0, r0)")
  note h = take_heavier_edges [of tc c es U "\<lambda>x. (Some c, Some x)" w0 r0 w2 r2, OF es f]
  have "start_scan tc U cs (w2, r2) = Some (w1, r1)" using Cons.prems es f by simp
  note ih = Cons.IH [OF this]
  have le: "w0 \<le> w1" using h(1) ih by (meson order.trans)
  have all: "\<forall>d \<in> set (c # cs). \<forall>x w. edge_in tc U d x w \<longrightarrow> w \<le> w1"
    using ih h(2) by (metis order.trans set_ConsD)
  have pick: "w1 = w0 \<and> r1 = r0
      \<or> (\<exists>d x. d \<in> set (c # cs) \<and> r1 = (Some d, Some x) \<and> edge_in tc U d x w1 \<and> w0 < w1)"
  proof (cases "w1 = w2 \<and> r1 = r2")
    case True
    then show ?thesis using h(3) by auto
  next
    case False
    then obtain d x where "d \<in> set cs" "r1 = (Some d, Some x)" "edge_in tc U d x w1" "w2 < w1"
      using ih by blast
    then show ?thesis using h(1) by auto
  qed
  from le all pick show ?case by blast
qed simp

text \<open>
  The loop. The measure counts the unplaced allocations twice and adds one for a current node that is not among them,
  which the first iteration may be given.
\<close>

function heaviest_loop ::
  "(eref \<rightharpoonup> (eref \<times> u64) list) \<Rightarrow> eref list \<Rightarrow> eref option \<Rightarrow> eref list \<Rightarrow> eref list option" where
  "heaviest_loop tc unplaced cur packed =
     (if unplaced = [] then Some packed
      else case (case cur of None \<Rightarrow> start_scan tc unplaced unplaced (0, None, None)
                 | Some c \<Rightarrow> Some (0, Some c, None)) of
        None \<Rightarrow> None
      | Some (_, None, _) \<Rightarrow> Some (packed @ unplaced)
      | Some (_, Some c, Some n) \<Rightarrow> heaviest_loop tc (us_erase c unplaced) (Some n) (packed @ [c])
      | Some (w, Some c, None) \<Rightarrow>
          (case tc c of
             None \<Rightarrow> None
           | Some es \<Rightarrow> heaviest_loop tc (us_erase c unplaced)
               (snd (fold (take_heavier unplaced c Some) es (w, None))) (packed @ [c])))"
  by pat_completeness auto

lemma length_us_erase: "c \<in> set xs \<Longrightarrow> length (us_erase c xs) < length xs"
  by (simp add: us_erase_def length_filter_less)

lemma us_erase_absent: "c \<notin> set xs \<Longrightarrow> us_erase c xs = xs"
  by (auto simp: us_erase_def filter_id_conv)

definition loop_measure :: "eref list \<Rightarrow> eref option \<Rightarrow> nat" where
  "loop_measure unplaced cur =
     2 * length unplaced + (case cur of None \<Rightarrow> 0 | Some c \<Rightarrow> if c \<in> set unplaced then 0 else 1)"

lemma loop_measure_erase: "c \<in> set U \<Longrightarrow> loop_measure (us_erase c U) cur < loop_measure U cur'"
  using length_us_erase [of c U] by (auto simp: loop_measure_def split: option.split)

lemma loop_measure_absent:
  "c \<notin> set U \<Longrightarrow> (\<And>n. cur = Some n \<Longrightarrow> n \<in> set U) \<Longrightarrow> loop_measure (us_erase c U) cur < loop_measure U (Some c)"
  by (auto simp: loop_measure_def us_erase_absent split: option.split)

lemma pick_in_unplaced:
  "snd (fold (take_heavier U c Some) es (w, None)) = Some n \<Longrightarrow> n \<in> set U \<and> n \<noteq> c"
  using take_heavier_fold [of U c Some es w None] by (cases "fold (take_heavier U c Some) es (w, None)") auto

lemma choose_node_cases:
  assumes "(case cur of None \<Rightarrow> start_scan tc U U (0, None, None) | Some c \<Rightarrow> Some (0, Some c, None)) = Some (w, Some c, nx)"
  shows "(cur = None \<and> c \<in> set U \<and> (\<exists>n. nx = Some n \<and> edge_in tc U c n w \<and>
            (\<forall>d \<in> set U. \<forall>x w'. edge_in tc U d x w' \<longrightarrow> w' \<le> w)))
       \<or> cur = Some c \<and> nx = None \<and> w = 0"
proof (cases cur)
  case None
  then show ?thesis
    using assms start_scan_heaviest [of tc U U 0 "(None, None)" w "(Some c, nx)"] by auto
next
  case (Some d)
  then show ?thesis using assms by simp
qed

termination heaviest_loop
proof (relation "measure (\<lambda>(tc, U, cur, p). loop_measure U cur)", goal_cases)
  case (2 tc U cur p x2 w y xa ya c es)
  have "cur = Some c" using choose_node_cases [of tc U cur w c None] 2(2-6) by auto
  then show ?case
    using loop_measure_erase [of c U _ cur] loop_measure_absent [of c U] pick_in_unplaced [of U c es w]
    by (cases "c \<in> set U") auto
next
  case (3 tc U cur p x2 w y xa ya c n)
  have "c \<in> set U" using choose_node_cases [of tc U cur w c "Some n"] 3(2-6) by auto
  then show ?case using loop_measure_erase by simp
qed simp

declare heaviest_loop.simps [simp del]

definition TemporalHeaviestEdgeFirst :: "opt_state \<Rightarrow> eref list \<Rightarrow> eref list \<Rightarrow> eref list option" where
  "TemporalHeaviestEdgeFirst st unplacedAllocs packedAllocs =
     heaviest_loop (temporalConnections st) unplacedAllocs None packedAllocs"

text \<open>\<open>None\<close> is a read through \<open>end()\<close>. A state that is unknown or has fewer than two allocations is not ordered.\<close>

definition GetOptimizedState ::
  "(opt_state \<Rightarrow> opt_state) \<Rightarrow> eref \<Rightarrow> (u64 \<rightharpoonup> opt_state) \<Rightarrow> u64 \<Rightarrow> hueristic_t \<Rightarrow> eref list \<Rightarrow> eref list option" where
  "GetOptimizedState window stackEntry stateMap stateID hueristic packedAllocs =
     (case stateMap stateID of
        None \<Rightarrow> Some packedAllocs
      | Some st \<Rightarrow>
          (if length (s_allocations st) < 2 then Some packedAllocs
           else let st1 = window st; unplaced = us_erase stackEntry (us_insert_all (s_allocations st1) []) in
             case hueristic of
               TEMPORAL_HEAVIEST_NODE_FIRST \<Rightarrow> Some packedAllocs
             | _ \<Rightarrow> TemporalHeaviestEdgeFirst st1 unplaced packedAllocs))"

section \<open>Packing a state\<close>

definition ALIGNMENT_SIZE :: u64 where "ALIGNMENT_SIZE = 8"
definition CACHE_LINE_SIZE :: u64 where "CACHE_LINE_SIZE = 64"

definition alloc_args :: "(eref \<Rightarrow> allocEntry) \<Rightarrow> eref \<Rightarrow> u64 \<times> u64 \<times> u64" where
  "alloc_args entries a = (e_pointer (entries a), e_length (entries a), e_alignment (entries a))"

fun set_patchPointers :: "eref list \<Rightarrow> u64 list \<Rightarrow> (eref \<Rightarrow> allocEntry) \<Rightarrow> eref \<Rightarrow> allocEntry" where
  "set_patchPointers (a # as) (t # ts) entries =
     set_patchPointers as ts (entries(a := (entries a)\<lparr>patchPointer := t\<rparr>))"
| "set_patchPointers _ _ entries = entries"

text \<open>The lines of the file: the packed size, then the address and the offset of each allocation.\<close>

definition OptimizeState ::
  "(opt_state \<Rightarrow> opt_state) \<Rightarrow> eref \<Rightarrow> (u64 \<rightharpoonup> opt_state) \<Rightarrow> u64 \<Rightarrow> hueristic_t \<Rightarrow> (eref \<Rightarrow> allocEntry)
   \<Rightarrow> ((u64 \<times> (u64 \<times> u64) list) \<times> (eref \<Rightarrow> allocEntry)) option" where
  "OptimizeState window stackEntry stateMap stateID hueristic entries =
     (case GetOptimizedState window stackEntry stateMap stateID hueristic [] of
        None \<Rightarrow> None
      | Some order \<Rightarrow>
          (case state_packer_start_layout (Some (state_packer_new ALIGNMENT_SIZE CACHE_LINE_SIZE)) of
             (_, None) \<Rightarrow> None
           | (_, Some packingState) \<Rightarrow>
               (let (ts, st) = pack_all (map (alloc_args entries) order) packingState;
                    entries1 = set_patchPointers order ts entries
                in Some ((get_current_offset st,
                          map (\<lambda>a. (e_pointer (entries1 a), patchPointer (entries1 a))) order), entries1))))"

text \<open>One file per state of the map, in the order of its iteration.\<close>

fun OptimizeStates ::
  "(opt_state \<Rightarrow> opt_state) \<Rightarrow> eref \<Rightarrow> (u64 \<rightharpoonup> opt_state) \<Rightarrow> u64 list \<Rightarrow> (eref \<Rightarrow> allocEntry)
   \<Rightarrow> ((u64 \<times> u64 \<times> (u64 \<times> u64) list) list \<times> (eref \<Rightarrow> allocEntry)) option" where
  "OptimizeStates window stackEntry stateMap [] entries = Some ([], entries)"
| "OptimizeStates window stackEntry stateMap (i # ids) entries =
     (case OptimizeState window stackEntry stateMap i TEMPORAL_HEAVIEST_EDGE_FIRST entries of
        None \<Rightarrow> None
      | Some (file, entries1) \<Rightarrow>
          map_option (\<lambda>(files, e). ((i, file) # files, e)) (OptimizeStates window stackEntry stateMap ids entries1))"

section \<open>The order is greedy\<close>

text \<open>
  After each allocation comes its heaviest temporal neighbour among those not placed yet, if it has one of positive
  weight.
\<close>

fun greedy :: "(eref \<rightharpoonup> (eref \<times> u64) list) \<Rightarrow> eref list \<Rightarrow> bool" where
  "greedy tc (a # b # xs) \<longleftrightarrow>
     (\<forall>x w. edge_in tc (b # xs) a x w \<longrightarrow> w = 0 \<or> (\<exists>w'. edge_in tc (b # xs) a b w' \<and> w \<le> w')) \<and> greedy tc (b # xs)"
| "greedy tc _ \<longleftrightarrow> True"

definition heaviest_pair_first :: "(eref \<rightharpoonup> (eref \<times> u64) list) \<Rightarrow> eref list \<Rightarrow> bool" where
  "heaviest_pair_first tc xs \<longleftrightarrow>
     (\<forall>d x w. d \<in> set xs \<longrightarrow> edge_in tc xs d x w \<longrightarrow> w = 0 \<or>
        (\<exists>a b ys w'. xs = a # b # ys \<and> edge_in tc xs a b w' \<and> w \<le> w'))"

lemma edge_in_mono: "edge_in tc V c x w \<Longrightarrow> set V \<subseteq> set U \<Longrightarrow> edge_in tc U c x w"
  by (auto simp: edge_in_def)

lemma edge_in_cong: "set U = set V \<Longrightarrow> edge_in tc U c x w = edge_in tc V c x w"
  by (simp add: edge_in_def)

lemma greedy_no_edges: "(\<And>d x w. d \<in> set xs \<Longrightarrow> edge_in tc xs d x w \<Longrightarrow> w = 0) \<Longrightarrow> greedy tc xs"
proof (induction tc xs rule: greedy.induct)
  case (1 tc a b xs)
  have "w = 0" if "d \<in> set (b # xs)" "edge_in tc (b # xs) d x w" for d x w
    using "1.prems" [of d x w] that edge_in_mono [of tc "b # xs" d x w "a # b # xs"] by auto
  moreover have "w = 0" if "edge_in tc (b # xs) a x w" for x w
    using "1.prems" [of a x w] that edge_in_mono [of tc "b # xs" a x w "a # b # xs"] by auto
  ultimately show ?case using "1.IH" by simp
qed auto

lemma greedy_Cons:
  assumes "greedy tc ys" and "\<And>x w. edge_in tc ys a x w \<Longrightarrow> w = 0 \<or> (\<exists>b zs w'. ys = b # zs \<and> edge_in tc ys a b w' \<and> w \<le> w')"
  shows "greedy tc (a # ys)"
  using assms by (cases ys) fastforce+

definition loop_result :: "(eref \<rightharpoonup> (eref \<times> u64) list) \<Rightarrow> eref list \<Rightarrow> eref option \<Rightarrow> eref list \<Rightarrow> bool" where
  "loop_result tc U cur order \<longleftrightarrow> distinct order \<and> set order = set U \<and> greedy tc order
     \<and> (\<forall>c. cur = Some c \<longrightarrow> (\<exists>ys. order = c # ys)) \<and> (cur = None \<longrightarrow> heaviest_pair_first tc order)"

lemma loop_result_no_edges:
  assumes "distinct U" and "\<And>d x w. d \<in> set U \<Longrightarrow> edge_in tc U d x w \<Longrightarrow> w = 0"
  shows "loop_result tc U None U"
  using assms greedy_no_edges [of U tc] unfolding loop_result_def heaviest_pair_first_def by blast

lemma loop_result_current:
  assumes "loop_result tc (us_erase c U) nx ys" "c \<in> set U"
    and "\<And>x w. edge_in tc U c x w \<Longrightarrow> w \<le> w1"
    and "nx = None \<and> w1 = 0 \<or> (\<exists>n. nx = Some n \<and> edge_in tc U c n w1)"
  shows "loop_result tc U (Some c) (c # ys)"
proof -
  have ys: "distinct ys" "set ys = set U - {c}" "greedy tc ys" using assms(1) by (auto simp: loop_result_def)
  have "greedy tc (c # ys)"
  proof (rule greedy_Cons [OF ys(3)])
    fix x w
    assume "edge_in tc ys c x w"
    then have le: "w \<le> w1" using assms(3) edge_in_mono [of tc ys c x w U] ys(2) by auto
    show "w = 0 \<or> (\<exists>b zs w'. ys = b # zs \<and> edge_in tc ys c b w' \<and> w \<le> w')"
    proof (cases nx)
      case None
      then show ?thesis using le assms(4) by simp
    next
      case (Some n)
      then obtain zs where zs: "ys = n # zs" using assms(1) by (auto simp: loop_result_def)
      moreover have "edge_in tc ys c n w1" using Some assms(4) zs by (auto simp: edge_in_def)
      ultimately show ?thesis using le by blast
    qed
  qed
  then show ?thesis using ys assms(2) by (auto simp: loop_result_def)
qed

lemma loop_result_start:
  assumes "loop_result tc (us_erase c U) (Some n) ys" "c \<in> set U" "edge_in tc U c n w1"
    and "\<And>d x w. d \<in> set U \<Longrightarrow> edge_in tc U d x w \<Longrightarrow> w \<le> w1"
  shows "loop_result tc U None (c # ys)"
proof -
  have cur: "loop_result tc U (Some c) (c # ys)"
    using loop_result_current [OF assms(1,2), of w1] assms(2-4) by blast
  obtain zs where "ys = n # zs" using assms(1) by (auto simp: loop_result_def)
  moreover have "set (c # ys) = set U" using cur by (simp add: loop_result_def)
  moreover have "edge_in tc (c # ys) d x w = edge_in tc U d x w" for d x w
    using calculation(2) by (rule edge_in_cong)
  ultimately have "heaviest_pair_first tc (c # ys)"
    using assms(3,4) unfolding heaviest_pair_first_def by (metis (full_types))
  with cur show ?thesis by (auto simp: loop_result_def)
qed

lemma heaviest_loop_correct:
  assumes "distinct U" "\<forall>c \<in> set U. tc c \<noteq> None" "\<forall>c. cur = Some c \<longrightarrow> c \<in> set U"
  shows "\<exists>order. heaviest_loop tc U cur packed = Some (packed @ order) \<and> loop_result tc U cur order"
  using assms
proof (induction tc U cur packed rule: heaviest_loop.induct)
  case (1 tc U cur packed)
  have erase: "distinct (us_erase c U)" "\<forall>d \<in> set (us_erase c U). tc d \<noteq> None" for c
    using "1.prems"(1,2) by auto
  show ?case
  proof (cases "U = []")
    case True
    then show ?thesis
      using "1.prems"(3) by (auto simp: heaviest_loop.simps loop_result_def heaviest_pair_first_def)
  next
    case ne: False
    show ?thesis
    proof (cases cur)
      case None
      obtain w c n where sc: "start_scan tc U U (0, None, None) = Some (w, c, n)"
        using start_scan_some [of U tc U "(0, None, None)"] "1.prems"(2) by auto
      note h = start_scan_heaviest [OF sc]
      show ?thesis
      proof (cases c)
        case c: None
        then have "w = 0" using h by auto
        then have "loop_result tc U None U"
          using loop_result_no_edges [OF "1.prems"(1), of tc] h by (metis word_le_0_iff)
        then show ?thesis using ne None sc c by (simp add: heaviest_loop.simps [of tc U])
      next
        case c: (Some c')
        then obtain n' where n: "n = Some n'" "c' \<in> set U" "edge_in tc U c' n' w" using h by auto
        have "n' \<in> set (us_erase c' U)" using n(3) by (auto simp: edge_in_def)
        then obtain ys where ys: "heaviest_loop tc (us_erase c' U) (Some n') (packed @ [c']) = Some (packed @ [c'] @ ys)"
            "loop_result tc (us_erase c' U) (Some n') ys"
          using "1.IH"(2) [of "(w, c, n)" w "(c, n)" c n c' n'] ne None sc c n(1) erase [of c'] by auto
        have "loop_result tc U None (c' # ys)" using loop_result_start [OF ys(2) n(2,3)] h by blast
        then show ?thesis using ne None sc c n(1) ys(1) by (simp add: heaviest_loop.simps [of tc U])
      qed
    next
      case (Some c)
      then have c: "c \<in> set U" using "1.prems"(3) by simp
      then obtain es where es: "tc c = Some es" using "1.prems"(2) by auto
      obtain w1 nx where f: "fold (take_heavier U c Some) es (0, None) = (w1, nx)"
        by (cases "fold (take_heavier U c Some) es (0, None)")
      note h = take_heavier_edges [of tc c es U Some 0 None w1 nx, OF es f]
      have "\<forall>n. nx = Some n \<longrightarrow> n \<in> set (us_erase c U)" using h(3) by (auto simp: edge_in_def)
      then obtain ys where ys: "heaviest_loop tc (us_erase c U) nx (packed @ [c]) = Some (packed @ [c] @ ys)"
          "loop_result tc (us_erase c U) nx ys"
        using "1.IH"(1) [of "(0, Some c, None)" 0 "(Some c, None)" "Some c" None c es] ne Some es f erase [of c] by auto
      have "loop_result tc U (Some c) (c # ys)"
        using loop_result_current [OF ys(2) c, of w1] h(2,3) by auto
      then show ?thesis using ne Some es f ys(1) by (simp add: heaviest_loop.simps [of tc U])
    qed
  qed
qed

lemma start_scan_defined: "start_scan tc U cs best = Some r \<Longrightarrow> c \<in> set cs \<Longrightarrow> tc c \<noteq> None"
proof (induction cs arbitrary: best)
  case (Cons d cs)
  then show ?case by (cases "tc d"; cases "c = d") auto
qed simp

lemma heaviest_loop_defined:
  assumes "heaviest_loop tc U None packed = Some r" "c \<in> set U"
  shows "tc c \<noteq> None"
  using assms start_scan_defined [of tc U U "(0, None, None)" _ c]
  by (auto simp: heaviest_loop.simps [of tc U] split: if_splits option.splits)

lemma GetOptimizedState_distinct:
  assumes "GetOptimizedState window se sm i h [] = Some order"
  shows "distinct order"
proof -
  have "distinct order" if "TemporalHeaviestEdgeFirst st (us_erase se (us_insert_all as [])) [] = Some order" for st as
  proof -
    have "\<exists>ys. heaviest_loop (temporalConnections st) (us_erase se (us_insert_all as [])) None [] = Some ([] @ ys)
        \<and> loop_result (temporalConnections st) (us_erase se (us_insert_all as [])) None ys"
      using that heaviest_loop_defined
      by (intro heaviest_loop_correct) (auto simp: TemporalHeaviestEdgeFirst_def)
    then show ?thesis using that by (auto simp: TemporalHeaviestEdgeFirst_def loop_result_def)
  qed
  then show ?thesis
    using assms by (auto simp: GetOptimizedState_def Let_def split: option.splits if_splits hueristic_t.splits)
qed

lemma set_patchPointers_other: "a \<notin> set order \<Longrightarrow> set_patchPointers order ts entries a = entries a"
  by (induction order ts entries rule: set_patchPointers.induct) auto

lemma set_patchPointers_nth:
  "distinct order \<Longrightarrow> length ts = length order \<Longrightarrow> k < length order \<Longrightarrow>
   set_patchPointers order ts entries (order ! k) = (entries (order ! k))\<lparr>patchPointer := ts ! k\<rparr>"
proof (induction order ts entries arbitrary: k rule: set_patchPointers.induct)
  case (1 a as t ts entries)
  show ?case
  proof (cases k)
    case 0
    then show ?thesis using "1.prems" by (simp add: set_patchPointers_other)
  next
    case (Suc j)
    then have "as ! j \<noteq> a" using "1.prems" by auto
    then show ?thesis using "1.IH" [of j] "1.prems" Suc by (simp add: fun_upd_def)
  qed
qed auto

section \<open>Properties\<close>

text \<open>
  \<open>TemporalHeaviestEdgeFirst\<close> ends and appends every unplaced allocation exactly once. The first two are the ends
  of a heaviest temporal edge, and each allocation is followed by its heaviest neighbour among those still unplaced.
\<close>

theorem TemporalHeaviestEdgeFirst_orders:
  assumes "distinct unplaced" and "\<forall>c \<in> set unplaced. temporalConnections st c \<noteq> None"
  shows "\<exists>order. TemporalHeaviestEdgeFirst st unplaced packed = Some (packed @ order)
    \<and> mset order = mset unplaced \<and> greedy (temporalConnections st) order
    \<and> heaviest_pair_first (temporalConnections st) order"
proof -
  obtain order where "heaviest_loop (temporalConnections st) unplaced None packed = Some (packed @ order)"
    and "loop_result (temporalConnections st) unplaced None order"
    using heaviest_loop_correct [of unplaced "temporalConnections st" None packed] assms by auto
  then show ?thesis
    using assms(1) by (auto simp: TemporalHeaviestEdgeFirst_def loop_result_def set_eq_iff_mset_eq_distinct)
qed

definition sample_state :: opt_state where
  "sample_state = \<lparr>s_allocations = [0, 1, 2, 3],
     temporalConnections = [0 \<mapsto> [(1, 2), (2, 5)], 1 \<mapsto> [(0, 2), (3, 9)], 2 \<mapsto> [(0, 5)], 3 \<mapsto> [(1, 9)]]\<rparr>"

theorem TemporalHeaviestEdgeFirst_orders_witness:
  "TemporalHeaviestEdgeFirst sample_state [0, 1, 2, 3] [] = Some [1, 3, 0, 2]
   \<and> greedy (temporalConnections sample_state) [1, 3, 0, 2]"
  using TemporalHeaviestEdgeFirst_orders [of "[0, 1, 2, 3]" sample_state "[]"]
  by (simp add: TemporalHeaviestEdgeFirst_def sample_state_def heaviest_loop.simps us_erase_def)

text \<open>
  C34: the packing that \<open>OptimizeState\<close> writes is a layout of the state: every allocation of the chosen order has one line
  with its address and an offset, the blocks at these offsets do not overlap and end below the packed size in the
  first line, and only the patch pointers of these allocations change.
\<close>

theorem OptimizeState_packs:
  assumes "GetOptimizedState window stackEntry stateMap i h [] = Some order"
    and "pack_fits (map (alloc_args entries) order) (state_packer_new ALIGNMENT_SIZE CACHE_LINE_SIZE)"
  shows "\<exists>size ts entries1. OptimizeState window stackEntry stateMap i h entries =
       Some ((size, zip (map (\<lambda>a. e_pointer (entries a)) order) ts), entries1)
    \<and> length ts = length order \<and> distinct order
    \<and> (\<forall>j k. j < k \<and> k < length order \<longrightarrow> unat (ts ! j) + unat (e_length (entries (order ! j))) \<le> unat (ts ! k))
    \<and> (\<forall>k < length order. unat (ts ! k) + unat (e_length (entries (order ! k))) \<le> unat size)
    \<and> (\<forall>k < length order. entries1 (order ! k) = (entries (order ! k))\<lparr>patchPointer := ts ! k\<rparr>)
    \<and> (\<forall>a. a \<notin> set order \<longrightarrow> entries1 a = entries a)"
proof -
  let ?as = "map (alloc_args entries) order" and ?s = "state_packer_new ALIGNMENT_SIZE CACHE_LINE_SIZE"
  have d: "distinct order" using GetOptimizedState_distinct [OF assms(1)] .
  obtain ts st where p: "pack_all ?as ?s = (ts, st)"
    "laid_out (unat (current_offset ?s)) (unat (current_offset st)) ?as ts"
    using pack_all_laid_out [OF assms(2)] by blast
  have l: "length ts = length order" using laid_out_le [OF p(2)] by simp
  let ?e = "set_patchPointers order ts entries"
  have e: "?e (order ! k) = (entries (order ! k))\<lparr>patchPointer := ts ! k\<rparr>" if "k < length order" for k
    using set_patchPointers_nth [OF d l that] .
  have "map (\<lambda>a. (e_pointer (?e a), patchPointer (?e a))) order = zip (map (\<lambda>a. e_pointer (entries a)) order) ts"
    using l e by (intro nth_equalityI) simp_all
  moreover have "?s\<lparr>current_offset := 0\<rparr> = ?s" by (simp add: state_packer_new_def)
  ultimately have "OptimizeState window stackEntry stateMap i h entries =
      Some ((get_current_offset st, zip (map (\<lambda>a. e_pointer (entries a)) order) ts), ?e)"
    using assms(1) p(1) by (simp add: OptimizeState_def state_packer_start_layout_def)
  moreover have "unat (ts ! k) + unat (e_length (entries (order ! k))) \<le> unat (get_current_offset st)"
    if "k < length order" for k
    using laid_out_nth [OF p(2), of k] that by (simp add: alloc_args_def get_current_offset_def)
  moreover have "unat (ts ! j) + unat (e_length (entries (order ! j))) \<le> unat (ts ! k)"
    if "j < k" "k < length order" for j k
    using laid_out_disjoint [OF p(2) that(1)] that by (simp add: alloc_args_def)
  ultimately show ?thesis using l d e set_patchPointers_other by blast
qed

definition sample_entries :: "eref \<Rightarrow> allocEntry" where
  "sample_entries a = \<lparr>e_pointer = 4096 * (of_nat a + 1), e_length = 40, e_alignment = 8, patchPointer = 0\<rparr>"

lemma sample_order: "GetOptimizedState id 9 [7 \<mapsto> sample_state] 7 TEMPORAL_HEAVIEST_EDGE_FIRST [] = Some [1, 3, 0, 2]"
  by (simp add: GetOptimizedState_def TemporalHeaviestEdgeFirst_def sample_state_def heaviest_loop.simps us_erase_def
      us_insert_all_def us_insert_def)

lemma sample_order_fits:
  "pack_fits (map (alloc_args sample_entries) [1, 3, 0, 2]) (state_packer_new ALIGNMENT_SIZE CACHE_LINE_SIZE)"
  by (simp add: alloc_args_def sample_entries_def add_fits_def used_line_def used_page_def state_packer_new_def
      state_packer_add_allocation_def Let_def align_offset_def skip_to_next_def ALIGNMENT_SIZE_def CACHE_LINE_SIZE_def)

theorem OptimizeState_packs_witness:
  "\<exists>size ts entries1. OptimizeState id 9 [7 \<mapsto> sample_state] 7 TEMPORAL_HEAVIEST_EDGE_FIRST sample_entries =
     Some ((size, zip (map (\<lambda>a. e_pointer (sample_entries a)) [1, 3, 0, 2]) ts), entries1)
   \<and> length ts = 4 \<and> unat (ts ! 0) + 40 \<le> unat (ts ! 1) \<and> entries1 5 = sample_entries 5"
proof -
  have l: "length [1, 3, 0, 2 :: nat] = 4" "(0 :: nat) < 1 \<and> (1 :: nat) < length [1, 3, 0, 2 :: nat]"
    "(5 :: nat) \<notin> set [1, 3, 0, 2]" "e_length (sample_entries ([1, 3, 0, 2] ! 0)) = 40"
    by (simp_all add: sample_entries_def)
  have "unat (40 :: u64) = 40" by simp
  with OptimizeState_packs [OF sample_order sample_order_fits] l show ?thesis by metis
qed

end
