(* ===== verification/Patching.thy ===== *)
theory Patching
  imports State_Optimizer Texas_Helpers
begin

text \<open>
  \<open>patching.cpp\<close>: moving an allocation to a new place by rewriting the variables that point into it. The allocation map
  is an association list from addresses to entries, which have the fields of \<open>allocEntry\<close> that the file uses.
  Memory is read and written in 64-bit cells, as the code does. \<open>calloc\<close> is a parameter that gives the address of the
  new block of an entry. The start of the heap is the variable of \<open>user_patcher.c\<close> that \<open>safe_to_patch\<close> compares with.
\<close>

section \<open>Data\<close>

record patchEntry = allocEntry +
  allocToEscapeMap :: "u64 list"

type_synonym cells = "u64 \<Rightarrow> u64"
type_synonym patch_item = "u64 \<times> u64"

record regions =
  oldAddr :: u64
  newAddr :: u64
  reg_length :: u64

datatype granularity_t = PAGE_4K_GRANULARITY | ALLOCATION_GRANULARITY

section \<open>Operations\<close>

definition safe_to_patch :: "u64 \<Rightarrow> u64 \<Rightarrow> bool" where
  "safe_to_patch heapstart begin_addr \<longleftrightarrow> begin_addr \<ge> heapstart"

fun execute_patch :: "u64 \<Rightarrow> patch_item list \<Rightarrow> cells \<Rightarrow> cells" where
  "execute_patch heapstart [] m = m"
| "execute_patch heapstart ((paddr_of_ptr, new_paddr_to_write) # ps) m =
     execute_patch heapstart ps
       (if paddr_of_ptr \<noteq> 0 \<and> new_paddr_to_write \<noteq> 0 \<and> safe_to_patch heapstart (m paddr_of_ptr)
        then m(paddr_of_ptr := new_paddr_to_write) else m)"

fun verifyPatch :: "(eref \<Rightarrow> u64 \<Rightarrow> u64) \<Rightarrow> eref list \<Rightarrow> (eref \<Rightarrow> patchEntry) \<Rightarrow> eref \<Rightarrow> patchEntry" where
  "verifyPatch calloc [] entries = entries"
| "verifyPatch calloc (a # as) entries =
     (let n = (if e_length (entries a) = 0 then e_length (entries a) + 8 else e_length (entries a))
      in verifyPatch calloc as (entries(a := (entries a)\<lparr>e_length := n, patchPointer := calloc a n\<rparr>)))"

definition doRangesIntersect :: "u64 \<Rightarrow> u64 \<Rightarrow> u64 \<Rightarrow> u64 \<Rightarrow> bool" where
  "doRangesIntersect range1Start range1End range2Start range2End \<longleftrightarrow>
     range1Start \<le> range2End \<and> range2Start \<le> range1End"

unbundle bit_operations_syntax

definition page_of :: "u64 \<Rightarrow> u64" where
  "page_of x = (x AND 0xFFFFFFFFFFFFF000)"

definition add_page :: "u64 list \<Rightarrow> u64 \<Rightarrow> u64 list \<Rightarrow> u64 list" where
  "add_page pagesBeingMoved p pagesToAnalyze =
     (if p \<notin> set pagesBeingMoved then us_insert p pagesToAnalyze else pagesToAnalyze)"

fun addByPage ::
  "u64 list \<Rightarrow> (eref \<Rightarrow> patchEntry) \<Rightarrow> u64 \<Rightarrow> (u64 \<times> eref) list \<Rightarrow> u64 list \<times> eref list \<Rightarrow> u64 list \<times> eref list" where
  "addByPage moved entries old [] (pages, allocsToMove) = (pages, allocsToMove)"
| "addByPage moved entries old ((p, a) # rest) (pages, allocsToMove) =
     (if a \<in> set allocsToMove then addByPage moved entries old rest (pages, allocsToMove)
      else if doRangesIntersect old (old + 4096) p (p + e_length (entries a)) then
        addByPage moved entries old rest
          (add_page moved (page_of (p + e_length (entries a))) (add_page moved (page_of p) pages),
           us_insert a allocsToMove)
      else addByPage moved entries old rest (pages, allocsToMove))"

text \<open>The patches of one allocation: the offset is a signed number, and zero is not patched.\<close>

definition escape_patches :: "cells \<Rightarrow> patchEntry \<Rightarrow> patch_item list" where
  "escape_patches m e =
     map (\<lambda>a. (a, patchPointer e + doesItAlias (e_pointer e) (e_length e) (m a)))
       (filter (\<lambda>a. sint (doesItAlias (e_pointer e) (e_length e) (m a)) > 0) (allocToEscapeMap e))"

text \<open>\<open>extract\<close>, a new key, and \<open>insert\<close>, which drops the entry when the new key is taken.\<close>

definition rename_entry ::
  "u64 \<Rightarrow> eref \<Rightarrow> (u64 \<times> eref) list \<times> (eref \<Rightarrow> patchEntry) \<Rightarrow> (u64 \<times> eref) list \<times> (eref \<Rightarrow> patchEntry)" where
  "rename_entry heapstart a = (\<lambda>(amap, entries).
     let p = e_pointer (entries a); q = patchPointer (entries a) in
     if safe_to_patch heapstart p then
       (case map_of amap p of
          None \<Rightarrow> (amap, entries)
        | Some e \<Rightarrow> (um_insert q e (um_erase p amap), entries(a := (entries a)\<lparr>e_pointer := q\<rparr>)))
     else (amap, entries))"

definition prepare_patch ::
  "u64 \<Rightarrow> (eref \<Rightarrow> u64 \<Rightarrow> u64) \<Rightarrow> cells \<Rightarrow> u64 \<Rightarrow> u64 \<Rightarrow> eref list \<Rightarrow> (u64 \<times> eref) list \<Rightarrow> (eref \<Rightarrow> patchEntry)
   \<Rightarrow> patch_item list option \<times> eref list \<times> (u64 \<times> eref) list \<times> (eref \<Rightarrow> patchEntry)" where
  "prepare_patch heapstart calloc m addr0 addr1 allocsToMove amap entries =
     (case map_of amap addr0 of
        None \<Rightarrow> (None, allocsToMove, amap, entries)
      | Some a \<Rightarrow>
          (let moves = us_insert a allocsToMove;
               entries1 = (if addr1 = 0 then verifyPatch calloc moves entries else entries);
               patches = concat (map (\<lambda>b. escape_patches m (entries1 b)) moves)
           in case fold (rename_entry heapstart) moves (amap, entries1) of
                (amap2, entries2) \<Rightarrow> (Some patches, moves, amap2, entries2)))"

text \<open>
  The result: the return code, the number written through \<open>numAllocs\<close>, the array the function builds, and the new memory,
  map and entries. The parameter \<open>patchedAllocs\<close> is assigned, so the array does not reach the caller.
\<close>

record entry_result =
  r_code :: int
  r_numAllocs :: "nat option"
  local_regions :: "regions list"
  r_mem :: cells
  r_map :: "(u64 \<times> eref) list"
  r_entries :: "eref \<Rightarrow> patchEntry"

definition region_of :: "patchEntry \<Rightarrow> regions" where
  "region_of e = \<lparr>oldAddr = e_pointer e, newAddr = patchPointer e, reg_length = e_length e\<rparr>"

definition texas_entry ::
  "u64 \<Rightarrow> (eref \<Rightarrow> u64 \<Rightarrow> u64) \<Rightarrow> u64 \<Rightarrow> u64 \<Rightarrow> cells \<Rightarrow> (u64 \<times> eref) list \<Rightarrow> (eref \<Rightarrow> patchEntry) \<Rightarrow> entry_result" where
  "texas_entry heapstart calloc addr0 addr1 m amap entries =
     (case prepare_patch heapstart calloc m addr0 addr1 [] amap entries of
        (None, _, amap1, entries1) \<Rightarrow>
          \<lparr>r_code = 0, r_numAllocs = None, local_regions = [], r_mem = m, r_map = amap1, r_entries = entries1\<rparr>
      | (Some patches, moves, amap1, entries1) \<Rightarrow>
          \<lparr>r_code = 0, r_numAllocs = Some (length moves), local_regions = map (\<lambda>a. region_of (entries1 a)) moves,
           r_mem = execute_patch heapstart patches m, r_map = amap1, r_entries = entries1\<rparr>)"

section \<open>Executing patches\<close>

lemma execute_patch_other: "x \<notin> fst ` set ps \<Longrightarrow> execute_patch hs ps m x = m x"
  by (induction hs ps m rule: execute_patch.induct) auto

lemma execute_patch_at:
  "distinct (map fst ps) \<Longrightarrow> (x, v) \<in> set ps \<Longrightarrow> x \<noteq> 0 \<Longrightarrow> v \<noteq> 0 \<Longrightarrow> safe_to_patch hs (m x) \<Longrightarrow>
   execute_patch hs ps m x = v"
proof (induction hs ps m rule: execute_patch.induct)
  case (2 hs p n ps m)
  show ?case
  proof (cases "(x, v) = (p, n)")
    case True
    then have "x \<notin> fst ` set ps" using "2.prems"(1) by auto
    then show ?thesis using True "2.prems" by (simp add: execute_patch_other)
  next
    case False
    then have "(x, v) \<in> set ps" "p \<noteq> x" using "2.prems"(1,2) by (auto simp: image_iff)
    then show ?thesis using "2.IH" "2.prems" by simp
  qed
qed simp

lemma escape_patches_keys: "distinct (allocToEscapeMap e) \<Longrightarrow> distinct (map fst (escape_patches m e))"
  by (simp add: escape_patches_def comp_def)

lemma small_sint: "unat (x :: u64) < 2 ^ 63 \<Longrightarrow> sint x = int (unat x)"
proof -
  assume a: "unat x < 2 ^ 63"
  have u: "uint x = int (unat x)" by simp
  from a have "unat x < 9223372036854775808" by simp
  with u have "uint x < 9223372036854775808" by linarith
  moreover have "- 9223372036854775808 \<le> uint x" using uint_ge_0 [of x] by linarith
  ultimately show ?thesis unfolding sint_uint u [symmetric] by (simp add: signed_take_bit_int_eq_self)
qed


lemma alias_positive:
  assumes "block_fits p n" "unat n < 2 ^ 63"
  shows "sint (doesItAlias p n x) > 0 \<longleftrightarrow> in_block p n x \<and> x \<noteq> p"
proof (cases "in_block p n x")
  case True
  then have d: "doesItAlias p n x = x - p" "unat (x - p) = unat x - unat p"
    using doesItAlias_offset [OF assms(1)] by auto
  have "unat (x - p) < 2 ^ 63" using True assms(2) unfolding d(2) in_block_def by linarith
  then have "sint (doesItAlias p n x) = int (unat x - unat p)" using small_sint d by metis
  moreover have "x \<noteq> p \<longleftrightarrow> unat x \<noteq> unat p" by (simp add: word_unat_eq_iff)
  ultimately show ?thesis using True unfolding in_block_def by linarith
next
  case False
  then have "doesItAlias p n x = - 1" using doesItAlias_iff [OF assms(1)] by blast
  then show ?thesis using False by simp
qed

text \<open>Patching the escapes of one allocation.\<close>

lemma patches_redirect:
  assumes fits: "block_fits (e_pointer e) (e_length e)" "unat (e_length e) < 2 ^ 63"
    and new: "block_fits (patchPointer e) (e_length e)" "patchPointer e \<noteq> 0"
    and heap: "heapstart \<le> e_pointer e"
    and esc: "distinct (allocToEscapeMap e)" "0 \<notin> set (allocToEscapeMap e)"
  shows "execute_patch heapstart (escape_patches m e) m x =
     (if x \<in> set (allocToEscapeMap e) \<and> in_block (e_pointer e) (e_length e) (m x) \<and> m x \<noteq> e_pointer e
      then patchPointer e + (m x - e_pointer e) else m x)"
proof (cases "x \<in> set (allocToEscapeMap e) \<and> in_block (e_pointer e) (e_length e) (m x) \<and> m x \<noteq> e_pointer e")
  case True
  let ?o = "m x - e_pointer e"
  have al: "doesItAlias (e_pointer e) (e_length e) (m x) = ?o" "unat ?o = unat (m x) - unat (e_pointer e)"
    using doesItAlias_offset [OF fits(1)] True by auto
  have "(x, patchPointer e + ?o) \<in> set (escape_patches m e)"
    using True alias_positive [OF fits] al(1) by (auto simp: escape_patches_def image_iff)
  moreover have "patchPointer e + ?o \<noteq> 0"
  proof -
    have "unat ?o < unat (e_length e)" using True al(2) by (auto simp: in_block_def)
    then have "unat (patchPointer e) + unat ?o < 2 ^ 64" using new(1) by (simp add: block_fits_def)
    then have "unat (patchPointer e + ?o) = unat (patchPointer e) + unat ?o" by (rule unat_add_no_wrap)
    moreover have "0 < unat (patchPointer e)" using new(2) by (simp add: unat_gt_0)
    ultimately show ?thesis by (metis add_gr_0 less_irrefl unat_0)
  qed
  moreover have "safe_to_patch heapstart (m x)"
    using True heap by (auto simp: safe_to_patch_def in_block_def word_le_nat_alt)
  moreover have "x \<noteq> 0" using True esc(2) by auto
  ultimately show ?thesis
    using True execute_patch_at [OF escape_patches_keys [OF esc(1)]] by simp
next
  case False
  then have "\<not> (x \<in> set (allocToEscapeMap e) \<and> sint (doesItAlias (e_pointer e) (e_length e) (m x)) > 0)"
    using alias_positive [OF fits, of "m x"] by argo
  then have "x \<notin> fst ` set (escape_patches m e)" by (simp add: escape_patches_def image_image)
  then show ?thesis using False execute_patch_other [of x "escape_patches m e" heapstart m] by argo
qed

section \<open>Pages\<close>

lemma addByPage_iff:
  "a \<in> set (snd (addByPage moved entries old amap (pages, as))) \<longleftrightarrow>
   a \<in> set as \<or> (\<exists>p. (p, a) \<in> set amap \<and> doRangesIntersect old (old + 4096) p (p + e_length (entries a)))"
proof (induction amap arbitrary: pages as)
  case (Cons pa rest)
  obtain p b where pa: "pa = (p, b)" by (cases pa)
  note IH = Cons.IH [of pages as] Cons.IH [of
      "add_page moved (page_of (p + e_length (entries b))) (add_page moved (page_of p) pages)" "us_insert b as"]
  consider "b \<in> set as" | "b \<notin> set as" "doRangesIntersect old (old + 4096) p (p + e_length (entries b))"
    | "b \<notin> set as" "\<not> doRangesIntersect old (old + 4096) p (p + e_length (entries b))" by blast
  then show ?case
  proof cases
    case 1
    then show ?thesis using IH(1) pa by auto
  next
    case 2
    then show ?thesis using IH(2) pa by auto
  next
    case 3
    then show ?thesis using IH(1) pa by auto
  qed
qed simp

text \<open>Two closed ranges share a point exactly when each starts at or before the end of the other.\<close>

lemma doRangesIntersect_iff:
  assumes "a \<le> b" "c \<le> d"
  shows "doRangesIntersect a b c d \<longleftrightarrow> (\<exists>x. a \<le> x \<and> x \<le> b \<and> c \<le> x \<and> x \<le> d)"
proof
  assume "doRangesIntersect a b c d"
  then have "a \<le> d" "c \<le> b" by (simp_all add: doRangesIntersect_def)
  then show "\<exists>x. a \<le> x \<and> x \<le> b \<and> c \<le> x \<and> x \<le> d"
    using assms by (cases "a \<le> c") (auto intro: exI [of _ c] exI [of _ a])
next
  assume "\<exists>x. a \<le> x \<and> x \<le> b \<and> c \<le> x \<and> x \<le> d"
  then show "doRangesIntersect a b c d" by (auto simp: doRangesIntersect_def)
qed

section \<open>Moving one allocation\<close>

definition movable :: "u64 \<Rightarrow> (eref \<Rightarrow> u64 \<Rightarrow> u64) \<Rightarrow> (u64 \<times> eref) list \<Rightarrow> (eref \<Rightarrow> patchEntry) \<Rightarrow> u64 \<Rightarrow> eref \<Rightarrow> bool" where
  "movable heapstart calloc amap entries p a \<longleftrightarrow>
     map_of amap p = Some a \<and> e_pointer (entries a) = p \<and> e_length (entries a) \<noteq> 0 \<and> heapstart \<le> p
     \<and> block_fits p (e_length (entries a)) \<and> unat (e_length (entries a)) < 2 ^ 63
     \<and> calloc a (e_length (entries a)) \<noteq> 0 \<and> block_fits (calloc a (e_length (entries a))) (e_length (entries a))
     \<and> map_of amap (calloc a (e_length (entries a))) = None
     \<and> distinct (allocToEscapeMap (entries a)) \<and> 0 \<notin> set (allocToEscapeMap (entries a))"

lemma texas_entry_movable:
  assumes "movable heapstart calloc amap entries p a"
  defines "q \<equiv> calloc a (e_length (entries a))"
  shows "texas_entry heapstart calloc p 0 m amap entries =
    \<lparr>r_code = 0, r_numAllocs = Some 1,
     local_regions = [\<lparr>oldAddr = q, newAddr = q, reg_length = e_length (entries a)\<rparr>],
     r_mem = execute_patch heapstart (escape_patches m ((entries a)\<lparr>patchPointer := q\<rparr>)) m,
     r_map = um_insert q a (um_erase p amap),
     r_entries = entries(a := (entries a)\<lparr>patchPointer := q, e_pointer := q\<rparr>)\<rparr>"
  using assms
  by (simp add: movable_def texas_entry_def prepare_patch_def us_insert_def rename_entry_def safe_to_patch_def
      region_of_def Let_def q_def)

lemma texas_entry_effect:
  assumes "movable heapstart calloc amap entries p a"
    and "q = calloc a (e_length (entries a))"
  shows "r_mem (texas_entry heapstart calloc p 0 m amap entries) x =
         (if x \<in> set (allocToEscapeMap (entries a)) \<and> in_block p (e_length (entries a)) (m x) \<and> m x \<noteq> p
          then q + (m x - p) else m x)"
    and "map_of (r_map (texas_entry heapstart calloc p 0 m amap entries)) = (map_of amap)(p := None, q \<mapsto> a)"
    and "r_code (texas_entry heapstart calloc p 0 m amap entries) = 0"
    and "e_pointer (r_entries (texas_entry heapstart calloc p 0 m amap entries) a) = q"
proof -
  note eq = texas_entry_movable [OF assms(1), of m, folded assms(2)]
  show "r_mem (texas_entry heapstart calloc p 0 m amap entries) x =
         (if x \<in> set (allocToEscapeMap (entries a)) \<and> in_block p (e_length (entries a)) (m x) \<and> m x \<noteq> p
          then q + (m x - p) else m x)"
    using patches_redirect [of "(entries a)\<lparr>patchPointer := q\<rparr>" heapstart m x] assms
    unfolding eq movable_def by simp
  have "p \<noteq> q" "map_of amap q = None" using assms unfolding movable_def by auto
  then show "map_of (r_map (texas_entry heapstart calloc p 0 m amap entries)) = (map_of amap)(p := None, q \<mapsto> a)"
    unfolding eq by simp
qed (simp_all add: texas_entry_movable [OF assms(1)] assms(2))

section \<open>Properties\<close>

text \<open>
  C39: A request to move a tracked heap block to fresh memory rewrites every recorded variable that points behind the first
  byte of the block to the same offset in the new block, changes no other memory cell, and moves the entry
  of the block to its new address. A variable that holds the address of the block itself is not rewritten,
  because only offsets above zero count, so it keeps the old address.
\<close>

theorem texas_entry_redirects_escapes:
  assumes "movable heapstart calloc amap entries p a"
    and "q = calloc a (e_length (entries a))"
  shows "r_code (texas_entry heapstart calloc p 0 m amap entries) = 0
    \<and> (\<forall>x. r_mem (texas_entry heapstart calloc p 0 m amap entries) x =
         (if x \<in> set (allocToEscapeMap (entries a)) \<and> in_block p (e_length (entries a)) (m x) \<and> m x \<noteq> p
          then q + (m x - p) else m x))
    \<and> map_of (r_map (texas_entry heapstart calloc p 0 m amap entries)) = (map_of amap)(p := None, q \<mapsto> a)
    \<and> e_pointer (r_entries (texas_entry heapstart calloc p 0 m amap entries) a) = q"
  using texas_entry_effect [OF assms] by simp

definition sample_patch_entry :: patchEntry where
  "sample_patch_entry = \<lparr>e_pointer = 4096, e_length = 32, e_alignment = 8, patchPointer = 0, allocToEscapeMap = [256, 264]\<rparr>"

definition sample_cells :: cells where
  "sample_cells = (\<lambda>_. 0)(256 := 4104, 264 := 4096)"

lemma sample_movable: "movable 1000 (\<lambda>_ _. 8192) [(4096, 0)] (\<lambda>_. sample_patch_entry) 4096 0"
  by (simp add: movable_def sample_patch_entry_def block_fits_def)

theorem texas_entry_redirects_escapes_witness:
  "r_mem (texas_entry 1000 (\<lambda>_ _. 8192) 4096 0 sample_cells [(4096, 0)] (\<lambda>_. sample_patch_entry)) 256 = 8200
   \<and> r_mem (texas_entry 1000 (\<lambda>_ _. 8192) 4096 0 sample_cells [(4096, 0)] (\<lambda>_. sample_patch_entry)) 264 = 4096"
  using texas_entry_redirects_escapes [OF sample_movable refl, of sample_cells]
  by (simp add: sample_patch_entry_def sample_cells_def in_block_def)

text \<open>
  The page search adds to the allocations to move exactly those whose closed range shares a point with the page,
  and keeps those that were there.
\<close>

theorem addByPage_selects:
  assumes "old \<le> old + 4096" and "\<forall>(p, a) \<in> set amap. p \<le> p + e_length (entries a)"
  shows "a \<in> set (snd (addByPage moved entries old amap (pages, as))) \<longleftrightarrow>
     a \<in> set as \<or> (\<exists>p x. (p, a) \<in> set amap \<and> old \<le> x \<and> x \<le> old + 4096 \<and> p \<le> x \<and> x \<le> p + e_length (entries a))"
  using assms doRangesIntersect_iff [OF assms(1)] unfolding addByPage_iff by blast

theorem addByPage_selects_witness:
  "set (snd (addByPage [] (\<lambda>_. sample_patch_entry) 4096 [(4096, 0), (20480, 1)] ([], []))) = {0}"
proof -
  have "0 \<in> set (snd (addByPage [] (\<lambda>_. sample_patch_entry) 4096 [(4096, 0), (20480, 1)] ([], [])))"
    using addByPage_selects [of 4096 "[(4096, 0), (20480, 1)]" "\<lambda>_. sample_patch_entry" 0 "[]" "[]" "[]"]
    by (force simp: sample_patch_entry_def)
  moreover have "snd (addByPage [] (\<lambda>_. sample_patch_entry) 4096 [(4096, 0), (20480, 1)] ([], [])) = [0]"
    by (simp add: sample_patch_entry_def doRangesIntersect_def us_insert_def)
  ultimately show ?thesis by simp
qed

end
