(* ===== verification/User_Patcher.thy ===== *)
theory User_Patcher
  imports Patching "HOL-Library.Sublist"
begin

text \<open>
  \<open>user_patcher.c\<close> without the preload configuration: the signal handler that moves an allocation while the program runs,
  the allocator hooks that tell it when it must not, finding the start of the heap, and set-up. The allocator,
  the kernel's map of the process, the movement file and the environment are parameters. Registers are the list
  \<open>gregs\<close> of the interrupted thread, whose first seventeen are \<open>REG_R8\<close> to \<open>REG_RIP\<close>. The copies and releases of the
  handler are kept as a list of operations. A read behind the end of an array is \<open>None\<close>.
\<close>

section \<open>State\<close>

datatype hook = Original nat | MyMalloc | MyRealloc | MyFree | MyMemalign

record patcher =
  inmalloc :: bool
  malloc_hook :: hook
  realloc_hook :: hook
  free_hook :: hook
  memalign_hook :: hook
  old_malloc_hook :: hook
  old_realloc_hook :: hook
  old_free_hook :: hook
  old_memalign_hook :: hook
  inited :: bool
  heapstart :: u64
  texas_signal_installed :: bool
  sigint_installed :: bool
  atexit_calls :: nat
  pid_file :: "nat option"

section \<open>Allocator hooks\<close>

text \<open>
  Each hook runs the original allocator function with the original hook in place. The function is a parameter that gets
  and returns the state, because it may call other hooks.
\<close>

definition my_malloc_hook ::
  "(u64 \<Rightarrow> patcher \<Rightarrow> u64 \<times> patcher) \<Rightarrow> u64 \<Rightarrow> patcher \<Rightarrow> u64 \<times> patcher" where
  "my_malloc_hook malloc n s =
     (let (p, s1) = malloc n (s\<lparr>inmalloc := True, malloc_hook := old_malloc_hook s\<rparr>)
      in (p, s1\<lparr>malloc_hook := MyMalloc, inmalloc := False\<rparr>))"

definition my_realloc_hook ::
  "(u64 \<Rightarrow> u64 \<Rightarrow> patcher \<Rightarrow> u64 \<times> patcher) \<Rightarrow> u64 \<Rightarrow> u64 \<Rightarrow> patcher \<Rightarrow> u64 \<times> patcher" where
  "my_realloc_hook realloc p n s =
     (let (np, s1) = realloc p n (s\<lparr>inmalloc := True, realloc_hook := old_realloc_hook s\<rparr>)
      in (np, s1\<lparr>realloc_hook := MyRealloc, inmalloc := False\<rparr>))"

definition my_free_hook :: "(u64 \<Rightarrow> patcher \<Rightarrow> patcher) \<Rightarrow> u64 \<Rightarrow> patcher \<Rightarrow> patcher" where
  "my_free_hook free p s =
     (free p (s\<lparr>inmalloc := True, free_hook := old_free_hook s\<rparr>))\<lparr>free_hook := MyFree, inmalloc := False\<rparr>"

definition my_memalign_hook ::
  "(u64 \<Rightarrow> u64 \<Rightarrow> patcher \<Rightarrow> u64 \<times> patcher) \<Rightarrow> u64 \<Rightarrow> u64 \<Rightarrow> patcher \<Rightarrow> u64 \<times> patcher" where
  "my_memalign_hook memalign a n s =
     (let (p, s1) = memalign a n (s\<lparr>inmalloc := True, memalign_hook := old_memalign_hook s\<rparr>)
      in (p, s1\<lparr>memalign_hook := MyMemalign, inmalloc := False\<rparr>))"

definition install_my_malloc_hooks :: "patcher \<Rightarrow> patcher" where
  "install_my_malloc_hooks s =
     s\<lparr>old_malloc_hook := malloc_hook s, malloc_hook := MyMalloc,
       old_realloc_hook := realloc_hook s, realloc_hook := MyRealloc,
       old_free_hook := free_hook s, free_hook := MyFree,
       old_memalign_hook := memalign_hook s, memalign_hook := MyMemalign\<rparr>"

definition malloc_safe :: "patcher \<Rightarrow> bool" where
  "malloc_safe s \<longleftrightarrow> \<not> inmalloc s"

section \<open>The start of the heap\<close>

fun strstr :: "string \<Rightarrow> string \<Rightarrow> bool" where
  "strstr [] needle \<longleftrightarrow> needle = []"
| "strstr (c # cs) needle \<longleftrightarrow> prefix needle (c # cs) \<or> strstr cs needle"

definition hex_val :: "char \<Rightarrow> nat option" where
  "hex_val c =
     (let n = of_char c :: nat in
      if 48 \<le> n \<and> n \<le> 57 then Some (n - 48)
      else if 97 \<le> n \<and> n \<le> 102 then Some (n - 87)
      else if 65 \<le> n \<and> n \<le> 70 then Some (n - 55) else None)"

definition is_hex :: "char \<Rightarrow> bool" where
  "is_hex c \<longleftrightarrow> hex_val c \<noteq> None"

definition hex_number :: "string \<Rightarrow> nat" where
  "hex_number ds = foldl (\<lambda>v c. 16 * v + the (hex_val c)) 0 ds"

text \<open>
  The conversion \<open>%lx\<close> on an unsigned number without a prefix, which is what the kernel prints; a value that does not fit
  is the largest one.
\<close>

definition scan_lx :: "string \<Rightarrow> (u64 \<times> string) option" where
  "scan_lx s =
     (let ds = takeWhile is_hex s; v = hex_number ds in
      if ds = [] then None else Some (if v < 2 ^ 64 then of_nat v else - 1, dropWhile is_hex s))"

definition scan_range :: "string \<Rightarrow> (u64 \<times> u64) option" where
  "scan_range s =
     (case scan_lx s of
        None \<Rightarrow> None
      | Some (_, []) \<Rightarrow> None
      | Some (a, c # rest) \<Rightarrow>
          (if c = CHR ''-'' then (case scan_lx rest of None \<Rightarrow> None | Some (b, _) \<Rightarrow> Some (a, b)) else None))"

fun scan_maps :: "string list \<Rightarrow> u64 option" where
  "scan_maps [] = None"
| "scan_maps (l # ls) =
     (if strstr l ''[heap]'' then map_option fst (scan_range l) else scan_maps ls)"

text \<open>The lines of \<open>/proc/<pid>/maps\<close>, or \<open>None\<close> when it cannot be opened.\<close>

definition find_heap :: "string list option \<Rightarrow> patcher \<Rightarrow> int \<times> patcher" where
  "find_heap maps s =
     (case maps of
        None \<Rightarrow> (- 1, s)
      | Some ls \<Rightarrow> (case scan_maps ls of None \<Rightarrow> (- 1, s) | Some start \<Rightarrow> (0, s\<lparr>heapstart := start\<rparr>)))"

section \<open>The signal handler\<close>

datatype block_op = MemMove u64 u64 u64 | Free u64

text \<open>
  One register against one region. The inner loop has its own \<open>i\<close>, so the test of whether the patch is safe reads the
  array of regions at the number of the register.
\<close>

definition patch_register ::
  "u64 \<Rightarrow> regions list \<Rightarrow> regions \<Rightarrow> nat \<Rightarrow> u64 list \<Rightarrow> u64 list option" where
  "patch_register hs patchedAllocs rg i gregs =
     (let v = gregs ! i in
      if v \<ge> oldAddr rg \<and> v < oldAddr rg + reg_length rg then
        (if i < length patchedAllocs then
           Some (if safe_to_patch hs (oldAddr (patchedAllocs ! i))
                 then gregs[i := newAddr rg + (v - oldAddr rg)] else gregs)
         else None)
      else Some gregs)"

fun patch_registers_for ::
  "u64 \<Rightarrow> regions list \<Rightarrow> regions \<Rightarrow> nat list \<Rightarrow> u64 list \<Rightarrow> u64 list option" where
  "patch_registers_for hs patchedAllocs rg [] gregs = Some gregs"
| "patch_registers_for hs patchedAllocs rg (i # is) gregs =
     (case patch_register hs patchedAllocs rg i gregs of
        None \<Rightarrow> None | Some g \<Rightarrow> patch_registers_for hs patchedAllocs rg is g)"

definition REG_RIP :: nat where "REG_RIP = 16"

fun patch_registers :: "u64 \<Rightarrow> regions list \<Rightarrow> regions list \<Rightarrow> u64 list \<Rightarrow> u64 list option" where
  "patch_registers hs patchedAllocs [] gregs = Some gregs"
| "patch_registers hs patchedAllocs (rg # rgs) gregs =
     (case patch_registers_for hs patchedAllocs rg [0..<Suc REG_RIP] gregs of
        None \<Rightarrow> None | Some g \<Rightarrow> patch_registers hs patchedAllocs rgs g)"

definition move_block :: "u64 \<Rightarrow> regions \<Rightarrow> block_op list" where
  "move_block hs rg =
     (let allocLen = (if reg_length rg = 0 then 8 else reg_length rg) in
      [MemMove (newAddr rg) (oldAddr rg) allocLen,
       (if safe_to_patch hs (oldAddr rg) then Free (oldAddr rg) else Free (newAddr rg))])"

record handler_result =
  h_entry :: "entry_result option"
  h_gregs :: "u64 list"
  h_ops :: "block_op list"

text \<open>
  The pointer \<open>patchedAllocs\<close> of the handler after the call: \<open>texas_entry\<close> takes it as \<open>regions*\<close> and assigns its
  own parameter, so the variable keeps \<open>NULL\<close>.
\<close>

definition caller_regions :: "entry_result \<Rightarrow> regions list option" where
  "caller_regions r = None"

definition user_handler ::
  "(eref \<Rightarrow> u64 \<Rightarrow> u64) \<Rightarrow> (u64 \<times> u64) option \<Rightarrow> patcher \<Rightarrow> cells \<Rightarrow> (u64 \<times> eref) list \<Rightarrow> (eref \<Rightarrow> patchEntry)
   \<Rightarrow> u64 list \<Rightarrow> handler_result option" where
  "user_handler calloc movement s m amap entries gregs =
     (let idle = \<lparr>h_entry = None, h_gregs = gregs, h_ops = []\<rparr> in
      if \<not> inited s then Some idle
      else if \<not> malloc_safe s then Some idle
      else case movement of
        None \<Rightarrow> Some idle
      | Some (p0, p1) \<Rightarrow>
          (let r = texas_entry (heapstart s) calloc p0 p1 m amap entries in
           if r_code r = 1 then Some \<lparr>h_entry = Some r, h_gregs = gregs, h_ops = []\<rparr>
           else case caller_regions r of
             None \<Rightarrow> Some \<lparr>h_entry = Some r, h_gregs = gregs, h_ops = []\<rparr>
           | Some rgs \<Rightarrow>
               (case patch_registers (heapstart s) rgs rgs gregs of
                  None \<Rightarrow> None
                | Some g \<Rightarrow>
                    Some \<lparr>h_entry = Some r, h_gregs = g, h_ops = concat (map (move_block (heapstart s)) rgs)\<rparr>)))"

section \<open>Set-up\<close>

definition connect_to_kernel :: int where "connect_to_kernel = 0"
definition disconnect_from_kernel :: int where "disconnect_from_kernel = 0"

record init_env =
  env_maps :: "string list option"
  env_home :: bool
  env_pid_file :: bool
  env_pid :: nat

definition user_init :: "init_env \<Rightarrow> patcher \<Rightarrow> patcher" where
  "user_init env s =
     (if \<not> inited s then
        (let s1 = s\<lparr>atexit_calls := atexit_calls s + 1\<rparr> in
         if connect_to_kernel \<noteq> 0 then s1
         else case find_heap (env_maps env) s1 of
           (code, s2) \<Rightarrow>
             if code \<noteq> 0 then s2
             else let s3 = install_my_malloc_hooks (s2\<lparr>texas_signal_installed := True, sigint_installed := True\<rparr>) in
               if \<not> env_home env then s3
               else if \<not> env_pid_file env then s3
               else s3\<lparr>pid_file := Some (env_pid env), inited := True\<rparr>)
      else s)"

definition user_deinit :: "patcher \<Rightarrow> patcher" where
  "user_deinit s = (if inited s then s\<lparr>inited := False\<rparr> else s)"

section \<open>Reading the map of the process\<close>

text \<open>The number format of the kernel: lower-case digits, most significant first.\<close>

definition hex_digit :: "nat \<Rightarrow> char" where
  "hex_digit n = ''0123456789abcdef'' ! n"

fun to_hex :: "nat \<Rightarrow> string" where
  "to_hex n = (if n < 16 then [hex_digit n] else to_hex (n div 16) @ [hex_digit (n mod 16)])"

declare to_hex.simps [simp del]

lemma hex_val_digit: "n < 16 \<Longrightarrow> hex_val (hex_digit n) = Some n"
proof -
  have "list_all (\<lambda>n. hex_val (hex_digit n) = Some n) [0..<16]"
    by (simp add: upt_rec hex_digit_def hex_val_def numeral_eq_Suc)
  then show "n < 16 \<Longrightarrow> ?thesis" by (simp add: list_all_iff)
qed

lemma to_hex_digits: "set (to_hex n) \<subseteq> {c. is_hex c} \<and> to_hex n \<noteq> []"
proof (induction n rule: to_hex.induct)
  case (1 n)
  have d: "is_hex (hex_digit k)" if "k < 16" for k using hex_val_digit [OF that] by (simp add: is_hex_def)
  show ?case using 1 d [of "n mod 16"] d [of n] by (subst (1 2) to_hex.simps) simp
qed

lemma hex_number_to_hex: "hex_number (to_hex n) = n"
proof (induction n rule: to_hex.induct)
  case (1 n)
  then show ?case by (subst to_hex.simps) (simp add: hex_number_def hex_val_digit)
qed

lemma scan_lx_to_hex: "\<not> is_hex c \<Longrightarrow> scan_lx (to_hex (unat a) @ c # rest) = Some (a, c # rest)"
proof -
  assume c: "\<not> is_hex c"
  have all: "\<And>x. x \<in> set (to_hex (unat a)) \<Longrightarrow> is_hex x" using to_hex_digits by blast
  have "takeWhile is_hex (to_hex (unat a) @ c # rest) = to_hex (unat a)"
    "dropWhile is_hex (to_hex (unat a) @ c # rest) = c # rest"
    using all c by (simp_all add: takeWhile_append2 dropWhile_append2)
  then show ?thesis
    using to_hex_digits [of "unat a"] unat_u64_bound [of a] by (simp add: scan_lx_def hex_number_to_hex)
qed

lemma strstr_append: "strstr xs n \<Longrightarrow> strstr (ys @ xs) n"
  by (induction ys) simp_all

lemma scan_maps_skip: "\<forall>l \<in> set pre. \<not> strstr l ''[heap]'' \<Longrightarrow> scan_maps (pre @ ls) = scan_maps ls"
  by (induction pre) simp_all

section \<open>Registers\<close>

definition points_into :: "regions \<Rightarrow> u64 \<Rightarrow> bool" where
  "points_into rg v \<longleftrightarrow> v \<ge> oldAddr rg \<and> v < oldAddr rg + reg_length rg"

lemma patch_registers_beyond:
  assumes "\<forall>i \<in> set js. length all \<le> i"
  shows "patch_registers_for hs all rg js g =
     (if \<exists>i \<in> set js. points_into rg (g ! i) then None else Some g)"
  using assms
  by (induction js) (auto simp: patch_register_def points_into_def Let_def)

section \<open>Properties\<close>

text \<open>
  The handler never completes a move. When it runs at a safe point and is told to move a tracked heap block, it
  rewrites the recorded variables that point behind the first byte of the block to the new block and files the block under its new
  address, but it copies no bytes, releases nothing and patches no register: the call of \<open>texas_entry\<close> leaves the list of regions
  it would need a null pointer.
\<close>

theorem user_handler_never_copies:
  assumes "inited s" and "malloc_safe s" and "movable (heapstart s) calloc amap entries p a"
    and "q = calloc a (e_length (entries a))"
  shows "\<exists>r. user_handler calloc (Some (p, 0)) s m amap entries gregs =
        Some \<lparr>h_entry = Some r, h_gregs = gregs, h_ops = []\<rparr>
    \<and> map_of (r_map r) = (map_of amap)(p := None, q \<mapsto> a)
    \<and> (\<forall>x. r_mem r x = (if x \<in> set (allocToEscapeMap (entries a)) \<and> in_block p (e_length (entries a)) (m x)
                            \<and> m x \<noteq> p then q + (m x - p) else m x))"
  using assms(1,2) texas_entry_effect [OF assms(3,4)]
  by (simp add: user_handler_def caller_regions_def Let_def)

definition sample_patcher :: patcher where
  "sample_patcher = \<lparr>inmalloc = False, malloc_hook = MyMalloc, realloc_hook = MyRealloc, free_hook = MyFree,
     memalign_hook = MyMemalign, old_malloc_hook = Original 0, old_realloc_hook = Original 1, old_free_hook = Original 2,
     old_memalign_hook = Original 3, inited = True, heapstart = 1000, texas_signal_installed = True,
     sigint_installed = True, atexit_calls = 1, pid_file = Some 1\<rparr>"

lemma sample_patcher_facts: "inited sample_patcher" "malloc_safe sample_patcher"
  "movable (heapstart sample_patcher) (\<lambda>_ _. 8192) [(4096, 0)] (\<lambda>_. sample_patch_entry) 4096 0"
  using sample_movable by (simp_all add: sample_patcher_def malloc_safe_def)

theorem user_handler_never_copies_witness:
  "\<exists>r. user_handler (\<lambda>_ _. 8192) (Some (4096, 0)) sample_patcher sample_cells [(4096, 0)] (\<lambda>_. sample_patch_entry) [4104]
     = Some \<lparr>h_entry = Some r, h_gregs = [4104], h_ops = []\<rparr> \<and> r_mem r 256 = 8200 \<and> map_of (r_map r) 8192 = Some 0"
  using user_handler_never_copies [OF sample_patcher_facts refl, of sample_cells "[4104]"]
  by (auto simp: sample_cells_def sample_patch_entry_def in_block_def)

text \<open>
  The register patching of a single region reads behind the array of regions as soon as any register but the first points
  into the region, because the test inside the loop over the registers indexes the regions with the number of the register.
  Otherwise it redirects the first register when it points into the region, and leaves the others alone.
\<close>

theorem patch_registers_single:
  "patch_registers hs [rg] [rg] gregs =
     (if \<exists>i \<in> {1..REG_RIP}. points_into rg (gregs ! i) then None
      else Some (if points_into rg (gregs ! 0) \<and> safe_to_patch hs (oldAddr rg)
                 then gregs[0 := newAddr rg + (gregs ! 0 - oldAddr rg)] else gregs))"
proof -
  define js where "js = [1..<Suc REG_RIP]"
  have up: "[0..<Suc REG_RIP] = 0 # js" by (simp add: js_def upt_conv_Cons)
  have st: "set js = {1..REG_RIP}" "\<forall>i \<in> set js. length [rg] \<le> i" by (auto simp: js_def)
  have keep: "(\<exists>i \<in> set js. points_into rg (gregs[0 := v] ! i)) = (\<exists>i \<in> set js. points_into rg (gregs ! i))" for v
    using st(2) by (intro bex_cong) auto
  have one: "patch_register hs [rg] rg 0 gregs =
      Some (if points_into rg (gregs ! 0) \<and> safe_to_patch hs (oldAddr rg)
            then gregs[0 := newAddr rg + (gregs ! 0 - oldAddr rg)] else gregs)"
    by (simp add: patch_register_def points_into_def Let_def)
  show ?thesis
    using patch_registers_beyond [OF st(2), of hs rg] keep
    unfolding st(1) [symmetric] by (simp add: up one del: upt_Suc)
qed

theorem patch_registers_single_witness:
  "patch_registers 0 [\<lparr>oldAddr = 64, newAddr = 128, reg_length = 8\<rparr>] [\<lparr>oldAddr = 64, newAddr = 128, reg_length = 8\<rparr>]
     ((replicate 17 0)[3 := 66]) = None"
proof -
  have "points_into \<lparr>oldAddr = 64, newAddr = 128, reg_length = 8\<rparr> (((replicate 17 0)[3 := 66]) ! 3)"
    by (simp add: points_into_def)
  moreover have "(3 :: nat) \<in> {1..REG_RIP}" by (simp add: REG_RIP_def)
  ultimately show ?thesis
    unfolding patch_registers_single by (metis (no_types, lifting))
qed

text \<open>
  The start of the heap is read back from the map the kernel prints: when the first line that mentions the heap starts with the
  two bounds in hexadecimal, \<open>find_heap\<close> sets the start of the heap to the lower bound.
\<close>

theorem find_heap_roundtrip:
  assumes "\<forall>l \<in> set pre. \<not> strstr l ''[heap]''" and "strstr rest ''[heap]''"
  shows "find_heap (Some (pre @ (to_hex (unat a) @ ''-'' @ to_hex (unat (b :: u64)) @ '' '' @ rest) # post)) s
    = (0, s\<lparr>heapstart := a\<rparr>)"
proof -
  let ?l = "to_hex (unat a) @ ''-'' @ to_hex (unat b) @ '' '' @ rest"
  have "strstr ?l ''[heap]''" using strstr_append [OF assms(2)] by (metis append.assoc)
  moreover have "\<not> is_hex (CHR ''-'')" "\<not> is_hex (CHR '' '')" by (simp_all add: is_hex_def hex_val_def)
  then have "scan_range ?l = Some (a, b)" by (simp add: scan_range_def scan_lx_to_hex)
  ultimately show ?thesis
    using scan_maps_skip [OF assms(1)] by (simp add: find_heap_def)
qed

theorem find_heap_roundtrip_witness:
  "find_heap (Some [''400000-40b000 r-xp bin'', to_hex 6471680 @ ''-'' @ to_hex 6606848 @ '' '' @ ''rw-p [heap]'']) sample_patcher
     = (0, sample_patcher\<lparr>heapstart := 6471680\<rparr>)"
  using find_heap_roundtrip [of "[''400000-40b000 r-xp bin'']" "''rw-p [heap]''" 6471680 6606848 "[]" sample_patcher]
  by simp

text \<open>
  \<open>user_init\<close> marks the patcher as initialised exactly when the heap was found, \<open>HOME\<close> is set and the pid file opens; it
  then has the start of the heap, the handler and all hooks in place with the original hooks saved. A second call
  changes nothing, and while the mark is not set the handler changes nothing.
\<close>

theorem user_init_spec:
  assumes "\<not> inited s"
  shows "(inited (user_init env s) \<longleftrightarrow>
       (\<exists>ls a. env_maps env = Some ls \<and> scan_maps ls = Some a) \<and> env_home env \<and> env_pid_file env)
    \<and> (inited (user_init env s) \<longrightarrow>
       Some (heapstart (user_init env s)) = scan_maps (the (env_maps env)) \<and> texas_signal_installed (user_init env s)
       \<and> malloc_hook (user_init env s) = MyMalloc \<and> old_malloc_hook (user_init env s) = malloc_hook s
       \<and> user_init env' (user_init env s) = user_init env s)
    \<and> (\<not> inited (user_init env s) \<longrightarrow> user_handler calloc mv (user_init env s) m amap entries gregs
         = Some \<lparr>h_entry = None, h_gregs = gregs, h_ops = []\<rparr>)"
  using assms
  by (auto simp: user_init_def connect_to_kernel_def find_heap_def install_my_malloc_hooks_def Let_def
      user_handler_def split: option.splits)

theorem user_init_spec_witness:
  "inited (user_init \<lparr>env_maps = Some [''00-ff [heap]''], env_home = True, env_pid_file = True, env_pid = 7\<rparr>
     (sample_patcher\<lparr>inited := False\<rparr>)) \<and>
   \<not> inited (user_init \<lparr>env_maps = None, env_home = True, env_pid_file = True, env_pid = 7\<rparr>
     (sample_patcher\<lparr>inited := False\<rparr>))"
proof -
  have "scan_maps [''00-ff [heap]''] = Some 0"
    by (simp add: scan_range_def scan_lx_def is_hex_def hex_val_def hex_number_def)
  then have "\<exists>ls a. env_maps \<lparr>env_maps = Some [''00-ff [heap]''], env_home = True, env_pid_file = True, env_pid = 7\<rparr> = Some ls
      \<and> scan_maps ls = Some a" by (metis init_env.select_convs(1))
  then show ?thesis
    using user_init_spec [of "sample_patcher\<lparr>inited := False\<rparr>"
        "\<lparr>env_maps = Some [''00-ff [heap]''], env_home = True, env_pid_file = True, env_pid = 7\<rparr>"]
      user_init_spec [of "sample_patcher\<lparr>inited := False\<rparr>"
        "\<lparr>env_maps = None, env_home = True, env_pid_file = True, env_pid = 7\<rparr>"] by (simp del: scan_maps.simps)
qed

text \<open>
  The flag that keeps the handler away from the allocator is not a counter: a hook that runs inside another allocator call, as the
  allocation hook does inside a reallocation, clears the flag although the outer call is still running.
\<close>

theorem nested_hook_clears_flag:
  assumes "inmalloc s"
  shows "malloc_safe (snd (my_malloc_hook malloc n s))"
  by (simp add: my_malloc_hook_def malloc_safe_def split_beta Let_def)

theorem nested_hook_clears_flag_witness:
  "malloc_safe (snd (my_malloc_hook (\<lambda>n s. (4096, s)) 8 (sample_patcher\<lparr>inmalloc := True\<rparr>)))"
  by (rule nested_hook_clears_flag) (simp add: sample_patcher_def)

end
