(* ===== verification/Splay_Tree_C.thy ===== *)
theory Splay_Tree_C
  imports Carmot_Prelude "HOL-Library.Tree" "HOL-Library.Multiset"
begin

text \<open>
  \<open>splay-tree.c\<close> and \<open>splay-tree.h\<close> of the splay benchmark, with its driver \<open>run-splay.c\<close>. A node pointer is
  a tree whose null pointer is \<open>Leaf\<close>: every node has one owner in this code, so the pointer updates of a
  rotation are updates of the tree. A read through a null pointer is the error \<open>NullDeref\<close>, a call of
  \<open>exit\<close> the error \<open>Exit\<close>. Keys have the C type \<open>long\<close>; they are compared and never computed with, so they
  are integers.
\<close>

section \<open>Data\<close>

type_synonym splay_tree_node = "int tree"

datatype c_error = NullDeref | Exit int

datatype loop_outcome = Return splay_tree_node | Again splay_tree_node

definition splay_compare :: "int \<Rightarrow> int \<Rightarrow> int" where
  "splay_compare x y = (if x = y then 0 else if x \<le> y then - 1 else 1)"

section \<open>Rotations\<close>

text \<open>The argument is the tree at \<open>*pp\<close>, whose root is the parent \<open>p\<close>; the result is the tree at \<open>*pp\<close> afterwards.\<close>

fun rotate_left :: "splay_tree_node \<Rightarrow> splay_tree_node option" where
  "rotate_left (Node (Node a n b) p c) = Some (Node a n (Node b p c))"
| "rotate_left _ = None"

fun rotate_right :: "splay_tree_node \<Rightarrow> splay_tree_node option" where
  "rotate_right (Node a p (Node b n c)) = Some (Node (Node a p b) n c)"
| "rotate_right _ = None"

section \<open>Splaying\<close>

text \<open>One execution of the body of the loop.\<close>

fun splay_body :: "int \<Rightarrow> splay_tree_node \<Rightarrow> loop_outcome option" where
  "splay_body key Leaf = None"
| "splay_body key (Node l nk r) =
     (let cmp1 = splay_compare key nk; c = (if cmp1 < 0 then l else r) in
      if cmp1 = 0 then Some (Return (Node l nk r))
      else case c of
        Leaf \<Rightarrow> Some (Return (Node l nk r))
      | Node cl ck cr \<Rightarrow>
          (let cmp2 = splay_compare key ck in
           if cmp2 = 0 \<or> cmp2 < 0 \<and> cl = Leaf \<or> cmp2 > 0 \<and> cr = Leaf then
             map_option Return (if cmp1 < 0 then rotate_left (Node l nk r) else rotate_right (Node l nk r))
           else if cmp1 < 0 \<and> cmp2 < 0 then
             map_option Again (Option.bind (rotate_left l) (\<lambda>l1. rotate_left (Node l1 nk r)))
           else if cmp1 > 0 \<and> cmp2 > 0 then
             map_option Again (Option.bind (rotate_right r) (\<lambda>r1. rotate_right (Node l nk r1)))
           else if cmp1 < 0 \<and> cmp2 > 0 then
             map_option Again (Option.bind (rotate_right l) (\<lambda>l1. rotate_left (Node l1 nk r)))
           else if cmp1 > 0 \<and> cmp2 < 0 then
             map_option Again (Option.bind (rotate_left r) (\<lambda>r1. rotate_right (Node l nk r1)))
           else Some (Again (Node l nk r))))"

text \<open>
  The directions of the search for a key, and the measure of the loop: twice the length of the search path, plus
  one when the first two directions agree. A double rotation shortens the path, except one of two equal
  directions whose search continues inwards: that one leaves a path that starts with two different directions.
\<close>

fun search_path :: "int \<Rightarrow> splay_tree_node \<Rightarrow> bool list" where
  "search_path key Leaf = []"
| "search_path key (Node l x r) =
     (if key = x then [] else if key < x then True # search_path key l else False # search_path key r)"

fun path_measure :: "bool list \<Rightarrow> nat" where
  "path_measure (a # b # p) = 2 * (length p + 2) + (if a = b then 1 else 0)"
| "path_measure p = 2 * length p"

lemma path_measure_le: "path_measure p \<le> 2 * length p + 1"
  by (cases p rule: path_measure.cases) auto

lemma path_measure_ge: "2 * length p \<le> path_measure p"
  by (cases p rule: path_measure.cases) auto

lemma splay_body_Again_cases:
  assumes "splay_body key t = Some (Again t1)"
  obtains (LL) a g b c d n e where "t = Node (Node (Node a g b) c d) n e" "key < n" "key < c"
      "t1 = Node a g (Node (Node b c d) n e)"
  | (RR) a n b c d g e where "t = Node a n (Node b c (Node d g e))" "n < key" "c < key"
      "t1 = Node (Node a n (Node b c d)) g e"
  | (LR) a c b g d n e where "t = Node (Node a c (Node b g d)) n e" "key < n" "c < key"
      "t1 = Node (Node a c b) g (Node d n e)"
  | (RL) a n b g d c e where "t = Node a n (Node (Node b g d) c e)" "n < key" "key < c"
      "t1 = Node (Node a n b) g (Node d c e)"
proof (cases t)
  case Leaf
  then show ?thesis using assms by simp
next
  case t: (Node l n r)
  consider "key = n" | "key < n" | "n < key" by linarith
  then show ?thesis
  proof cases
    case 1
    then show ?thesis using assms t by (simp add: splay_compare_def)
  next
    case 2
    show ?thesis
    proof (cases l)
      case Leaf
      then show ?thesis using assms t 2 by (simp add: splay_compare_def)
    next
      case (Node cl c cr)
      then show ?thesis
        using assms t 2 LL[of "left cl" "value cl" "right cl" c cr n r]
          LR[of cl c "left cr" "value cr" "right cr" n r]
        by (cases cl; cases cr) (auto simp: Let_def splay_compare_def split: if_splits)
    qed
  next
    case 3
    show ?thesis
    proof (cases r)
      case Leaf
      then show ?thesis using assms t 3 by (simp add: splay_compare_def)
    next
      case (Node cl c cr)
      then show ?thesis
        using assms t 3 RR[of l n cl c "left cr" "value cr" "right cr"]
          RL[of l n "left cl" "value cl" "right cl" c cr]
        by (cases cl; cases cr) (auto simp: Let_def splay_compare_def split: if_splits)
    qed
  qed
qed

lemma splay_body_decreases:
  assumes "splay_body key t = Some (Again t1)"
  shows "path_measure (search_path key t1) < path_measure (search_path key t)"
  using assms
proof (cases rule: splay_body_Again_cases)
  case (LL a g b c d n e)
  then show ?thesis using path_measure_le[of "True # search_path key a"] by auto
next
  case (RR a n b c d g e)
  then show ?thesis using path_measure_le[of "False # search_path key e"] by auto
next
  case (LR a c b g d n e)
  then show ?thesis
    using path_measure_le[of "True # search_path key (Node a c b)"]
      path_measure_le[of "False # search_path key (Node d n e)"] by auto
next
  case (RL a n b g d c e)
  then show ?thesis
    using path_measure_le[of "True # search_path key (Node a n b)"]
      path_measure_le[of "False # search_path key (Node d c e)"] by auto
qed

text \<open>The whole loop, from a root that is not null.\<close>

function splay_loop :: "int \<Rightarrow> splay_tree_node \<Rightarrow> splay_tree_node option" where
  "splay_loop key t =
     (case splay_body key t of
        None \<Rightarrow> None
      | Some (Return t1) \<Rightarrow> Some t1
      | Some (Again t1) \<Rightarrow> splay_loop key t1)"
  by pat_completeness auto
termination
  by (relation "measure (\<lambda>(key, t). path_measure (search_path key t))")
    (auto simp: splay_body_decreases)

declare splay_loop.simps [simp del]

definition splay_tree_splay :: "int \<Rightarrow> splay_tree_node \<Rightarrow> splay_tree_node option" where
  "splay_tree_splay key root = (if root = Leaf then Some Leaf else splay_loop key root)"

section \<open>Operations\<close>

text \<open>The new node carries only its key: both of its child pointers are overwritten.\<close>

definition splay_tree_insert :: "int \<Rightarrow> splay_tree_node \<Rightarrow> c_error + splay_tree_node" where
  "splay_tree_insert key root =
     (case splay_tree_splay key root of
        None \<Rightarrow> Inl NullDeref
      | Some Leaf \<Rightarrow> Inr (Node Leaf key Leaf)
      | Some (Node l x r) \<Rightarrow>
          (let comparison = splay_compare x key in
           if comparison = 0 then Inl (Exit (- 1))
           else if comparison < 0 then Inr (Node (Node l x Leaf) key r)
           else Inr (Node l key (Node Leaf x r))))"

text \<open>The loop that walks to the right-most node of the left child and hangs the right child there.\<close>

fun hang_right :: "splay_tree_node \<Rightarrow> splay_tree_node \<Rightarrow> splay_tree_node option" where
  "hang_right Leaf child = None"
| "hang_right (Node l x r) child =
     (if r = Leaf then Some (Node l x child) else map_option (Node l x) (hang_right r child))"

definition splay_tree_remove :: "int \<Rightarrow> splay_tree_node \<Rightarrow> splay_tree_node option" where
  "splay_tree_remove key root =
     (case splay_tree_splay key root of
        None \<Rightarrow> None
      | Some Leaf \<Rightarrow> Some Leaf
      | Some (Node l x r) \<Rightarrow>
          (if splay_compare x key = 0 then
             (if l \<noteq> Leaf then (if r \<noteq> Leaf then hang_right l r else Some l) else Some r)
           else Some (Node l x r)))"

text \<open>The result is the key of the root, or null, and the splayed tree.\<close>

definition splay_tree_lookup :: "int \<Rightarrow> splay_tree_node \<Rightarrow> (int option \<times> splay_tree_node) option" where
  "splay_tree_lookup key root =
     (case splay_tree_splay key root of
        None \<Rightarrow> None
      | Some Leaf \<Rightarrow> Some (None, Leaf)
      | Some (Node l x r) \<Rightarrow> Some (if splay_compare x key = 0 then Some x else None, Node l x r))"

fun splay_tree_foreach_internal :: "splay_tree_node \<Rightarrow> (int \<Rightarrow> 'd \<Rightarrow> 'd) \<Rightarrow> 'd \<Rightarrow> 'd" where
  "splay_tree_foreach_internal Leaf func d = d"
| "splay_tree_foreach_internal (Node l x r) func d =
     splay_tree_foreach_internal r func (splay_tree_foreach_internal l func (func x d))"

definition splay_tree_foreach :: "splay_tree_node \<Rightarrow> (int \<Rightarrow> 'd \<Rightarrow> 'd) \<Rightarrow> 'd \<Rightarrow> 'd" where
  "splay_tree_foreach root func d = splay_tree_foreach_internal root func d"

section \<open>The driver\<close>

text \<open>
  \<open>main\<close> of \<open>run-splay.c\<close> in its logging configuration. A line of the input is what \<open>scanf\<close> matches it as. The
  calls of the runtime are kept in order; \<open>addr i\<close> is the address that \<open>malloc\<close> returns for node \<open>i\<close> and \<open>sid\<close>
  the number that \<open>CGetState\<close> returns. The two loops over a structure take its operations as arguments.
\<close>

datatype input_line = InsertLine int | LookupLine int | OtherLine

datatype texas_call = CGetState string nat | CAddToState nat int | CEndState nat

fun read_inserts :: "nat \<Rightarrow> input_line list \<Rightarrow> (int list \<times> input_line list) option" where
  "read_inserts 0 ls = Some ([], ls)"
| "read_inserts (Suc n) (InsertLine k # ls) = map_option (\<lambda>(ks, rest). (k # ks, rest)) (read_inserts n ls)"
| "read_inserts (Suc n) _ = None"

fun read_lookups :: "nat \<Rightarrow> input_line list \<Rightarrow> (int list \<times> input_line list) option" where
  "read_lookups 0 ls = Some ([], ls)"
| "read_lookups (Suc n) (LookupLine k # ls) = map_option (\<lambda>(ks, rest). (k # ks, rest)) (read_lookups n ls)"
| "read_lookups (Suc n) _ = None"

fun insert_nodes ::
  "(int \<Rightarrow> 't \<Rightarrow> c_error + 't) \<Rightarrow> (nat \<Rightarrow> nat) \<Rightarrow> nat \<Rightarrow> int list \<Rightarrow> 't \<Rightarrow> c_error + ('t \<times> texas_call list)" where
  "insert_nodes ins addr i [] t = Inr (t, [])"
| "insert_nodes ins addr i (k # ks) t =
     (case ins k t of
        Inl e \<Rightarrow> Inl e
      | Inr t1 \<Rightarrow>
          (case insert_nodes ins addr (Suc i) ks t1 of
             Inl e \<Rightarrow> Inl e
           | Inr (t2, calls) \<Rightarrow> Inr (t2, CAddToState (addr i) 1 # calls)))"

fun lookup_keys :: "(int \<Rightarrow> 't \<Rightarrow> (int option \<times> 't) option) \<Rightarrow> int list \<Rightarrow> 't \<Rightarrow> (int option list \<times> 't) option" where
  "lookup_keys look [] t = Some ([], t)"
| "lookup_keys look (k # ks) t =
     (case look k t of
        None \<Rightarrow> None
      | Some (r, t1) \<Rightarrow> map_option (\<lambda>(rs, t2). (r # rs, t2)) (lookup_keys look ks t1))"

definition run_splay ::
  "(nat \<Rightarrow> nat) \<Rightarrow> nat \<Rightarrow> nat \<Rightarrow> nat \<Rightarrow> nat \<Rightarrow> input_line list
   \<Rightarrow> c_error + (splay_tree_node \<times> int option list \<times> texas_call list)" where
  "run_splay addr sid argc num_keys num_lookups input =
     (if argc < 3 then Inl (Exit (- 1))
      else case read_inserts num_keys input of
        None \<Rightarrow> Inl (Exit (- 1))
      | Some (keys, rest) \<Rightarrow>
          (case read_lookups num_lookups rest of
             None \<Rightarrow> Inl (Exit (- 1))
           | Some (lookups, _) \<Rightarrow>
               (case insert_nodes splay_tree_insert addr 0 keys Leaf of
                  Inl e \<Rightarrow> Inl e
                | Inr (t, calls) \<Rightarrow>
                    (case lookup_keys splay_tree_lookup lookups t of
                       None \<Rightarrow> Inl NullDeref
                     | Some (results, t1) \<Rightarrow>
                         Inr (t1, results, CGetState ''main'' 128 # calls @ [CEndState sid])))))"

section \<open>Correctness of splaying\<close>

text \<open>What a caller relies on: no key of the left subtree is above the key, none of the right one below it.\<close>

fun split_at :: "int \<Rightarrow> splay_tree_node \<Rightarrow> bool" where
  "split_at key Leaf = True"
| "split_at key (Node l x r) = ((\<forall>y \<in> set_tree l. y < key) \<and> (\<forall>y \<in> set_tree r. key < y))"

lemma splay_body_Again_inorder:
  "splay_body key t = Some (Again t1) \<Longrightarrow> inorder t1 = inorder t \<and> t1 \<noteq> Leaf"
  by (erule splay_body_Again_cases) auto

lemma splay_body_Return_cases:
  assumes "splay_body key t = Some (Return t1)"
  obtains (found) l r where "t = Node l key r" "t1 = t"
  | (no_left) n r where "t = Node Leaf n r" "key < n" "t1 = t"
  | (no_right) l n where "t = Node l n Leaf" "n < key" "t1 = t"
  | (left) a c b n r where "t = Node (Node a c b) n r" "key < n" "t1 = Node a c (Node b n r)"
      "key = c \<or> key < c \<and> a = Leaf \<or> c < key \<and> b = Leaf"
  | (right) l n a c b where "t = Node l n (Node a c b)" "n < key" "t1 = Node (Node l n a) c b"
      "key = c \<or> key < c \<and> a = Leaf \<or> c < key \<and> b = Leaf"
proof (cases t)
  case Leaf
  then show ?thesis using assms by simp
next
  case (Node l n r)
  consider "key = n" | "key < n" | "n < key" by linarith
  then show ?thesis
  proof cases
    case 1
    then have "t1 = t" using assms Node by (simp add: splay_compare_def)
    then show ?thesis using found[of l r] 1 Node by blast
  next
    case 2
    show ?thesis
    proof (cases l)
      case Leaf
      then have "t1 = t" using assms Node 2 by (simp add: Let_def splay_compare_def)
      then show ?thesis using Node 2 Leaf no_left[of n r] by blast
    next
      case l: (Node a c b)
      have "t1 = Node a c (Node b n r)" "key = c \<or> key < c \<and> a = Leaf \<or> c < key \<and> b = Leaf"
        using assms Node 2 l
        by (cases a; cases b; simp add: Let_def splay_compare_def split: if_splits)+
      then show ?thesis using Node 2 l left[of a c b n r] by blast
    qed
  next
    case 3
    show ?thesis
    proof (cases r)
      case Leaf
      then have "t1 = t" using assms Node 3 by (simp add: Let_def splay_compare_def)
      then show ?thesis using Node 3 Leaf no_right[of l n] by blast
    next
      case r: (Node a c b)
      have "t1 = Node (Node l n a) c b" "key = c \<or> key < c \<and> a = Leaf \<or> c < key \<and> b = Leaf"
        using assms Node 3 r
        by (cases a; cases b; simp add: Let_def splay_compare_def split: if_splits)+
      then show ?thesis using Node 3 r right[of l n a c b] by blast
    qed
  qed
qed

lemma splay_body_Return:
  assumes "splay_body key t = Some (Return t1)"
  shows "inorder t1 = inorder t \<and> (bst t \<longrightarrow> split_at key t1)"
  using assms by (cases rule: splay_body_Return_cases) (force+)

lemma splay_body_some: "t \<noteq> Leaf \<Longrightarrow> splay_body key t \<noteq> None"
proof (cases t)
  case (Node l n r)
  have "l = Node cl ck cr \<Longrightarrow> key < n \<Longrightarrow> ?thesis" for cl ck cr
    using Node by (cases cl; cases cr) (simp_all add: Let_def splay_compare_def)
  moreover have "r = Node cl ck cr \<Longrightarrow> n < key \<Longrightarrow> ?thesis" for cl ck cr
    using Node by (cases cl; cases cr) (simp_all add: Let_def splay_compare_def)
  ultimately show ?thesis
    using Node by (cases l; cases r) (auto simp: Let_def splay_compare_def)
qed simp

lemma bst_cong_inorder: "inorder t1 = inorder t \<Longrightarrow> bst t1 = bst (t :: splay_tree_node)"
  by (simp add: bst_iff_sorted_wrt_less)

lemma splay_loop_correct:
  assumes "t \<noteq> Leaf"
  shows "\<exists>t1. splay_loop key t = Some t1 \<and> inorder t1 = inorder t \<and> (bst t \<longrightarrow> split_at key t1)"
  using assms
proof (induction key t rule: splay_loop.induct)
  case (1 key t)
  then obtain x where x: "splay_body key t = Some x" using splay_body_some by blast
  show ?case
  proof (cases x)
    case (Return t1)
    then show ?thesis using x splay_body_Return by (auto simp: splay_loop.simps[of key t])
  next
    case (Again t1)
    then have io: "inorder t1 = inorder t" "t1 \<noteq> Leaf" using x splay_body_Again_inorder by blast+
    show ?thesis
      using "1.IH"[OF x Again io(2)] x Again io(1) bst_cong_inorder[OF io(1)]
      by (auto simp: splay_loop.simps[of key t])
  qed
qed

lemma splay_effect:
  "\<exists>t1. splay_tree_splay key t = Some t1 \<and> inorder t1 = inorder t \<and> (bst t \<longrightarrow> bst t1 \<and> split_at key t1)"
proof (cases "t = Leaf")
  case False
  then obtain t1 where "splay_loop key t = Some t1" "inorder t1 = inorder t" "bst t \<longrightarrow> split_at key t1"
    using splay_loop_correct[of t key] by blast
  then show ?thesis using False bst_cong_inorder[of t1 t] by (simp add: splay_tree_splay_def)
qed (simp add: splay_tree_splay_def)

lemma set_tree_cong_inorder: "inorder t1 = inorder t \<Longrightarrow> set_tree t1 = set_tree t"
  by (drule arg_cong[where f = set]) simp

section \<open>The operations on search trees\<close>

lemma insert_effect:
  assumes "bst t"
  shows "key \<notin> set_tree t \<Longrightarrow>
      \<exists>t1. splay_tree_insert key t = Inr t1 \<and> bst t1 \<and> set_tree t1 = insert key (set_tree t)"
    and "key \<in> set_tree t \<Longrightarrow> splay_tree_insert key t = Inl (Exit (- 1))"
proof -
  obtain t1 where t1: "splay_tree_splay key t = Some t1" "inorder t1 = inorder t" "bst t1" "split_at key t1"
    using splay_effect[of key t] assms by blast
  have st: "set_tree t1 = set_tree t" using t1(2) by (rule set_tree_cong_inorder)
  show "\<exists>t2. splay_tree_insert key t = Inr t2 \<and> bst t2 \<and> set_tree t2 = insert key (set_tree t)"
    if "key \<notin> set_tree t"
    using that t1(1,3,4) unfolding st[symmetric]
    by (cases t1) (auto simp: splay_tree_insert_def splay_compare_def Let_def)
  show "splay_tree_insert key t = Inl (Exit (- 1))" if "key \<in> set_tree t"
    using that t1(1,3,4) unfolding st[symmetric]
    by (cases t1) (auto simp: splay_tree_insert_def splay_compare_def Let_def)
qed

lemma lookup_effect:
  assumes "bst t"
  shows "\<exists>t1. splay_tree_lookup key t = Some (if key \<in> set_tree t then Some key else None, t1)
      \<and> bst t1 \<and> inorder t1 = inorder t"
proof -
  obtain t1 where t1: "splay_tree_splay key t = Some t1" "inorder t1 = inorder t" "bst t1" "split_at key t1"
    using splay_effect[of key t] assms by blast
  have st: "set_tree t1 = set_tree t" using t1(2) by (rule set_tree_cong_inorder)
  show ?thesis
    using t1 unfolding st[symmetric]
    by (cases t1) (auto simp: splay_tree_lookup_def splay_compare_def)
qed

lemma hang_right_effect:
  assumes "l \<noteq> Leaf"
  shows "\<exists>t. hang_right l r = Some t \<and> inorder t = inorder l @ inorder r"
  using assms
proof (induction l)
  case (Node l x r1)
  then show ?case by (cases "r1 = Leaf") auto
qed simp

lemma inorder_remove_root: "sorted_wrt (<) (xs @ key # ys) \<Longrightarrow> filter (\<lambda>y. y \<noteq> key) (xs @ key # ys) = xs @ (ys :: int list)"
proof -
  assume "sorted_wrt (<) (xs @ key # ys)"
  then have "filter (\<lambda>y. y \<noteq> key) xs = xs" "filter (\<lambda>y. y \<noteq> key) ys = ys"
    by (auto simp: sorted_wrt_append filter_id_conv)
  then show ?thesis by simp
qed

lemma remove_effect:
  assumes "bst t"
  shows "\<exists>t1. splay_tree_remove key t = Some t1 \<and> inorder t1 = filter (\<lambda>y. y \<noteq> key) (inorder t)"
proof -
  obtain t1 where t1: "splay_tree_splay key t = Some t1" "inorder t1 = inorder t" "bst t1" "split_at key t1"
    using splay_effect[of key t] assms by blast
  show ?thesis
  proof (cases t1)
    case Leaf
    then show ?thesis using t1 by (simp add: splay_tree_remove_def)
  next
    case (Node l x r)
    show ?thesis
    proof (cases "x = key")
      case True
      have "filter (\<lambda>y. y \<noteq> key) (inorder t) = inorder l @ inorder r"
        using t1(2) assms Node True inorder_remove_root[of "inorder l" key "inorder r"]
        by (simp add: bst_iff_sorted_wrt_less)
      then show ?thesis
        using t1(1) Node True hang_right_effect[of l r]
        by (cases "l = Leaf"; cases "r = Leaf") (auto simp: splay_tree_remove_def splay_compare_def)
    next
      case False
      have "key \<notin> set_tree t1" using t1(4) Node False by auto
      then have "key \<notin> set (inorder t)" using set_tree_cong_inorder[OF t1(2)] by simp
      then have "filter (\<lambda>y. y \<noteq> key) (inorder t) = inorder t" by (auto simp: filter_id_conv)
      then show ?thesis using t1(1,2) Node False by (simp add: splay_tree_remove_def splay_compare_def)
    qed
  qed
qed

lemma foreach_internal_fold: "splay_tree_foreach_internal t func d = fold func (preorder t) d"
  by (induction t arbitrary: d) simp_all

section \<open>What the driver relies on\<close>

text \<open>A structure that stores a set of keys, refuses a key it has, and may rearrange itself on a lookup.\<close>

locale key_set =
  fixes ins :: "int \<Rightarrow> 't \<Rightarrow> c_error + 't"
    and look :: "int \<Rightarrow> 't \<Rightarrow> (int option \<times> 't) option"
    and inv :: "'t \<Rightarrow> bool"
    and elems :: "'t \<Rightarrow> int set"
  assumes ins_new: "inv t \<Longrightarrow> k \<notin> elems t \<Longrightarrow>
      \<exists>t1. ins k t = Inr t1 \<and> inv t1 \<and> elems t1 = insert k (elems t)"
    and ins_dup: "inv t \<Longrightarrow> k \<in> elems t \<Longrightarrow> ins k t = Inl (Exit (- 1))"
    and look_ok: "inv t \<Longrightarrow>
      \<exists>t1. look k t = Some (if k \<in> elems t then Some k else None, t1) \<and> inv t1 \<and> elems t1 = elems t"
begin

lemma insert_nodes_distinct:
  assumes "inv t" "distinct ks" "set ks \<inter> elems t = {}"
  shows "\<exists>t1. insert_nodes ins addr i ks t = Inr (t1, map (\<lambda>j. CAddToState (addr j) 1) [i..<i + length ks])
      \<and> inv t1 \<and> elems t1 = set ks \<union> elems t"
  using assms
proof (induction ks arbitrary: i t)
  case (Cons k ks)
  then obtain t1 where t1: "ins k t = Inr t1" "inv t1" "elems t1 = insert k (elems t)"
    using ins_new[of t k] by auto
  have up: "[i..<i + length (k # ks)] = i # [Suc i..<Suc i + length ks]"
    by (metis add_Suc_shift le_add1 length_Cons less_Suc_eq_le add_Suc_right upt_conv_Cons)
  have "set ks \<inter> elems t1 = {}" using Cons.prems t1(3) by auto
  from Cons.IH[OF t1(2) _ this, of "Suc i"] Cons.prems(2) show ?case
    unfolding up using t1 by auto
qed simp

lemma insert_nodes_duplicate:
  assumes "inv t" "\<not> (distinct ks \<and> set ks \<inter> elems t = {})"
  shows "insert_nodes ins addr i ks t = Inl (Exit (- 1))"
  using assms
proof (induction ks arbitrary: i t)
  case (Cons k ks)
  show ?case
  proof (cases "k \<in> elems t")
    case True
    then show ?thesis using ins_dup[OF Cons.prems(1)] by simp
  next
    case False
    then obtain t1 where t1: "ins k t = Inr t1" "inv t1" "elems t1 = insert k (elems t)"
      using ins_new[OF Cons.prems(1)] by blast
    have "\<not> (distinct ks \<and> set ks \<inter> elems t1 = {})" using Cons.prems(2) False t1(3) by auto
    from Cons.IH[OF t1(2) this, of "Suc i"] t1(1) show ?thesis by simp
  qed
qed simp

lemma lookup_keys_ok:
  assumes "inv t"
  shows "\<exists>t1. lookup_keys look ks t = Some (map (\<lambda>k. if k \<in> elems t then Some k else None) ks, t1)
      \<and> inv t1 \<and> elems t1 = elems t"
  using assms
proof (induction ks arbitrary: t)
  case (Cons k ks)
  then obtain t1 where t1: "look k t = Some (if k \<in> elems t then Some k else None, t1)" "inv t1" "elems t1 = elems t"
    using look_ok[of t k] by blast
  with Cons.IH[OF t1(2)] show ?case by auto
qed simp

end

interpretation splay_set: key_set splay_tree_insert splay_tree_lookup bst set_tree
proof
  fix t :: splay_tree_node and k
  assume b: "bst t"
  show "k \<notin> set_tree t \<Longrightarrow> \<exists>t1. splay_tree_insert k t = Inr t1 \<and> bst t1 \<and> set_tree t1 = insert k (set_tree t)"
    using insert_effect(1)[OF b] .
  show "k \<in> set_tree t \<Longrightarrow> splay_tree_insert k t = Inl (Exit (- 1))"
    using insert_effect(2)[OF b] .
  show "\<exists>t1. splay_tree_lookup k t = Some (if k \<in> set_tree t then Some k else None, t1) \<and> bst t1 \<and> set_tree t1 = set_tree t"
    using lookup_effect[OF b, of k] set_tree_cong_inorder by blast
qed

lemma read_inserts_map: "read_inserts (length ks) (map InsertLine ks @ rest) = Some (ks, rest)"
  by (induction ks) simp_all

lemma read_lookups_map: "read_lookups (length ks) (map LookupLine ks @ rest) = Some (ks, rest)"
  by (induction ks) simp_all

section \<open>Properties\<close>

text \<open>
  C35: splaying always returns, never reads through a null pointer and keeps the sequence of the keys; on a search
  tree it leaves a search tree whose left subtree has only smaller keys and whose right subtree has only larger
  keys than the key, so that the key is at the root when it is present.
\<close>

theorem splay_tree_splay_splits:
  "\<exists>t1. splay_tree_splay key t = Some t1 \<and> inorder t1 = inorder t \<and>
     (bst t \<longrightarrow> bst t1 \<and> split_at key t1 \<and> (key \<in> set_tree t \<longleftrightarrow> (\<exists>l r. t1 = Node l key r)))"
proof -
  obtain t1 where t1: "splay_tree_splay key t = Some t1" "inorder t1 = inorder t"
      "bst t \<longrightarrow> bst t1 \<and> split_at key t1"
    using splay_effect[of key t] by blast
  moreover have "key \<in> set_tree t \<longleftrightarrow> (\<exists>l r. t1 = Node l key r)" if "bst t"
    using t1(3) that unfolding set_tree_cong_inorder[OF t1(2), symmetric] by (cases t1) auto
  ultimately show ?thesis by blast
qed

definition sample_tree :: splay_tree_node where
  "sample_tree = Node (Node (Node (Node Leaf 1 Leaf) 2 (Node Leaf 3 Leaf)) 5 Leaf) 7 (Node Leaf 9 Leaf)"

theorem splay_tree_splay_splits_witness:
  "splay_tree_splay 3 sample_tree = Some (Node (Node (Node Leaf 1 Leaf) 2 Leaf) 3 (Node Leaf 5 (Node Leaf 7 (Node Leaf 9 Leaf))))
   \<and> bst sample_tree \<and> inorder (the (splay_tree_splay 3 sample_tree)) = inorder sample_tree"
  using splay_tree_splay_splits[of 3 sample_tree]
  by (simp add: splay_tree_splay_def sample_tree_def splay_loop.simps splay_compare_def Let_def)

text \<open>
  Inserting a key that a search tree does not have returns a search tree with exactly that key more; a key
  that is present ends the program with the exit code \<open>-1\<close>.
\<close>

theorem splay_tree_insert_correct:
  assumes "bst t"
  shows "(if key \<in> set_tree t then splay_tree_insert key t = Inl (Exit (- 1))
          else \<exists>t1. splay_tree_insert key t = Inr t1 \<and> bst t1 \<and> set_tree t1 = insert key (set_tree t))"
  using insert_effect[OF assms] by simp

theorem splay_tree_insert_correct_witness:
  "bst sample_tree \<and> splay_tree_insert 3 sample_tree = Inl (Exit (- 1)) \<and>
   (\<exists>t1. splay_tree_insert 6 sample_tree = Inr t1 \<and> bst t1 \<and> set_tree t1 = {1, 2, 3, 5, 6, 7, 9})"
  using splay_tree_insert_correct[of sample_tree 3] splay_tree_insert_correct[of sample_tree 6]
  by (simp add: sample_tree_def insert_commute)

text \<open>
  Removing a key from a search tree leaves exactly the other keys, in order, and is not an error when the key
  is absent.
\<close>

theorem splay_tree_remove_correct:
  assumes "bst t"
  shows "\<exists>t1. splay_tree_remove key t = Some t1 \<and> bst t1 \<and> inorder t1 = filter (\<lambda>y. y \<noteq> key) (inorder t)"
  using remove_effect[OF assms, of key] assms by (auto simp: bst_iff_sorted_wrt_less sorted_wrt_filter)

theorem splay_tree_remove_correct_witness:
  "bst sample_tree \<and> (\<exists>t1. splay_tree_remove 5 sample_tree = Some t1 \<and> bst t1 \<and> inorder t1 = [1, 2, 3, 7, 9])"
  using splay_tree_remove_correct[of sample_tree 5] by (simp add: sample_tree_def)

text \<open>
  The driver, given as many insertions and lookups as announced, ends with the exit code \<open>-1\<close> when a key is
  inserted twice; otherwise it returns, every lookup finds its key exactly when it was inserted, and each node is
  reported to the runtime once, between the begin and the end of the state.
\<close>

theorem run_splay_correct:
  assumes "argc \<ge> 3"
  shows "(if distinct ks then
      \<exists>t. run_splay addr sid argc (length ks) (length qs) (map InsertLine ks @ map LookupLine qs) =
        Inr (t, map (\<lambda>q. if q \<in> set ks then Some q else None) qs,
             CGetState ''main'' 128 # map (\<lambda>i. CAddToState (addr i) 1) [0..<length ks] @ [CEndState sid])
      else run_splay addr sid argc (length ks) (length qs) (map InsertLine ks @ map LookupLine qs) = Inl (Exit (- 1)))"
proof -
  have rd: "read_inserts (length ks) (map InsertLine ks @ map LookupLine qs) = Some (ks, map LookupLine qs)"
    "read_lookups (length qs) (map LookupLine qs) = Some (qs, [])"
    using read_inserts_map read_lookups_map[of qs "[]"] by simp_all
  show ?thesis
  proof (cases "distinct ks")
    case True
    then obtain t where t: "insert_nodes splay_tree_insert addr 0 ks Leaf =
        Inr (t, map (\<lambda>i. CAddToState (addr i) 1) [0..<length ks])" "bst t" "set_tree t = set ks"
      using splay_set.insert_nodes_distinct[of Leaf ks addr 0] by auto
    from splay_set.lookup_keys_ok[OF t(2), of qs] t show ?thesis
      using assms True rd by (auto simp: run_splay_def)
  next
    case False
    then show ?thesis
      using splay_set.insert_nodes_duplicate[of Leaf ks addr 0] assms rd by (simp add: run_splay_def)
  qed
qed

theorem run_splay_correct_witness:
  "(\<exists>t. run_splay (\<lambda>i. 100 + 24 * i) 0 3 2 2 [InsertLine 4, InsertLine (- 1), LookupLine 4, LookupLine 7] =
     Inr (t, [Some 4, None], [CGetState ''main'' 128, CAddToState 100 1, CAddToState 124 1, CEndState 0])) \<and>
   run_splay (\<lambda>i. 100 + 24 * i) 0 3 2 0 [InsertLine 4, InsertLine 4] = Inl (Exit (- 1))"
  using run_splay_correct[of 3 "[4, - 1]" "\<lambda>i. 100 + 24 * i" 0 "[4, 7]"]
    run_splay_correct[of 3 "[4, 4]" "\<lambda>i. 100 + 24 * i" 0 "[]"]
  by (simp add: numeral_2_eq_2 upt_rec)

text \<open>The traversal calls the function on each key exactly once.\<close>

theorem splay_tree_foreach_visits:
  "mset (splay_tree_foreach t (\<lambda>k d. d @ [k]) []) = mset (inorder t)"
proof -
  have "fold (\<lambda>k d. d @ [k]) xs d = d @ xs" for xs d :: "int list"
    by (induction xs arbitrary: d) simp_all
  moreover have "mset (preorder t) = mset (inorder t)"
    by (induction t) (simp_all add: ac_simps)
  ultimately show ?thesis by (simp add: splay_tree_foreach_def foreach_internal_fold)
qed

end
