(* ===== verification/Report_Sets.thy ===== *)
theory Report_Sets
  imports Carmot_Prelude "HOL-Library.Multiset"
begin

text \<open>
  The data a run saves (\<open>utils.hpp\<close>) and the clean-up of the seven sets of a state that \<open>get-parallelfor.cpp\<close> and
  \<open>get-ward.cpp\<close> share: removing duplicates, moving an allocation that is in two sets to the set that stands for both,
  and the sanity check. The seven sets of a state are one function from their names, because the code passes them
  by reference and two of the three references of a call may name the same set.
\<close>

section \<open>Saved data\<close>

record Trace =
  buffer :: "int list"
  nptrs :: int
  accessFrequency :: u64
  hashPart1 :: u64

record UseToSave =
  use_trace :: "Trace option"
  use_staticID :: u64
  use_uniqueID :: u64

record AllocationToSave =
  sa_trace :: "Trace option"
  staticID :: u64
  uniqueID :: u64
  sa_pointer :: u64
  sa_length :: u64
  sa_offsets :: "u64 list"
  sa_uses :: "UseToSave list"
  isDirectState :: bool

record CycleToSave =
  cycle :: "AllocationToSave list"
  saved_weakPoint :: AllocationToSave

datatype set_name = SI | SO | SIO | SCO | STO | SCIO | STIO

record StateToSave =
  saved_functionName :: string
  saved_lineNumber :: u64
  saved_sets :: "set_name \<Rightarrow> AllocationToSave list"
  saved_cycles :: "CycleToSave list"

type_synonym StatesToSave = "(u64 \<times> StateToSave) list"
type_synonym state_sets = "set_name \<Rightarrow> AllocationToSave list"

definition set_names :: "set_name list" where
  "set_names = [SI, SO, SIO, SCO, STO, SCIO, STIO]"

section \<open>Removing duplicates\<close>

fun remove_seen :: "u64 list \<Rightarrow> AllocationToSave list \<Rightarrow> AllocationToSave list" where
  "remove_seen uniqueIDs [] = []"
| "remove_seen uniqueIDs (a # as) =
     (if uniqueID a \<notin> set uniqueIDs then a # remove_seen (us_insert (uniqueID a) uniqueIDs) as
      else remove_seen uniqueIDs as)"

definition removeDuplicatesFromSet :: "AllocationToSave list \<Rightarrow> AllocationToSave list" where
  "removeDuplicatesFromSet allocations = remove_seen [] allocations"

definition removeDuplicates :: "StatesToSave \<Rightarrow> StatesToSave" where
  "removeDuplicates states =
     map (\<lambda>(i, st). (i, st\<lparr>saved_sets := (\<lambda>n. removeDuplicatesFromSet (saved_sets st n))\<rparr>)) states"

section \<open>Joining the sets\<close>

text \<open>The inner loop: erase the first allocation with the id, if there is one.\<close>

fun erase_first :: "u64 \<Rightarrow> AllocationToSave list \<Rightarrow> AllocationToSave list option" where
  "erase_first i [] = None"
| "erase_first i (a # as) = (if i = uniqueID a then Some as else map_option (\<lambda>r. a # r) (erase_first i as))"

text \<open>The outer loop: what stays of the two sources, and what is to be added to the destination.\<close>

fun match_sets ::
  "AllocationToSave list \<Rightarrow> AllocationToSave list
   \<Rightarrow> AllocationToSave list \<times> AllocationToSave list \<times> AllocationToSave list" where
  "match_sets [] bs = ([], bs, [])"
| "match_sets (a # as) bs =
     (case erase_first (uniqueID a) bs of
        None \<Rightarrow> (case match_sets as bs of (r1, r2, add) \<Rightarrow> (a # r1, r2, add))
      | Some bs1 \<Rightarrow> (case match_sets as bs1 of (r1, r2, add) \<Rightarrow> (r1, r2, a # add)))"

definition fixSet :: "set_name \<Rightarrow> set_name \<Rightarrow> set_name \<Rightarrow> state_sets \<Rightarrow> state_sets" where
  "fixSet src1 src2 dst st =
     (case match_sets (st src1) (st src2) of
        (r1, r2, allocationsToAdd) \<Rightarrow>
          (let st1 = st(src1 := r1, src2 := r2) in st1(dst := st1 dst @ allocationsToAdd)))"

definition fix_order :: "(set_name \<times> set_name \<times> set_name) list" where
  "fix_order =
     [(SI, SO, SIO), (SI, SCO, SCIO), (SI, STO, STIO), (SI, SIO, SIO), (SI, SCIO, SCIO), (SI, STIO, STIO),
      (SO, SCO, SCO), (SO, STO, STO), (SO, SIO, SIO), (SO, SCIO, SCIO), (SO, STIO, STIO),
      (SIO, SCO, SCIO), (SIO, STO, STIO), (SIO, SCIO, SCIO), (SIO, STIO, STIO),
      (SCO, STO, STO), (SCO, SCIO, SCIO), (SCO, STIO, STIO),
      (STO, SCIO, STIO), (STO, STIO, STIO),
      (SCIO, STIO, STIO)]"

definition fixSets :: "state_sets \<Rightarrow> state_sets" where
  "fixSets st = fold (\<lambda>(a, b, d). fixSet a b d) fix_order st"

definition fixSetsAll :: "StatesToSave \<Rightarrow> StatesToSave" where
  "fixSetsAll states = map (\<lambda>(i, st). (i, st\<lparr>saved_sets := fixSets (saved_sets st)\<rparr>)) states"

text \<open>The three calls that both tools make before they print.\<close>

definition prepare_states :: "StatesToSave \<Rightarrow> StatesToSave" where
  "prepare_states states = removeDuplicates (fixSetsAll (removeDuplicates states))"

section \<open>The sanity check\<close>

definition ids :: "AllocationToSave list \<Rightarrow> u64 set" where
  "ids as = set (map uniqueID as)"

definition isThereIntersection :: "AllocationToSave list \<Rightarrow> AllocationToSave list \<Rightarrow> bool" where
  "isThereIntersection set1 set2 \<longleftrightarrow> filter (\<lambda>i. i \<in> set (map uniqueID set2)) (map uniqueID set1) \<noteq> []"

definition check_pairs :: "(set_name \<times> set_name) list" where
  "check_pairs =
     [(SI, SO), (SI, SIO), (SI, SCO), (SI, STO), (SI, SCIO), (SI, STIO),
      (SO, SIO), (SO, SCO), (SO, STO), (SO, SCIO), (SO, STIO),
      (SIO, SCO), (SIO, STO), (SIO, SCIO), (SIO, STIO),
      (SCO, STO), (SCO, SCIO), (SCO, STIO), (STO, SCIO), (STO, STIO), (SCIO, STIO)]"

text \<open>\<open>None\<close> is the call of \<open>abort\<close>.\<close>

definition sanityCheck :: "state_sets \<Rightarrow> unit option" where
  "sanityCheck st =
     (if list_ex (\<lambda>(a, b). isThereIntersection (st a) (st b)) check_pairs then None else Some ())"

text \<open>The two counts whose quotient is printed.\<close>

definition getPercentageOfWardAllocations :: "state_sets \<Rightarrow> nat \<times> nat" where
  "getPercentageOfWardAllocations st =
     (let notTransfer = length (st SI) + length (st SO) + length (st SIO) + length (st SCO) + length (st SCIO)
      in (notTransfer, notTransfer + length (st STO) + length (st STIO)))"

definition processStateToSave :: "StateToSave \<Rightarrow> (nat \<times> nat) option" where
  "processStateToSave st =
     (case sanityCheck (saved_sets st) of
        None \<Rightarrow> None | Some _ \<Rightarrow> Some (getPercentageOfWardAllocations (saved_sets st)))"

fun processStatesToSave :: "StatesToSave \<Rightarrow> (nat \<times> nat) list option" where
  "processStatesToSave [] = Some []"
| "processStatesToSave ((i, st) # sts) =
     (case processStateToSave st of
        None \<Rightarrow> None | Some r \<Rightarrow> map_option (\<lambda>rs. r # rs) (processStatesToSave sts))"

section \<open>Counting one allocation\<close>

text \<open>
  The steps act on each id separately and only on how often it occurs in each set. \<open>fix_count\<close> is one step on the seven
  numbers, in the order of \<open>set_names\<close>.
\<close>

definition occurs :: "u64 \<Rightarrow> AllocationToSave list \<Rightarrow> nat" where
  "occurs i as = count (image_mset uniqueID (mset as)) i"

lemma occurs_simps [simp]:
  "occurs i [] = 0" "occurs i (a # as) = (if uniqueID a = i then Suc (occurs i as) else occurs i as)"
  "occurs i (xs @ ys) = occurs i xs + occurs i ys"
  by (simp_all add: occurs_def)

lemma occurs_pos: "0 < occurs i as \<longleftrightarrow> i \<in> ids as"
  by (induction as) (auto simp: ids_def)

lemma erase_first_occurs:
  "erase_first j bs = None \<Longrightarrow> occurs j bs = 0"
  "erase_first j bs = Some r \<Longrightarrow> occurs i r = occurs i bs - (if i = j then 1 else 0) \<and> (i = j \<longrightarrow> 0 < occurs i bs)"
  by (induction bs arbitrary: r) (auto split: if_splits)

lemma match_sets_occurs:
  assumes "match_sets as bs = (r1, r2, add)"
  shows "occurs i r1 = occurs i as - min (occurs i as) (occurs i bs)
    \<and> occurs i r2 = occurs i bs - min (occurs i as) (occurs i bs)
    \<and> occurs i add = min (occurs i as) (occurs i bs)"
  using assms
proof (induction as bs arbitrary: r1 r2 add rule: match_sets.induct)
  case (2 a as bs)
  show ?case
  proof (cases "erase_first (uniqueID a) bs")
    case None
    obtain x y z where m: "match_sets as bs = (x, y, z)" by (cases "match_sets as bs")
    have "r1 = a # x" "r2 = y" "add = z" using "2.prems" None m by auto
    then show ?thesis using "2.IH"(1) [OF None m] erase_first_occurs(1) [OF None] by auto
  next
    case (Some bs1)
    obtain x y z where m: "match_sets as bs1 = (x, y, z)" by (cases "match_sets as bs1")
    have "r1 = x" "r2 = y" "add = a # z" using "2.prems" Some m by auto
    then show ?thesis using "2.IH"(2) [OF Some m] erase_first_occurs(2) [OF Some, of i]
      by (auto simp: min_def)
  qed
qed auto

definition fix_count :: "set_name \<Rightarrow> set_name \<Rightarrow> set_name \<Rightarrow> (set_name \<Rightarrow> nat) \<Rightarrow> set_name \<Rightarrow> nat" where
  "fix_count a b d c =
     (let m = min (c a) (c b); c1 = c(a := c a - m, b := c b - m) in c1(d := c1 d + m))"

lemma fixSet_occurs:
  "a \<noteq> b \<Longrightarrow> (\<lambda>n. occurs i (fixSet a b d st n)) = fix_count a b d (\<lambda>n. occurs i (st n))"
proof -
  assume ab: "a \<noteq> b"
  obtain r1 r2 add where m: "match_sets (st a) (st b) = (r1, r2, add)" by (cases "match_sets (st a) (st b)")
  show ?thesis
    using match_sets_occurs [OF m, of i] ab by (auto simp: fixSet_def fix_count_def Let_def m fun_eq_iff)
qed

lemma fix_order_apart: "\<forall>(a, b, d) \<in> set fix_order. a \<noteq> b"
  by (simp add: fix_order_def)

lemma fixSets_occurs:
  "(\<lambda>n. occurs i (fixSets st n)) = fold (\<lambda>(a, b, d). fix_count a b d) fix_order (\<lambda>n. occurs i (st n))"
proof -
  have "(\<lambda>n. occurs i (fold (\<lambda>(a, b, d). fixSet a b d) ops st n))
      = fold (\<lambda>(a, b, d). fix_count a b d) ops (\<lambda>n. occurs i (st n))"
    if "\<forall>(a, b, d) \<in> set ops. a \<noteq> b" for ops
    using that
  proof (induction ops arbitrary: st)
    case (Cons op ops)
    obtain a b d where op: "op = (a, b, d)" by (cases op)
    then show ?case using Cons.IH [of "fixSet a b d st"] Cons.prems fixSet_occurs [of a b i d st] by simp
  qed simp
  from this [OF fix_order_apart] show ?thesis unfolding fixSets_def .
qed

lemma remove_seen_occurs: "occurs i (remove_seen seen as) = (if i \<in> set seen then 0 else min 1 (occurs i as))"
  by (induction seen as rule: remove_seen.induct) auto

lemma removeDuplicates_occurs: "occurs i (removeDuplicatesFromSet as) = min 1 (occurs i as)"
  by (simp add: removeDuplicatesFromSet_def remove_seen_occurs)

section \<open>All cases\<close>

text \<open>The seven counts as a list, on which all 128 starting points can be evaluated.\<close>

fun idx :: "set_name \<Rightarrow> nat" where
  "idx SI = 0" | "idx SO = 1" | "idx SIO = 2" | "idx SCO = 3" | "idx STO = 4" | "idx SCIO = 5" | "idx STIO = 6"

lemma idx_facts: "idx n < 7" "set_names ! idx n = n" "idx n = idx n' \<longleftrightarrow> n = n'" "length set_names = 7"
proof -
  show "idx n < 7" "set_names ! idx n = n" by (cases n; simp add: set_names_def)+
  show "idx n = idx n' \<longleftrightarrow> n = n'" by (cases n; cases n'; simp)
  show "length set_names = 7" by (simp add: set_names_def)
qed

definition fix_list :: "nat \<times> nat \<times> nat \<Rightarrow> nat list \<Rightarrow> nat list" where
  "fix_list = (\<lambda>(i, j, k) xs.
     let m = min (xs ! i) (xs ! j); ys = xs[i := xs ! i - m, j := xs ! j - m] in ys[k := ys ! k + m])"

lemma idx_surj: "i < 7 \<Longrightarrow> \<exists>n. i = idx n"
proof -
  assume "i < 7"
  then have "i = idx SI \<or> i = idx SO \<or> i = idx SIO \<or> i = idx SCO \<or> i = idx STO \<or> i = idx SCIO \<or> i = idx STIO"
    by (simp, arith)
  then show ?thesis by blast
qed

lemma fix_list_counts:
  "a \<noteq> b \<Longrightarrow> map (fix_count a b d c) set_names = fix_list (idx a, idx b, idx d) (map c set_names)"
proof (rule nth_equalityI)
  fix i
  assume ab: "a \<noteq> b" and "i < length (map (fix_count a b d c) set_names)"
  then obtain n where n: "i = idx n" using idx_surj by (auto simp: idx_facts)
  show "map (fix_count a b d c) set_names ! i = fix_list (idx a, idx b, idx d) (map c set_names) ! i"
    using ab by (simp add: n fix_list_def Let_def idx_facts nth_list_update fix_count_def)
qed (simp add: fix_list_def Let_def)

lemma fix_fold_counts:
  assumes "\<forall>(a, b, d) \<in> set ops. a \<noteq> b"
  shows "map (fold (\<lambda>(a, b, d). fix_count a b d) ops c) set_names
    = fold fix_list (map (\<lambda>(a, b, d). (idx a, idx b, idx d)) ops) (map c set_names)"
  using assms
proof (induction ops arbitrary: c)
  case (Cons op ops)
  obtain a b d where op: "op = (a, b, d)" by (cases op)
  then show ?case using Cons.IH [of "fix_count a b d c"] Cons.prems fix_list_counts [of a b d c] by simp
qed simp

text \<open>
  The set that stands for a collection of sets: read before written or not, and the strongest of the ways it was written.
\<close>

definition reads :: "set_name \<Rightarrow> bool" where
  "reads n \<longleftrightarrow> n \<in> {SI, SIO, SCIO, STIO}"

fun write_level :: "set_name \<Rightarrow> nat" where
  "write_level SI = 0" | "write_level SO = 1" | "write_level SIO = 1" | "write_level SCO = 2"
| "write_level SCIO = 2" | "write_level STO = 3" | "write_level STIO = 3"

definition join_set :: "set_name list \<Rightarrow> set_name" where
  "join_set ns =
     (let r = list_ex reads ns; w = fold max (map write_level ns) 0 in
      if w = 0 then SI
      else if w = 1 then (if r then SIO else SO)
      else if w = 2 then (if r then SCIO else SCO)
      else (if r then STIO else STO))"

text \<open>The collections that the order of the steps does not resolve, with the set that is left over.\<close>

definition unresolved :: "set_name list \<Rightarrow> set_name option" where
  "unresolved ns = map_of
     [([SI, SO, SIO, SCIO], SIO), ([SI, SO, SIO, STIO], SIO), ([SI, SCO, SCIO, STIO], SCIO),
      ([SIO, SCO, SCIO, STIO], SCIO), ([SI, SO, SCO, SCIO, STIO], SCIO), ([SI, SIO, SCO, STO, SCIO], SCIO),
      ([SI, SIO, SCO, SCIO, STIO], SCIO), ([SO, SIO, SCO, SCIO, STIO], SCIO),
      ([SI, SO, SIO, SCO, STO, SCIO], SCIO), ([SI, SO, SIO, SCO, SCIO, STIO], SCIO)] ns"

definition case_ok :: "nat list \<Rightarrow> bool" where
  "case_ok xs =
     (let ns = map snd (filter (\<lambda>(x, n). 0 < x) (zip xs set_names));
          ys = fold fix_list (map (\<lambda>(a, b, d). (idx a, idx b, idx d)) fix_order) xs
      in list_all (\<lambda>(y, n). (0 < y) = (ns \<noteq> [] \<and> (n = join_set ns \<or> unresolved ns = Some n))) (zip ys set_names))"

lemma all_cases_ok: "list_all case_ok (List.n_lists 7 [0, 1])"
  by code_simp

lemma case_ok_all:
  assumes "\<And>n. c n \<le> (1 :: nat)"
  shows "case_ok (map c set_names)"
proof -
  have bit: "c n \<in> {0, 1}" for n using assms [of n] by (simp add: le_Suc_eq)
  have "set (map c set_names) \<subseteq> {0, 1}" unfolding set_map by (rule image_subsetI) (rule bit)
  then have "map c set_names \<in> set (List.n_lists 7 [0, 1])"
    by (simp add: set_n_lists idx_facts)
  then show ?thesis using all_cases_ok by (simp only: list_all_iff)
qed

text \<open>The sets an id is in.\<close>

definition sets_with :: "u64 \<Rightarrow> state_sets \<Rightarrow> set_name list" where
  "sets_with i st = filter (\<lambda>n. i \<in> ids (st n)) set_names"

lemma zip_sets: "zip (map c set_names) set_names = map (\<lambda>n. (c n, n)) set_names"
  by (simp add: zip_map1 zip_same_conv_map)

lemma fold_fix_positive:
  assumes "\<And>n. c n \<le> (1 :: nat)"
  defines "ns \<equiv> filter (\<lambda>n. 0 < c n) set_names"
  shows "0 < fold (\<lambda>(a, b, d). fix_count a b d) fix_order c n
    \<longleftrightarrow> ns \<noteq> [] \<and> (n = join_set ns \<or> unresolved ns = Some n)"
proof -
  let ?f = "fold (\<lambda>(a, b, d). fix_count a b d) fix_order c"
  have ns: "map snd (filter (\<lambda>(x, n). 0 < x) (zip (map c set_names) set_names)) = ns"
    unfolding zip_sets ns_def by (simp add: filter_map comp_def)
  have "list_all (\<lambda>(y, n). (0 < y) = (ns \<noteq> [] \<and> (n = join_set ns \<or> unresolved ns = Some n)))
      (zip (map ?f set_names) set_names)"
    using case_ok_all [of c, OF assms(1)] unfolding case_ok_def Let_def ns fix_fold_counts [OF fix_order_apart, symmetric] .
  then have "\<forall>n \<in> set set_names. (0 < ?f n) = (ns \<noteq> [] \<and> (n = join_set ns \<or> unresolved ns = Some n))"
    unfolding zip_sets by (simp add: list_all_iff)
  moreover have "n \<in> set set_names" by (cases n) (simp_all add: set_names_def)
  ultimately show ?thesis by blast
qed

definition prepare_sets :: "state_sets \<Rightarrow> state_sets" where
  "prepare_sets st = (\<lambda>n. removeDuplicatesFromSet (fixSets (\<lambda>n. removeDuplicatesFromSet (st n)) n))"

lemma prepare_states_sets:
  "prepare_states states = map (\<lambda>(i, st). (i, st\<lparr>saved_sets := prepare_sets (saved_sets st)\<rparr>)) states"
  by (simp add: prepare_states_def removeDuplicates_def fixSetsAll_def prepare_sets_def comp_def split_beta)

lemma prepared_ids:
  "i \<in> ids (prepare_sets st n) \<longleftrightarrow>
     sets_with i st \<noteq> [] \<and> (n = join_set (sets_with i st) \<or> unresolved (sets_with i st) = Some n)"
proof -
  let ?c = "\<lambda>n. min 1 (occurs i (st n))"
  have ns: "filter (\<lambda>n. 0 < ?c n) set_names = sets_with i st"
    by (simp add: sets_with_def occurs_pos)
  have "occurs i (fixSets (\<lambda>n. removeDuplicatesFromSet (st n)) n)
      = fold (\<lambda>(a, b, d). fix_count a b d) fix_order ?c n"
    using fun_cong [OF fixSets_occurs [of i "\<lambda>n. removeDuplicatesFromSet (st n)"], of n]
    by (simp only: removeDuplicates_occurs)
  then show ?thesis
    using fold_fix_positive [of ?c n] unfolding ns
    by (simp add: prepare_sets_def removeDuplicates_occurs flip: occurs_pos)
qed

lemma prepared_distinct: "occurs i (prepare_sets st n) \<le> 1"
  by (simp add: prepare_sets_def removeDuplicates_occurs)

lemma sanityCheck_iff:
  "sanityCheck st = Some () \<longleftrightarrow> (\<forall>a b. a \<noteq> b \<longrightarrow> ids (st a) \<inter> ids (st b) = {})"
proof -
  have x: "isThereIntersection (st a) (st b) \<longleftrightarrow> ids (st a) \<inter> ids (st b) \<noteq> {}" for a b
    by (auto simp: isThereIntersection_def ids_def filter_empty_conv)
  have "sanityCheck st = Some () \<longleftrightarrow> (\<forall>(a, b) \<in> set check_pairs. ids (st a) \<inter> ids (st b) = {})"
    by (auto simp: sanityCheck_def list_ex_iff x)
  also have "\<dots> \<longleftrightarrow> (\<forall>a b. a \<noteq> b \<longrightarrow> ids (st a) \<inter> ids (st b) = {})"
  proof
    assume l: "\<forall>(a, b) \<in> set check_pairs. ids (st a) \<inter> ids (st b) = {}"
    show "\<forall>a b. a \<noteq> b \<longrightarrow> ids (st a) \<inter> ids (st b) = {}"
    proof (intro allI impI)
      fix a b :: set_name
      assume "a \<noteq> b"
      then have "(a, b) \<in> set check_pairs \<or> (b, a) \<in> set check_pairs"
        by (cases a; cases b) (simp_all add: check_pairs_def)
      then show "ids (st a) \<inter> ids (st b) = {}" using l by auto
    qed
  next
    assume r: "\<forall>a b. a \<noteq> b \<longrightarrow> ids (st a) \<inter> ids (st b) = {}"
    show "\<forall>(a, b) \<in> set check_pairs. ids (st a) \<inter> ids (st b) = {}"
      using r by (simp add: check_pairs_def)
  qed
  finally show ?thesis .
qed

section \<open>Properties\<close>

text \<open>
  C40: The three clean-up calls put every allocation of a state into the set that stands for all sets it was in, keep no other
  allocation, and keep no duplicates. Ten of the 128 collections of sets are not resolved: an allocation in one of
  these also stays in a second set.
\<close>

theorem prepared_in_join:
  "i \<in> ids (prepare_sets st n) \<longleftrightarrow>
     sets_with i st \<noteq> [] \<and> (n = join_set (sets_with i st) \<or> unresolved (sets_with i st) = Some n)"
  by (rule prepared_ids)

text \<open>
  \<open>get-ward\<close> passes its sanity check on a prepared state exactly when no allocation of the state is in one of the ten
  collections of sets that the fixed order of the joins does not resolve; otherwise it aborts.
\<close>

theorem prepared_sanity:
  "sanityCheck (prepare_sets st) = Some () \<longleftrightarrow> (\<forall>i. unresolved (sets_with i st) = None)"
proof -
  have left: "unresolved ns = Some n \<Longrightarrow> n \<noteq> join_set ns \<and> ns \<noteq> []" for ns n
    by (simp add: unresolved_def split: if_splits) (auto simp: join_set_def reads_def Let_def)
  show ?thesis
  proof
    assume "sanityCheck (prepare_sets st) = Some ()"
    then have dis: "a \<noteq> b \<Longrightarrow> ids (prepare_sets st a) \<inter> ids (prepare_sets st b) = {}" for a b
      by (simp add: sanityCheck_iff)
    show "\<forall>i. unresolved (sets_with i st) = None"
    proof (rule allI, rule ccontr)
      fix i
      assume "unresolved (sets_with i st) \<noteq> None"
      then obtain n where n: "unresolved (sets_with i st) = Some n" by blast
      then have "i \<in> ids (prepare_sets st n)" "i \<in> ids (prepare_sets st (join_set (sets_with i st)))"
        using left prepared_ids by blast+
      then show False using dis [of n "join_set (sets_with i st)"] left [OF n] by blast
    qed
  next
    assume "\<forall>i. unresolved (sets_with i st) = None"
    then show "sanityCheck (prepare_sets st) = Some ()" unfolding sanityCheck_iff using prepared_ids by fastforce
  qed
qed

text \<open>An allocation in the four sets \<open>I\<close>, \<open>CO\<close>, \<open>CIO\<close> and \<open>TIO\<close> makes \<open>get-ward\<close> abort.\<close>

definition sample_alloc :: AllocationToSave where
  "sample_alloc = \<lparr>sa_trace = None, staticID = 1, uniqueID = 7, sa_pointer = 0, sa_length = 8, sa_offsets = [], sa_uses = [],
     isDirectState = False\<rparr>"

theorem ward_aborts:
  "processStatesToSave (prepare_states [(0, \<lparr>saved_functionName = ''f'', saved_lineNumber = 1,
     saved_sets = (\<lambda>n. if n \<in> {SI, SCO, SCIO, STIO} then [sample_alloc] else []), saved_cycles = []\<rparr>)]) = None"
proof -
  let ?st = "\<lambda>n. if n \<in> {SI, SCO, SCIO, STIO} then [sample_alloc] else []"
  have "sets_with 7 ?st = [SI, SCO, SCIO, STIO]" by (simp add: sets_with_def set_names_def ids_def sample_alloc_def)
  then have "7 \<in> ids (prepare_sets ?st STIO)" "7 \<in> ids (prepare_sets ?st SCIO)"
    by (simp_all add: prepared_ids unresolved_def join_set_def reads_def Let_def)
  then have "sanityCheck (prepare_sets ?st) \<noteq> Some ()" unfolding sanityCheck_iff by blast
  then show ?thesis by (simp add: prepare_states_sets processStateToSave_def split: option.split)
qed

end
