(* ===== verification/Report_Tools.thy ===== *)
theory Report_Tools
  imports Report_Sets
begin

text \<open>
  The tools of \<open>src/utils/prettyPrint\<close> that turn the saved data of a run into text: \<open>prettyPrint.cpp\<close>, \<open>get-parallelfor.cpp\<close>,
  \<open>get-criticalsection.cpp\<close>, \<open>get-referencecycles.cpp\<close>, \<open>get-stateprivatization.cpp\<close> and \<open>get-accelerator.cpp\<close>, with their
  helpers in \<open>help.cpp\<close>. The result of a tool is the text it prints, and \<open>None\<close> when it calls \<open>abort\<close> or reads through a
  null pointer. The output of \<open>addr2line\<close> for an address, and the lines of a source file, are parameters.
\<close>

section \<open>Text\<close>

definition nl :: string where "nl = [CHR 0x0A]"
definition tab :: string where "tab = [CHR 0x09]"

fun show_nat :: "nat \<Rightarrow> string" where
  "show_nat n = (if n < 10 then [char_of (48 + n)] else show_nat (n div 10) @ [char_of (48 + n mod 10)])"

definition hex_char :: "nat \<Rightarrow> char" where
  "hex_char n = (if n < 10 then char_of (48 + n) else char_of (87 + n))"

fun show_hex :: "nat \<Rightarrow> string" where
  "show_hex n = (if n < 16 then [hex_char n] else show_hex (n div 16) @ [hex_char (n mod 16)])"

definition show_ptr :: "u64 \<Rightarrow> string" where
  "show_ptr p = (if p = 0 then ''0'' else ''0x'' @ show_hex (unat p))"

declare show_nat.simps [simp del] show_hex.simps [simp del]

text \<open>One text after the other; the whole is missing when one is.\<close>

fun cat_opt :: "string option list \<Rightarrow> string option" where
  "cat_opt [] = Some []"
| "cat_opt (x # xs) =
     (case x of None \<Rightarrow> None | Some s \<Rightarrow> map_option (\<lambda>r. s @ r) (cat_opt xs))"

lemma cat_opt_Cons_None: "cat_opt (x # xs) = None \<longleftrightarrow> x = None \<or> cat_opt xs = None"
  by (cases x) simp_all

lemma cat_opt_append_None: "cat_opt (xs @ ys) = None \<longleftrightarrow> cat_opt xs = None \<or> cat_opt ys = None"
  by (induction xs) (simp_all add: cat_opt_Cons_None del: cat_opt.simps(2))

lemma cat_opt_map_None: "cat_opt (map f xs) = None \<longleftrightarrow> (\<exists>x \<in> set xs. f x = None)"
  by (induction xs) (simp_all add: cat_opt_Cons_None del: cat_opt.simps(2))

lemmas cat_opt_None = cat_opt.simps(1) cat_opt_Cons_None cat_opt_append_None cat_opt_map_None

section \<open>Debug data and call stacks\<close>

record DebugData =
  pathToFile :: string
  varName :: string
  lineNum :: nat
  columnNum :: nat

text \<open>The records of the file in order; the first has number 1, because 0 is reserved.\<close>

definition getDebugData :: "DebugData list \<Rightarrow> u64 \<rightharpoonup> DebugData" where
  "getDebugData recs = (\<lambda>i. if 1 \<le> unat i \<and> unat i \<le> length recs then Some (recs ! (unat i - 1)) else None)"

definition copyCallstack :: "Trace \<Rightarrow> u64 list" where
  "copyCallstack trace = map (\<lambda>x. word_of_int (x - 1)) (take (nat (nptrs trace)) (buffer trace))"

definition print_backtrace :: "(u64 \<Rightarrow> string) \<Rightarrow> u64 list \<Rightarrow> string" where
  "print_backtrace addr2line buf =
     concat (map (\<lambda>a. let r = addr2line a in if r = [] \<or> hd r = CHR ''?'' then [] else tab @ tab @ r) buf)"

definition callstack_text :: "(u64 \<Rightarrow> string) \<Rightarrow> Trace \<Rightarrow> string" where
  "callstack_text addr2line t = print_backtrace addr2line (copyCallstack t)"

section \<open>prettyPrint\<close>

text \<open>\<open>bt\<close> is the text of a call stack, which the tools make in different ways.\<close>

definition printDebugData :: "(Trace \<Rightarrow> string) \<Rightarrow> DebugData \<Rightarrow> Trace option \<Rightarrow> string" where
  "printDebugData bt d trace =
     tab @ ''pathToFile = '' @ pathToFile d @ nl @ tab @ ''varName = '' @ varName d @ nl
     @ tab @ ''lineNum = '' @ show_nat (lineNum d) @ nl @ tab @ ''columnNum = '' @ show_nat (columnNum d) @ nl
     @ (case trace of None \<Rightarrow> []
        | Some t \<Rightarrow> tab @ ''callstack ='' @ nl @ bt t @ nl)"

definition printUseToSave :: "(Trace \<Rightarrow> string) \<Rightarrow> (u64 \<rightharpoonup> DebugData) \<Rightarrow> UseToSave \<Rightarrow> string option" where
  "printUseToSave bt debugData u =
     (case debugData (use_staticID u) of
        None \<Rightarrow> None
      | Some d \<Rightarrow> Some (tab @ ''uniqueID = '' @ show_nat (unat (use_uniqueID u)) @ nl @ printDebugData bt d (use_trace u)))"

definition printUsesToSave :: "(Trace \<Rightarrow> string) \<Rightarrow> (u64 \<rightharpoonup> DebugData) \<Rightarrow> UseToSave list \<Rightarrow> string option" where
  "printUsesToSave bt debugData us = cat_opt (Some (''USES'' @ nl) # map (printUseToSave bt debugData) us)"

definition printOffsets :: "u64 list \<Rightarrow> string" where
  "printOffsets offs = ''OFFSETS of this allocation: '' @ concat (map (\<lambda>x. show_nat (unat x) @ '','') offs) @ nl"

definition printAllocationToSave :: "(Trace \<Rightarrow> string) \<Rightarrow> (u64 \<rightharpoonup> DebugData) \<Rightarrow> AllocationToSave \<Rightarrow> string option" where
  "printAllocationToSave bt debugData a =
     (case debugData (staticID a) of
        None \<Rightarrow> None
      | Some d \<Rightarrow>
          cat_opt
            [Some (''ALLOCATION'' @ nl @ tab @ ''uniqueID = '' @ show_nat (unat (uniqueID a)) @ nl
                   @ tab @ ''pointer = '' @ show_ptr (sa_pointer a) @ '' length = '' @ show_nat (unat (sa_length a)) @ nl
                   @ tab @ printOffsets (sa_offsets a) @ printDebugData bt d (sa_trace a) @ nl),
             printUsesToSave bt debugData (sa_uses a), Some nl])"

definition printStateSetToSave ::
  "(AllocationToSave \<Rightarrow> string option) \<Rightarrow> string \<Rightarrow> AllocationToSave list \<Rightarrow> string option" where
  "printStateSetToSave print_alloc setName as = cat_opt (Some (setName @ nl) # map print_alloc as @ [Some nl])"

definition named_sets :: "(set_name \<times> string) list" where
  "named_sets = [(SI, ''Set I''), (SO, ''Set O''), (SIO, ''Set IO''), (SCO, ''Set CO''), (STO, ''Set TO''),
     (SCIO, ''Set CIO''), (STIO, ''Set TIO'')]"

definition printStateToSave :: "(AllocationToSave \<Rightarrow> string option) \<Rightarrow> StateToSave \<Rightarrow> string option" where
  "printStateToSave print_alloc st =
     cat_opt (map (\<lambda>(n, s). printStateSetToSave print_alloc s (saved_sets st n)) named_sets)"

definition roi_header :: "StateToSave \<Rightarrow> string" where
  "roi_header st = ''ROI at function '' @ saved_functionName st @ '' line '' @ show_nat (unat (saved_lineNumber st)) @ nl"

definition printStatesToSave :: "(AllocationToSave \<Rightarrow> string option) \<Rightarrow> StatesToSave \<Rightarrow> string option" where
  "printStatesToSave print_alloc states =
     cat_opt (map (\<lambda>(i, st). cat_opt [Some (roi_header st), printStateToSave print_alloc st, Some nl]) states)"

text \<open>\<open>main\<close>: the two files are loaded and everything is printed.\<close>

definition prettyPrint :: "(u64 \<Rightarrow> string) \<Rightarrow> DebugData list \<Rightarrow> StatesToSave \<Rightarrow> string option" where
  "prettyPrint a2l recs states =
     printStatesToSave (printAllocationToSave (callstack_text a2l) (getDebugData recs)) states"

section \<open>get-parallelfor\<close>

definition brief_printAllocationToSave ::
  "(Trace \<Rightarrow> string) \<Rightarrow> (u64 \<rightharpoonup> DebugData) \<Rightarrow> AllocationToSave \<Rightarrow> string option" where
  "brief_printAllocationToSave bt debugData a =
     (case debugData (staticID a) of
        None \<Rightarrow> None
      | Some d \<Rightarrow> Some (''ALLOCATION'' @ nl @ printDebugData bt d (sa_trace a) @ nl))"

text \<open>The names of the variables of a set, without repetition. There is no test for missing debug data here.\<close>

fun getAllocations :: "(u64 \<rightharpoonup> DebugData) \<Rightarrow> AllocationToSave list \<Rightarrow> string list \<Rightarrow> string list option" where
  "getAllocations debugData [] acc = Some acc"
| "getAllocations debugData (a # as) acc =
     (case debugData (staticID a) of
        None \<Rightarrow> None
      | Some d \<Rightarrow>
          getAllocations debugData as
            (us_insert (if varName d = [] then show_nat (lineNum d) else varName d) acc))"

definition print_names :: "string \<Rightarrow> string list \<Rightarrow> string" where
  "print_names label ns = label @ concat (map (\<lambda>s. s @ '', '') ns) @ nl"

definition attr_line :: "(u64 \<rightharpoonup> DebugData) \<Rightarrow> string \<Rightarrow> AllocationToSave list \<Rightarrow> string option" where
  "attr_line debugData label as = map_option (print_names label) (getAllocations debugData as [])"

definition printPragma :: "(u64 \<rightharpoonup> DebugData) \<Rightarrow> StateToSave \<Rightarrow> string option" where
  "printPragma debugData st =
     (let line = (\<lambda>label n. attr_line debugData label (saved_sets st n)) in
      cat_opt
        [Some (''#pragma omp parallel for'' @ nl @ ''shared:'' @ nl), line ''I: '' SI,
         Some (''private:'' @ nl), line ''O: '' SO, line ''IO: '' SIO, line ''CO: '' SCO, line ''CIO: '' SCIO,
         Some (''transfer:'' @ nl), line ''TO: '' STO, line ''TIO: '' STIO])"

definition printPragmas :: "(u64 \<rightharpoonup> DebugData) \<Rightarrow> StatesToSave \<Rightarrow> string option" where
  "printPragmas debugData states =
     cat_opt (map (\<lambda>(i, st). cat_opt [Some (roi_header st), printPragma debugData st, Some nl]) states)"

definition get_parallelfor :: "(u64 \<Rightarrow> string) \<Rightarrow> DebugData list \<Rightarrow> StatesToSave \<Rightarrow> string option" where
  "get_parallelfor a2l recs states =
     (let debugData = getDebugData recs; fixed = prepare_states states in
      cat_opt [printStatesToSave (brief_printAllocationToSave (callstack_text a2l) debugData) fixed, printPragmas debugData fixed])"

section \<open>get-stateprivatization and get-referencecycles\<close>

fun numbered :: "nat \<Rightarrow> StatesToSave \<Rightarrow> (StateToSave \<Rightarrow> string option) \<Rightarrow> string option" where
  "numbered i [] f = Some []"
| "numbered i ((_, st) # sts) f =
     cat_opt [Some (''ROI number '' @ show_nat i @ nl), f st, Some nl, numbered (Suc i) sts f]"

text \<open>This tool has its own call-stack text: one call of \<open>addr2line\<close> for all the return addresses.\<close>

definition get_stateprivatization :: "(u64 list \<Rightarrow> string) \<Rightarrow> DebugData list \<Rightarrow> StatesToSave \<Rightarrow> string option" where
  "get_stateprivatization a2l_all recs states =
     (let bt = (\<lambda>t. a2l_all (map word_of_int (take (nat (nptrs t)) (buffer t))));
          pa = brief_printAllocationToSave bt (getDebugData recs) in
      numbered 0 states (\<lambda>st. cat_opt
        [Some (''Allocations to clone:'' @ nl), printStateSetToSave pa ''Set CO'' (saved_sets st SCO),
         printStateSetToSave pa ''Set CIO'' (saved_sets st SCIO)]))"

definition printCycle :: "(AllocationToSave \<Rightarrow> string option) \<Rightarrow> CycleToSave \<Rightarrow> string option" where
  "printCycle pa c =
     cat_opt (Some (''Allocations creating a cycle:'' @ nl) # map pa (cycle c)
       @ [Some (''The allocation to transform into a weak pointer is:'' @ nl), pa (saved_weakPoint c), Some nl])"

definition printCycles :: "(AllocationToSave \<Rightarrow> string option) \<Rightarrow> StatesToSave \<Rightarrow> string option" where
  "printCycles pa states =
     cat_opt (map (\<lambda>(i, st). cat_opt (Some (roi_header st) # map (printCycle pa) (saved_cycles st))) states)"

definition get_referencecycles :: "(u64 \<Rightarrow> string) \<Rightarrow> DebugData list \<Rightarrow> StatesToSave \<Rightarrow> string option" where
  "get_referencecycles a2l recs states = printCycles (brief_printAllocationToSave (callstack_text a2l) (getDebugData recs)) states"

section \<open>get-criticalsection\<close>

text \<open>
  A source file is its lines and whether the last one ends with a newline. Behind the last line \<open>getline\<close> leaves an empty
  string, unless it had already met the end of the file in the last line, which then stays.
\<close>

definition source_line :: "string list \<times> bool \<Rightarrow> nat \<Rightarrow> string" where
  "source_line f n =
     (case f of (ls, ends_nl) \<Rightarrow>
        if 1 \<le> n \<and> n \<le> length ls then ls ! (n - 1)
        else if ls = [] \<or> ends_nl then [] else last ls)"

definition use_line ::
  "(string \<Rightarrow> (string list \<times> bool) option) \<Rightarrow> (u64 \<rightharpoonup> DebugData) \<Rightarrow> UseToSave \<Rightarrow> (string \<times> DebugData) option" where
  "use_line files debugData u =
     (case debugData (use_staticID u) of
        None \<Rightarrow> None
      | Some d \<Rightarrow> (case files (pathToFile d) of None \<Rightarrow> None | Some f \<Rightarrow> Some (source_line f (lineNum d), d)))"

type_synonym line_info = "string list \<times> (string \<rightharpoonup> DebugData)"

definition add_line :: "string \<Rightarrow> DebugData \<Rightarrow> line_info \<Rightarrow> line_info" where
  "add_line line d = (\<lambda>(lines, info).
     (us_insert line lines,
      let info1 = (if info line = None then info(line \<mapsto> d) else info) in
      if lineNum d \<noteq> 0 then info1(line \<mapsto> d) else info1))"

fun collect_uses ::
  "(string \<Rightarrow> (string list \<times> bool) option) \<Rightarrow> (u64 \<rightharpoonup> DebugData) \<Rightarrow> UseToSave list \<Rightarrow> line_info \<Rightarrow> line_info option" where
  "collect_uses files debugData [] li = Some li"
| "collect_uses files debugData (u # us) li =
     (case use_line files debugData u of
        None \<Rightarrow> None
      | Some (line, d) \<Rightarrow> collect_uses files debugData us (add_line line d li))"

fun collect_allocs ::
  "(string \<Rightarrow> (string list \<times> bool) option) \<Rightarrow> (u64 \<rightharpoonup> DebugData) \<Rightarrow> AllocationToSave list \<Rightarrow> line_info \<Rightarrow> line_info option" where
  "collect_allocs files debugData [] li = Some li"
| "collect_allocs files debugData (a # as) li =
     (if debugData (staticID a) = None then None
      else case collect_uses files debugData (sa_uses a) li of
        None \<Rightarrow> None | Some li1 \<Rightarrow> collect_allocs files debugData as li1)"

definition critical_line :: "(string \<rightharpoonup> DebugData) \<Rightarrow> string \<Rightarrow> string option" where
  "critical_line info line =
     (case info line of
        None \<Rightarrow> None
      | Some d \<Rightarrow> Some (''#pragma omp critical'' @ nl @ pathToFile d @ '':'' @ show_nat (lineNum d) @ tab @ line @ nl))"

definition critical_state ::
  "(string \<Rightarrow> (string list \<times> bool) option) \<Rightarrow> (u64 \<rightharpoonup> DebugData) \<Rightarrow> StateToSave \<Rightarrow> string option" where
  "critical_state files debugData st =
     (case collect_allocs files debugData (saved_sets st STO) ([], Map.empty) of
        None \<Rightarrow> None
      | Some li \<Rightarrow>
          (case collect_allocs files debugData (saved_sets st STIO) li of
             None \<Rightarrow> None
           | Some (lines, info) \<Rightarrow> cat_opt (map (critical_line info) lines)))"

definition get_criticalsection ::
  "(string \<Rightarrow> (string list \<times> bool) option) \<Rightarrow> DebugData list \<Rightarrow> StatesToSave \<Rightarrow> string option" where
  "get_criticalsection files recs states = numbered 0 states (critical_state files (getDebugData recs))"

section \<open>get-accelerator\<close>

text \<open>
  The character at a column of a line: \<open>operator[]\<close> of a string yields the null character at its length, and has no meaning
  behind it, as for column 0, whose index wraps around.
\<close>

definition column_char :: "string \<Rightarrow> nat \<Rightarrow> char option" where
  "column_char line c =
     (if c = 0 then None
      else if c - 1 < length line then Some (line ! (c - 1))
      else if c - 1 = length line then Some (CHR 0x00) else None)"

text \<open>The number printed is that of the line where the search stopped, one behind the last line when it is not found.\<close>

definition accel_printDebugData ::
  "(string \<Rightarrow> (string list \<times> bool) option) \<Rightarrow> (Trace \<Rightarrow> string) \<Rightarrow> DebugData \<Rightarrow> Trace option \<Rightarrow> string option" where
  "accel_printDebugData files bt d trace =
     (case files (pathToFile d) of
        None \<Rightarrow> None
      | Some f \<Rightarrow>
          (let line = source_line f (lineNum d);
               currLineNum = (if 1 \<le> lineNum d \<and> lineNum d \<le> length (fst f) then lineNum d else Suc (length (fst f))) in
           case column_char line (columnNum d) of
             None \<Rightarrow> None
           | Some c \<Rightarrow>
               Some (show_nat currLineNum @ '' '' @ show_nat (columnNum d) @ '' '' @ [c] @ '' '' @ line @ nl
                     @ (case trace of None \<Rightarrow> [] | Some t \<Rightarrow> bt t @ nl))))"

definition accel_printUseToSave ::
  "(string \<Rightarrow> (string list \<times> bool) option) \<Rightarrow> (Trace \<Rightarrow> string) \<Rightarrow> (u64 \<rightharpoonup> DebugData) \<Rightarrow> UseToSave \<Rightarrow> string option" where
  "accel_printUseToSave files bt debugData u =
     (case debugData (use_staticID u) of
        None \<Rightarrow> None
      | Some d \<Rightarrow> accel_printDebugData files bt d (use_trace u))"

definition accel_printAllocationToSave ::
  "(string \<Rightarrow> (string list \<times> bool) option) \<Rightarrow> (Trace \<Rightarrow> string) \<Rightarrow> (u64 \<rightharpoonup> DebugData) \<Rightarrow> AllocationToSave \<Rightarrow> string option" where
  "accel_printAllocationToSave files bt debugData a =
     (if debugData (staticID a) = None then None
      else cat_opt (map (accel_printUseToSave files bt debugData) (sa_uses a)))"

definition accel_sections :: "(string \<times> set_name list) list" where
  "accel_sections =
     [(''To variables'', [SI, SCIO, STIO]),
      (''FromTo variables'', [STO, STIO]),
      (''From variables'', [SO, SCO, STO, SIO, SCIO, STIO])]"

definition accel_printStateToSave :: "(AllocationToSave \<Rightarrow> string option) \<Rightarrow> StateToSave \<Rightarrow> string option" where
  "accel_printStateToSave pa st =
     cat_opt (map (\<lambda>(title, ns). cat_opt (Some (title @ nl) # map (\<lambda>n. cat_opt (map pa (saved_sets st n))) ns)) accel_sections)"

definition get_accelerator ::
  "(string \<Rightarrow> (string list \<times> bool) option) \<Rightarrow> (u64 list \<Rightarrow> string) \<Rightarrow> DebugData list \<Rightarrow> StatesToSave \<Rightarrow> string option" where
  "get_accelerator files a2l_all recs states =
     (let bt = (\<lambda>t. a2l_all (map word_of_int (take (nat (nptrs t)) (buffer t))));
          pa = accel_printAllocationToSave files bt (getDebugData recs) in
      numbered 0 states (accel_printStateToSave pa))"

section \<open>When the tools abort\<close>

definition known_alloc :: "(u64 \<rightharpoonup> DebugData) \<Rightarrow> AllocationToSave \<Rightarrow> bool" where
  "known_alloc debugData a \<longleftrightarrow> debugData (staticID a) \<noteq> None \<and> (\<forall>u \<in> set (sa_uses a). debugData (use_staticID u) \<noteq> None)"

lemma printUses_None: "printUsesToSave bt dd us = None \<longleftrightarrow> (\<exists>u \<in> set us. dd (use_staticID u) = None)"
  by (simp add: printUsesToSave_def cat_opt_None printUseToSave_def option.case_eq_if del: cat_opt.simps(2))

lemma printAllocation_None: "printAllocationToSave bt dd a = None \<longleftrightarrow> \<not> known_alloc dd a"
  by (cases "dd (staticID a)")
    (simp_all add: printAllocationToSave_def cat_opt_None printUses_None known_alloc_def del: cat_opt.simps(2))

lemma printStateSet_None: "printStateSetToSave pa s as = None \<longleftrightarrow> (\<exists>a \<in> set as. pa a = None)"
  by (simp add: printStateSetToSave_def cat_opt_None del: cat_opt.simps(2))

lemma printState_None: "printStateToSave pa st = None \<longleftrightarrow> (\<exists>n. \<exists>a \<in> set (saved_sets st n). pa a = None)"
proof -
  have all: "fst ` set named_sets = UNIV"
  proof -
    have "n \<in> fst ` set named_sets" for n by (cases n) (simp_all add: named_sets_def)
    then show ?thesis by blast
  qed
  have "printStateToSave pa st = None \<longleftrightarrow> (\<exists>n \<in> fst ` set named_sets. \<exists>a \<in> set (saved_sets st n). pa a = None)"
    unfolding printStateToSave_def cat_opt_map_None by (simp add: split_beta printStateSet_None)
  then show ?thesis unfolding all by simp
qed

lemma printStates_None:
  "printStatesToSave pa states = None \<longleftrightarrow>
     (\<exists>i st n a. (i, st) \<in> set states \<and> a \<in> set (saved_sets st n) \<and> pa a = None)"
  unfolding printStatesToSave_def cat_opt_map_None
proof -
  have "(case x of (i, st) \<Rightarrow> cat_opt [Some (roi_header st), printStateToSave pa st, Some nl]) = None
      \<longleftrightarrow> (\<exists>n. \<exists>a \<in> set (saved_sets (snd x) n). pa a = None)" for x
    by (simp add: split_beta cat_opt_None printState_None del: cat_opt.simps(2))
  then show "(\<exists>x \<in> set states. (case x of (i, st) \<Rightarrow> cat_opt [Some (roi_header st), printStateToSave pa st, Some nl]) = None)
      \<longleftrightarrow> (\<exists>i st n a. (i, st) \<in> set states \<and> a \<in> set (saved_sets st n) \<and> pa a = None)" by fastforce
qed

text \<open>The accelerator tool prints an allocation when the character of each of its uses can be read.\<close>

definition readable_use :: "(string \<Rightarrow> (string list \<times> bool) option) \<Rightarrow> (u64 \<rightharpoonup> DebugData) \<Rightarrow> UseToSave \<Rightarrow> bool" where
  "readable_use files dd u \<longleftrightarrow>
     (\<exists>d f. dd (use_staticID u) = Some d \<and> files (pathToFile d) = Some f
        \<and> 1 \<le> columnNum d \<and> columnNum d \<le> Suc (length (source_line f (lineNum d))))"

lemma accel_use_None: "accel_printUseToSave files bt dd u = None \<longleftrightarrow> \<not> readable_use files dd u"
  by (cases "dd (use_staticID u)")
    (auto simp: accel_printUseToSave_def accel_printDebugData_def readable_use_def column_char_def Let_def split: option.splits if_splits)

lemma numbered_None: "numbered i sts f = None \<longleftrightarrow> (\<exists>x \<in> set sts. f (snd x) = None)"
  by (induction i sts f rule: numbered.induct) (auto simp: cat_opt_None simp del: cat_opt.simps(2))

text \<open>
  \<open>get-accelerator\<close> ends abnormally exactly when an allocation of some state lacks debug data, or one of its uses names a file
  that cannot be opened or a column outside its line.
\<close>

theorem get_accelerator_aborts_iff:
  "get_accelerator files a2l recs states = None \<longleftrightarrow>
     (\<exists>i st n a. (i, st) \<in> set states \<and> a \<in> set (saved_sets st n)
        \<and> (getDebugData recs (staticID a) = None \<or> (\<exists>u \<in> set (sa_uses a). \<not> readable_use files (getDebugData recs) u)))"
proof -
  have pa: "accel_printAllocationToSave files bt dd a = None \<longleftrightarrow>
      dd (staticID a) = None \<or> (\<exists>u \<in> set (sa_uses a). \<not> readable_use files dd u)" for bt dd a
    by (cases "dd (staticID a)") (simp_all add: accel_printAllocationToSave_def cat_opt_map_None accel_use_None)
  have all: "(\<exists>x \<in> set accel_sections. \<exists>n \<in> set (snd x). P n) \<longleftrightarrow> (\<exists>n. P n)" for P
  proof
    assume "\<exists>n. P n"
    then obtain n where "P n" ..
    then show "\<exists>x \<in> set accel_sections. \<exists>n \<in> set (snd x). P n" by (cases n) (auto simp: accel_sections_def)
  qed blast
  have st: "accel_printStateToSave f st = None \<longleftrightarrow> (\<exists>n. \<exists>a \<in> set (saved_sets st n). f a = None)" for f st
    unfolding accel_printStateToSave_def cat_opt_map_None
    by (simp add: split_beta cat_opt_None all del: cat_opt.simps(2))
  show ?thesis
    unfolding get_accelerator_def Let_def numbered_None st pa Bex_def split_paired_Ex snd_conv by blast
qed

section \<open>Critical sections\<close>

definition info_ok :: "(string \<Rightarrow> (string list \<times> bool) option) \<Rightarrow> line_info \<Rightarrow> bool" where
  "info_ok files li \<longleftrightarrow> distinct (fst li) \<and> dom (snd li) = set (fst li)
     \<and> (\<forall>l d. snd li l = Some d \<longrightarrow> (\<exists>f. files (pathToFile d) = Some f \<and> source_line f (lineNum d) = l))"

definition lines_of ::
  "(string \<Rightarrow> (string list \<times> bool) option) \<Rightarrow> (u64 \<rightharpoonup> DebugData) \<Rightarrow> UseToSave list \<Rightarrow> string set" where
  "lines_of files dd us = {l. \<exists>u \<in> set us. \<exists>d. use_line files dd u = Some (l, d)}"

lemma use_line_source:
  "use_line files dd u = Some (l, d) \<Longrightarrow> \<exists>f. files (pathToFile d) = Some f \<and> source_line f (lineNum d) = l"
  by (auto simp: use_line_def split: option.splits)

lemma add_line_ok:
  assumes "info_ok files li" and "files (pathToFile d) = Some f" "source_line f (lineNum d) = l"
  shows "info_ok files (add_line l d li)" and "set (fst (add_line l d li)) = insert l (set (fst li))"
proof -
  obtain lines info where li: "li = (lines, info)" by (cases li)
  have dom: "dom (snd (add_line l d li)) = insert l (dom info)" and lines: "fst (add_line l d li) = us_insert l lines"
    by (auto simp: add_line_def Let_def li)
  have val: "snd (add_line l d li) l' = Some d' \<Longrightarrow> info l' = Some d' \<or> l' = l \<and> d' = d" for l' d'
    by (auto simp: add_line_def Let_def li split: if_splits)
  show "info_ok files (add_line l d li)"
    unfolding info_ok_def dom lines
  proof (intro conjI allI impI)
    fix l' d'
    assume "snd (add_line l d li) l' = Some d'"
    then consider "info l' = Some d'" | "l' = l" "d' = d" using val by blast
    then show "\<exists>f. files (pathToFile d') = Some f \<and> source_line f (lineNum d') = l'"
      using assms li unfolding info_ok_def by cases auto
  qed (use assms(1) li in \<open>simp_all add: info_ok_def\<close>)
  show "set (fst (add_line l d li)) = insert l (set (fst li))" unfolding lines by (simp add: li)
qed

lemma collect_uses_ok:
  assumes "info_ok files li" "\<forall>u \<in> set us. use_line files dd u \<noteq> None"
  shows "\<exists>li1. collect_uses files dd us li = Some li1 \<and> info_ok files li1
    \<and> set (fst li1) = set (fst li) \<union> lines_of files dd us"
  using assms
proof (induction us arbitrary: li)
  case (Cons u us)
  obtain l d where u: "use_line files dd u = Some (l, d)" using Cons.prems(2) by fastforce
  obtain f where f: "files (pathToFile d) = Some f" "source_line f (lineNum d) = l" using use_line_source [OF u] by blast
  note a = add_line_ok [OF Cons.prems(1) f]
  have "lines_of files dd (u # us) = insert l (lines_of files dd us)" using u by (auto simp: lines_of_def)
  then show ?case using Cons.IH [OF a(1)] Cons.prems(2) u a(2) by auto
qed (simp add: lines_of_def)

lemma collect_allocs_ok:
  assumes "info_ok files li"
    and "\<forall>a \<in> set as. dd (staticID a) \<noteq> None \<and> (\<forall>u \<in> set (sa_uses a). use_line files dd u \<noteq> None)"
  shows "\<exists>li1. collect_allocs files dd as li = Some li1 \<and> info_ok files li1
    \<and> set (fst li1) = set (fst li) \<union> lines_of files dd (concat (map sa_uses as))"
  using assms
proof (induction as arbitrary: li)
  case (Cons a as)
  then obtain li1 where l1: "collect_uses files dd (sa_uses a) li = Some li1" "info_ok files li1"
    "set (fst li1) = set (fst li) \<union> lines_of files dd (sa_uses a)"
    using collect_uses_ok [of files li "sa_uses a" dd] by auto
  have "lines_of files dd (concat (map sa_uses (a # as)))
      = lines_of files dd (sa_uses a) \<union> lines_of files dd (concat (map sa_uses as))"
    by (auto simp: lines_of_def)
  then show ?case using Cons.IH [OF l1(2)] Cons.prems(2) l1 by auto
qed (simp add: lines_of_def)

section \<open>Properties\<close>

text \<open>
  \<open>prettyPrint\<close> aborts exactly when the debug data of an allocation of some state, or of a use of one, is missing;
  otherwise it prints the states.
\<close>

theorem prettyPrint_aborts_iff:
  "prettyPrint a2l recs states = None \<longleftrightarrow>
     (\<exists>i st n a. (i, st) \<in> set states \<and> a \<in> set (saved_sets st n) \<and> \<not> known_alloc (getDebugData recs) a)"
  by (simp add: prettyPrint_def printStates_None printAllocation_None)

text \<open>
  For a state whose transfer sets have debug data and source files, \<open>get-criticalsection\<close> prints one pragma for each source
  line that uses an allocation of these sets, every line once, and the place it prints with a line is one where the
  file has this line.
\<close>

theorem critical_state_lines:
  assumes "\<forall>a \<in> set (saved_sets st STO @ saved_sets st STIO).
      dd (staticID a) \<noteq> None \<and> (\<forall>u \<in> set (sa_uses a). use_line files dd u \<noteq> None)"
  shows "\<exists>lines. \<exists>place :: string \<Rightarrow> DebugData. critical_state files dd st =
       Some (concat (map (\<lambda>l. ''#pragma omp critical'' @ nl @ pathToFile (place l) @ '':'' @ show_nat (lineNum (place l))
              @ tab @ l @ nl) lines))
     \<and> distinct lines
     \<and> set lines = lines_of files dd (concat (map sa_uses (saved_sets st STO @ saved_sets st STIO)))
     \<and> (\<forall>l \<in> set lines. \<exists>f. files (pathToFile (place l)) = Some f \<and> source_line f (lineNum (place l)) = l)"
proof -
  obtain li1 where l1: "collect_allocs files dd (saved_sets st STO) ([], Map.empty) = Some li1" "info_ok files li1"
    "set (fst li1) = lines_of files dd (concat (map sa_uses (saved_sets st STO)))"
  proof -
    have "info_ok files ([], Map.empty)" by (simp add: info_ok_def)
    then show thesis
      using collect_allocs_ok [of files "([], Map.empty)" "saved_sets st STO" dd] assms that by fastforce
  qed
  obtain lines info where l2: "collect_allocs files dd (saved_sets st STIO) li1 = Some (lines, info)"
    "info_ok files (lines, info)"
    "set lines = set (fst li1) \<union> lines_of files dd (concat (map sa_uses (saved_sets st STIO)))"
  proof -
    have "\<forall>a \<in> set (saved_sets st STIO). dd (staticID a) \<noteq> None \<and> (\<forall>u \<in> set (sa_uses a). use_line files dd u \<noteq> None)"
      using assms unfolding set_append by blast
    from collect_allocs_ok [OF l1(2) this] that show thesis by auto
  qed
  have "\<forall>l \<in> set lines. \<exists>d. info l = Some d"
    using l2(2) by (auto simp: info_ok_def)
  then obtain place where some: "\<And>l. l \<in> set lines \<Longrightarrow> info l = Some (place l)" by (metis bchoice)
  have cat: "(\<And>x. x \<in> set xs \<Longrightarrow> f x = Some (g x)) \<Longrightarrow> cat_opt (map f xs) = Some (concat (map g xs))" for f g and xs :: "string list"
    by (induction xs) auto
  have "critical_state files dd st = Some (concat (map (\<lambda>l. ''#pragma omp critical'' @ nl @ pathToFile (place l) @ '':''
      @ show_nat (lineNum (place l)) @ tab @ l @ nl) lines))"
    unfolding critical_state_def l1(1) option.case l2(1) prod.case
    by (rule cat) (use some in \<open>simp add: critical_line_def\<close>)
  moreover have "distinct lines" using l2(2) by (simp add: info_ok_def)
  moreover have "set lines = lines_of files dd (concat (map sa_uses (saved_sets st STO @ saved_sets st STIO)))"
    unfolding l2(3) l1(3) by (auto simp: lines_of_def)
  moreover have "\<forall>l \<in> set lines. \<exists>f. files (pathToFile (place l)) = Some f \<and> source_line f (lineNum (place l)) = l"
    using l2(2) some by (fastforce simp: info_ok_def)
  ultimately show ?thesis by blast
qed

definition sample_use_alloc :: AllocationToSave where
  "sample_use_alloc = sample_alloc\<lparr>sa_uses := [\<lparr>use_trace = None, use_staticID = 1, use_uniqueID = 3\<rparr>]\<rparr>"

definition sample_report :: StateToSave where
  "sample_report = \<lparr>saved_functionName = ''f'', saved_lineNumber = 1,
     saved_sets = (\<lambda>n. if n = STO then [sample_use_alloc] else []), saved_cycles = []\<rparr>"

theorem critical_state_lines_witness:
  "\<exists>lines. \<exists>place :: string \<Rightarrow> DebugData. critical_state (\<lambda>_. Some ([''x = 1;''], True))
      (getDebugData [\<lparr>pathToFile = ''a.c'', varName = ''x'', lineNum = 1, columnNum = 1\<rparr>]) sample_report =
     Some (concat (map (\<lambda>l. ''#pragma omp critical'' @ nl @ pathToFile (place l) @ '':'' @ show_nat (lineNum (place l))
       @ tab @ l @ nl) lines)) \<and> set lines = {''x = 1;''}"
proof -
  let ?files = "\<lambda>_ :: string. Some ([''x = 1;''], True)"
    and ?dd = "getDebugData [\<lparr>pathToFile = ''a.c'', varName = ''x'', lineNum = 1, columnNum = 1\<rparr>]"
  have u: "use_line ?files ?dd \<lparr>use_trace = None, use_staticID = 1, use_uniqueID = 3\<rparr> =
      Some (''x = 1;'', \<lparr>pathToFile = ''a.c'', varName = ''x'', lineNum = 1, columnNum = 1\<rparr>)"
    by (simp add: use_line_def getDebugData_def source_line_def)
  have "\<forall>a \<in> set (saved_sets sample_report STO @ saved_sets sample_report STIO).
      ?dd (staticID a) \<noteq> None \<and> (\<forall>u \<in> set (sa_uses a). use_line ?files ?dd u \<noteq> None)"
    using u by (simp add: sample_report_def sample_use_alloc_def sample_alloc_def getDebugData_def)
  note c = critical_state_lines [OF this]
  have "lines_of ?files ?dd (concat (map sa_uses (saved_sets sample_report STO @ saved_sets sample_report STIO)))
      = {''x = 1;''}"
    using u by (simp add: lines_of_def sample_report_def sample_use_alloc_def)
  then show ?thesis using c by auto
qed

end
