(* ===== verification/LLVM_Module.thy ===== *)
theory LLVM_Module
  imports Report_Tools
begin

text \<open>
  The program representation the compiler passes of \<open>src/src\<close> and \<open>src/utils\<close> work on, and the helpers of
  \<open>Utils.cpp\<close>, \<open>Utils.hpp\<close>, \<open>DebugData.hpp\<close> and the size computations of \<open>CatPass.cpp\<close>. An instruction, a basic
  block, a function and a global are data: the classes of LLVM the passes ask for with \<open>dyn_cast\<close> are the
  constructors of \<open>inst_kind\<close>, the accessors they call are projections. A pointer to an instruction is its
  number \<open>iid\<close>, a pointer to a basic block its number \<open>bid\<close>, a pointer to a function its name. What LLVM and
  NOELLE compute (dominators, loops, invariants, profiles, call graphs) is never defined here: it is an argument
  of the definitions that use it. A call of \<open>abort\<close> is the value \<open>None\<close>; messages on \<open>errs()\<close> are left out.
\<close>

section \<open>Types and their sizes\<close>

datatype ty = VoidTy | IntegerTy nat | FloatingTy nat | PointerTy | VectorTy nat ty | ArrayTy u64 ty
  | StructTy "ty list" | OtherTy

primrec getPrimitiveSizeInBits :: "ty \<Rightarrow> nat" where
  "getPrimitiveSizeInBits VoidTy = 0"
| "getPrimitiveSizeInBits (IntegerTy n) = n"
| "getPrimitiveSizeInBits (FloatingTy n) = n"
| "getPrimitiveSizeInBits PointerTy = 0"
| "getPrimitiveSizeInBits (VectorTy n t) = n * getPrimitiveSizeInBits t"
| "getPrimitiveSizeInBits (ArrayTy n t) = 0"
| "getPrimitiveSizeInBits (StructTy ts) = 0"
| "getPrimitiveSizeInBits OtherTy = 0"

definition getScalarSizeInBits :: "ty \<Rightarrow> nat" where
  "getScalarSizeInBits t = getPrimitiveSizeInBits (case t of VectorTy n s \<Rightarrow> s | _ \<Rightarrow> t)"

text \<open>
  The two functions return 0 when they meet a type they cannot measure, and the number of elements of an array
  of pointers is added to the size of one pointer.
\<close>

fun findArraySize :: "ty \<Rightarrow> u64" and findStructSize :: "ty \<Rightarrow> u64" and findFieldsSize :: "ty list \<Rightarrow> u64 \<Rightarrow> u64" where
  "findArraySize (ArrayTy n (ArrayTy m t)) = n * findArraySize (ArrayTy m t)"
| "findArraySize (ArrayTy n (StructTy ts)) = n * findStructSize (StructTy ts)"
| "findArraySize (ArrayTy n t) =
     (if getPrimitiveSizeInBits t > 0 then n * of_nat (getPrimitiveSizeInBits t div 8)
      else if t = PointerTy then n + 8 else 0)"
| "findArraySize _ = 0"
| "findStructSize (StructTy ts) = findFieldsSize ts 0"
| "findStructSize _ = 0"
| "findFieldsSize [] acc = acc"
| "findFieldsSize (ArrayTy n t # ts) acc = findFieldsSize ts (acc + findArraySize (ArrayTy n t))"
| "findFieldsSize (StructTy us # ts) acc = findFieldsSize ts (acc + findStructSize (StructTy us))"
| "findFieldsSize (t # ts) acc =
     (if getPrimitiveSizeInBits t > 0 then findFieldsSize ts (acc + of_nat (getPrimitiveSizeInBits t div 8))
      else if t = PointerTy then findFieldsSize ts (acc + 8) else 0)"

text \<open>The size a global or a local variable is registered with; \<open>ptrSize\<close> is \<open>getPointerTypeSize\<close> of the data layout.\<close>

definition variableSize :: "u64 \<Rightarrow> ty \<Rightarrow> u64" where
  "variableSize ptrSize t =
     (let total = (case t of ArrayTy _ _ \<Rightarrow> findArraySize t | StructTy _ \<Rightarrow> findStructSize t
                   | _ \<Rightarrow> of_nat (getPrimitiveSizeInBits t div 8)) in
      if total = 0 then ptrSize else total)"

section \<open>Values, instructions, functions, modules\<close>

datatype val = InstV nat | GlobalV string | FuncV string | BlockV nat | ArgV string nat | ConstV int | NullV

datatype inst_kind =
    AllocaInst ty
  | LoadInst val
  | StoreInst val val
  | GetElementPtrInst val "val list"
  | PHINode "(val \<times> nat) list"
  | CallInst val "val list"
  | InvokeInst val "val list" nat nat
  | ReturnInst "val option"
  | BranchInst nat
  | CondBranchInst val nat nat
  | ICmpInst string val val
  | BinaryOperator string val val
  | CastInst val
  | OtherInst string bool "val list"

record DILocation =
  getDirectory :: string
  getFilename :: string
  getLine :: nat
  getColumn :: nat

record instr =
  iid :: nat
  kind :: inst_kind
  ity :: ty
  dbgLoc :: "DILocation option"
  metadata :: "(string \<times> string) list"

record bblock =
  bid :: nat
  insts :: "instr list"

record func =
  fname :: string
  isIntrinsic :: bool
  blocks :: "bblock list"
  optNone :: bool
  noInline :: bool
  fmetadata :: "(string \<times> string) list"

record llvm_global =
  gname :: string
  valueType :: ty
  gdebug :: "(DILocation \<times> string) option list"

record llvm_module =
  m_functions :: "func list"
  m_globals :: "llvm_global list"
  nextId :: nat

fun operands :: "inst_kind \<Rightarrow> val list" where
  "operands (AllocaInst _) = []"
| "operands (LoadInst p) = [p]"
| "operands (StoreInst v p) = [v, p]"
| "operands (GetElementPtrInst p is) = p # is"
| "operands (PHINode vs) = map fst vs"
| "operands (CallInst f as) = as @ [f]"
| "operands (InvokeInst f as n u) = as @ [BlockV n, BlockV u, f]"
| "operands (ReturnInst v) = (case v of None \<Rightarrow> [] | Some x \<Rightarrow> [x])"
| "operands (BranchInst b) = [BlockV b]"
| "operands (CondBranchInst c t f) = [c, BlockV f, BlockV t]"
| "operands (ICmpInst _ x y) = [x, y]"
| "operands (BinaryOperator _ x y) = [x, y]"
| "operands (CastInst x) = [x]"
| "operands (OtherInst _ _ vs) = vs"

fun successors :: "inst_kind \<Rightarrow> nat list" where
  "successors (BranchInst b) = [b]"
| "successors (CondBranchInst c t f) = [t, f]"
| "successors (InvokeInst f as n u) = [n, u]"
| "successors _ = []"

fun isTerminator :: "inst_kind \<Rightarrow> bool" where
  "isTerminator (BranchInst _) = True"
| "isTerminator (CondBranchInst _ _ _) = True"
| "isTerminator (InvokeInst _ _ _ _) = True"
| "isTerminator (ReturnInst _) = True"
| "isTerminator (OtherInst _ t _) = t"
| "isTerminator _ = False"

fun getCalledFunction :: "inst_kind \<Rightarrow> string option" where
  "getCalledFunction (CallInst (FuncV f) _) = Some f"
| "getCalledFunction (InvokeInst (FuncV f) _ _ _) = Some f"
| "getCalledFunction _ = None"

definition isCallBase :: "inst_kind \<Rightarrow> bool" where
  "isCallBase k = (case k of CallInst _ _ \<Rightarrow> True | InvokeInst _ _ _ _ \<Rightarrow> True | _ \<Rightarrow> False)"

text \<open>The pointer operand of a load, a store or a \<open>getelementptr\<close>; \<open>None\<close> for other classes, which have no such accessor.\<close>

fun getPointerOperand :: "inst_kind \<Rightarrow> val option" where
  "getPointerOperand (LoadInst p) = Some p"
| "getPointerOperand (StoreInst v p) = Some p"
| "getPointerOperand (GetElementPtrInst p is) = Some p"
| "getPointerOperand _ = None"

definition func_insts :: "func \<Rightarrow> instr list" where
  "func_insts F = concat (map insts (blocks F))"

definition module_insts :: "llvm_module \<Rightarrow> instr list" where
  "module_insts M = concat (map func_insts (m_functions M))"

definition inst_of :: "llvm_module \<Rightarrow> val \<Rightarrow> instr option" where
  "inst_of M v = (case v of InstV n \<Rightarrow> List.find (\<lambda>i. iid i = n) (module_insts M) | _ \<Rightarrow> None)"

text \<open>\<open>Instruction::getFunction\<close>: the function that holds the instruction.\<close>

definition function_of :: "llvm_module \<Rightarrow> nat \<Rightarrow> func option" where
  "function_of M n = List.find (\<lambda>F. n \<in> iid ` set (func_insts F)) (m_functions M)"

definition getFunctionByName :: "llvm_module \<Rightarrow> string \<Rightarrow> func option" where
  "getFunctionByName M name = List.find (\<lambda>F. fname F = name) (m_functions M)"

text \<open>The uses of a value: a user appears once for each of its operands that is the value.\<close>

definition users :: "llvm_module \<Rightarrow> val \<Rightarrow> instr list" where
  "users M v = concat (map (\<lambda>i. map (\<lambda>_. i) (filter (\<lambda>w. w = v) (operands (kind i)))) (module_insts M))"

abbreviation hasOneUse :: "llvm_module \<Rightarrow> val \<Rightarrow> bool" where
  "hasOneUse M v \<equiv> length (users M v) = 1"

definition fempty :: "func \<Rightarrow> bool" where
  "fempty F \<longleftrightarrow> blocks F = []"

text \<open>Two functions of a module never share a name, two instructions never share a number.\<close>

definition wf_module :: "llvm_module \<Rightarrow> bool" where
  "wf_module M \<longleftrightarrow> distinct (map fname (m_functions M)) \<and> distinct (map iid (module_insts M))"

lemma func_insts_module: "F \<in> set (m_functions M) \<Longrightarrow> i \<in> set (func_insts F) \<Longrightarrow> i \<in> set (module_insts M)"
  by (auto simp: module_insts_def)

lemma wf_same_inst:
  "wf_module M \<Longrightarrow> i \<in> set (module_insts M) \<Longrightarrow> j \<in> set (module_insts M) \<Longrightarrow> iid i = iid j \<Longrightarrow> i = j"
  by (auto simp: wf_module_def distinct_map dest: inj_onD)

lemma wf_same_name:
  "wf_module M \<Longrightarrow> F \<in> set (m_functions M) \<Longrightarrow> G \<in> set (m_functions M) \<Longrightarrow> fname F = fname G \<Longrightarrow> F = G"
  by (auto simp: wf_module_def distinct_map dest: inj_onD)

lemma distinct_concat_owner:
  "distinct (concat (map f xs)) \<Longrightarrow> x \<in> set xs \<Longrightarrow> y \<in> set xs \<Longrightarrow> a \<in> set (f x) \<Longrightarrow> a \<in> set (f y) \<Longrightarrow> x = y"
  by (induction xs) auto

lemma wf_same_function:
  assumes "wf_module M" "F \<in> set (m_functions M)" "G \<in> set (m_functions M)"
    "i \<in> set (func_insts F)" "j \<in> set (func_insts G)" "iid i = iid j"
  shows "F = G"
proof -
  have "i = j" using wf_same_inst [OF assms(1)] func_insts_module assms(2-) by blast
  moreover have "distinct (concat (map func_insts (m_functions M)))"
    using assms(1) by (auto simp: wf_module_def module_insts_def distinct_map)
  ultimately show ?thesis using distinct_concat_owner [of func_insts] assms(2-5) by blast
qed

lemma wf_function_of:
  assumes "wf_module M" "F \<in> set (m_functions M)" "i \<in> set (func_insts F)"
  shows "function_of M (iid i) = Some F"
proof -
  have "\<exists>G. function_of M (iid i) = Some G"
    using assms(2,3) by (cases "function_of M (iid i)") (auto simp: function_of_def find_None_iff)
  then obtain G where G: "function_of M (iid i) = Some G" by blast
  then obtain j where "G \<in> set (m_functions M)" "j \<in> set (func_insts G)" "iid i = iid j"
    by (auto simp: function_of_def find_Some_iff)
  then have "F = G" using wf_same_function assms by blast
  then show ?thesis using G by simp
qed

section \<open>Utils.cpp\<close>

definition getRuntimeFunction :: "llvm_module \<Rightarrow> string \<Rightarrow> func option" where
  "getRuntimeFunction M funcName = getFunctionByName M funcName"

definition ends_with :: "string \<Rightarrow> string \<Rightarrow> bool" where
  "ends_with value ending \<longleftrightarrow>
     (if length ending > length value then False else take (length ending) (rev value) = rev ending)"

definition getDefaultDebugLoc :: "llvm_module \<Rightarrow> val \<Rightarrow> DILocation option" where
  "getDefaultDebugLoc M v =
     (case inst_of M v of
        None \<Rightarrow> None
      | Some i \<Rightarrow>
          (case dbgLoc i of
             Some d \<Rightarrow> Some d
           | None \<Rightarrow>
               (case function_of M (iid i) of
                  None \<Rightarrow> None
                | Some F \<Rightarrow> Option.bind (List.find (\<lambda>j. dbgLoc j \<noteq> None) (func_insts F)) dbgLoc)))"

text \<open>An instruction is put before or after another one of its block; the other blocks keep their code.\<close>

fun put_before :: "nat \<Rightarrow> instr list \<Rightarrow> instr list \<Rightarrow> instr list" where
  "put_before n new [] = []"
| "put_before n new (i # is) = (if iid i = n then new @ i # is else i # put_before n new is)"

fun put_after :: "nat \<Rightarrow> instr list \<Rightarrow> instr list \<Rightarrow> instr list" where
  "put_after n new [] = []"
| "put_after n new (i # is) = (if iid i = n then i # new @ is else i # put_after n new is)"

definition map_blocks :: "(instr list \<Rightarrow> instr list) \<Rightarrow> llvm_module \<Rightarrow> llvm_module" where
  "map_blocks f M = M\<lparr>m_functions := map (\<lambda>F. F\<lparr>blocks := map (\<lambda>b. b\<lparr>insts := f (insts b)\<rparr>) (blocks F)\<rparr>) (m_functions M)\<rparr>"

fun insertInstructions :: "instr list \<Rightarrow> nat \<Rightarrow> bool \<Rightarrow> llvm_module \<Rightarrow> llvm_module" where
  "insertInstructions [] insertPoint before M = M"
| "insertInstructions (i # is) insertPoint before M =
     (let M1 = map_blocks (if before then put_before insertPoint [i] else put_after insertPoint [i]) M in
      fst (fold (\<lambda>j (N, prev). (map_blocks (put_after prev [j]) N, iid j)) is (M1, iid i)))"

text \<open>\<open>getFirstInsertionPt\<close>: the first instruction that is neither a \<open>phi\<close> nor a landing pad.\<close>

definition is_pad :: "instr \<Rightarrow> bool" where
  "is_pad i \<longleftrightarrow> (case kind i of PHINode _ \<Rightarrow> True | OtherInst s _ _ \<Rightarrow> s = ''landingpad'' | _ \<Rightarrow> False)"

definition block_of :: "llvm_module \<Rightarrow> nat \<Rightarrow> bblock option" where
  "block_of M b = List.find (\<lambda>x. bid x = b) (concat (map blocks (m_functions M)))"

definition getFirstInsertionPt :: "llvm_module \<Rightarrow> nat \<Rightarrow> nat option" where
  "getFirstInsertionPt M b =
     Option.bind (block_of M b) (\<lambda>x. map_option iid (List.find (\<lambda>i. \<not> is_pad i) (insts x)))"

definition insertInstructionsWithCheck :: "instr list \<Rightarrow> instr \<Rightarrow> llvm_module \<Rightarrow> llvm_module option" where
  "insertInstructionsWithCheck new insertPoint M =
     (let before = isTerminator (kind insertPoint) in
      case kind insertPoint of
        InvokeInst f as normalDest u \<Rightarrow>
          map_option (\<lambda>p. insertInstructions new p before M) (getFirstInsertionPt M normalDest)
      | _ \<Rightarrow> Some (insertInstructions new (iid insertPoint) before M))"

text \<open>A loop whose body may abort.\<close>

fun fold_opt :: "('a \<Rightarrow> 's \<Rightarrow> 's option) \<Rightarrow> 'a list \<Rightarrow> 's \<Rightarrow> 's option" where
  "fold_opt f [] s = Some s"
| "fold_opt f (x # xs) s = Option.bind (f x s) (fold_opt f xs)"

lemma fold_opt_invariant:
  assumes "fold_opt f xs s = Some t" "P s" "\<And>x s t. x \<in> set xs \<Longrightarrow> P s \<Longrightarrow> f x s = Some t \<Longrightarrow> P t"
  shows "P t"
  using assms
proof (induction xs arbitrary: s)
  case (Cons x xs)
  then obtain r where r: "f x s = Some r" "fold_opt f xs r = Some t" by (auto simp: bind_eq_Some_conv)
  show ?case by (rule Cons.IH [OF r(2) Cons.prems(3) [OF _ Cons.prems(2) r(1)]]) (use Cons.prems(3) in auto)
qed simp

section \<open>Entries and their debug data\<close>

record Entry =
  e_value :: val
  allocPointer :: "val option"
  allocNewPointer :: "val option"
  allocSize :: "val option"
  allocNumElems :: "val option"
  e_size :: u64
  sizeElement :: u64
  e_pathToFile :: string
  e_varName :: string
  e_lineNum :: nat
  e_columnNum :: nat
  e_id :: u64

definition new_Entry :: "val \<Rightarrow> val option \<Rightarrow> val option \<Rightarrow> val option \<Rightarrow> val option \<Rightarrow> u64 \<Rightarrow> string \<Rightarrow> string \<Rightarrow> nat \<Rightarrow> nat \<Rightarrow> Entry" where
  "new_Entry v p np sz ne bytes path var line col =
     \<lparr>e_value = v, allocPointer = p, allocNewPointer = np, allocSize = sz, allocNumElems = ne, e_size = bytes,
      sizeElement = 0, e_pathToFile = path, e_varName = var, e_lineNum = line, e_columnNum = col, e_id = 0\<rparr>"

definition STRING_SIZE :: nat where
  "STRING_SIZE = 1000"

text \<open>\<open>Entry::getDebugData\<close> with the constructor of \<open>DebugData\<close>, which aborts on a string that does not fit.\<close>

definition Entry_getDebugData :: "Entry \<Rightarrow> DebugData option" where
  "Entry_getDebugData e =
     (if length (e_pathToFile e) \<ge> STRING_SIZE \<or> length (e_varName e) \<ge> STRING_SIZE then None
      else Some \<lparr>pathToFile = e_pathToFile e, varName = e_varName e, lineNum = e_lineNum e, columnNum = e_columnNum e\<rparr>)"

definition Entry_copy :: "Entry \<Rightarrow> Entry" where
  "Entry_copy e =
     (new_Entry (e_value e) (allocPointer e) (allocNewPointer e) (allocSize e) (allocNumElems e) (e_size e)
        (e_pathToFile e) (e_varName e) (e_lineNum e) (e_columnNum e))\<lparr>e_id := e_id e\<rparr>"

section \<open>Sizes\<close>

text \<open>
  The reference: the number of bytes of a type whose parts lie next to each other, computed without wrap-around.
  \<open>measurable\<close> are the types whose size the two functions are meant to find: no array of pointers, whole bytes.
\<close>

primrec packed_size :: "ty \<Rightarrow> nat" where
  "packed_size VoidTy = 0"
| "packed_size (IntegerTy n) = n div 8"
| "packed_size (FloatingTy n) = n div 8"
| "packed_size PointerTy = 8"
| "packed_size (VectorTy n t) = n * getPrimitiveSizeInBits t div 8"
| "packed_size (ArrayTy n t) = unat n * packed_size t"
| "packed_size (StructTy ts) = sum_list (map packed_size ts)"
| "packed_size OtherTy = 0"

fun measurable :: "ty \<Rightarrow> bool" where
  "measurable (ArrayTy n t) = (measurable t \<and> t \<noteq> PointerTy)"
| "measurable (StructTy ts) = (\<forall>t \<in> set ts. measurable t)"
| "measurable t = (t = PointerTy \<or> getPrimitiveSizeInBits t > 0)"

lemma find_sizes:
  "measurable t \<Longrightarrow> t = ArrayTy n u \<Longrightarrow> findArraySize t = of_nat (packed_size t)"
  "measurable t \<Longrightarrow> t = StructTy us \<Longrightarrow> findStructSize t = of_nat (packed_size t)"
  "\<forall>t \<in> set ts. measurable t \<Longrightarrow> findFieldsSize ts acc = acc + of_nat (sum_list (map packed_size ts))"
proof (induction t and t and ts acc arbitrary: n u and us rule: findArraySize_findStructSize_findFieldsSize.induct)
qed (auto simp: algebra_simps)

end
