(* ===== verification/Roi_Manager.thy ===== *)
theory Roi_Manager
  imports LLVM_Module
begin

text \<open>
  \<open>ROI.hpp\<close> and \<open>ROIManager.cpp\<close>: finding the regions of interest of a module. A region is a call of the start
  function with the calls of the stop function that use its result, directly or through the stack slot it is
  stored in. A function pointer that is null, because the module has no function of that name, is \<open>None\<close>; so is
  the called function of an indirect call, and the two compare as equal.
\<close>

section \<open>Regions\<close>

record ROI =
  roi_start :: nat
  roi_stops :: "nat list"

definition MEMORYTOOL_START_TRACKING :: string where
  "MEMORYTOOL_START_TRACKING = ''caratGetStateWrapper''"

definition MEMORYTOOL_STOP_TRACKING :: string where
  "MEMORYTOOL_STOP_TRACKING = ''caratReportStateWrapper''"

definition MEMORYTOOL_CONTEXT :: string where
  "MEMORYTOOL_CONTEXT = ''endStateInvocationWrapper''"

section \<open>The manager\<close>

record ROIManager =
  startFunc :: "string option"
  stopFunc :: "string option"
  contextFunc :: "string option"
  funcToRoisMap :: "(string \<times> ROI list) list"

text \<open>\<open>CallInstVisitor\<close>: the calls of one function, by the function they are in.\<close>

definition visitCallBase :: "string option \<Rightarrow> string \<Rightarrow> instr \<Rightarrow> (string \<times> nat list) list \<Rightarrow> (string \<times> nat list) list" where
  "visitCallBase functionOfInterest funcCallInstIsIn i m =
     (if isCallBase (kind i) \<and> getCalledFunction (kind i) = functionOfInterest
      then um_assign funcCallInstIsIn
             (us_insert (iid i) (case map_of m funcCallInstIsIn of None \<Rightarrow> [] | Some s \<Rightarrow> s)) m
      else m)"

definition functionToCallsOfInterest :: "string option \<Rightarrow> func \<Rightarrow> (string \<times> nat list) list" where
  "functionToCallsOfInterest f F = fold (visitCallBase f (fname F)) (func_insts F) []"

text \<open>The calls to the stop function among the users of the state ID itself.\<close>

definition direct_stops :: "ROIManager \<Rightarrow> llvm_module \<Rightarrow> nat \<Rightarrow> nat list" where
  "direct_stops mgr M c =
     map iid (filter (\<lambda>u. isCallBase (kind u) \<and> getCalledFunction (kind u) = stopFunc mgr) (users M (InstV c)))"

text \<open>The loop over the users of the stack slot that holds the state ID.\<close>

fun slot_stops :: "ROIManager \<Rightarrow> llvm_module \<Rightarrow> instr list \<Rightarrow> nat list \<Rightarrow> nat list option" where
  "slot_stops mgr M [] callsToStop = Some callsToStop"
| "slot_stops mgr M (u # us) callsToStop =
     (case kind u of
        LoadInst p \<Rightarrow>
          (case users M (InstV (iid u)) of
             [user] \<Rightarrow>
               (if \<not> isCallBase (kind user) then None
                else if getCalledFunction (kind user) = contextFunc mgr then slot_stops mgr M us callsToStop
                else if getCalledFunction (kind user) \<noteq> stopFunc mgr then None
                else slot_stops mgr M us (callsToStop @ [iid user]))
           | _ \<Rightarrow> None)
      | _ \<Rightarrow> slot_stops mgr M us callsToStop)"

definition made_ROI :: "nat \<Rightarrow> nat list \<Rightarrow> ROI option" where
  "made_ROI callToStart callsToStop =
     (if callsToStop = [] then None else Some \<lparr>roi_start = callToStart, roi_stops = callsToStop\<rparr>)"

definition visitROI :: "ROIManager \<Rightarrow> llvm_module \<Rightarrow> nat \<Rightarrow> ROI option" where
  "visitROI mgr M callToStart =
     (case users M (InstV callToStart) of
        [user] \<Rightarrow>
          (case kind user of
             StoreInst v allocaOfStateID \<Rightarrow>
               Option.bind (slot_stops mgr M (users M allocaOfStateID) []) (made_ROI callToStart)
           | _ \<Rightarrow> None)
      | _ \<Rightarrow> made_ROI callToStart (direct_stops mgr M callToStart))"

definition visitROIs :: "ROIManager \<Rightarrow> llvm_module \<Rightarrow> (string \<times> nat list) list \<Rightarrow> ROI list option" where
  "visitROIs mgr M mapToStart = those (map (visitROI mgr M) (concat (map snd mapToStart)))"

definition computeROIs :: "ROIManager \<Rightarrow> llvm_module \<Rightarrow> func \<Rightarrow> ROI list option" where
  "computeROIs mgr M F = visitROIs mgr M (functionToCallsOfInterest (startFunc mgr) F)"

definition new_ROIManager :: "llvm_module \<Rightarrow> ROIManager option" where
  "new_ROIManager M =
     (let get = (\<lambda>name. map_option fname (getFunctionByName M name));
          mgr = \<lparr>startFunc = get MEMORYTOOL_START_TRACKING, stopFunc = get MEMORYTOOL_STOP_TRACKING,
                 contextFunc = get MEMORYTOOL_CONTEXT, funcToRoisMap = []\<rparr> in
      map_option (\<lambda>rss. mgr\<lparr>funcToRoisMap := zip (map fname (m_functions M)) rss\<rparr>)
        (those (map (computeROIs mgr M) (m_functions M))))"

definition getROIs_module :: "ROIManager \<Rightarrow> ROI list" where
  "getROIs_module mgr = concat (map snd (funcToRoisMap mgr))"

definition getROIs_function :: "ROIManager \<Rightarrow> func \<Rightarrow> ROI list" where
  "getROIs_function mgr F = (case map_of (funcToRoisMap mgr) (fname F) of None \<Rightarrow> [] | Some rs \<Rightarrow> rs)"

text \<open>
  \<open>user_back\<close> is the newest user of a value. Its cast to a store fails when a region was accepted although its
  state ID has several users and the newest is not a store.
\<close>

definition roi_loads_stores :: "llvm_module \<Rightarrow> ROI \<Rightarrow> nat list option" where
  "roi_loads_stores M roi =
     (case users M (InstV (roi_start roi)) of
        [] \<Rightarrow> None
      | us \<Rightarrow>
          (case kind (last us) of
             StoreInst v allocaOfStateID \<Rightarrow>
               Some (iid (last us) # map iid (filter (\<lambda>u. case kind u of LoadInst _ \<Rightarrow> True | StoreInst _ _ \<Rightarrow> True | _ \<Rightarrow> False)
                                                (users M allocaOfStateID)))
           | _ \<Rightarrow> None))"

definition computeROIsLoadsStores :: "ROIManager \<Rightarrow> llvm_module \<Rightarrow> nat list option" where
  "computeROIsLoadsStores mgr M =
     map_option (\<lambda>iss. us_insert_all (concat iss) []) (those (map (roi_loads_stores M) (getROIs_module mgr)))"

definition getROIsLoadsStores :: "ROIManager \<Rightarrow> llvm_module \<Rightarrow> nat list option" where
  "getROIsLoadsStores mgr M = computeROIsLoadsStores mgr M"

section \<open>Lemmas\<close>

lemma those_eq_Some: "those xs = Some ys \<longleftrightarrow> xs = map Some ys"
  by (induction xs arbitrary: ys) (auto split: option.splits)

lemma those_map_Some: "those (map f xs) = Some ys \<Longrightarrow> y \<in> set ys \<Longrightarrow> \<exists>x \<in> set xs. f x = Some y"
proof -
  assume "those (map f xs) = Some ys" and y: "y \<in> set ys"
  then have "map f xs = map Some ys" by (simp add: those_eq_Some)
  then have "Some y \<in> f ` set xs" using y by (metis image_eqI set_map)
  then show ?thesis by force
qed

text \<open>An instruction is a user of a value exactly when the value is one of its operands.\<close>

lemma in_users: "u \<in> set (users M v) \<longleftrightarrow> u \<in> set (module_insts M) \<and> v \<in> set (operands (kind u))"
  by (auto simp: users_def)

lemma in_visitCalls:
  "map_of (fold (visitCallBase f g) is m) h = Some s \<Longrightarrow> c \<in> set s \<Longrightarrow>
   (\<exists>s0. map_of m h = Some s0 \<and> c \<in> set s0)
     \<or> (h = g \<and> (\<exists>i \<in> set is. iid i = c \<and> isCallBase (kind i) \<and> getCalledFunction (kind i) = f))"
proof (induction "is" arbitrary: m)
  case (Cons i "is")
  consider "\<exists>s0. map_of (visitCallBase f g i m) h = Some s0 \<and> c \<in> set s0"
    | "h = g \<and> (\<exists>i \<in> set is. iid i = c \<and> isCallBase (kind i) \<and> getCalledFunction (kind i) = f)"
    using Cons.IH [of "visitCallBase f g i m"] Cons.prems by auto
  then show ?case
  proof cases
    case 1
    then show ?thesis by (auto simp: visitCallBase_def split: if_splits option.splits)
  qed auto
qed auto

lemma distinct_keys_visitCalls: "distinct_keys m \<Longrightarrow> distinct_keys (fold (visitCallBase f g) is m)"
  by (induction "is" arbitrary: m) (auto simp: visitCallBase_def)

lemma functionToCallsOfInterest_sound:
  assumes "(h, s) \<in> set (functionToCallsOfInterest f F)" "c \<in> set s"
  shows "h = fname F \<and> (\<exists>i \<in> set (func_insts F). iid i = c \<and> isCallBase (kind i) \<and> getCalledFunction (kind i) = f)"
proof -
  have "distinct_keys (functionToCallsOfInterest f F)"
    by (simp add: functionToCallsOfInterest_def distinct_keys_visitCalls)
  then have "map_of (functionToCallsOfInterest f F) h = Some s" using assms(1) by simp
  then show ?thesis
    using in_visitCalls [of f "fname F" "func_insts F" "[]" h s c] assms(2)
    by (auto simp: functionToCallsOfInterest_def)
qed

text \<open>
  Direct calls of a function, and the calls that use the result of a call: as an operand, or loaded from the slot in which
  the result was stored.
\<close>

definition calls :: "llvm_module \<Rightarrow> string \<Rightarrow> nat \<Rightarrow> bool" where
  "calls M f n \<longleftrightarrow> (\<exists>i \<in> set (module_insts M). iid i = n \<and> isCallBase (kind i) \<and> getCalledFunction (kind i) = Some f)"

definition uses_result :: "llvm_module \<Rightarrow> nat \<Rightarrow> instr \<Rightarrow> bool" where
  "uses_result M c u \<longleftrightarrow> u \<in> set (users M (InstV c))
     \<or> (\<exists>st v p ld. st \<in> set (users M (InstV c)) \<and> kind st = StoreInst v p \<and> ld \<in> set (users M p) \<and> kind ld = LoadInst p
          \<and> u \<in> set (users M (InstV (iid ld))))"

definition stop_call :: "llvm_module \<Rightarrow> string \<Rightarrow> nat \<Rightarrow> nat \<Rightarrow> bool" where
  "stop_call M f c n \<longleftrightarrow> (\<exists>u. iid u = n \<and> isCallBase (kind u) \<and> getCalledFunction (kind u) = Some f \<and> uses_result M c u)"

lemma users_module: "u \<in> set (users M v) \<Longrightarrow> u \<in> set (module_insts M)"
  by (simp add: in_users)

lemma stop_call_calls: "stop_call M f c n \<Longrightarrow> calls M f n"
  unfolding stop_call_def uses_result_def calls_def by (blast dest: users_module)

lemma slot_stops_sound:
  assumes "slot_stops mgr M us acc = Some stops" "n \<in> set stops"
  shows "n \<in> set acc \<or> (\<exists>ld \<in> set us. \<exists>p u. kind ld = LoadInst p \<and> u \<in> set (users M (InstV (iid ld)))
    \<and> iid u = n \<and> isCallBase (kind u) \<and> getCalledFunction (kind u) = stopFunc mgr)"
  using assms
proof (induction us arbitrary: acc)
  case (Cons u us)
  show ?case
  proof (cases "kind u")
    case (LoadInst p)
    then obtain user where us: "users M (InstV (iid u)) = [user]" and cb: "isCallBase (kind user)"
      using Cons.prems(1) by (auto split: list.splits if_splits)
    show ?thesis
    proof (cases "getCalledFunction (kind user) = contextFunc mgr")
      case True
      then have "slot_stops mgr M us acc = Some stops" using Cons.prems(1) us cb LoadInst by simp
      then show ?thesis using Cons.IH Cons.prems(2) by fastforce
    next
      case False
      then have g: "getCalledFunction (kind user) = stopFunc mgr"
        and r: "slot_stops mgr M us (acc @ [iid user]) = Some stops"
        using Cons.prems(1) us cb LoadInst by (auto split: if_splits)
      show ?thesis using Cons.IH [OF r Cons.prems(2)] g cb us LoadInst by force
    qed
  next
    case (StoreInst v p)
    then show ?thesis using Cons by fastforce
  qed (use Cons in \<open>fastforce\<close>)+
qed simp

lemma visitROI_cases:
  assumes "visitROI mgr M c = Some r"
  obtains stops where "made_ROI c stops = Some r" "stops = direct_stops mgr M c"
  | stops st v p where "made_ROI c stops = Some r" "st \<in> set (users M (InstV c))" "kind st = StoreInst v p"
      "slot_stops mgr M (users M p) [] = Some stops"
proof (cases "\<exists>user. users M (InstV c) = [user]")
  case True
  then obtain user where u: "users M (InstV c) = [user]" by blast
  then obtain v p where st: "kind user = StoreInst v p"
    using assms by (cases "kind user") (simp_all add: visitROI_def)
  then have "Option.bind (slot_stops mgr M (users M p) []) (made_ROI c) = Some r"
    using assms u by (simp add: visitROI_def)
  then show ?thesis using that(2) u st by (cases "slot_stops mgr M (users M p) []") simp_all
next
  case False
  then have "made_ROI c (direct_stops mgr M c) = Some r"
    using assms by (cases "users M (InstV c)" rule: remdups_adj.cases) (auto simp: visitROI_def)
  then show ?thesis using that(1) by blast
qed

lemma visitROI_wf:
  assumes r: "visitROI mgr M c = Some r" and f: "stopFunc mgr = Some f"
  shows "roi_start r = c \<and> roi_stops r \<noteq> [] \<and> (\<forall>n \<in> set (roi_stops r). stop_call M f c n)"
proof -
  have "\<exists>stops. made_ROI c stops = Some r \<and> (\<forall>n \<in> set stops. stop_call M f c n)"
    using r
  proof (cases rule: visitROI_cases)
    case (1 stops)
    have "\<forall>n \<in> set stops. stop_call M f c n" using f by (auto simp: 1(2) direct_stops_def stop_call_def uses_result_def)
    then show ?thesis using 1(1) by blast
  next
    case (2 stops st v p)
    have "stop_call M f c n" if n: "n \<in> set stops" for n
    proof -
      obtain ld p' u where ld: "ld \<in> set (users M p)" "kind ld = LoadInst p'" "u \<in> set (users M (InstV (iid ld)))"
        "iid u = n" "isCallBase (kind u)" "getCalledFunction (kind u) = Some f"
        using slot_stops_sound [OF 2(4) n] f by auto
      then have "p' = p" by (simp add: in_users)
      then show ?thesis unfolding stop_call_def uses_result_def using ld 2(2,3) by blast
    qed
    then show ?thesis using 2(1) by blast
  qed
  then show ?thesis by (auto simp: made_ROI_def split: if_splits)
qed

lemma visitCalls_complete:
  "i \<in> set is \<Longrightarrow> isCallBase (kind i) \<Longrightarrow> getCalledFunction (kind i) = f \<Longrightarrow>
   \<exists>s. map_of (fold (visitCallBase f g) is m) g = Some s \<and> iid i \<in> set s"
proof (induction "is" arbitrary: m)
  case (Cons j "is")
  have keep: "\<exists>s. map_of (fold (visitCallBase f g) js m0) g = Some s \<and> c \<in> set s"
    if "\<exists>s. map_of m0 g = Some s \<and> c \<in> set s" for js m0 c
    using that by (induction js arbitrary: m0) (auto simp: visitCallBase_def)
  show ?case
  proof (cases "i \<in> set is")
    case True
    then show ?thesis using Cons by simp
  next
    case False
    then have "\<exists>s. map_of (visitCallBase f g j m) g = Some s \<and> iid i \<in> set s"
      using Cons.prems by (auto simp: visitCallBase_def)
    then show ?thesis using keep by simp
  qed
qed simp

text \<open>The manager as it is while it visits the regions.\<close>

definition visiting_manager :: "llvm_module \<Rightarrow> ROIManager" where
  "visiting_manager M =
     (let get = (\<lambda>name. map_option fname (getFunctionByName M name)) in
      \<lparr>startFunc = get MEMORYTOOL_START_TRACKING, stopFunc = get MEMORYTOOL_STOP_TRACKING,
       contextFunc = get MEMORYTOOL_CONTEXT, funcToRoisMap = []\<rparr>)"

lemma functionToCallsOfInterest_exact:
  "set (concat (map snd (functionToCallsOfInterest f F))) =
     {iid i | i. i \<in> set (func_insts F) \<and> isCallBase (kind i) \<and> getCalledFunction (kind i) = f}"
proof (intro equalityI subsetI)
  fix c assume "c \<in> set (concat (map snd (functionToCallsOfInterest f F)))"
  then obtain h s where "(h, s) \<in> set (functionToCallsOfInterest f F)" "c \<in> set s" by auto
  then show "c \<in> {iid i | i. i \<in> set (func_insts F) \<and> isCallBase (kind i) \<and> getCalledFunction (kind i) = f}"
    using functionToCallsOfInterest_sound by blast
next
  fix c assume "c \<in> {iid i | i. i \<in> set (func_insts F) \<and> isCallBase (kind i) \<and> getCalledFunction (kind i) = f}"
  then obtain i where i: "c = iid i" "i \<in> set (func_insts F)" "isCallBase (kind i)" "getCalledFunction (kind i) = f" by blast
  obtain s where "map_of (functionToCallsOfInterest f F) (fname F) = Some s" "c \<in> set s"
    using visitCalls_complete [OF i(2-4), of "fname F" "[]"] by (auto simp: functionToCallsOfInterest_def i(1))
  then show "c \<in> set (concat (map snd (functionToCallsOfInterest f F)))" by (force dest: map_of_SomeD)
qed

lemma those_images: "those (map f xs) = Some ys \<Longrightarrow> Some ` set ys = f ` set xs"
  by (metis list.set_map those_eq_Some)

lemma getROIs_visited:
  assumes "new_ROIManager M = Some mgr"
  shows "Some ` set (getROIs_module mgr) =
    visitROI (visiting_manager M) M ` {iid i | i. i \<in> set (module_insts M) \<and> isCallBase (kind i)
      \<and> getCalledFunction (kind i) = startFunc (visiting_manager M)}"
proof -
  let ?m = "visiting_manager M"
  let ?cs = "\<lambda>F. concat (map snd (functionToCallsOfInterest (startFunc ?m) F))"
  obtain rss where rss: "those (map (computeROIs ?m M) (m_functions M)) = Some rss"
    and mgr: "mgr = ?m\<lparr>funcToRoisMap := zip (map fname (m_functions M)) rss\<rparr>"
    using assms by (auto simp: new_ROIManager_def visiting_manager_def Let_def)
  have eq: "map (computeROIs ?m M) (m_functions M) = map Some rss" using rss by (simp add: those_eq_Some)
  then have len: "length rss = length (m_functions M)" by (metis length_map)
  have got: "getROIs_module mgr = concat rss" using len by (simp add: mgr getROIs_module_def)
  have one: "Some ` set rs = visitROI ?m M ` set (?cs F)" if "computeROIs ?m M F = Some rs" for F rs
    using those_images that unfolding computeROIs_def visitROIs_def by blast
  have "Some ` set (concat rss) = (\<Union>rs \<in> set rss. Some ` set rs)" by auto
  also have "\<dots> = (\<Union>F \<in> set (m_functions M). visitROI ?m M ` set (?cs F))"
  proof (intro equalityI subsetI)
    fix x assume "x \<in> (\<Union>rs \<in> set rss. Some ` set rs)"
    then obtain rs where rs: "rs \<in> set rss" "x \<in> Some ` set rs" by blast
    obtain F where F: "F \<in> set (m_functions M)" "computeROIs ?m M F = Some rs" using those_map_Some [OF rss rs(1)] by blast
    show "x \<in> (\<Union>F \<in> set (m_functions M). visitROI ?m M ` set (?cs F))"
      by (rule UN_I [OF F(1)]) (use one [OF F(2)] rs(2) in simp)
  next
    fix x assume "x \<in> (\<Union>F \<in> set (m_functions M). visitROI ?m M ` set (?cs F))"
    then obtain F where F: "F \<in> set (m_functions M)" "x \<in> visitROI ?m M ` set (?cs F)" by blast
    have "computeROIs ?m M F \<in> Some ` set rss" unfolding those_images [OF rss] using F(1) by (rule imageI)
    then obtain rs where rs: "rs \<in> set rss" "computeROIs ?m M F = Some rs" by (elim imageE) simp
    show "x \<in> (\<Union>rs \<in> set rss. Some ` set rs)" by (rule UN_I [OF rs(1)]) (use one [OF rs(2)] F(2) in simp)
  qed
  also have "\<dots> = visitROI ?m M ` (\<Union>F \<in> set (m_functions M). set (?cs F))" by (rule image_UN [symmetric])
  also have "(\<Union>F \<in> set (m_functions M). set (?cs F)) =
      {iid i | i. i \<in> set (module_insts M) \<and> isCallBase (kind i) \<and> getCalledFunction (kind i) = startFunc ?m}"
    unfolding functionToCallsOfInterest_exact module_insts_def by auto
  finally show ?thesis unfolding got .
qed

lemma getFunctionByName_name: "getFunctionByName M f = Some F \<Longrightarrow> fname F = f"
  by (auto simp: getFunctionByName_def find_Some_iff)

lemma visiting_names:
  "getFunctionByName M MEMORYTOOL_START_TRACKING = Some S \<Longrightarrow> startFunc (visiting_manager M) = Some MEMORYTOOL_START_TRACKING"
  "getFunctionByName M MEMORYTOOL_STOP_TRACKING = Some S \<Longrightarrow> stopFunc (visiting_manager M) = Some MEMORYTOOL_STOP_TRACKING"
  by (auto simp: visiting_manager_def Let_def dest: getFunctionByName_name)

text \<open>
  C32: the regions of interest of a module that has both functions. The starts of the regions the manager finds are
  exactly the direct calls of \<open>caratGetStateWrapper\<close>; every region has at least one stop, and each of its stops is a direct
  call of \<open>caratReportStateWrapper\<close> that uses the state ID which the start returned, directly or through the slot it is
  stored in.
\<close>

theorem rois_well_formed:
  assumes "new_ROIManager M = Some mgr"
    and "getFunctionByName M ''caratGetStateWrapper'' = Some S" "getFunctionByName M ''caratReportStateWrapper'' = Some R"
  shows "roi_start ` set (getROIs_module mgr) = {c. calls M ''caratGetStateWrapper'' c}
    \<and> (\<forall>r \<in> set (getROIs_module mgr). roi_stops r \<noteq> []
         \<and> (\<forall>n \<in> set (roi_stops r). stop_call M ''caratReportStateWrapper'' (roi_start r) n))"
proof -
  let ?m = "visiting_manager M" and ?start = "MEMORYTOOL_START_TRACKING" and ?stop = "MEMORYTOOL_STOP_TRACKING"
  have names: "startFunc ?m = Some ?start" "stopFunc ?m = Some ?stop"
    using assms(2,3) visiting_names by (simp_all add: MEMORYTOOL_START_TRACKING_def MEMORYTOOL_STOP_TRACKING_def)
  have all: "Some ` set (getROIs_module mgr) = visitROI ?m M ` {c. calls M ?start c}"
    unfolding getROIs_visited [OF assms(1)] names calls_def by (rule arg_cong [where f = "image (visitROI ?m M)"]) auto
  have wf: "roi_start r = c \<and> roi_stops r \<noteq> [] \<and> (\<forall>n \<in> set (roi_stops r). stop_call M ?stop c n)"
    if "visitROI ?m M c = Some r" for c r by (rule visitROI_wf [OF that names(2)])
  have visited: "\<exists>c. calls M ?start c \<and> visitROI ?m M c = Some r" if "r \<in> set (getROIs_module mgr)" for r
    using that all by (metis (mono_tags, lifting) image_iff mem_Collect_eq)
  have found: "c \<in> roi_start ` set (getROIs_module mgr)" if "calls M ?start c" for c
  proof -
    have "visitROI ?m M c \<in> Some ` set (getROIs_module mgr)" using that unfolding all by blast
    then show ?thesis using wf by force
  qed
  have "roi_start ` set (getROIs_module mgr) = {c. calls M ?start c}" using visited found wf by blast
  moreover have "\<forall>r \<in> set (getROIs_module mgr). roi_stops r \<noteq> [] \<and> (\<forall>n \<in> set (roi_stops r). stop_call M ?stop (roi_start r) n)"
    using visited wf by blast
  ultimately show ?thesis by (simp add: MEMORYTOOL_START_TRACKING_def MEMORYTOOL_STOP_TRACKING_def)
qed

section \<open>A module with one region\<close>

definition inst_num :: "nat \<Rightarrow> inst_kind \<Rightarrow> instr" where
  "inst_num n k = \<lparr>iid = n, kind = k, ity = VoidTy, dbgLoc = None, metadata = []\<rparr>"

definition plain_func :: "string \<Rightarrow> bblock list \<Rightarrow> func" where
  "plain_func name bs = \<lparr>fname = name, isIntrinsic = False, blocks = bs, optNone = False, noInline = False, fmetadata = []\<rparr>"

definition roi_sample :: llvm_module where
  "roi_sample =
     \<lparr>m_functions =
        [plain_func MEMORYTOOL_START_TRACKING [], plain_func MEMORYTOOL_STOP_TRACKING [],
         plain_func ''main''
           [\<lparr>bid = 0, insts = [inst_num 1 (AllocaInst (IntegerTy 64)), inst_num 2 (CallInst (FuncV MEMORYTOOL_START_TRACKING) []),
              inst_num 3 (StoreInst (InstV 2) (InstV 1)), inst_num 4 (LoadInst (InstV 1)),
              inst_num 5 (CallInst (FuncV MEMORYTOOL_STOP_TRACKING) [InstV 4]), inst_num 6 (ReturnInst None)]\<rparr>]],
      m_globals = [], nextId = 7\<rparr>"

lemma roi_sample_manager:
  "map_option getROIs_module (new_ROIManager roi_sample) = Some [\<lparr>roi_start = 2, roi_stops = [5]\<rparr>]"
  by code_simp

theorem rois_well_formed_witness:
  "\<exists>mgr. new_ROIManager roi_sample = Some mgr \<and> getROIs_module mgr = [\<lparr>roi_start = 2, roi_stops = [5]\<rparr>]
     \<and> calls roi_sample ''caratGetStateWrapper'' 2 \<and> stop_call roi_sample ''caratReportStateWrapper'' 2 5"
proof -
  obtain mgr where mgr: "new_ROIManager roi_sample = Some mgr" "getROIs_module mgr = [\<lparr>roi_start = 2, roi_stops = [5]\<rparr>]"
    using roi_sample_manager by auto
  have "getFunctionByName roi_sample ''caratGetStateWrapper'' = Some (plain_func ''caratGetStateWrapper'' [])"
    "getFunctionByName roi_sample ''caratReportStateWrapper'' = Some (plain_func ''caratReportStateWrapper'' [])"
    by code_simp+
  from rois_well_formed [OF mgr(1) this] mgr show ?thesis by auto
qed

section \<open>A module without a region\<close>

lemma those_None: "None \<in> set xs \<Longrightarrow> those xs = None"
  by (induction xs) (auto split: option.splits)

text \<open>
  When a module has no start function, the pointer the visitor looks for is null, and so is the called function of
  an indirect call: the manager takes the indirect call for the start of a region and aborts when nothing uses
  its result, instead of finding no region.
\<close>

theorem indirect_call_aborts:
  assumes "getFunctionByName M MEMORYTOOL_START_TRACKING = None"
    and F: "F \<in> set (m_functions M)" and i: "i \<in> set (func_insts F)"
    and "isCallBase (kind i)" "getCalledFunction (kind i) = None" and "users M (InstV (iid i)) = []"
  shows "new_ROIManager M = None"
proof -
  let ?get = "\<lambda>name. map_option fname (getFunctionByName M name)"
  let ?m0 = "\<lparr>startFunc = ?get MEMORYTOOL_START_TRACKING, stopFunc = ?get MEMORYTOOL_STOP_TRACKING,
              contextFunc = ?get MEMORYTOOL_CONTEXT, funcToRoisMap = []\<rparr>"
  have "visitROI ?m0 M (iid i) = None"
    using assms(6) by (simp add: visitROI_def made_ROI_def direct_stops_def)
  moreover have "iid i \<in> set (concat (map snd (functionToCallsOfInterest (startFunc ?m0) F)))"
    using visitCalls_complete [OF i assms(4), of None "fname F" "[]"] assms(1,5)
    by (force simp: functionToCallsOfInterest_def dest: map_of_SomeD)
  ultimately have "computeROIs ?m0 M F = None"
    unfolding computeROIs_def visitROIs_def by (intro those_None) force
  then have "those (map (computeROIs ?m0 M) (m_functions M)) = None" using F by (intro those_None) force
  then show ?thesis by (simp add: new_ROIManager_def Let_def)
qed

end
