(* ===== verification/Touch_Same_Object.thy ===== *)
theory Touch_Same_Object
  imports Roi_Manager
begin

text \<open>
  \<open>TouchSameObject.cpp\<close>: the loads and stores the pass leaves without instrumentation because the object they
  touch was touched before on every path. The data flow engine of NOELLE and the dominator trees are arguments:
  \<open>applyForward\<close> with the contract \<open>forward_solution\<close>, \<open>DT\<close> and \<open>PDT\<close> with the meaning of dominance. A
  \<open>std::set\<close> of values is a set; an \<open>std::unordered_set\<close> of instructions is a list in its iteration order.
\<close>

section \<open>Control flow between instructions\<close>

fun chain :: "instr list \<Rightarrow> (nat \<times> nat) list" where
  "chain (i # j # is) = (iid i, iid j) # chain (j # is)"
| "chain _ = []"

definition jump_edges :: "func \<Rightarrow> bblock \<Rightarrow> (nat \<times> nat) list" where
  "jump_edges F b =
     (if insts b = [] then []
      else concat (map (\<lambda>s. case List.find (\<lambda>c. bid c = s) (blocks F) of
                              Some c \<Rightarrow> (if insts c = [] then [] else [(iid (last (insts b)), iid (hd (insts c)))])
                            | None \<Rightarrow> [])
                     (successors (kind (last (insts b))))))"

definition cfg_edges :: "func \<Rightarrow> (nat \<times> nat) list" where
  "cfg_edges F = concat (map (\<lambda>b. chain (insts b) @ jump_edges F b) (blocks F))"

definition predecessors :: "func \<Rightarrow> nat \<Rightarrow> nat list" where
  "predecessors F i = map fst (filter (\<lambda>e. snd e = i) (cfg_edges F))"

definition entry_inst :: "func \<Rightarrow> nat" where
  "entry_inst F = iid (hd (insts (hd (blocks F))))"

fun is_walk :: "func \<Rightarrow> nat list \<Rightarrow> bool" where
  "is_walk F (i # j # p) \<longleftrightarrow> (i, j) \<in> set (cfg_edges F) \<and> is_walk F (j # p)"
| "is_walk F _ \<longleftrightarrow> True"

definition entry_path :: "func \<Rightarrow> nat list \<Rightarrow> bool" where
  "entry_path F p \<longleftrightarrow> p \<noteq> [] \<and> hd p = entry_inst F \<and> is_walk F p"

section \<open>The visitor\<close>

record touch_maps =
  instToObjMapLoad :: "(nat \<times> val) list"
  instToObjMapStore :: "(nat \<times> val) list"

text \<open>The constructor groups the regions by the function their start is in.\<close>

definition add_roi :: "llvm_module \<Rightarrow> ROI \<Rightarrow> (string \<times> ROI list) list \<Rightarrow> (string \<times> ROI list) list" where
  "add_roi M r m =
     (case function_of M (roi_start r) of
        None \<Rightarrow> m
      | Some F \<Rightarrow> um_assign (fname F) ((case map_of m (fname F) of None \<Rightarrow> [] | Some rs \<Rightarrow> rs) @ [r]) m)"

definition funcToRoiMap :: "llvm_module \<Rightarrow> ROI list \<Rightarrow> (string \<times> ROI list) list" where
  "funcToRoiMap M rois = fold (add_roi M) rois []"

definition gep_base :: "llvm_module \<Rightarrow> val \<Rightarrow> val option" where
  "gep_base M addr =
     (case inst_of M addr of
        Some g \<Rightarrow> (case kind g of GetElementPtrInst p is \<Rightarrow> Some p | _ \<Rightarrow> None)
      | None \<Rightarrow> None)"

definition visitInstObjGranularity :: "llvm_module \<Rightarrow> instr \<Rightarrow> touch_maps \<Rightarrow> touch_maps option" where
  "visitInstObjGranularity M i st =
     (case kind i of
        LoadInst addr \<Rightarrow>
          (case gep_base M addr of
             None \<Rightarrow> Some st
           | Some obj \<Rightarrow> Some (st\<lparr>instToObjMapLoad := um_assign (iid i) obj (instToObjMapLoad st)\<rparr>))
      | StoreInst v addr \<Rightarrow>
          (case gep_base M addr of
             None \<Rightarrow> Some st
           | Some obj \<Rightarrow> Some (st\<lparr>instToObjMapStore := um_assign (iid i) obj (instToObjMapStore st)\<rparr>))
      | _ \<Rightarrow> None)"

definition visitInstPtrGranularity :: "instr \<Rightarrow> touch_maps \<Rightarrow> touch_maps option" where
  "visitInstPtrGranularity i st =
     (case kind i of
        LoadInst addr \<Rightarrow> Some (st\<lparr>instToObjMapLoad := um_assign (iid i) addr (instToObjMapLoad st)\<rparr>)
      | StoreInst v addr \<Rightarrow> Some (st\<lparr>instToObjMapStore := um_assign (iid i) addr (instToObjMapStore st)\<rparr>)
      | _ \<Rightarrow> None)"

definition considerThisInst :: "(string \<Rightarrow> nat \<Rightarrow> nat \<Rightarrow> bool) \<Rightarrow> (string \<Rightarrow> nat \<Rightarrow> nat \<Rightarrow> bool) \<Rightarrow>
    (string \<times> ROI list) list \<Rightarrow> string \<Rightarrow> nat \<Rightarrow> bool" where
  "considerThisInst DT PDT frm f n \<longleftrightarrow>
     (case map_of frm f of
        None \<Rightarrow> True
      | Some rs \<Rightarrow> \<forall>r \<in> set rs. DT f (roi_start r) n \<and> (\<exists>stop \<in> set (roi_stops r). PDT f stop n))"

definition visitLoadStoreInst :: "(string \<Rightarrow> nat \<Rightarrow> nat \<Rightarrow> bool) \<Rightarrow> (string \<Rightarrow> nat \<Rightarrow> nat \<Rightarrow> bool) \<Rightarrow> llvm_module \<Rightarrow>
    bool \<Rightarrow> string list \<Rightarrow> (string \<times> ROI list) list \<Rightarrow> string \<Rightarrow> instr \<Rightarrow> touch_maps \<Rightarrow> touch_maps option" where
  "visitLoadStoreInst DT PDT M objGran toRun frm f i st =
     (if f \<notin> set toRun then Some st
      else if \<not> considerThisInst DT PDT frm f (iid i) then Some st
      else if objGran then visitInstObjGranularity M i st
      else visitInstPtrGranularity i st)"

text \<open>\<open>visit\<close> calls \<open>visitLoadInst\<close> and \<open>visitStoreInst\<close> on the loads and the stores, function by function.\<close>

definition is_load_store :: "inst_kind \<Rightarrow> bool" where
  "is_load_store k = (case k of LoadInst _ \<Rightarrow> True | StoreInst _ _ \<Rightarrow> True | _ \<Rightarrow> False)"

definition visit_functions :: "(string \<Rightarrow> instr \<Rightarrow> 's \<Rightarrow> 's option) \<Rightarrow> func list \<Rightarrow> 's \<Rightarrow> 's option" where
  "visit_functions v Fs st = fold_opt (\<lambda>F. fold_opt (v (fname F)) (func_insts F)) Fs st"

definition visit_touches :: "(string \<Rightarrow> nat \<Rightarrow> nat \<Rightarrow> bool) \<Rightarrow> (string \<Rightarrow> nat \<Rightarrow> nat \<Rightarrow> bool) \<Rightarrow> llvm_module \<Rightarrow> bool \<Rightarrow>
    string list \<Rightarrow> ROI list \<Rightarrow> touch_maps option" where
  "visit_touches DT PDT M objGran toRun rois =
     visit_functions (\<lambda>f i st. if is_load_store (kind i)
                               then visitLoadStoreInst DT PDT M objGran toRun (funcToRoiMap M rois) f i st else Some st)
       (m_functions M) \<lparr>instToObjMapLoad = [], instToObjMapStore = []\<rparr>"

section \<open>The data flow equations\<close>

record DataFlowResult =
  GEN :: "nat \<Rightarrow> val set"
  KILL :: "nat \<Rightarrow> val set"
  IN :: "nat \<Rightarrow> val set"
  OUT :: "nat \<Rightarrow> val set"

definition computeGEN :: "(nat \<times> val) list \<Rightarrow> nat \<Rightarrow> DataFlowResult \<Rightarrow> DataFlowResult" where
  "computeGEN instToObjMap i df =
     (case map_of instToObjMap i of
        None \<Rightarrow> df
      | Some obj \<Rightarrow> df\<lparr>GEN := (GEN df)(i := insert obj (GEN df i))\<rparr>)"

definition computeKILL :: "nat \<Rightarrow> DataFlowResult \<Rightarrow> DataFlowResult" where
  "computeKILL i df = df"

definition computeOUT :: "nat \<Rightarrow> val set \<Rightarrow> DataFlowResult \<Rightarrow> val set" where
  "computeOUT i out df = out \<union> GEN df i \<union> IN df i"

definition computeIN :: "nat \<Rightarrow> val set \<Rightarrow> nat \<Rightarrow> DataFlowResult \<Rightarrow> val set" where
  "computeIN i inp pred df = OUT df pred \<inter> inp"

definition initializeIN :: "(nat \<times> val) list \<Rightarrow> func \<Rightarrow> nat \<Rightarrow> val set \<Rightarrow> val set" where
  "initializeIN instToObjMap F i inp = (if entry_inst F = i then inp else inp \<union> snd ` set instToObjMap)"

definition initializeOUT :: "nat \<Rightarrow> val set \<Rightarrow> val set" where
  "initializeOUT i out = out"

type_synonym forward_engine = "func \<Rightarrow> (nat \<Rightarrow> DataFlowResult \<Rightarrow> DataFlowResult) \<Rightarrow> (nat \<Rightarrow> DataFlowResult \<Rightarrow> DataFlowResult) \<Rightarrow>
    (nat \<Rightarrow> val set \<Rightarrow> val set) \<Rightarrow> (nat \<Rightarrow> val set \<Rightarrow> val set) \<Rightarrow> (nat \<Rightarrow> val set \<Rightarrow> nat \<Rightarrow> DataFlowResult \<Rightarrow> val set) \<Rightarrow>
    (nat \<Rightarrow> val set \<Rightarrow> DataFlowResult \<Rightarrow> val set) \<Rightarrow> DataFlowResult"

definition getFuncToDfrMap :: "forward_engine \<Rightarrow> (nat \<times> val) list \<Rightarrow> func list \<Rightarrow> (string \<times> DataFlowResult) list" where
  "getFuncToDfrMap applyForward instToObjMap fs =
     map (\<lambda>F. (fname F, applyForward F (computeGEN instToObjMap) computeKILL (initializeIN instToObjMap F) initializeOUT
                          computeIN computeOUT)) fs"

definition getInstsToSkip :: "(string \<times> DataFlowResult) list \<Rightarrow> (nat \<times> val) list \<Rightarrow> func list \<Rightarrow> nat list" where
  "getInstsToSkip funcToDfr instToObjMap fs =
     us_insert_all
       (concat (map (\<lambda>F. case map_of funcToDfr (fname F) of
                           None \<Rightarrow> []
                         | Some dfr \<Rightarrow>
                             map iid (filter (\<lambda>i. case map_of instToObjMap (iid i) of
                                                    None \<Rightarrow> False
                                                  | Some obj \<Rightarrow> obj \<in> IN dfr (iid i)) (func_insts F))) fs)) []"

text \<open>\<open>std::set_union\<close>, which the pass runs on ranges that need not be sorted; \<open>lt\<close> is the order of the pointers.\<close>

fun set_union :: "('a \<Rightarrow> 'a \<Rightarrow> bool) \<Rightarrow> 'a list \<Rightarrow> 'a list \<Rightarrow> 'a list" where
  "set_union lt [] ys = ys"
| "set_union lt xs [] = xs"
| "set_union lt (x # xs) (y # ys) =
     (if lt x y then x # set_union lt xs (y # ys)
      else if lt y x then y # set_union lt (x # xs) ys
      else x # set_union lt xs ys)"

definition getTouchSameObjectInsts :: "forward_engine \<Rightarrow> (nat \<Rightarrow> nat \<Rightarrow> bool) \<Rightarrow> (string \<Rightarrow> nat \<Rightarrow> nat \<Rightarrow> bool) \<Rightarrow>
    (string \<Rightarrow> nat \<Rightarrow> nat \<Rightarrow> bool) \<Rightarrow> llvm_module \<Rightarrow> func list \<Rightarrow> ROI list \<Rightarrow> bool \<Rightarrow> nat list option" where
  "getTouchSameObjectInsts applyForward lt DT PDT M fs rois objGran =
     map_option
       (\<lambda>st. let skipLoad = getInstsToSkip (getFuncToDfrMap applyForward (instToObjMapLoad st) fs) (instToObjMapLoad st) fs;
                 skipStore = getInstsToSkip (getFuncToDfrMap applyForward (instToObjMapStore st) fs) (instToObjMapStore st) fs in
             us_insert_all (set_union lt skipLoad skipStore) [])
       (visit_touches DT PDT M objGran (map fname fs) rois)"

section \<open>What the visitor collects\<close>

text \<open>The specification: whether an access is a store, and the value that stands for the object it touches.\<close>

definition tracked_object :: "llvm_module \<Rightarrow> bool \<Rightarrow> inst_kind \<Rightarrow> (bool \<times> val) option" where
  "tracked_object M objGran k =
     (let obj = (\<lambda>addr. if objGran then gep_base M addr else Some addr) in
      case k of
        LoadInst addr \<Rightarrow> map_option (Pair False) (obj addr)
      | StoreInst v addr \<Rightarrow> map_option (Pair True) (obj addr)
      | _ \<Rightarrow> None)"

definition obj_map :: "bool \<Rightarrow> touch_maps \<Rightarrow> (nat \<times> val) list" where
  "obj_map st m = (if st then instToObjMapStore m else instToObjMapLoad m)"

lemma visit_functions_invariant:
  assumes "visit_functions v Fs st = Some st'" "P st"
    "\<And>F i s s'. F \<in> set Fs \<Longrightarrow> i \<in> set (func_insts F) \<Longrightarrow> P s \<Longrightarrow> v (fname F) i s = Some s' \<Longrightarrow> P s'"
  shows "P st'"
proof (rule fold_opt_invariant [OF assms(1) [unfolded visit_functions_def], of P])
  fix F s t assume F: "F \<in> set Fs" "P s" and run: "fold_opt (v (fname F)) (func_insts F) s = Some t"
  show "P t" by (rule fold_opt_invariant [OF run, of P]) (use F assms(3) in auto)
qed (rule assms(2))

lemma visitLoadStoreInst_maps:
  assumes "visitLoadStoreInst DT PDT M g toRun frm f i st = Some st'"
  shows "st' = st \<or> (considerThisInst DT PDT frm f (iid i) \<and> (\<exists>w obj. tracked_object M g (kind i) = Some (w, obj)
      \<and> st' = (if w then st\<lparr>instToObjMapStore := um_assign (iid i) obj (instToObjMapStore st)\<rparr>
              else st\<lparr>instToObjMapLoad := um_assign (iid i) obj (instToObjMapLoad st)\<rparr>)))"
proof (cases "kind i")
  case (LoadInst a)
  then show ?thesis
    using assms by (auto simp: visitLoadStoreInst_def visitInstObjGranularity_def visitInstPtrGranularity_def
        tracked_object_def split: if_splits option.splits)
next
  case (StoreInst v a)
  then show ?thesis
    using assms by (auto simp: visitLoadStoreInst_def visitInstObjGranularity_def visitInstPtrGranularity_def
        tracked_object_def split: if_splits option.splits)
qed (use assms in \<open>auto simp: visitLoadStoreInst_def visitInstObjGranularity_def visitInstPtrGranularity_def split: if_splits\<close>)

text \<open>Each entry of the two maps comes from an access the regions of its function admit.\<close>

definition from_access :: "(string \<Rightarrow> nat \<Rightarrow> nat \<Rightarrow> bool) \<Rightarrow> (string \<Rightarrow> nat \<Rightarrow> nat \<Rightarrow> bool) \<Rightarrow> llvm_module \<Rightarrow> bool \<Rightarrow>
    (string \<times> ROI list) list \<Rightarrow> bool \<Rightarrow> nat \<Rightarrow> val \<Rightarrow> bool" where
  "from_access DT PDT M g frm w n obj \<longleftrightarrow>
     (\<exists>F \<in> set (m_functions M). \<exists>i \<in> set (func_insts F). iid i = n \<and> tracked_object M g (kind i) = Some (w, obj)
        \<and> considerThisInst DT PDT frm (fname F) n)"

lemma visit_touches_sound:
  assumes "visit_touches DT PDT M g toRun rois = Some st" and "(n, obj) \<in> set (obj_map w st)"
  shows "from_access DT PDT M g (funcToRoiMap M rois) w n obj"
proof -
  let ?P = "\<lambda>s. \<forall>w n obj. (n, obj) \<in> set (obj_map w s) \<longrightarrow> from_access DT PDT M g (funcToRoiMap M rois) w n obj"
  have "?P st"
  proof (rule visit_functions_invariant [OF assms(1) [unfolded visit_touches_def], of ?P])
    fix F i s s'
    assume F: "F \<in> set (m_functions M)" "i \<in> set (func_insts F)" and P: "?P s"
      and v: "(if is_load_store (kind i) then visitLoadStoreInst DT PDT M g toRun (funcToRoiMap M rois) (fname F) i s
               else Some s) = Some s'"
    show "?P s'"
    proof (cases "s' = s")
      case False
      then have "visitLoadStoreInst DT PDT M g toRun (funcToRoiMap M rois) (fname F) i s = Some s'"
        using v by (auto split: if_splits)
      from visitLoadStoreInst_maps [OF this] False obtain w obj where
        c: "considerThisInst DT PDT (funcToRoiMap M rois) (fname F) (iid i)" "tracked_object M g (kind i) = Some (w, obj)"
        and s': "s' = (if w then s\<lparr>instToObjMapStore := um_assign (iid i) obj (instToObjMapStore s)\<rparr>
              else s\<lparr>instToObjMapLoad := um_assign (iid i) obj (instToObjMapLoad s)\<rparr>)" by blast
      have new: "from_access DT PDT M g (funcToRoiMap M rois) w (iid i) obj"
        unfolding from_access_def using F c by blast
      have "(n', obj') = (iid i, obj) \<and> w' = w \<or> (n', obj') \<in> set (obj_map w' s)"
        if "(n', obj') \<in> set (obj_map w' s')" for w' n' obj'
        using that in_um_assignD [of "(n', obj')"] unfolding s' obj_map_def by (auto split: if_splits)
      then show ?thesis using new P by blast
    qed (use P in simp)
  qed (simp add: obj_map_def)
  then show ?thesis using assms(2) by blast
qed

lemma fold_opt_total: "(\<And>x s. f x s \<noteq> None) \<Longrightarrow> fold_opt f xs s \<noteq> None"
proof (induction xs arbitrary: s)
  case (Cons x xs)
  then show ?case using Cons.prems [of x s] by (cases "f x s") auto
qed simp

lemma visit_touches_aborts_never: "visit_touches DT PDT M g toRun rois \<noteq> None"
  unfolding visit_touches_def visit_functions_def
  by (intro fold_opt_total) (auto simp: visitLoadStoreInst_def visitInstObjGranularity_def visitInstPtrGranularity_def
      is_load_store_def split: inst_kind.splits option.splits)

text \<open>Each region is listed under the function that holds its start.\<close>

lemma funcToRoiMap_complete:
  assumes "r \<in> set rois" "function_of M (roi_start r) = Some F"
  shows "\<exists>rs. map_of (funcToRoiMap M rois) (fname F) = Some rs \<and> r \<in> set rs"
proof -
  have keep: "\<exists>rs. map_of (fold (add_roi M) qs m) f = Some rs \<and> r \<in> set rs"
    if "\<exists>rs. map_of m f = Some rs \<and> r \<in> set rs" for qs m f
    using that
  proof (induction qs arbitrary: m)
    case (Cons q qs)
    have "\<exists>rs. map_of (add_roi M q m) f = Some rs \<and> r \<in> set rs"
      using Cons.prems by (auto simp: add_roi_def split: option.splits)
    then show ?case using Cons.IH by simp
  qed simp
  have "\<exists>rs. map_of (fold (add_roi M) qs m) (fname F) = Some rs \<and> r \<in> set rs" if "r \<in> set qs" for qs m
    using that
  proof (induction qs arbitrary: m)
    case (Cons q qs)
    show ?case
    proof (cases "r \<in> set qs")
      case False
      then have "\<exists>rs. map_of (add_roi M q m) (fname F) = Some rs \<and> r \<in> set rs"
        using Cons.prems assms(2) by (auto simp: add_roi_def)
      then show ?thesis using keep by simp
    qed (use Cons in simp)
  qed simp
  then show ?thesis using assms(1) unfolding funcToRoiMap_def by blast
qed

section \<open>Skipped accesses\<close>

lemma set_set_union: "(\<And>x y. lt x y \<or> lt y x \<or> x = y) \<Longrightarrow> set (set_union lt xs ys) = set xs \<union> set ys"
  by (induction lt xs ys rule: set_union.induct) (auto, metis+)

text \<open>
  The contract of the engine: \<open>GEN\<close> is what \<open>computeGEN\<close> makes of it, \<open>OUT\<close> satisfies its equation, and \<open>IN\<close> lies
  within its initial value and no longer shrinks when it meets the \<open>OUT\<close> of a predecessor.
\<close>

definition forward_solution :: "func \<Rightarrow> (nat \<Rightarrow> DataFlowResult \<Rightarrow> DataFlowResult) \<Rightarrow> (nat \<Rightarrow> val set \<Rightarrow> val set) \<Rightarrow>
    (nat \<Rightarrow> val set \<Rightarrow> val set) \<Rightarrow> (nat \<Rightarrow> val set \<Rightarrow> nat \<Rightarrow> DataFlowResult \<Rightarrow> val set) \<Rightarrow>
    (nat \<Rightarrow> val set \<Rightarrow> DataFlowResult \<Rightarrow> val set) \<Rightarrow> DataFlowResult \<Rightarrow> bool" where
  "forward_solution F gen initIN initOUT compIN compOUT df \<longleftrightarrow>
     (\<forall>i \<in> iid ` set (func_insts F).
        GEN df i = GEN (gen i \<lparr>GEN = (\<lambda>_. {}), KILL = (\<lambda>_. {}), IN = (\<lambda>_. {}), OUT = (\<lambda>_. {})\<rparr>) i
        \<and> OUT df i = compOUT i (initOUT i {}) df
        \<and> IN df i \<subseteq> initIN i {}
        \<and> (\<forall>p \<in> set (predecessors F i). compIN i (IN df i) p df = IN df i))"

abbreviation solves :: "func \<Rightarrow> (nat \<times> val) list \<Rightarrow> DataFlowResult \<Rightarrow> bool" where
  "solves F m \<equiv> forward_solution F (computeGEN m) (initializeIN m F) initializeOUT computeIN computeOUT"

lemma edge_insts:
  assumes "(i, j) \<in> set (cfg_edges F)"
  shows "i \<in> iid ` set (func_insts F)" "j \<in> iid ` set (func_insts F)"
proof -
  have c: "a \<in> iid ` set is \<and> b \<in> iid ` set is" if "(a, b) \<in> set (chain is)" for a b "is"
    using that by (induction "is" rule: chain.induct) auto
  obtain b where b: "b \<in> set (blocks F)" "(i, j) \<in> set (chain (insts b)) \<or> (i, j) \<in> set (jump_edges F b)"
    using assms by (auto simp: cfg_edges_def)
  have "i \<in> iid ` set (insts b) \<and> (\<exists>c \<in> set (blocks F). j \<in> iid ` set (insts c))"
  proof (cases "(i, j) \<in> set (chain (insts b))")
    case True
    then show ?thesis using c b(1) by blast
  next
    case False
    then have je: "(i, j) \<in> set (jump_edges F b)" using b(2) by simp
    then obtain s x where s: "List.find (\<lambda>c. bid c = s) (blocks F) = Some x" "insts x \<noteq> []" "insts b \<noteq> []"
      "i = iid (last (insts b))" "j = iid (hd (insts x))"
      by (auto simp: jump_edges_def split: if_splits option.splits dest: sym)
    then have "x \<in> set (blocks F)" by (auto simp: find_Some_iff)
    then show ?thesis using s by (auto intro!: bexI [of _ x])
  qed
  then show "i \<in> iid ` set (func_insts F)" "j \<in> iid ` set (func_insts F)"
    using b(1) by (auto simp: func_insts_def)
qed

lemma solution_step:
  assumes "solves F m df" "(i, j) \<in> set (cfg_edges F)" "v \<in> IN df j"
  shows "map_of m i = Some v \<or> v \<in> IN df i"
proof -
  have i: "i \<in> iid ` set (func_insts F)" and j: "j \<in> iid ` set (func_insts F)" using edge_insts [OF assms(2)] by auto
  have "i \<in> set (predecessors F j)" using assms(2) by (force simp: predecessors_def)
  then have "v \<in> OUT df i" using assms(1,3) j unfolding forward_solution_def computeIN_def by blast
  then have "v \<in> GEN df i \<union> IN df i" using assms(1) i by (auto simp: forward_solution_def computeOUT_def initializeOUT_def)
  moreover have "GEN df i = (case map_of m i of None \<Rightarrow> {} | Some obj \<Rightarrow> {obj})"
    using assms(1) i by (auto simp: forward_solution_def computeGEN_def split: option.splits)
  ultimately show ?thesis by (auto split: option.splits)
qed

lemma is_walk_snoc: "is_walk F (p @ [i, j]) \<longleftrightarrow> is_walk F (p @ [i]) \<and> (i, j) \<in> set (cfg_edges F)"
  by (induction F p rule: is_walk.induct) auto

text \<open>A value that reaches the entry of an instruction was generated on every path to it.\<close>

lemma reaching_value_generated:
  assumes "solves F m df" "entry_path F (p @ [i])" "i \<in> iid ` set (func_insts F)" "v \<in> IN df i"
  shows "\<exists>j \<in> set p. map_of m j = Some v"
  using assms(2-4)
proof (induction p arbitrary: i rule: rev_induct)
  case Nil
  then have "entry_inst F = i" by (simp add: entry_path_def)
  then have "IN df i = {}" using assms(1) Nil.prems(2) by (force simp: forward_solution_def initializeIN_def)
  then show ?case using Nil.prems(3) by simp
next
  case (snoc k p)
  then have e: "(k, i) \<in> set (cfg_edges F)" and w: "entry_path F (p @ [k])"
    by (auto simp: entry_path_def is_walk_snoc hd_append)
  from solution_step [OF assms(1) e snoc.prems(3)] show ?case
  proof
    assume "v \<in> IN df k"
    then show ?thesis using snoc.IH [OF w] edge_insts [OF e] by auto
  qed simp
qed

lemma is_walk_join: "is_walk F (a @ x # b) \<longleftrightarrow> is_walk F (a @ [x]) \<and> is_walk F (x # b)"
  by (induction F a rule: is_walk.induct) auto

lemma entry_path_prefix: "entry_path F (a @ x # b) \<Longrightarrow> entry_path F (a @ [x])"
  using is_walk_join [of F a x b] by (cases a) (auto simp: entry_path_def)

lemma walk_inst:
  assumes "entry_path F (a @ n # b)" "b \<noteq> []"
  shows "n \<in> iid ` set (func_insts F)"
proof -
  have "is_walk F (n # b)" using assms(1) is_walk_join [of F a n b] by (simp add: entry_path_def)
  then show ?thesis using assms(2) edge_insts by (cases b) auto
qed

text \<open>
  An instruction that dominates every generation of a value cuts the path: the value was generated after the last
  time the instruction was executed, because the path that reaches it for the first time has generated nothing.
\<close>

lemma generated_since:
  assumes "solves F m df" "entry_path F (q @ d # p2 @ [i])" "i \<in> iid ` set (func_insts F)" "v \<in> IN df i"
    and fresh: "map_of m d \<noteq> Some v"
    and dom: "\<And>j a. map_of m j = Some v \<Longrightarrow> j \<in> iid ` set (func_insts F) \<Longrightarrow> entry_path F (a @ [j]) \<Longrightarrow> d \<in> set (a @ [j])"
  shows "\<exists>j \<in> set p2. map_of m j = Some v"
proof -
  obtain q0 rest where q0: "q @ [d] = q0 @ d # rest" "d \<notin> set q0"
    using split_list_first [of d "q @ [d]"] by auto
  have "entry_path F (q @ [d])" by (rule entry_path_prefix [OF assms(2)])
  then have first: "entry_path F (q0 @ [d])" unfolding q0(1) by (rule entry_path_prefix)
  have "is_walk F (d # p2 @ [i])" using assms(2) is_walk_join [of F q d "p2 @ [i]"] by (simp add: entry_path_def)
  then have path: "entry_path F ((q0 @ d # p2) @ [i])"
    using first is_walk_join [of F q0 d "p2 @ [i]"] by (cases q0) (auto simp: entry_path_def)
  obtain j where j: "j \<in> set (q0 @ d # p2)" "map_of m j = Some v"
    using reaching_value_generated [OF assms(1) path assms(3,4)] by blast
  have "j \<notin> set q0"
  proof
    assume "j \<in> set q0"
    then obtain a b where ab: "q0 = a @ j # b" by (meson split_list)
    have ep: "entry_path F (a @ j # b @ [d])" using first ab by simp
    from dom [OF j(2) walk_inst [OF ep] entry_path_prefix [OF ep]] have "d \<in> set q0" using ab by auto
    then show False using q0(2) by simp
  qed
  moreover have "j \<noteq> d" using fresh j(2) by blast
  ultimately show ?thesis using j by auto
qed

lemma skip_dataflow:
  assumes wf: "wf_module M" "set fs \<subseteq> set (m_functions M)" and F: "F \<in> set fs" "i \<in> set (func_insts F)"
    and skip: "iid i \<in> set (getInstsToSkip (getFuncToDfrMap ap m fs) m fs)"
  shows "\<exists>v. map_of m (iid i) = Some v
    \<and> v \<in> IN (ap F (computeGEN m) computeKILL (initializeIN m F) initializeOUT computeIN computeOUT) (iid i)"
proof -
  let ?df = "\<lambda>F. ap F (computeGEN m) computeKILL (initializeIN m F) initializeOUT computeIN computeOUT"
  obtain G where G: "G \<in> set fs" and sel: "iid i \<in> set (case map_of (getFuncToDfrMap ap m fs) (fname G) of
        None \<Rightarrow> []
      | Some dfr \<Rightarrow> map iid (filter (\<lambda>i. case map_of m (iid i) of None \<Rightarrow> False | Some obj \<Rightarrow> obj \<in> IN dfr (iid i)) (func_insts G)))"
    using skip by (auto simp: getInstsToSkip_def)
  then obtain dfr where dfr: "map_of (getFuncToDfrMap ap m fs) (fname G) = Some dfr"
    by (cases "map_of (getFuncToDfrMap ap m fs) (fname G)") simp_all
  obtain j v where j: "j \<in> set (func_insts G)" "iid j = iid i" "map_of m (iid j) = Some v" "v \<in> IN dfr (iid j)"
    using sel unfolding dfr by (auto split: option.splits)
  have FG: "F = G" by (rule wf_same_function [OF wf(1) _ _ F(2) j(1)]) (use wf(2) F(1) G j(2) in auto)
  obtain H where H: "H \<in> set fs" "fname H = fname G" "dfr = ?df H"
    using map_of_SomeD [OF dfr] by (auto simp: getFuncToDfrMap_def)
  have "H = G" using wf_same_name [OF wf(1)] wf(2) H(1,2) G by blast
  then show ?thesis using H(3) FG j by auto
qed

lemma visit_touches_distinct:
  assumes "visit_touches DT PDT M g toRun rois = Some st"
  shows "distinct_keys (obj_map w st)"
proof -
  let ?P = "\<lambda>s. \<forall>w. distinct_keys (obj_map w s)"
  have "?P st"
  proof (rule visit_functions_invariant [OF assms [unfolded visit_touches_def], of ?P])
    fix F i s s'
    assume P: "?P s" and v: "(if is_load_store (kind i)
        then visitLoadStoreInst DT PDT M g toRun (funcToRoiMap M rois) (fname F) i s else Some s) = Some s'"
    have keys: "distinct_keys (instToObjMapLoad s)" "distinct_keys (instToObjMapStore s)"
      using P by (auto simp: obj_map_def dest: spec [of _ True] spec [of _ False])
    show "?P s'"
    proof (cases "s' = s")
      case False
      then have "visitLoadStoreInst DT PDT M g toRun (funcToRoiMap M rois) (fname F) i s = Some s'"
        using v by (auto split: if_splits)
      from visitLoadStoreInst_maps [OF this] False show ?thesis using keys by (auto simp: obj_map_def)
    qed (use P in simp)
  qed (simp add: obj_map_def)
  then show ?thesis by blast
qed

text \<open>The map entry of an instruction of a function says what the instruction touches.\<close>

lemma map_entry:
  assumes "wf_module M" "F \<in> set (m_functions M)" "i \<in> set (func_insts F)"
    and "visit_touches DT PDT M g toRun rois = Some st" "map_of (obj_map w st) (iid i) = Some v"
  shows "tracked_object M g (kind i) = Some (w, v)" "considerThisInst DT PDT (funcToRoiMap M rois) (fname F) (iid i)"
proof -
  have "from_access DT PDT M g (funcToRoiMap M rois) w (iid i) v"
    using visit_touches_sound [OF assms(4)] map_of_SomeD [OF assms(5)] by blast
  then obtain G j where G: "G \<in> set (m_functions M)" "j \<in> set (func_insts G)" "iid j = iid i"
    "tracked_object M g (kind j) = Some (w, v)" "considerThisInst DT PDT (funcToRoiMap M rois) (fname G) (iid i)"
    unfolding from_access_def by blast
  have "F = G" by (rule wf_same_function [OF assms(1,2) G(1) assms(3) G(2)]) (simp add: G(3))
  moreover have "i = j"
    by (rule wf_same_inst [OF assms(1) func_insts_module [OF assms(2,3)] func_insts_module [OF G(1,2)]]) (simp add: G(3))
  ultimately show "tracked_object M g (kind i) = Some (w, v)"
    "considerThisInst DT PDT (funcToRoiMap M rois) (fname F) (iid i)" using G by auto
qed

lemma skip_in_one_map:
  assumes "\<And>x y. lt x y \<or> lt y x \<or> x = y" "visit_touches DT PDT M g (map fname fs) rois = Some st"
    "getTouchSameObjectInsts ap lt DT PDT M fs rois g = Some skip" "n \<in> set skip"
  shows "\<exists>w. n \<in> set (getInstsToSkip (getFuncToDfrMap ap (obj_map w st) fs) (obj_map w st) fs)"
proof -
  have "n \<in> set (getInstsToSkip (getFuncToDfrMap ap (obj_map False st) fs) (obj_map False st) fs)
      \<union> set (getInstsToSkip (getFuncToDfrMap ap (obj_map True st) fs) (obj_map True st) fs)"
    using assms(2-4) by (auto simp: getTouchSameObjectInsts_def Let_def obj_map_def set_set_union [OF assms(1)])
  then show ?thesis by blast
qed

definition dominance :: "(string \<Rightarrow> nat \<Rightarrow> nat \<Rightarrow> bool) \<Rightarrow> func \<Rightarrow> bool" where
  "dominance DT F \<longleftrightarrow> (\<forall>a b q. DT (fname F) a b \<and> entry_path F (q @ [b]) \<longrightarrow> a \<in> set (q @ [b]))"

text \<open>
  C27: a skipped access repeats an earlier access. On every path from the entry of a function to a load (store) that
  \<open>getTouchSameObjectInsts\<close> lets the pass skip, the path made an earlier load (store) of the same tracked object in the
  function; and when the path passes the start of a region of the function, it made such an access after every start it
  passed, so also within the execution of the region that is under way. That the earlier access is itself reported to the
  runtime is not part of this: the pass may leave it out for another reason. The engine is only assumed to solve the equations it is
  given, and the tree \<open>DT\<close> to contain dominators only.
\<close>

theorem skipped_access_repeats:
  assumes engine: "\<And>m. solves F m (ap F (computeGEN m) computeKILL (initializeIN m F) initializeOUT computeIN computeOUT)"
    and order: "\<And>x y. lt x y \<or> lt y x \<or> x = y"
    and trees: "dominance DT F"
    and wf: "wf_module M" "set fs \<subseteq> set (m_functions M)" "F \<in> set fs" "i \<in> set (func_insts F)"
    and starts: "\<forall>r \<in> set rois. calls M f (roi_start r)"
    and skip: "getTouchSameObjectInsts ap lt DT PDT M fs rois g = Some skip" "iid i \<in> set skip"
    and path: "entry_path F (p @ [iid i])"
  shows "\<exists>w obj. tracked_object M g (kind i) = Some (w, obj)
    \<and> (\<exists>j \<in> set (func_insts F). iid j \<in> set p \<and> tracked_object M g (kind j) = Some (w, obj))
    \<and> (\<forall>r \<in> set rois. \<forall>q p2. function_of M (roi_start r) = Some F \<and> p = q @ roi_start r # p2 \<longrightarrow>
         (\<exists>j \<in> set (func_insts F). iid j \<in> set p2 \<and> tracked_object M g (kind j) = Some (w, obj)))"
proof -
  obtain st where st: "visit_touches DT PDT M g (map fname fs) rois = Some st" using visit_touches_aborts_never by blast
  obtain w where w: "iid i \<in> set (getInstsToSkip (getFuncToDfrMap ap (obj_map w st) fs) (obj_map w st) fs)"
    using skip_in_one_map [OF order st skip] by blast
  let ?m = "obj_map w st"
  let ?df = "ap F (computeGEN ?m) computeKILL (initializeIN ?m F) initializeOUT computeIN computeOUT"
  obtain v where v: "map_of ?m (iid i) = Some v" "v \<in> IN ?df (iid i)"
    using skip_dataflow [OF wf w] by blast
  have FM: "F \<in> set (m_functions M)" using wf(2,3) by blast
  have ii: "iid i \<in> iid ` set (func_insts F)" using wf(4) by blast
  note me = map_entry [OF wf(1) FM _ st]
  have entry: "\<exists>j \<in> set (func_insts F). iid j = n \<and> tracked_object M g (kind j) = Some (w, v)"
    if n: "map_of ?m n = Some v" and np: "n \<in> set p" for n
  proof -
    obtain a b where "p = a @ n # b" using np by (meson split_list)
    then have "n \<in> iid ` set (func_insts F)" using walk_inst [of F a n "b @ [iid i]"] path by simp
    then obtain j where "j \<in> set (func_insts F)" "iid j = n" by blast
    then show ?thesis using me(1) [of j w v] n by blast
  qed
  have since: "\<exists>j \<in> set (func_insts F). iid j \<in> set p2 \<and> tracked_object M g (kind j) = Some (w, v)"
    if r: "r \<in> set rois" "function_of M (roi_start r) = Some F" and p: "p = q @ roi_start r # p2" for r q p2
  proof -
    have nostart: "map_of ?m (roi_start r) \<noteq> Some v"
    proof
      assume a: "map_of ?m (roi_start r) = Some v"
      obtain c where c: "c \<in> set (module_insts M)" "iid c = roi_start r" "isCallBase (kind c)"
        using starts r(1) unfolding calls_def by blast
      obtain j where j: "j \<in> set (func_insts F)" "iid j = roi_start r" "tracked_object M g (kind j) = Some (w, v)"
        using entry [OF a] p by auto
      have "c = j" by (rule wf_same_inst [OF wf(1) c(1) func_insts_module [OF FM j(1)]]) (simp add: c(2) j(2))
      then show False using c(3) j(3) by (auto simp: isCallBase_def tracked_object_def split: inst_kind.splits)
    qed
    have dom: "roi_start r \<in> set (a @ [n])"
      if n: "map_of ?m n = Some v" "n \<in> iid ` set (func_insts F)" and ep: "entry_path F (a @ [n])" for n a
    proof -
      have "considerThisInst DT PDT (funcToRoiMap M rois) (fname F) n" using me(2) n by auto
      moreover obtain rs where "map_of (funcToRoiMap M rois) (fname F) = Some rs" "r \<in> set rs"
        using funcToRoiMap_complete [OF r] by blast
      ultimately have "DT (fname F) (roi_start r) n" by (simp add: considerThisInst_def)
      then show ?thesis using trees ep unfolding dominance_def by blast
    qed
    have "entry_path F (q @ roi_start r # p2 @ [iid i])" using path p by simp
    then have "\<exists>n \<in> set p2. map_of ?m n = Some v" by (rule generated_since [OF engine _ ii v(2) nostart dom])
    then obtain n where "n \<in> set p2" "map_of ?m n = Some v" by blast
    then show ?thesis using entry [of n] p by auto
  qed
  have "\<exists>n \<in> set p. map_of ?m n = Some v" by (rule reaching_value_generated [OF engine path ii v(2)])
  then have "\<exists>j \<in> set (func_insts F). iid j \<in> set p \<and> tracked_object M g (kind j) = Some (w, v)" using entry by blast
  then show ?thesis using me(1) [OF wf(4) v(1)] since by blast
qed

section \<open>A solver and an example\<close>

text \<open>
  A round-robin solver: the equations are applied to every instruction in order, \<open>n\<close> times. When the result is not stable yet, the solution without any fact is returned.
\<close>

definition flow_result :: "DataFlowResult \<Rightarrow> (nat \<times> val set \<times> val set) list \<Rightarrow> DataFlowResult" where
  "flow_result df0 tbl =
     df0\<lparr>IN := (\<lambda>i. case map_of tbl i of None \<Rightarrow> IN df0 i | Some (inp, out) \<Rightarrow> inp),
         OUT := (\<lambda>i. case map_of tbl i of None \<Rightarrow> OUT df0 i | Some (inp, out) \<Rightarrow> out)\<rparr>"

definition sweep_entry :: "func \<Rightarrow> (nat \<Rightarrow> val set \<Rightarrow> val set) \<Rightarrow> (nat \<Rightarrow> val set \<Rightarrow> nat \<Rightarrow> DataFlowResult \<Rightarrow> val set) \<Rightarrow>
    (nat \<Rightarrow> val set \<Rightarrow> DataFlowResult \<Rightarrow> val set) \<Rightarrow> DataFlowResult \<Rightarrow> nat \<Rightarrow> val set \<Rightarrow> val set \<times> val set" where
  "sweep_entry F initOUT compIN compOUT df i inp = (inp, compOUT i (initOUT i {}) (df\<lparr>IN := (\<lambda>_. inp)\<rparr>))"

definition sweep_step :: "func \<Rightarrow> (nat \<Rightarrow> val set \<Rightarrow> val set) \<Rightarrow> (nat \<Rightarrow> val set \<Rightarrow> nat \<Rightarrow> DataFlowResult \<Rightarrow> val set) \<Rightarrow>
    (nat \<Rightarrow> val set \<Rightarrow> DataFlowResult \<Rightarrow> val set) \<Rightarrow> DataFlowResult \<Rightarrow> nat \<Rightarrow> (nat \<times> val set \<times> val set) list \<Rightarrow>
    (nat \<times> val set \<times> val set) list" where
  "sweep_step F initOUT compIN compOUT df0 i tbl =
     AList.update i (sweep_entry F initOUT compIN compOUT (flow_result df0 tbl) i
       (fold (\<lambda>p s. compIN i s p (flow_result df0 tbl)) (predecessors F i) (IN (flow_result df0 tbl) i))) tbl"

definition checked_result :: "func \<Rightarrow> (nat \<Rightarrow> DataFlowResult \<Rightarrow> DataFlowResult) \<Rightarrow> (nat \<Rightarrow> val set \<Rightarrow> val set) \<Rightarrow>
    (nat \<Rightarrow> val set \<Rightarrow> val set) \<Rightarrow> (nat \<Rightarrow> val set \<Rightarrow> nat \<Rightarrow> DataFlowResult \<Rightarrow> val set) \<Rightarrow>
    (nat \<Rightarrow> val set \<Rightarrow> DataFlowResult \<Rightarrow> val set) \<Rightarrow> DataFlowResult \<Rightarrow> (nat \<times> val set \<times> val set) list \<Rightarrow> DataFlowResult" where
  "checked_result F gen initIN initOUT compIN compOUT df0 tbl =
     (if forward_solution F gen initIN initOUT compIN compOUT (flow_result df0 tbl) then flow_result df0 tbl
      else df0\<lparr>IN := (\<lambda>_. {}), OUT := (\<lambda>i. compOUT i (initOUT i {}) (df0\<lparr>IN := (\<lambda>_. {})\<rparr>))\<rparr>)"

definition sweeps :: "nat \<Rightarrow> func \<Rightarrow> (nat \<Rightarrow> DataFlowResult \<Rightarrow> DataFlowResult) \<Rightarrow> (nat \<Rightarrow> val set \<Rightarrow> val set) \<Rightarrow>
    (nat \<Rightarrow> val set \<Rightarrow> val set) \<Rightarrow> (nat \<Rightarrow> val set \<Rightarrow> nat \<Rightarrow> DataFlowResult \<Rightarrow> val set) \<Rightarrow>
    (nat \<Rightarrow> val set \<Rightarrow> DataFlowResult \<Rightarrow> val set) \<Rightarrow> DataFlowResult \<Rightarrow> DataFlowResult" where
  "sweeps n F gen initIN initOUT compIN compOUT df0 =
     checked_result F gen initIN initOUT compIN compOUT df0
       ((fold (sweep_step F initOUT compIN compOUT df0) (map iid (func_insts F)) ^^ n) [])"

definition round_robin :: "nat \<Rightarrow> forward_engine" where
  "round_robin n F gen kill initIN initOUT compIN compOUT =
     sweeps n F gen initIN initOUT compIN compOUT
       (fold gen (map iid (func_insts F))
          \<lparr>GEN = (\<lambda>_. {}), KILL = (\<lambda>_. {}), IN = (\<lambda>i. initIN i {}), OUT = (\<lambda>i. initOUT i {})\<rparr>)"

lemma GEN_fold: "GEN (fold (computeGEN m) is df) i
  = GEN df i \<union> (if i \<in> set is then (case map_of m i of None \<Rightarrow> {} | Some v \<Rightarrow> {v}) else {})"
  by (induction "is" arbitrary: df) (auto simp: computeGEN_def split: option.splits)

lemma round_robin_solves:
  "solves F m (round_robin n F (computeGEN m) computeKILL (initializeIN m F) initializeOUT computeIN computeOUT)"
  by (auto simp: round_robin_def sweeps_def checked_result_def)
     (auto simp: forward_solution_def computeIN_def computeOUT_def initializeOUT_def GEN_fold computeGEN_def
       split: option.splits)

definition touch_sample :: func where
  "touch_sample = plain_func ''f''
     [\<lparr>bid = 0, insts = [inst_num 1 (CallInst (FuncV MEMORYTOOL_START_TRACKING) []), inst_num 2 (LoadInst (ArgV ''f'' 0)),
        inst_num 3 (CondBranchInst (InstV 2) 1 2)]\<rparr>,
      \<lparr>bid = 1, insts = [inst_num 4 (StoreInst (InstV 2) (ArgV ''f'' 0)), inst_num 5 (BranchInst 2)]\<rparr>,
      \<lparr>bid = 2, insts = [inst_num 6 (LoadInst (ArgV ''f'' 0)), inst_num 7 (StoreInst (InstV 6) (ArgV ''f'' 0)),
        inst_num 8 (CallInst (FuncV MEMORYTOOL_STOP_TRACKING) [InstV 1]), inst_num 9 (ReturnInst None)]\<rparr>]"

definition touch_module :: llvm_module where
  "touch_module = \<lparr>m_functions = [plain_func MEMORYTOOL_START_TRACKING [], plain_func MEMORYTOOL_STOP_TRACKING [], touch_sample],
     m_globals = [], nextId = 40\<rparr>"

definition sample_DT :: "string \<Rightarrow> nat \<Rightarrow> nat \<Rightarrow> bool" where
  "sample_DT f a b \<longleftrightarrow> a = 1"

definition sample_PDT :: "string \<Rightarrow> nat \<Rightarrow> nat \<Rightarrow> bool" where
  "sample_PDT f a b \<longleftrightarrow> a = 8 \<and> b \<noteq> 9"

definition sample_map :: "bool \<Rightarrow> (nat \<times> val) list" where
  "sample_map w = (if w then [(4, ArgV ''f'' 0), (7, ArgV ''f'' 0)] else [(2, ArgV ''f'' 0), (6, ArgV ''f'' 0)])"

definition sample_start :: "bool \<Rightarrow> DataFlowResult" where
  "sample_start w = fold (computeGEN (sample_map w)) (map iid (func_insts touch_sample))
     \<lparr>GEN = (\<lambda>_. {}), KILL = (\<lambda>_. {}), IN = (\<lambda>i. initializeIN (sample_map w) touch_sample i {}), OUT = (\<lambda>i. initializeOUT i {})\<rparr>"

definition touch_table :: "bool \<Rightarrow> (nat \<times> val set \<times> val set) list" where
  "touch_table w = fold (sweep_step touch_sample initializeOUT computeIN computeOUT (sample_start w)) (map iid (func_insts touch_sample)) []"

lemma sample_tables:
  "visit_touches sample_DT sample_PDT touch_module False [''f''] [\<lparr>roi_start = 1, roi_stops = [8]\<rparr>]
     = Some \<lparr>instToObjMapLoad = sample_map False, instToObjMapStore = sample_map True\<rparr>"
  "solves touch_sample (sample_map False) (flow_result (sample_start False) (touch_table False))"
  "solves touch_sample (sample_map True) (flow_result (sample_start True) (touch_table True))"
  "getInstsToSkip [(''f'', flow_result (sample_start False) (touch_table False))] (sample_map False) [touch_sample] = [6]"
  "getInstsToSkip [(''f'', flow_result (sample_start True) (touch_table True))] (sample_map True) [touch_sample] = []"
  by code_simp+

lemma sample_round_robin:
  "round_robin 1 touch_sample (computeGEN (sample_map w)) computeKILL (initializeIN (sample_map w) touch_sample) initializeOUT
     computeIN computeOUT = flow_result (sample_start w) (touch_table w)"
  unfolding round_robin_def sweeps_def sample_start_def [symmetric] checked_result_def
  using sample_tables(2,3) by (cases w) (simp_all add: touch_table_def)

lemma touch_sample_skips:
  "getTouchSameObjectInsts (round_robin 1) (<) sample_DT sample_PDT touch_module [touch_sample]
     [\<lparr>roi_start = 1, roi_stops = [8]\<rparr>] False = Some [6]"
proof -
  have "fname touch_sample = ''f''" by (simp add: touch_sample_def plain_func_def)
  then show ?thesis
    by (simp add: getTouchSameObjectInsts_def sample_tables getFuncToDfrMap_def sample_round_robin us_insert_all_def us_insert_def
        del: One_nat_def)
qed

lemma touch_sample_facts:
  "wf_module touch_module" "entry_inst touch_sample = 1" "entry_path touch_sample ([1, 2, 3] @ [6])"
  "inst_num 6 (LoadInst (ArgV ''f'' 0)) \<in> set (func_insts touch_sample)"
  "function_of touch_module 1 = Some touch_sample"
  "\<exists>i \<in> set (module_insts touch_module). iid i = 1 \<and> isCallBase (kind i)
     \<and> getCalledFunction (kind i) = Some MEMORYTOOL_START_TRACKING"
  by code_simp+

lemma sample_dominance: "dominance sample_DT touch_sample"
proof -
  have "1 \<in> set (q @ [b])" if "entry_path touch_sample (q @ [b])" for q b
    using that touch_sample_facts(2) by (cases q) (auto simp: entry_path_def)
  then show ?thesis by (auto simp: dominance_def sample_DT_def)
qed

theorem skipped_access_repeats_witness:
  "\<exists>skip. getTouchSameObjectInsts (round_robin 1) (<) sample_DT sample_PDT touch_module [touch_sample]
       [\<lparr>roi_start = 1, roi_stops = [8]\<rparr>] False = Some skip \<and> 6 \<in> set skip
     \<and> entry_path touch_sample ([1, 2, 3] @ [6])
     \<and> (\<exists>j \<in> set (func_insts touch_sample). iid j \<in> {2, 3} \<and>
          tracked_object touch_module False (kind j) = tracked_object touch_module False (LoadInst (ArgV ''f'' 0)))"
proof -
  let ?i = "inst_num 6 (LoadInst (ArgV ''f'' 0))"
  have id: "iid ?i = 6" "kind ?i = LoadInst (ArgV ''f'' 0)" by (simp_all add: inst_num_def)
  have "\<exists>w obj. tracked_object touch_module False (kind ?i) = Some (w, obj)
    \<and> (\<exists>j \<in> set (func_insts touch_sample). iid j \<in> set [1, 2, 3]
        \<and> tracked_object touch_module False (kind j) = Some (w, obj))
    \<and> (\<forall>r \<in> set [\<lparr>roi_start = 1, roi_stops = [8]\<rparr>]. \<forall>q p2. function_of touch_module (roi_start r) = Some touch_sample
         \<and> [1, 2, 3] = q @ roi_start r # p2 \<longrightarrow>
         (\<exists>j \<in> set (func_insts touch_sample). iid j \<in> set p2 \<and> tracked_object touch_module False (kind j) = Some (w, obj)))"
  proof (rule skipped_access_repeats [where ap = "round_robin 1" and lt = "(<)" and DT = sample_DT and PDT = sample_PDT
        and fs = "[touch_sample]" and skip = "[6]" and f = "MEMORYTOOL_START_TRACKING"])
    show "set [touch_sample] \<subseteq> set (m_functions touch_module)" by (simp add: touch_module_def)
    show "\<forall>r \<in> set [\<lparr>roi_start = 1, roi_stops = [8]\<rparr>]. calls touch_module MEMORYTOOL_START_TRACKING (roi_start r)"
      using touch_sample_facts(6) by (simp add: calls_def)
  qed (use touch_sample_facts touch_sample_skips sample_dominance round_robin_solves id in auto)
  then obtain w obj where "tracked_object touch_module False (kind ?i) = Some (w, obj)"
    and all: "\<And>q p2. [1, 2, 3] = q @ 1 # p2 \<Longrightarrow>
      \<exists>j \<in> set (func_insts touch_sample). iid j \<in> set p2 \<and> tracked_object touch_module False (kind j) = Some (w, obj)"
    using touch_sample_facts(5) by auto
  moreover from all [of "[]" "[2, 3]"] obtain j where "j \<in> set (func_insts touch_sample)" "iid j \<in> {2, 3}"
    "tracked_object touch_module False (kind j) = Some (w, obj)" by auto
  ultimately show ?thesis using touch_sample_skips touch_sample_facts(3) id by auto
qed

end
