(* ===== verification/Call_Graph_Pass.thy ===== *)
theory Call_Graph_Pass
  imports Touch_Same_Object
begin

text \<open>
  The walks over the call graph: which functions have their loads and stores instrumented (\<open>CatPass.cpp\<close>), which
  have a call stack the compiler knows to be unique (\<open>ClusterCallstackInstrumentation.cpp\<close>), and which are tagged
  to keep their local variables (\<open>tag_functions_with_opt_none\<close>). The call graph is NOELLE's and an argument: for
  each function the functions its outgoing edges lead to and those its incoming edges come from. The walks recurse
  on the host stack; the argument \<open>n\<close> bounds the depth of the recursion, and \<open>None\<close> is a recursion deeper than it.
\<close>

section \<open>The call graph\<close>

record call_graph =
  cg_nodes :: "string list"
  callees :: "string \<Rightarrow> string list"
  callers :: "string \<Rightarrow> string list"
  entryNode :: string

definition wf_call_graph :: "call_graph \<Rightarrow> bool" where
  "wf_call_graph g \<longleftrightarrow>
     (\<forall>f \<in> set (cg_nodes g). set (callees g f) \<subseteq> set (cg_nodes g) \<and> set (callers g f) \<subseteq> set (cg_nodes g)
        \<and> distinct (callers g f) \<and> (\<forall>h \<in> set (cg_nodes g). h \<in> set (callers g f) \<longleftrightarrow> f \<in> set (callees g h)))
     \<and> entryNode g \<in> set (cg_nodes g)"

definition graph_edges :: "('a \<Rightarrow> 'a list) \<Rightarrow> ('a \<times> 'a) set" where
  "graph_edges succ = {(x, y). y \<in> set (succ x)}"

section \<open>Functions to instrument\<close>

fun visitOutgoingEdges :: "nat \<Rightarrow> (string \<Rightarrow> string list) \<Rightarrow> string list \<Rightarrow> string list \<Rightarrow> string list option" where
  "visitOutgoingEdges 0 succ outgoingEdges visited = None"
| "visitOutgoingEdges (Suc n) succ [] visited = Some visited"
| "visitOutgoingEdges (Suc n) succ (function # outgoingEdges) visited =
     (if function \<in> set visited then visitOutgoingEdges (Suc n) succ outgoingEdges visited
      else Option.bind (visitOutgoingEdges n succ (succ function) (us_insert function visited))
             (visitOutgoingEdges (Suc n) succ outgoingEdges))"

definition getFunctionsThatCallStartTracking :: "llvm_module \<Rightarrow> call_graph \<Rightarrow> string list option" where
  "getFunctionsThatCallStartTracking M g =
     map_option (\<lambda>startTracking. us_insert_all (callers g (fname startTracking)) [])
       (getRuntimeFunction M MEMORYTOOL_START_TRACKING)"

fun visit_children :: "nat \<Rightarrow> call_graph \<Rightarrow> string list \<Rightarrow> string list \<Rightarrow> string list option" where
  "visit_children n g [] visited = Some visited"
| "visit_children n g (child # children) visited =
     Option.bind (visitOutgoingEdges n (callees g) (callees g child) visited) (visit_children n g children)"

definition getFunctionsToInstrumentLoadStore :: "nat \<Rightarrow> (string \<Rightarrow> string \<Rightarrow> bool) \<Rightarrow> llvm_module \<Rightarrow> call_graph \<Rightarrow> string list option" where
  "getFunctionsToInstrumentLoadStore n lt M g =
     Option.bind (getFunctionsThatCallStartTracking M g)
       (\<lambda>start. map_option (\<lambda>visited. us_insert_all (set_union lt start visited) []) (visit_children n g start []))"

section \<open>Functions with a unique call stack\<close>

fun visitDepthFirst :: "nat \<Rightarrow> call_graph \<Rightarrow> string \<Rightarrow> string list \<Rightarrow> string list option"
  and visit_callees :: "nat \<Rightarrow> call_graph \<Rightarrow> string list \<Rightarrow> string list \<Rightarrow> string list option" where
  "visitDepthFirst 0 g node unique = None"
| "visitDepthFirst (Suc n) g node unique =
     (if length (callers g node) > 1 then Some unique
      else visit_callees n g (callees g node) (us_insert node unique))"
| "visit_callees n g [] unique = Some unique"
| "visit_callees n g (f # fs) unique = Option.bind (visitDepthFirst n g f unique) (visit_callees n g fs)"

definition getUniqueCallstackFunctions :: "nat \<Rightarrow> call_graph \<Rightarrow> string list option" where
  "getUniqueCallstackFunctions n g = visitDepthFirst n g (entryNode g) []"

section \<open>Functions that keep their local variables\<close>

fun visit_tag :: "nat \<Rightarrow> call_graph \<Rightarrow> string \<Rightarrow> string list \<Rightarrow> string list option"
  and visit_incoming :: "nat \<Rightarrow> call_graph \<Rightarrow> string list \<Rightarrow> string list \<Rightarrow> string list option" where
  "visit_tag 0 g currentNode fs = None"
| "visit_tag (Suc n) g currentNode fs =
     (if currentNode \<in> set fs then Some fs
      else visit_incoming n g (callers g currentNode) (us_insert currentNode fs))"
| "visit_incoming n g [] fs = Some fs"
| "visit_incoming n g (c # cs) fs = Option.bind (visit_tag n g c fs) (visit_incoming n g cs)"

definition has_body :: "llvm_module \<Rightarrow> string \<Rightarrow> bool" where
  "has_body M f \<longleftrightarrow> (case getFunctionByName M f of None \<Rightarrow> False | Some F \<Rightarrow> \<not> fempty F)"

definition tag_findFunctionsToInstrument :: "nat \<Rightarrow> llvm_module \<Rightarrow> call_graph \<Rightarrow> string list option" where
  "tag_findFunctionsToInstrument n M g =
     (case getFunctionByName M MEMORYTOOL_START_TRACKING of
        None \<Rightarrow> Some []
      | Some F \<Rightarrow> map_option (filter (has_body M)) (visit_tag n g (fname F) []))"

definition getAllFunctions :: "llvm_module \<Rightarrow> string list" where
  "getAllFunctions M = us_insert_all (map fname (filter (\<lambda>F. \<not> fempty F) (m_functions M))) []"

definition OPTIMIZE_LOCALS_KIND :: string where
  "OPTIMIZE_LOCALS_KIND = ''OPTIMIZE_LOCALS_KIND''"

text \<open>The tagging pass: a function in the set gets the attributes and the metadata, the others lose \<open>optnone\<close>.\<close>

definition tagFunctionOptNone :: "func \<Rightarrow> func" where
  "tagFunctionOptNone F = F\<lparr>noInline := True, optNone := True\<rparr>"

definition rmTagFunctionOptNone :: "func \<Rightarrow> func" where
  "rmTagFunctionOptNone F = F\<lparr>optNone := False\<rparr>"

definition tagFunctionWithMetadata :: "func \<Rightarrow> func" where
  "tagFunctionWithMetadata F = F\<lparr>fmetadata := um_assign OPTIMIZE_LOCALS_KIND ''OPTIMIZE_LOCALS'' (fmetadata F)\<rparr>"

definition tagFunctionsOptNone :: "string list \<Rightarrow> llvm_module \<Rightarrow> llvm_module" where
  "tagFunctionsOptNone functionsToTag M =
     M\<lparr>m_functions := map (\<lambda>F. if fname F \<in> set functionsToTag then tagFunctionWithMetadata (tagFunctionOptNone F)
                              else rmTagFunctionOptNone F) (m_functions M)\<rparr>"

text \<open>\<open>remove_optnone\<close>, and \<open>findFunctionsToInstrument\<close> of the main pass, which reads the tags back.\<close>

definition removeOptNone :: "llvm_module \<Rightarrow> llvm_module" where
  "removeOptNone M = M\<lparr>m_functions := map (\<lambda>F. F\<lparr>optNone := False\<rparr>) (m_functions M)\<rparr>"

definition findFunctionsToInstrument :: "llvm_module \<Rightarrow> string list \<times> llvm_module" where
  "findFunctionsToInstrument M =
     (us_insert_all (map fname (filter (\<lambda>F. map_of (fmetadata F) OPTIMIZE_LOCALS_KIND \<noteq> None) (m_functions M))) [],
      M\<lparr>m_functions := map (\<lambda>F. if map_of (fmetadata F) OPTIMIZE_LOCALS_KIND \<noteq> None then F\<lparr>optNone := False\<rparr> else F)
                         (m_functions M)\<rparr>)"

section \<open>Exploration is reachability\<close>

text \<open>
  What a depth-first walk adds is closed under successors, and reachable from where it started; with more fuel
  than there are unvisited functions it returns.
\<close>

lemma visit_extends: "visitOutgoingEdges n succ es vis = Some res \<Longrightarrow> set vis \<union> set es \<subseteq> set res"
proof (induction n succ es vis arbitrary: res rule: visitOutgoingEdges.induct)
  case (3 n succ f es vis)
  show ?case
  proof (cases "f \<in> set vis")
    case False
    then obtain r where r: "visitOutgoingEdges n succ (succ f) (us_insert f vis) = Some r"
      "visitOutgoingEdges (Suc n) succ es r = Some res"
      using 3 by (auto simp: bind_eq_Some_conv)
    then show ?thesis using 3 False by fastforce
  qed (use 3 in auto)
qed auto

lemma visit_closed:
  "visitOutgoingEdges n succ es vis = Some res \<Longrightarrow> x \<in> set res - set vis \<Longrightarrow> set (succ x) \<subseteq> set res"
proof (induction n succ es vis arbitrary: res x rule: visitOutgoingEdges.induct)
  case (3 n succ f es vis)
  show ?case
  proof (cases "f \<in> set vis")
    case False
    then obtain r where r: "visitOutgoingEdges n succ (succ f) (us_insert f vis) = Some r"
      "visitOutgoingEdges (Suc n) succ es r = Some res"
      using 3 by (auto simp: bind_eq_Some_conv)
    have sub: "set (us_insert f vis) \<union> set (succ f) \<subseteq> set r" "set r \<subseteq> set res"
      using visit_extends [OF r(1)] visit_extends [OF r(2)] by auto
    consider "x = f" | "x \<in> set r - set (us_insert f vis)" | "x \<in> set res - set r" using 3 by auto
    then show ?thesis
    proof cases
      case 1
      then show ?thesis using sub by auto
    next
      case 2
      then show ?thesis using "3.IH"(2) [OF False r(1)] sub by blast
    next
      case 3
      then show ?thesis using "3.IH"(3) [OF False r(1) r(2)] by blast
    qed
  qed (use 3 in auto)
qed auto

lemma visit_reachable:
  "visitOutgoingEdges n succ es vis = Some res \<Longrightarrow> x \<in> set res \<Longrightarrow>
   x \<in> set vis \<or> (\<exists>e \<in> set es. (e, x) \<in> (graph_edges succ)\<^sup>*)"
proof (induction n succ es vis arbitrary: res x rule: visitOutgoingEdges.induct)
  case (3 n succ f es vis)
  show ?case
  proof (cases "f \<in> set vis")
    case False
    then obtain r where r: "visitOutgoingEdges n succ (succ f) (us_insert f vis) = Some r"
      "visitOutgoingEdges (Suc n) succ es r = Some res"
      using 3 by (auto simp: bind_eq_Some_conv)
    consider "x \<in> set r" | e where "e \<in> set es" "(e, x) \<in> (graph_edges succ)\<^sup>*"
      using "3.IH"(3) [OF False r(1) r(2)] "3.prems"(2) by blast
    then show ?thesis
    proof cases
      case 1
      then consider "x \<in> set vis" | "x = f" | e where "e \<in> set (succ f)" "(e, x) \<in> (graph_edges succ)\<^sup>*"
        using "3.IH"(2) [OF False r(1)] by auto
      then show ?thesis
      proof cases
        case 3
        then have "(f, x) \<in> (graph_edges succ)\<^sup>*"
          by (auto simp: graph_edges_def intro: converse_rtrancl_into_rtrancl)
        then show ?thesis by auto
      qed auto
    qed auto
  qed (use 3 in auto)
qed auto

lemma visit_returns:
  assumes "finite U" "\<And>x. x \<in> U \<Longrightarrow> set (succ x) \<subseteq> U"
  shows "set es \<subseteq> U \<Longrightarrow> card (U - set vis) < n \<Longrightarrow> \<exists>res. visitOutgoingEdges n succ es vis = Some res"
  using assms(2)
proof (induction n succ es vis rule: visitOutgoingEdges.induct)
  case (3 n succ f es vis)
  show ?case
  proof (cases "f \<in> set vis")
    case False
    have "card (U - set (us_insert f vis)) < card (U - set vis)"
      using False 3 assms(1) by (intro psubset_card_mono) auto
    then obtain r where r: "visitOutgoingEdges n succ (succ f) (us_insert f vis) = Some r"
      using "3.IH"(2) [OF False] 3 by auto
    have "card (U - set r) \<le> card (U - set vis)"
      using visit_extends [OF r] assms(1) by (intro card_mono) auto
    then show ?thesis using "3.IH"(3) [OF False r] 3 False r by auto
  qed (use 3 in auto)
qed auto

text \<open>A set that is closed under successors and was reached from the starting points holds exactly what they reach.\<close>

lemma closed_reachable:
  assumes "(x, y) \<in> (graph_edges succ)\<^sup>*" "x \<in> R" "\<And>z. z \<in> R \<Longrightarrow> set (succ z) \<subseteq> R"
  shows "y \<in> R"
  using assms by (induction rule: rtrancl_induct) (auto simp: graph_edges_def)

lemma visit_children_inv:
  assumes "visit_children n g cs vis = Some res" "\<And>x. x \<in> set vis \<Longrightarrow> set (callees g x) \<subseteq> set vis"
  shows "set vis \<subseteq> set res \<and> (\<forall>c \<in> set cs. set (callees g c) \<subseteq> set res)
    \<and> (\<forall>x \<in> set res. set (callees g x) \<subseteq> set res)
    \<and> (\<forall>x \<in> set res. x \<in> set vis \<or> (\<exists>c \<in> set cs. (c, x) \<in> (graph_edges (callees g))\<^sup>+))"
  using assms
proof (induction cs arbitrary: vis)
  case (Cons c cs)
  then obtain r where r: "visitOutgoingEdges n (callees g) (callees g c) vis = Some r" "visit_children n g cs r = Some res"
    by (auto simp: bind_eq_Some_conv)
  have ext: "set vis \<union> set (callees g c) \<subseteq> set r" by (rule visit_extends [OF r(1)])
  have closed: "set (callees g x) \<subseteq> set r" if "x \<in> set r" for x
    using visit_closed [OF r(1), of x] Cons.prems(2) [of x] ext that by (cases "x \<in> set vis") auto
  have reach: "x \<in> set vis \<or> (c, x) \<in> (graph_edges (callees g))\<^sup>+" if "x \<in> set r" for x
    using visit_reachable [OF r(1) that] by (auto simp: graph_edges_def intro: rtrancl_into_trancl2)
  note ih = Cons.IH [OF r(2) closed]
  show ?case
  proof (intro conjI ballI)
    fix x assume "x \<in> set res"
    then have "x \<in> set r \<or> (\<exists>c \<in> set cs. (c, x) \<in> (graph_edges (callees g))\<^sup>+)" using ih by blast
    then show "x \<in> set vis \<or> (\<exists>c \<in> set (c # cs). (c, x) \<in> (graph_edges (callees g))\<^sup>+)" using reach by auto
  qed (use ih ext in auto)
qed simp

lemma visit_children_returns:
  assumes "wf_call_graph g" "set cs \<subseteq> set (cg_nodes g)" "length (cg_nodes g) < n"
  shows "\<exists>res. visit_children n g cs vis = Some res"
  using assms(2)
proof (induction cs arbitrary: vis)
  case (Cons c cs)
  have nodes: "set (callees g x) \<subseteq> set (cg_nodes g)" if "x \<in> set (cg_nodes g)" for x
    using assms(1) that by (auto simp: wf_call_graph_def)
  have "card (set (cg_nodes g) - set vis) \<le> length (cg_nodes g)"
    by (metis Diff_subset List.finite_set card_length card_mono le_trans)
  then obtain r where "visitOutgoingEdges n (callees g) (callees g c) vis = Some r"
    using visit_returns [of "set (cg_nodes g)" "callees g" "callees g c" vis n] nodes Cons.prems assms(3) by auto
  then show ?case using Cons by auto
qed simp

text \<open>
  C29: the pass instruments the loads and stores of exactly the functions that can run inside a region: the
  functions that call the start function and every function these reach in the call graph. The walk returns when
  the host stack holds more frames than the program has functions.
\<close>

theorem instrumented_functions_reachable:
  assumes "wf_call_graph g" "\<And>x y. lt x y \<or> lt y x \<or> x = y" "length (cg_nodes g) < n"
    and "getRuntimeFunction M MEMORYTOOL_START_TRACKING = Some S" "fname S \<in> set (cg_nodes g)"
  shows "\<exists>fs. getFunctionsToInstrumentLoadStore n lt M g = Some fs
    \<and> set fs = {f. \<exists>c \<in> set (cg_nodes g). fname S \<in> set (callees g c) \<and> (c, f) \<in> (graph_edges (callees g))\<^sup>*}"
proof -
  let ?E = "graph_edges (callees g)" and ?start = "us_insert_all (callers g (fname S)) []"
  have start: "set ?start = {c \<in> set (cg_nodes g). fname S \<in> set (callees g c)}"
    using assms(1,5) by (auto simp: wf_call_graph_def)
  obtain vis where vis: "visit_children n g ?start [] = Some vis"
    using visit_children_returns [OF assms(1) _ assms(3)] start by blast
  note inv = visit_children_inv [OF vis, simplified]
  have "set vis = {f. \<exists>c \<in> set ?start. (c, f) \<in> ?E\<^sup>+}"
  proof (intro equalityI subsetI CollectI)
    fix f assume "f \<in> {f. \<exists>c \<in> set ?start. (c, f) \<in> ?E\<^sup>+}"
    then obtain c d where c: "c \<in> set ?start" "(c, d) \<in> ?E" "(d, f) \<in> ?E\<^sup>*" by (auto dest: tranclD)
    then have "d \<in> set vis" using inv by (auto simp: graph_edges_def)
    then show "f \<in> set vis" using closed_reachable [OF c(3), of "set vis"] inv by blast
  qed (use inv in auto)
  then have "set ?start \<union> set vis = {f. \<exists>c \<in> set ?start. (c, f) \<in> ?E\<^sup>*}"
    by (auto simp: rtrancl_eq_or_trancl)
  moreover have "getFunctionsToInstrumentLoadStore n lt M g = Some (us_insert_all (set_union lt ?start vis) [])"
    using vis assms(4) by (simp add: getFunctionsToInstrumentLoadStore_def getFunctionsThatCallStartTracking_def)
  ultimately show ?thesis using set_set_union [OF assms(2), of ?start vis] start by auto
qed

section \<open>Tagged functions\<close>

lemma visit_Cons:
  "visitOutgoingEdges (Suc n) succ (c # cs) fs
     = Option.bind (visitOutgoingEdges (Suc n) succ [c] fs) (visitOutgoingEdges (Suc n) succ cs)"
  by (auto split: Option.bind_splits)

lemma visit_tag_complete:
  "visitOutgoingEdges n (callers g) [f] fs = Some r \<Longrightarrow> visit_tag n g f fs = Some r"
  "visitOutgoingEdges n (callers g) cs fs = Some r \<Longrightarrow> visit_incoming n g cs fs = Some r"
proof (induction n g f fs and n g cs fs arbitrary: r and r rule: visit_tag_visit_incoming.induct)
  case (2 n g f fs)
  show ?case
  proof (cases "f \<in> set fs")
    case False
    then obtain q where "visitOutgoingEdges n (callers g) (callers g f) (us_insert f fs) = Some q" "q = r"
      using "2.prems" by (auto simp: bind_eq_Some_conv)
    then show ?thesis using 2 False by simp
  qed (use 2 in simp)
next
  case (3 n g fs)
  then show ?case by (cases n) auto
next
  case (4 n g c cs fs)
  then obtain k where k: "n = Suc k" by (cases n) auto
  then obtain q where "visitOutgoingEdges n (callers g) [c] fs = Some q" "visitOutgoingEdges n (callers g) cs q = Some r"
    using "4.prems" visit_Cons [of k "callers g" c cs fs] by (auto simp: bind_eq_Some_conv simp del: visitOutgoingEdges.simps)
  then show ?case using 4 by simp
qed auto

lemma callers_graph:
  assumes "wf_call_graph g" "(f, h) \<in> (graph_edges (callers g))\<^sup>*" "f \<in> set (cg_nodes g)"
  shows "h \<in> set (cg_nodes g) \<and> (h, f) \<in> (graph_edges (callees g))\<^sup>*"
  using assms(2,3)
proof (induction rule: rtrancl_induct)
  case (step y z)
  then have y: "y \<in> set (cg_nodes g)" "z \<in> set (callers g y)" by (auto simp: graph_edges_def)
  then have z: "z \<in> set (cg_nodes g)" using assms(1) by (auto simp: wf_call_graph_def)
  then have "y \<in> set (callees g z)" using assms(1) y by (auto simp: wf_call_graph_def)
  then show ?case using step z by (auto simp: graph_edges_def intro: converse_rtrancl_into_rtrancl)
qed simp

lemma callees_graph:
  assumes "wf_call_graph g" "(h, f) \<in> (graph_edges (callees g))\<^sup>*" "h \<in> set (cg_nodes g)"
  shows "f \<in> set (cg_nodes g) \<and> (f, h) \<in> (graph_edges (callers g))\<^sup>*"
  using assms(2,3)
proof (induction rule: rtrancl_induct)
  case (step y z)
  then have y: "y \<in> set (cg_nodes g)" "z \<in> set (callees g y)" by (auto simp: graph_edges_def)
  then have z: "z \<in> set (cg_nodes g)" using assms(1) by (auto simp: wf_call_graph_def)
  then have "y \<in> set (callers g z)" using assms(1) y by (auto simp: wf_call_graph_def)
  then show ?case using step z by (auto simp: graph_edges_def intro: converse_rtrancl_into_rtrancl)
qed simp

text \<open>
  The functions that keep their local variables are exactly those through which the program can arrive at a
  region: the functions with a body from which the start function can be reached in the call graph.
\<close>

theorem tagged_functions_reach_start:
  assumes "wf_call_graph g" "length (cg_nodes g) < n"
    and "getFunctionByName M MEMORYTOOL_START_TRACKING = Some S" "fname S \<in> set (cg_nodes g)"
  shows "\<exists>fs. tag_findFunctionsToInstrument n M g = Some fs
    \<and> set fs = {f \<in> set (cg_nodes g). has_body M f \<and> (f, fname S) \<in> (graph_edges (callees g))\<^sup>*}"
proof -
  have nodes: "set (callers g x) \<subseteq> set (cg_nodes g)" if "x \<in> set (cg_nodes g)" for x
    using assms(1) that by (auto simp: wf_call_graph_def)
  obtain r where r: "visitOutgoingEdges n (callers g) [fname S] [] = Some r"
    using visit_returns [of "set (cg_nodes g)" "callers g" "[fname S]" "[]" n] nodes assms(2,4)
      card_length [of "cg_nodes g"] by auto
  have "set r = {f. (fname S, f) \<in> (graph_edges (callers g))\<^sup>*}"
  proof (intro equalityI subsetI CollectI)
    fix f assume "f \<in> {f. (fname S, f) \<in> (graph_edges (callers g))\<^sup>*}"
    then show "f \<in> set r"
      using closed_reachable [of "fname S" f "callers g" "set r"] visit_extends [OF r] visit_closed [OF r] by auto
  qed (use visit_reachable [OF r] in auto)
  then have "set r = {f \<in> set (cg_nodes g). (f, fname S) \<in> (graph_edges (callees g))\<^sup>*}"
    using callers_graph [OF assms(1) _ assms(4)] callees_graph [OF assms(1)] by blast
  then show ?thesis using visit_tag_complete(1) [OF r] assms(3) by (auto simp: tag_findFunctionsToInstrument_def)
qed

text \<open>
  The main pass finds again, after the tags have travelled through the optimizer and \<open>remove_optnone\<close>, the functions
  the tagging pass chose; no function is left with \<open>optnone\<close>.
\<close>

lemma tags_survive:
  assumes "\<And>F. F \<in> set (m_functions M) \<Longrightarrow> map_of (fmetadata F) OPTIMIZE_LOCALS_KIND = None"
  shows "set (fst (findFunctionsToInstrument (removeOptNone (tagFunctionsOptNone fs M)))) = set fs \<inter> fname ` set (m_functions M)"
    and "\<forall>F \<in> set (m_functions (snd (findFunctionsToInstrument (removeOptNone (tagFunctionsOptNone fs M))))). \<not> optNone F"
  using assms by (force simp: findFunctionsToInstrument_def removeOptNone_def tagFunctionsOptNone_def tagFunctionWithMetadata_def
      tagFunctionOptNone_def rmTagFunctionOptNone_def image_iff split: if_splits)+

section \<open>Unique call stacks\<close>

text \<open>A call path: a chain of calls from the entry of the program.\<close>

fun is_chain :: "call_graph \<Rightarrow> string list \<Rightarrow> bool" where
  "is_chain g (a # b # p) \<longleftrightarrow> b \<in> set (callees g a) \<and> is_chain g (b # p)"
| "is_chain g _ \<longleftrightarrow> True"

definition call_path :: "call_graph \<Rightarrow> string list \<Rightarrow> bool" where
  "call_path g p \<longleftrightarrow> p \<noteq> [] \<and> hd p = entryNode g \<and> is_chain g p"

lemma is_chain_snoc: "is_chain g (p @ [a, b]) \<longleftrightarrow> is_chain g (p @ [a]) \<and> b \<in> set (callees g a)"
  by (induction g p rule: is_chain.induct) auto

lemma call_path_snoc: "p \<noteq> [] \<Longrightarrow> call_path g (p @ [b]) \<longleftrightarrow> call_path g p \<and> b \<in> set (callees g (last p))"
  by (cases p rule: rev_cases) (auto simp: call_path_def is_chain_snoc hd_append)

lemma call_path_nodes: "wf_call_graph g \<Longrightarrow> call_path g p \<Longrightarrow> set p \<subseteq> set (cg_nodes g)"
proof (induction p rule: rev_induct)
  case (snoc b p)
  show ?case
  proof (cases "p = []")
    case True
    then show ?thesis using snoc.prems by (simp add: call_path_def wf_call_graph_def)
  next
    case False
    then have p: "call_path g p" "b \<in> set (callees g (last p))" using snoc.prems(2) call_path_snoc by auto
    then have nodes: "set p \<subseteq> set (cg_nodes g)" using snoc by blast
    then have "last p \<in> set (cg_nodes g)" using False by auto
    then show ?thesis using p(2) nodes snoc.prems(1) by (auto simp: wf_call_graph_def)
  qed
qed simp

text \<open>A path through functions with one caller each, from an entry nobody calls, is the only path to its end.\<close>

definition tree_path :: "call_graph \<Rightarrow> string list \<Rightarrow> bool" where
  "tree_path g p \<longleftrightarrow> call_path g p \<and> (\<forall>f \<in> set p. length (callers g f) \<le> 1)"

lemma only_caller:
  assumes "wf_call_graph g" "length (callers g f) \<le> 1" "f \<in> set (callees g a)" "f \<in> set (callees g b)"
    "a \<in> set (cg_nodes g)" "b \<in> set (cg_nodes g)"
  shows "a = b"
proof -
  have f: "f \<in> set (cg_nodes g)" using assms(1,3,5) by (auto simp: wf_call_graph_def)
  then have "a \<in> set (callers g f)" "b \<in> set (callers g f)" using assms by (auto simp: wf_call_graph_def)
  then show ?thesis using assms(2) by (cases "callers g f") auto
qed

lemma tree_path_unique:
  assumes wf: "wf_call_graph g" and root: "callers g (entryNode g) = []"
  shows "tree_path g p \<Longrightarrow> call_path g q \<Longrightarrow> last q = last p \<Longrightarrow> q = p"
proof (induction p arbitrary: q rule: rev_induct)
  case (snoc f p)
  have noroot: "entryNode g \<notin> set (callees g a)" if "a \<in> set (cg_nodes g)" for a
    using wf root that by (auto simp: wf_call_graph_def)
  obtain q0 where q: "q = q0 @ [f]" using snoc.prems(2,3) by (cases q rule: rev_cases) (auto simp: call_path_def)
  have nodes: "set q \<subseteq> set (cg_nodes g)" "set (p @ [f]) \<subseteq> set (cg_nodes g)"
    using call_path_nodes [OF wf, of q] call_path_nodes [OF wf, of "p @ [f]"] snoc.prems by (simp_all add: tree_path_def)
  show ?case
  proof (cases "p = [] \<or> q0 = []")
    case True
    then have "f = entryNode g" using snoc.prems q by (auto simp: tree_path_def call_path_def)
    moreover have "f \<in> set (callees g (last p))" if "p \<noteq> []"
      using snoc.prems(1) call_path_snoc [OF that] by (auto simp: tree_path_def)
    moreover have "f \<in> set (callees g (last q0))" if "q0 \<noteq> []"
      using snoc.prems(2) call_path_snoc [OF that] q by auto
    ultimately have "p = []" "q0 = []" using noroot nodes q by (metis last_in_set le_sup_iff set_append subsetD)+
    then show ?thesis using q by simp
  next
    case False
    then have p: "call_path g p" "f \<in> set (callees g (last p))" and q0: "call_path g q0" "f \<in> set (callees g (last q0))"
      using snoc.prems q call_path_snoc by (auto simp: tree_path_def)
    have "last q0 = last p"
    proof (rule only_caller [OF wf _ q0(2) p(2)])
      show "length (callers g f) \<le> 1" using snoc.prems(1) by (simp add: tree_path_def)
      show "last q0 \<in> set (cg_nodes g)" "last p \<in> set (cg_nodes g)"
        using False nodes q last_in_set by (auto dest!: subsetD)
    qed
    then have "q0 = p" using snoc.IH [of q0] snoc.prems(1) p(1) q0(1) by (auto simp: tree_path_def)
    then show ?thesis using q by simp
  qed
qed (simp add: tree_path_def call_path_def)

lemma tree_path_prefix: "tree_path g (a @ x # b) \<Longrightarrow> tree_path g (a @ [x])"
proof (induction b rule: rev_induct)
  case (snoc y b)
  then show ?case using call_path_snoc [of "a @ x # b" g y] by (auto simp: tree_path_def)
qed simp

lemma tree_path_distinct:
  assumes "wf_call_graph g" "callers g (entryNode g) = []" "tree_path g p"
  shows "distinct p"
proof (rule ccontr)
  assume "\<not> distinct p"
  then obtain a b c x where p: "p = a @ [x] @ b @ [x] @ c" using not_distinct_decomp by blast
  have "tree_path g (a @ [x])" "tree_path g ((a @ x # b) @ [x])"
    using tree_path_prefix [of g a x "b @ x # c"] tree_path_prefix [of g "a @ x # b" x c] assms(3) p by simp_all
  then have "a @ [x] = (a @ x # b) @ [x]"
    using tree_path_unique [OF assms(1,2), of "(a @ x # b) @ [x]" "a @ [x]"] by (simp add: tree_path_def)
  then show False by simp
qed

abbreviation branch :: "call_graph \<Rightarrow> string list \<Rightarrow> string \<Rightarrow> bool" where
  "branch g p f \<equiv> call_path g (p @ [f]) \<and> (\<forall>x \<in> set p. length (callers g x) \<le> 1)"

lemma unique_functions_on_tree:
  "visitDepthFirst n g f acc = Some r \<Longrightarrow> branch g p f \<Longrightarrow> \<forall>h \<in> set acc. \<exists>q. tree_path g q \<and> last q = h \<Longrightarrow>
     \<forall>h \<in> set r. \<exists>q. tree_path g q \<and> last q = h"
  "visit_callees n g fs acc = Some r \<Longrightarrow> tree_path g p \<Longrightarrow> set fs \<subseteq> set (callees g (last p)) \<Longrightarrow>
     \<forall>h \<in> set acc. \<exists>q. tree_path g q \<and> last q = h \<Longrightarrow> \<forall>h \<in> set r. \<exists>q. tree_path g q \<and> last q = h"
proof (induction n g f acc and n g fs acc arbitrary: r p and r p rule: visitDepthFirst_visit_callees.induct)
  case (2 n g f acc)
  show ?case
  proof (cases "length (callers g f) > 1")
    case False
    then have t: "tree_path g (p @ [f])" using "2.prems"(2) by (auto simp: tree_path_def)
    have "\<forall>h \<in> set (us_insert f acc). \<exists>q. tree_path g q \<and> last q = h" using "2.prems"(3) t by auto
    then show ?thesis using "2.IH" [OF False _ t] "2.prems"(1) False by simp
  qed (use 2 in simp)
next
  case (4 n g f fs acc)
  obtain q where q: "visitDepthFirst n g f acc = Some q" "visit_callees n g fs q = Some r"
    using "4.prems"(1) by (auto simp: bind_eq_Some_conv)
  have ne: "p \<noteq> []" using "4.prems"(2) by (auto simp: tree_path_def call_path_def)
  have "branch g p f" using "4.prems"(2,3) call_path_snoc [OF ne] by (auto simp: tree_path_def)
  then have "\<forall>h \<in> set q. \<exists>q. tree_path g q \<and> last q = h" using "4.IH"(1) [OF q(1)] "4.prems"(4) by blast
  then show ?case using "4.IH"(2) [OF q] "4.prems"(2,3) by auto
qed auto

lemma tree_path_length:
  assumes "wf_call_graph g" "callers g (entryNode g) = []" "tree_path g p"
  shows "length p \<le> length (cg_nodes g)"
proof -
  have "length p = card (set p)" using tree_path_distinct [OF assms] by (simp add: distinct_card)
  also have "\<dots> \<le> card (set (cg_nodes g))"
    using call_path_nodes [OF assms(1)] assms(3) by (intro card_mono) (auto simp: tree_path_def)
  also have "\<dots> \<le> length (cg_nodes g)" by (rule card_length)
  finally show ?thesis .
qed

lemma unique_functions_return:
  "branch g p f \<Longrightarrow> length (cg_nodes g) < n + length p \<Longrightarrow> wf_call_graph g \<Longrightarrow> callers g (entryNode g) = [] \<Longrightarrow>
     \<exists>r. visitDepthFirst n g f acc = Some r"
  "tree_path g p \<Longrightarrow> set fs \<subseteq> set (callees g (last p)) \<Longrightarrow> length (cg_nodes g) < n + length p \<Longrightarrow> wf_call_graph g \<Longrightarrow>
     callers g (entryNode g) = [] \<Longrightarrow> \<exists>r. visit_callees n g fs acc = Some r"
proof (induction n g f acc and n g fs acc arbitrary: p and p rule: visitDepthFirst_visit_callees.induct)
  case (1 g f acc)
  then have "p \<noteq> []" by auto
  then have "tree_path g p" using 1 call_path_snoc by (auto simp: tree_path_def)
  then show ?case using tree_path_length [of g p] 1 by auto
next
  case (2 n g f acc)
  show ?case
  proof (cases "length (callers g f) > 1")
    case False
    then have "tree_path g (p @ [f])" using "2.prems"(1) by (auto simp: tree_path_def)
    then show ?thesis using "2.IH" [OF False, of "p @ [f]"] "2.prems" False by simp
  qed simp
next
  case (4 n g f fs acc)
  have ne: "p \<noteq> []" using "4.prems"(1) by (auto simp: tree_path_def call_path_def)
  have "branch g p f" using "4.prems"(1,2) call_path_snoc [OF ne] by (auto simp: tree_path_def)
  then obtain q where q: "visitDepthFirst n g f acc = Some q" using "4.IH"(1) [of p] "4.prems" by blast
  then show ?case using "4.IH"(2) [OF q, of p] "4.prems" by auto
qed auto

lemma unique_functions_complete:
  "visitDepthFirst n g f acc = Some r \<Longrightarrow> set acc \<subseteq> set r
     \<and> (\<forall>q. is_chain g (f # q) \<and> (\<forall>h \<in> set (f # q). length (callers g h) \<le> 1) \<longrightarrow> last (f # q) \<in> set r)"
  "visit_callees n g fs acc = Some r \<Longrightarrow> set acc \<subseteq> set r
     \<and> (\<forall>f q. f \<in> set fs \<and> is_chain g (f # q) \<and> (\<forall>h \<in> set (f # q). length (callers g h) \<le> 1) \<longrightarrow> last (f # q) \<in> set r)"
proof (induction n g f acc and n g fs acc arbitrary: r and r rule: visitDepthFirst_visit_callees.induct)
  case (2 n g f acc)
  show ?case
  proof (cases "length (callers g f) > 1")
    case False
    then have r: "visit_callees n g (callees g f) (us_insert f acc) = Some r" using "2.prems" by simp
    note ih = "2.IH" [OF False r]
    have "last (f # q) \<in> set r" if q: "is_chain g (f # q)" "\<forall>h \<in> set (f # q). length (callers g h) \<le> 1" for q
    proof (cases q)
      case Nil
      then show ?thesis using ih by auto
    next
      case (Cons c q')
      have "last (c # q') \<in> set r" using ih q unfolding Cons by auto
      then show ?thesis by (simp add: Cons)
    qed
    then show ?thesis using ih by auto
  qed (use "2.prems" in auto)
next
  case (4 n g f fs acc)
  obtain q where q: "visitDepthFirst n g f acc = Some q" "visit_callees n g fs q = Some r"
    using "4.prems" by (auto simp: bind_eq_Some_conv)
  show ?case using "4.IH"(1) [OF q(1)] "4.IH"(2) [OF q] by (auto simp del: last.simps)
qed auto

lemma call_path_splice:
  "call_path g (a @ h # b) \<Longrightarrow> call_path g p \<Longrightarrow> h \<in> set (callees g (last p)) \<Longrightarrow> call_path g (p @ h # b)"
proof (induction b rule: rev_induct)
  case Nil
  then show ?case using call_path_snoc [of p g h] by (auto simp: call_path_def)
next
  case (snoc x b)
  then have "call_path g (a @ h # b)" "x \<in> set (callees g (last (a @ h # b)))"
    using call_path_snoc [of "a @ h # b" g x] by auto
  then show ?case using snoc.IH snoc.prems(2,3) call_path_snoc [of "p @ h # b" g x] by auto
qed

lemma unique_path_on_tree:
  assumes wf: "wf_call_graph g" and reach: "\<forall>h \<in> set (cg_nodes g). \<exists>p. call_path g p \<and> last p = h"
    and p: "call_path g p" and only: "\<And>q. call_path g q \<Longrightarrow> last q = last p \<Longrightarrow> q = p"
  shows "tree_path g p"
  unfolding tree_path_def
proof (intro conjI ballI p)
  fix h assume h: "h \<in> set p"
  then obtain a b where ab: "p = a @ h # b" by (meson split_list)
  have node: "h \<in> set (cg_nodes g)" using call_path_nodes [OF wf p] h by blast
  show "length (callers g h) \<le> 1"
  proof (rule ccontr)
    assume "\<not> length (callers g h) \<le> 1"
    then obtain c1 c2 cs where cs: "callers g h = c1 # c2 # cs" by (cases "callers g h"; cases "tl (callers g h)") auto
    have h_ok: "distinct (callers g h)" "set (callers g h) \<subseteq> set (cg_nodes g)"
      "\<forall>c \<in> set (cg_nodes g). c \<in> set (callers g h) \<longleftrightarrow> h \<in> set (callees g c)"
      using wf node by (simp_all add: wf_call_graph_def)
    have c: "c1 \<noteq> c2" "c1 \<in> set (cg_nodes g)" "c2 \<in> set (cg_nodes g)" using h_ok(1,2) by (auto simp: cs)
    have "h \<in> set (callees g c1)" "h \<in> set (callees g c2)" using bspec [OF h_ok(3) c(2)] bspec [OF h_ok(3) c(3)] by (simp_all add: cs)
    note c = c this
    obtain p1 p2 where q: "call_path g p1" "last p1 = c1" "call_path g p2" "last p2 = c2" using reach c(2,3) by blast
    have spliced: "r @ h # b = p" if "call_path g r" "h \<in> set (callees g (last r))" for r
    proof (rule only)
      show "call_path g (r @ h # b)" by (rule call_path_splice [OF p [unfolded ab] that])
    qed (simp add: ab)
    have "p1 @ h # b = p" "p2 @ h # b = p" using spliced [of p1] spliced [of p2] q c by simp_all
    then have "p1 @ h # b = p2 @ h # b" by simp
    then show False using q c(1) by simp
  qed
qed

text \<open>
  C30: which call stacks the compiler treats as unique. In a program that does not call its own entry function, the walk
  ends within as many stack frames as there are functions, and it returns a function exactly when a chain of calls
  leads from the entry to it on which every function has at most one caller. Such a function is reached by exactly one
  chain of calls; and when every function of the graph is reached from the entry, all functions with exactly one chain
  are returned.
\<close>

theorem unique_callstacks:
  assumes "wf_call_graph g" "callers g (entryNode g) = []" "length (cg_nodes g) < n"
  shows "\<exists>fs. getUniqueCallstackFunctions n g = Some fs
    \<and> (\<forall>f. f \<in> set fs \<longleftrightarrow> (\<exists>p. call_path g p \<and> last p = f \<and> (\<forall>h \<in> set p. length (callers g h) \<le> 1)))
    \<and> (\<forall>f \<in> set fs. \<exists>!p. call_path g p \<and> last p = f)
    \<and> ((\<forall>h \<in> set (cg_nodes g). \<exists>p. call_path g p \<and> last p = h) \<longrightarrow>
         (\<forall>f. f \<in> set fs \<longleftrightarrow> (\<exists>!p. call_path g p \<and> last p = f)))"
proof -
  have b: "branch g [] (entryNode g)" by (simp add: call_path_def)
  obtain fs where fs: "visitDepthFirst n g (entryNode g) [] = Some fs"
    using unique_functions_return(1) [OF b] assms by auto
  have sound: "\<exists>p. tree_path g p \<and> last p = f" if "f \<in> set fs" for f
    using unique_functions_on_tree(1) [OF fs b] that by auto
  have complete: "last p \<in> set fs" if t: "tree_path g p" for p
  proof -
    obtain q where "p = entryNode g # q" using t by (cases p) (auto simp: tree_path_def call_path_def)
    then show ?thesis using unique_functions_complete(1) [OF fs] t by (simp add: tree_path_def call_path_def)
  qed
  have one: "\<exists>!p. call_path g p \<and> last p = f" if f: "f \<in> set fs" for f
  proof -
    obtain q where q: "tree_path g q" "last q = f" using sound [OF f] by blast
    then show ?thesis using tree_path_unique [OF assms(1,2) q(1)] by (auto simp: tree_path_def intro!: ex1I [of _ q])
  qed
  have only: "f \<in> set fs" if reach: "\<forall>h \<in> set (cg_nodes g). \<exists>p. call_path g p \<and> last p = h" and ex: "\<exists>!p. call_path g p \<and> last p = f" for f
  proof -
    obtain p where p: "call_path g p" "last p = f" using ex by blast
    have "tree_path g p" using unique_path_on_tree [OF assms(1) reach p(1)] ex p by metis
    then show ?thesis using complete p(2) by blast
  qed
  have tree: "f \<in> set fs \<longleftrightarrow> (\<exists>p. call_path g p \<and> last p = f \<and> (\<forall>h \<in> set p. length (callers g h) \<le> 1))" for f
    using sound complete unfolding tree_path_def by blast
  have res: "getUniqueCallstackFunctions n g = Some fs" using fs by (simp add: getUniqueCallstackFunctions_def)
  have unique: "\<forall>f. f \<in> set fs \<longleftrightarrow> (\<exists>!p. call_path g p \<and> last p = f)"
    if "\<forall>h \<in> set (cg_nodes g). \<exists>p. call_path g p \<and> last p = h"
    using only [OF that] one by (intro allI iffI)
  show ?thesis
  proof (rule exI [of _ fs], intro conjI)
    show "\<forall>f. f \<in> set fs \<longleftrightarrow> (\<exists>p. call_path g p \<and> last p = f \<and> (\<forall>h \<in> set p. length (callers g h) \<le> 1))"
      by (rule allI, rule tree)
    show "\<forall>f \<in> set fs. \<exists>!p. call_path g p \<and> last p = f" by (rule ballI, rule one)
  qed (rule res, rule impI, rule unique)
qed

text \<open>A program whose entry function calls itself, and is called by nothing else, never lets the walk return.\<close>

theorem recursive_entry_diverges:
  assumes "callers g (entryNode g) = [entryNode g]" "entryNode g \<in> set (callees g (entryNode g))"
  shows "getUniqueCallstackFunctions n g = None"
proof -
  have loop: "visit_callees n g fs acc = None" if "\<And>acc. visitDepthFirst n g e acc = None" "e \<in> set fs" for n fs acc e
    using that(2)
  proof (induction fs arbitrary: acc)
    case (Cons f fs)
    then show ?case using that(1) by (cases "f = e") (auto split: Option.bind_splits)
  qed simp
  have "visitDepthFirst n g (entryNode g) acc = None" for acc
  proof (induction n arbitrary: acc)
    case (Suc n)
    then show ?case using loop [of n "entryNode g"] assms by simp
  qed simp
  then show ?thesis by (simp add: getUniqueCallstackFunctions_def)
qed

section \<open>An example\<close>

definition sample_graph :: call_graph where
  "sample_graph =
     \<lparr>cg_nodes = [''main'', ''work'', ''util'', ''setup'', MEMORYTOOL_START_TRACKING],
      callees = (\<lambda>f. if f = ''main'' then [''setup'', ''work''] else if f = ''work'' then [''util'', MEMORYTOOL_START_TRACKING]
                     else if f = ''setup'' then [''util''] else if f = ''util'' then [''util''] else []),
      callers = (\<lambda>f. if f = ''work'' \<or> f = ''setup'' then [''main''] else if f = ''util'' then [''work'', ''setup'', ''util'']
                     else if f = MEMORYTOOL_START_TRACKING then [''work''] else []),
      entryNode = ''main''\<rparr>"

lemma sample_graph_facts:
  "wf_call_graph sample_graph" "callers sample_graph (entryNode sample_graph) = []" "length (cg_nodes sample_graph) < 6"
  "getRuntimeFunction touch_module MEMORYTOOL_START_TRACKING = Some (plain_func MEMORYTOOL_START_TRACKING [])"
  "fname (plain_func MEMORYTOOL_START_TRACKING []) \<in> set (cg_nodes sample_graph)"
  by code_simp+

theorem instrumented_functions_reachable_witness:
  "\<exists>fs. getFunctionsToInstrumentLoadStore 6 (\<lambda>x y. x \<noteq> y) touch_module sample_graph = Some fs
    \<and> set fs = {f. \<exists>c \<in> set (cg_nodes sample_graph). MEMORYTOOL_START_TRACKING \<in> set (callees sample_graph c)
                   \<and> (c, f) \<in> (graph_edges (callees sample_graph))\<^sup>*}"
  using instrumented_functions_reachable [OF sample_graph_facts(1) _ sample_graph_facts(3-5), of "\<lambda>x y. x \<noteq> y"]
  by (auto simp: plain_func_def)

theorem tagged_functions_reach_start_witness:
  "\<exists>fs. tag_findFunctionsToInstrument 6 touch_module sample_graph = Some fs
    \<and> set fs = {f \<in> set (cg_nodes sample_graph). has_body touch_module f
                 \<and> (f, MEMORYTOOL_START_TRACKING) \<in> (graph_edges (callees sample_graph))\<^sup>*}"
  using tagged_functions_reach_start [OF sample_graph_facts(1,3) sample_graph_facts(4) [unfolded getRuntimeFunction_def]
      sample_graph_facts(5)] by (simp add: plain_func_def)

theorem unique_callstacks_witness:
  "\<exists>fs. getUniqueCallstackFunctions 6 sample_graph = Some fs \<and> ''main'' \<in> set fs"
proof -
  have "call_path sample_graph [''main'']" "\<forall>h \<in> set [''main'']. length (callers sample_graph h) \<le> 1"
    using sample_graph_facts(2) by (simp_all add: call_path_def sample_graph_def)
  then have t: "\<exists>p. call_path sample_graph p \<and> last p = ''main'' \<and> (\<forall>h \<in> set p. length (callers sample_graph h) \<le> 1)"
    by (intro exI [of _ "[''main'']"]) simp
  obtain fs where "getUniqueCallstackFunctions 6 sample_graph = Some fs"
    "\<forall>f. f \<in> set fs \<longleftrightarrow> (\<exists>p. call_path sample_graph p \<and> last p = f \<and> (\<forall>h \<in> set p. length (callers sample_graph h) \<le> 1))"
    using unique_callstacks [OF sample_graph_facts(1-3)] by (elim exE conjE)
  then show ?thesis using t by simp
qed

end
