(* ===== verification/Inst_Visitor.thy ===== *)
theory Inst_Visitor
  imports Call_Graph_Pass
begin

text \<open>
  The first half of \<open>CatPass.cpp\<close>: the visitor that collects the instructions of interest, the globals, the filter
  for library calls, and the numbering of entries. An \<open>Entry*\<close> is an index into the store of entries, because the
  numbering writes through the vectors what the instrumentation reads through \<open>instToEntryMap\<close>. Arguments stand
  for what LLVM and NOELLE answer: \<open>typeOf\<close> the type of a value, \<open>ptrSize\<close> the size of a pointer, \<open>declareOf\<close> the
  \<open>llvm.dbg.declare\<close> of a local variable, \<open>isPure\<close> whether a library function is pure.
\<close>

section \<open>Allocation functions\<close>

datatype AllocFunctions = Malloc | Calloc | Realloc | Jemalloc | Mmap | Mremap | New | Munmap | Delete | Free | Unknown

definition functionCalls :: "(string \<times> AllocFunctions) list" where
  "functionCalls =
     [(''malloc'', Malloc), (''calloc'', Calloc), (''realloc'', Realloc), (''jemalloc'', Jemalloc), (''mmap'', Mmap),
      (''mremap'', Mremap), (''_Znwm'', New), (''munmap'', Munmap), (''_ZdlPv'', Delete), (''free'', Free)]"

definition knowns :: "string list" where
  "knowns = [MEMORYTOOL_START_TRACKING, MEMORYTOOL_STOP_TRACKING, ''_Z8prologueiiiiiiii'', ''_Z16PrintJSONWrapperv'',
             MEMORYTOOL_CONTEXT]"

section \<open>The visitor\<close>

record MyInstVisitor =
  e_heap :: "Entry list"
  callsToStartTracking :: "nat list"
  v_returns :: "nat list"
  v_invokes :: "nat list"
  v_loads :: "nat list"
  v_escapes :: "nat list"
  v_deallocs :: "nat list"
  v_stores :: "nat list"
  v_allocations :: "nat list"
  v_callocs :: "nat list"
  v_reallocs :: "nat list"
  v_unknowns :: "nat list"
  functionAllocaMap :: "(string \<times> nat list) list"
  instToEntryMap :: "(nat \<times> nat) list"

definition new_visitor :: MyInstVisitor where
  "new_visitor =
     \<lparr>e_heap = [], callsToStartTracking = [], v_returns = [], v_invokes = [], v_loads = [], v_escapes = [], v_deallocs = [],
      v_stores = [], v_allocations = [], v_callocs = [], v_reallocs = [], v_unknowns = [], functionAllocaMap = [],
      instToEntryMap = []\<rparr>"

definition debugPath :: "DILocation \<Rightarrow> string" where
  "debugPath d = getDirectory d @ ''/'' @ getFilename d"

text \<open>\<open>new Entry\<close> followed by a \<open>push_back\<close> of the pointer.\<close>

definition alloc_entry :: "Entry \<Rightarrow> (nat \<Rightarrow> MyInstVisitor \<Rightarrow> MyInstVisitor) \<Rightarrow> MyInstVisitor \<Rightarrow> MyInstVisitor" where
  "alloc_entry e push st = push (length (e_heap st)) (st\<lparr>e_heap := e_heap st @ [e]\<rparr>)"

definition getOperand :: "inst_kind \<Rightarrow> nat \<Rightarrow> val option" where
  "getOperand k n = (if n < length (operands k) then Some (operands k ! n) else None)"

definition push_allocation :: "nat \<Rightarrow> MyInstVisitor \<Rightarrow> MyInstVisitor" where
  "push_allocation e st = st\<lparr>v_allocations := v_allocations st @ [e]\<rparr>"

definition push_calloc :: "nat \<Rightarrow> MyInstVisitor \<Rightarrow> MyInstVisitor" where
  "push_calloc e st = st\<lparr>v_callocs := v_callocs st @ [e]\<rparr>"

definition push_realloc :: "nat \<Rightarrow> MyInstVisitor \<Rightarrow> MyInstVisitor" where
  "push_realloc e st = st\<lparr>v_reallocs := v_reallocs st @ [e]\<rparr>"

definition push_unknown :: "nat \<Rightarrow> MyInstVisitor \<Rightarrow> MyInstVisitor" where
  "push_unknown e st = st\<lparr>v_unknowns := v_unknowns st @ [e]\<rparr>"

definition push_load :: "nat \<Rightarrow> nat \<Rightarrow> MyInstVisitor \<Rightarrow> MyInstVisitor" where
  "push_load i e st = st\<lparr>v_loads := v_loads st @ [e], instToEntryMap := um_assign i e (instToEntryMap st)\<rparr>"

definition push_store :: "nat \<Rightarrow> nat \<Rightarrow> MyInstVisitor \<Rightarrow> MyInstVisitor" where
  "push_store i e st = st\<lparr>v_stores := v_stores st @ [e], instToEntryMap := um_assign i e (instToEntryMap st)\<rparr>"

text \<open>The switch; an operand that does not exist fails an assertion of LLVM.\<close>

definition visit_library_call :: "instr \<Rightarrow> string \<Rightarrow> DILocation \<Rightarrow> MyInstVisitor \<Rightarrow> MyInstVisitor option" where
  "visit_library_call i funcName d st =
     (let v = InstV (iid i);
          entry = (\<lambda>p np sz ne. new_Entry v p np sz ne 0 (debugPath d) [] (getLine d) (getColumn d)) in
      case (case map_of functionCalls funcName of None \<Rightarrow> Unknown | Some a \<Rightarrow> a) of
        Malloc \<Rightarrow> map_option (\<lambda>sz. alloc_entry (entry (Some v) None (Some sz) None) push_allocation st) (getOperand (kind i) 0)
      | New \<Rightarrow> map_option (\<lambda>sz. alloc_entry (entry (Some v) None (Some sz) None) push_allocation st) (getOperand (kind i) 0)
      | Mmap \<Rightarrow> map_option (\<lambda>sz. alloc_entry (entry (Some v) None (Some sz) None) push_allocation st) (getOperand (kind i) 1)
      | Calloc \<Rightarrow>
          Option.bind (getOperand (kind i) 1) (\<lambda>sz. map_option (\<lambda>ne.
            alloc_entry (entry (Some v) None (Some sz) (Some ne)) push_calloc st) (getOperand (kind i) 0))
      | Realloc \<Rightarrow>
          Option.bind (getOperand (kind i) 0) (\<lambda>p. map_option (\<lambda>sz.
            alloc_entry (entry (Some p) (Some v) (Some sz) None) push_realloc st) (getOperand (kind i) 1))
      | Mremap \<Rightarrow>
          Option.bind (getOperand (kind i) 0) (\<lambda>p. map_option (\<lambda>sz.
            alloc_entry (entry (Some p) (Some v) (Some sz) None) push_realloc st) (getOperand (kind i) 2))
      | Munmap \<Rightarrow> Some (st\<lparr>v_deallocs := v_deallocs st @ [iid i]\<rparr>)
      | Free \<Rightarrow> Some (st\<lparr>v_deallocs := v_deallocs st @ [iid i]\<rparr>)
      | Delete \<Rightarrow> Some (st\<lparr>v_deallocs := v_deallocs st @ [iid i]\<rparr>)
      | _ \<Rightarrow>
          Some (if funcName \<in> set knowns then
                  (if funcName = MEMORYTOOL_START_TRACKING
                   then st\<lparr>callsToStartTracking := callsToStartTracking st @ [iid i]\<rparr> else st)
                else alloc_entry (entry None None None None) push_unknown st))"

definition visitCallInvokeInst :: "llvm_module \<Rightarrow> instr \<Rightarrow> MyInstVisitor \<Rightarrow> MyInstVisitor option" where
  "visitCallInvokeInst M i st =
     (case Option.bind (getCalledFunction (kind i)) (getFunctionByName M) of
        None \<Rightarrow> Some st
      | Some fp \<Rightarrow>
          if \<not> fempty fp then Some st
          else if isIntrinsic fp then Some st
          else (case dbgLoc i of
                  None \<Rightarrow> Some st
                | Some d \<Rightarrow>
                    map_option
                      (\<lambda>st1. case kind i of InvokeInst _ _ _ _ \<Rightarrow> st1\<lparr>v_invokes := v_invokes st1 @ [iid i]\<rparr> | _ \<Rightarrow> st1)
                      (visit_library_call i (fname fp) d st)))"

text \<open>The place of a load or a store in the source, with the defaults for an instruction without debug information.\<close>

definition access_place :: "instr \<Rightarrow> string \<times> nat \<times> nat" where
  "access_place i =
     (case dbgLoc i of
        Some d \<Rightarrow> (debugPath d, getLine d, getColumn d)
      | None \<Rightarrow> (''UnknownPathToFile'', 0, 0))"

definition visitLoadInst :: "string list \<Rightarrow> nat list \<Rightarrow> string \<Rightarrow> instr \<Rightarrow> val \<Rightarrow> MyInstVisitor \<Rightarrow> MyInstVisitor" where
  "visitLoadInst toInstrument touchesToSkip f i p st =
     (if f \<notin> set toInstrument then st
      else if iid i \<in> set touchesToSkip then st
      else (case access_place i of
              (path, line, col) \<Rightarrow>
                alloc_entry (new_Entry (InstV (iid i)) (Some p) None None None 0 path [] line col) (push_load (iid i)) st))"

definition visitEscapeInst :: "(val \<Rightarrow> ty) \<Rightarrow> instr \<Rightarrow> val \<Rightarrow> MyInstVisitor \<Rightarrow> MyInstVisitor" where
  "visitEscapeInst typeOf i v st = (if typeOf v = PointerTy then st\<lparr>v_escapes := v_escapes st @ [iid i]\<rparr> else st)"

definition visitStoreInst :: "(val \<Rightarrow> ty) \<Rightarrow> string list \<Rightarrow> nat list \<Rightarrow> string \<Rightarrow> instr \<Rightarrow> val \<Rightarrow> val \<Rightarrow> MyInstVisitor \<Rightarrow> MyInstVisitor" where
  "visitStoreInst typeOf toInstrument touchesToSkip f i v p st =
     (let st = visitEscapeInst typeOf i v st in
      if f \<notin> set toInstrument then st
      else if iid i \<in> set touchesToSkip then st
      else (case access_place i of
              (path, line, col) \<Rightarrow>
                alloc_entry
                  ((new_Entry (InstV (iid i)) (Some p) None None None (of_nat (getPrimitiveSizeInBits (typeOf v) div 8))
                      path [] line col)\<lparr>sizeElement := of_nat (getScalarSizeInBits (typeOf v) div 8)\<rparr>)
                  (push_store (iid i)) st))"

text \<open>
  What the search for the declaration of a local variable finds: nothing it can use, a use that declares no
  variable, or the variable with its directory, file, name and line.
\<close>

datatype declare_info = NoDeclare | NotAVariable | Declared string string string nat

definition visitAllocaInst :: "u64 \<Rightarrow> (nat \<Rightarrow> declare_info) \<Rightarrow> string list \<Rightarrow> string \<Rightarrow> instr \<Rightarrow> ty \<Rightarrow> MyInstVisitor \<Rightarrow> MyInstVisitor option" where
  "visitAllocaInst ptrSize declareOf toInstrument f i t st =
     (if f \<notin> set toInstrument then Some st
      else
        (let v = InstV (iid i); bytes = variableSize ptrSize t;
             add = (\<lambda>path var line col.
               let st1 = alloc_entry (new_Entry v (Some v) None None None bytes path var line col) push_allocation st in
               st1\<lparr>functionAllocaMap :=
                     um_assign f ((case map_of (functionAllocaMap st1) f of None \<Rightarrow> [] | Some is \<Rightarrow> is) @ [iid i])
                       (functionAllocaMap st1)\<rparr>) in
         case dbgLoc i of
           Some d \<Rightarrow> Some (add (debugPath d) ''UnavailableVariableName'' (getLine d) (getColumn d))
         | None \<Rightarrow>
             (case declareOf (iid i) of
                NoDeclare \<Rightarrow> Some st
              | NotAVariable \<Rightarrow> None
              | Declared dir file var line \<Rightarrow> Some (add (dir @ ''/'' @ file) var line 0))))"

definition visitReturnInst :: "instr \<Rightarrow> MyInstVisitor \<Rightarrow> MyInstVisitor" where
  "visitReturnInst i st = st\<lparr>v_returns := v_returns st @ [iid i]\<rparr>"

record visit_env =
  ve_typeOf :: "val \<Rightarrow> ty"
  ve_ptrSize :: u64
  ve_declareOf :: "nat \<Rightarrow> declare_info"

definition visit_inst :: "visit_env \<Rightarrow> llvm_module \<Rightarrow> string list \<Rightarrow> string list \<Rightarrow> nat list \<Rightarrow> string \<Rightarrow> instr \<Rightarrow> MyInstVisitor \<Rightarrow> MyInstVisitor option" where
  "visit_inst env M loadStoreFuncs allocaFuncs touchesToSkip f i st =
     (case kind i of
        CallInst _ _ \<Rightarrow> visitCallInvokeInst M i st
      | InvokeInst _ _ _ _ \<Rightarrow> visitCallInvokeInst M i st
      | LoadInst p \<Rightarrow> Some (visitLoadInst loadStoreFuncs touchesToSkip f i p st)
      | StoreInst v p \<Rightarrow> Some (visitStoreInst (ve_typeOf env) loadStoreFuncs touchesToSkip f i v p st)
      | AllocaInst t \<Rightarrow> visitAllocaInst (ve_ptrSize env) (ve_declareOf env) allocaFuncs f i t st
      | ReturnInst _ \<Rightarrow> Some (visitReturnInst i st)
      | _ \<Rightarrow> Some st)"

definition visit_module :: "visit_env \<Rightarrow> llvm_module \<Rightarrow> string list \<Rightarrow> string list \<Rightarrow> nat list \<Rightarrow> MyInstVisitor option" where
  "visit_module env M loadStoreFuncs allocaFuncs touchesToSkip =
     visit_functions (visit_inst env M loadStoreFuncs allocaFuncs touchesToSkip) (m_functions M) new_visitor"

section \<open>Globals and library calls\<close>

definition getGlobal :: "u64 \<Rightarrow> llvm_global \<Rightarrow> MyInstVisitor \<Rightarrow> MyInstVisitor" where
  "getGlobal ptrSize g st =
     (if gname g = ''llvm.global_ctors'' then st
      else (case gdebug g of
              Some (d, var) # _ \<Rightarrow>
                alloc_entry (new_Entry (GlobalV (gname g)) (Some (GlobalV (gname g))) None None None
                  (variableSize ptrSize (valueType g)) (debugPath d) var (getLine d) 0) push_allocation st
            | _ \<Rightarrow> st))"

definition getGlobals :: "u64 \<Rightarrow> llvm_module \<Rightarrow> MyInstVisitor \<Rightarrow> MyInstVisitor" where
  "getGlobals ptrSize M st = fold (getGlobal ptrSize) (m_globals M) st"

definition funcNamesToSkip :: "string list" where
  "funcNamesToSkip =
     [''fprintf'', ''fwrite'', ''printf'', ''fflush'', ''exit'', ''strcmp'', ''atoi'', ''fopen'', ''fgetc_unlocked'', ''fclose'',
      ''fread'', ''puts'', ''stat'', ''__iso99_sscanf'', ''atof'', ''sprintf'', ''__iso99_fscanf'', ''fgets'', ''perror'', ''getc'',
      ''strlen'', ''strncmp'', ''fputc'', ''ftell'', ''fseek'', ''feof'', ''strtol'', ''putchar'', ''__errno_location'',
      ''omp_get_max_threads'', ''omp_set_max_threads'', ''strerror'', ''vprintf'', ''snprintf'', ''vsnprintf'']"

fun filter_calls :: "llvm_module \<Rightarrow> (string \<Rightarrow> bool) \<Rightarrow> Entry list \<Rightarrow> nat list \<Rightarrow> nat list option" where
  "filter_calls M isPure heap [] = Some []"
| "filter_calls M isPure heap (e # es) =
     (case Option.bind (inst_of M (e_value (heap ! e))) (\<lambda>i. getCalledFunction (kind i)) of
        None \<Rightarrow> None
      | Some f \<Rightarrow> map_option (\<lambda>rest. if isPure f \<or> f \<in> set funcNamesToSkip then rest else e # rest) (filter_calls M isPure heap es))"

definition filterLibraryCalls :: "llvm_module \<Rightarrow> (string \<Rightarrow> bool) \<Rightarrow> MyInstVisitor \<Rightarrow> MyInstVisitor option" where
  "filterLibraryCalls M isPure st =
     map_option (\<lambda>us. st\<lparr>v_unknowns := us\<rparr>) (filter_calls M isPure (e_heap st) (v_unknowns st))"

section \<open>Numbering the entries\<close>

fun createDebugDataForVector :: "nat list \<Rightarrow> Entry list \<Rightarrow> DebugData list \<Rightarrow> (Entry list \<times> DebugData list) option" where
  "createDebugDataForVector [] heap debugData = Some (heap, debugData)"
| "createDebugDataForVector (e # es) heap debugData =
     (case Entry_getDebugData (heap ! e) of
        None \<Rightarrow> None
      | Some d \<Rightarrow>
          createDebugDataForVector es (heap[e := (heap ! e)\<lparr>e_id := of_nat (length debugData + 1)\<rparr>]) (debugData @ [d]))"

fun createDebugData :: "nat list list \<Rightarrow> Entry list \<Rightarrow> DebugData list \<Rightarrow> (Entry list \<times> DebugData list) option" where
  "createDebugData [] heap debugData = Some (heap, debugData)"
| "createDebugData (entries # all) heap debugData =
     Option.bind (createDebugDataForVector entries heap debugData) (\<lambda>(heap, debugData). createDebugData all heap debugData)"

definition allEntries :: "MyInstVisitor \<Rightarrow> nat list list" where
  "allEntries st = [v_allocations st, v_callocs st, v_reallocs st, v_unknowns st, v_stores st, v_loads st]"

section \<open>The entries of a visit\<close>

text \<open>
  Every entry is in one vector, once; the map leads from a load or a store to an entry of the vectors of loads and
  stores that is about this instruction.
\<close>

definition entries_inv :: "MyInstVisitor \<Rightarrow> bool" where
  "entries_inv st \<longleftrightarrow>
     distinct (concat (allEntries st)) \<and> set (concat (allEntries st)) \<subseteq> {..<length (e_heap st)}
     \<and> distinct_keys (instToEntryMap st)
     \<and> (\<forall>(i, e) \<in> set (instToEntryMap st). e \<in> set (v_loads st) \<union> set (v_stores st) \<and> e_value (e_heap st ! e) = InstV i)"

lemmas push_defs = push_allocation_def push_calloc_def push_realloc_def push_unknown_def push_load_def push_store_def

lemma entries_inv_new: "entries_inv new_visitor"
  by (simp add: entries_inv_def new_visitor_def allEntries_def)

lemma entries_inv_push:
  assumes "entries_inv st"
  shows "entries_inv (alloc_entry e push_allocation st)" "entries_inv (alloc_entry e push_calloc st)"
    "entries_inv (alloc_entry e push_realloc st)" "entries_inv (alloc_entry e push_unknown st)"
    "e_value e = InstV i \<Longrightarrow> entries_inv (alloc_entry e (push_load i) st)"
    "e_value e = InstV i \<Longrightarrow> entries_inv (alloc_entry e (push_store i) st)"
  using assms by (auto simp: entries_inv_def alloc_entry_def push_defs allEntries_def nth_append dest!: in_um_assignD)

text \<open>The fields the invariant does not read.\<close>

lemma entries_inv_frame [simp]:
  "entries_inv (st\<lparr>v_returns := x\<rparr>) = entries_inv st" "entries_inv (st\<lparr>v_invokes := x\<rparr>) = entries_inv st"
  "entries_inv (st\<lparr>v_escapes := x\<rparr>) = entries_inv st" "entries_inv (st\<lparr>v_deallocs := x\<rparr>) = entries_inv st"
  "entries_inv (st\<lparr>callsToStartTracking := x\<rparr>) = entries_inv st" "entries_inv (st\<lparr>functionAllocaMap := y\<rparr>) = entries_inv st"
  by (simp_all add: entries_inv_def allEntries_def)

lemma new_Entry_value [simp]: "e_value (new_Entry v p np sz ne b path var l c) = v"
  by (simp add: new_Entry_def)

lemma visitCallInvokeInst_cases:
  assumes "visitCallInvokeInst M i st = Some st'"
  obtains "st' = st"
  | fp d st1 where "visit_library_call i fp d st = Some st1" "st' = st1 \<or> st' = st1\<lparr>v_invokes := v_invokes st1 @ [iid i]\<rparr>"
proof -
  from assms consider "st' = st" | fp d st1 where "visit_library_call i fp d st = Some st1"
      "st' = (case kind i of InvokeInst _ _ _ _ \<Rightarrow> st1\<lparr>v_invokes := v_invokes st1 @ [iid i]\<rparr> | _ \<Rightarrow> st1)"
    by (auto simp: visitCallInvokeInst_def split: option.splits if_splits)
  then show thesis
  proof cases
    case 2
    then show ?thesis using that(2) [OF 2(1)] by (cases "kind i") simp_all
  qed (rule that)
qed

lemma entries_inv_visit_library_call:
  assumes "entries_inv st" "visit_library_call i f d st = Some st'"
  shows "entries_inv st'"
proof (cases "case map_of functionCalls f of None \<Rightarrow> Unknown | Some a \<Rightarrow> a")
qed (use assms in \<open>auto simp: visit_library_call_def Let_def bind_eq_Some_conv split: if_splits intro!: entries_inv_push\<close>)

lemma entries_inv_visit_inst:
  assumes "entries_inv st" "visit_inst env M L A T f i st = Some st'"
  shows "entries_inv st'"
proof -
  have call: "entries_inv st'" if "visitCallInvokeInst M i st = Some st'"
    using that
  proof (cases rule: visitCallInvokeInst_cases)
    case (2 fp d st1)
    then show ?thesis using entries_inv_visit_library_call [OF assms(1) 2(1)] by auto
  qed (use assms(1) in simp)
  show ?thesis
  proof (cases "kind i")
    case (AllocaInst t)
    then show ?thesis
      using assms by (auto simp: visit_inst_def visitAllocaInst_def Let_def split: if_splits option.splits declare_info.splits
          intro!: entries_inv_push)
  next
    case (LoadInst p)
    then show ?thesis
      using assms by (auto simp: visit_inst_def visitLoadInst_def split: if_splits prod.splits intro!: entries_inv_push)
  next
    case (StoreInst v p)
    then show ?thesis
      using assms by (auto simp: visit_inst_def visitStoreInst_def visitEscapeInst_def Let_def split: if_splits prod.splits
          intro!: entries_inv_push)
  qed (use assms call in \<open>auto simp: visit_inst_def visitReturnInst_def\<close>)
qed

lemma entries_inv_visit_module: "visit_module env M L A T = Some st \<Longrightarrow> entries_inv st"
  unfolding visit_module_def
  by (rule visit_functions_invariant [where P = entries_inv]) (auto intro: entries_inv_new entries_inv_visit_inst)

lemma entries_inv_getGlobals: "entries_inv st \<Longrightarrow> entries_inv (getGlobals p M st)"
proof -
  have "entries_inv (getGlobal p g s)" if "entries_inv s" for g s
    using that by (auto simp: getGlobal_def split: list.splits option.splits intro!: entries_inv_push)
  then show "entries_inv st \<Longrightarrow> entries_inv (getGlobals p M st)"
    unfolding getGlobals_def by (induction "m_globals M" arbitrary: st rule: rev_induct) (auto simp: fold_invariant [where P = entries_inv])
qed

lemma filter_calls_subset:
  "filter_calls M isPure heap es = Some us \<Longrightarrow> set us \<subseteq> set es \<and> (distinct es \<longrightarrow> distinct us)"
  by (induction es arbitrary: us) (auto split: option.splits if_splits)

lemma entries_inv_filterLibraryCalls:
  assumes "entries_inv st" "filterLibraryCalls M isPure st = Some st'"
  shows "entries_inv st'"
proof -
  obtain us where us: "filter_calls M isPure (e_heap st) (v_unknowns st) = Some us" "st' = st\<lparr>v_unknowns := us\<rparr>"
    using assms(2) by (auto simp: filterLibraryCalls_def)
  then show ?thesis
    using filter_calls_subset [OF us(1)] assms(1) by (auto simp: entries_inv_def allEntries_def)
qed

section \<open>Which loads and stores have an entry\<close>

lemma keys_alloc_entry [simp]:
  "instToEntryMap (alloc_entry e push_allocation st) = instToEntryMap st"
  "instToEntryMap (alloc_entry e push_calloc st) = instToEntryMap st"
  "instToEntryMap (alloc_entry e push_realloc st) = instToEntryMap st"
  "instToEntryMap (alloc_entry e push_unknown st) = instToEntryMap st"
  "instToEntryMap (alloc_entry e (push_load i) st) = um_assign i (length (e_heap st)) (instToEntryMap st)"
  "instToEntryMap (alloc_entry e (push_store i) st) = um_assign i (length (e_heap st)) (instToEntryMap st)"
  by (simp_all add: alloc_entry_def push_defs)

lemma dom_um_assign: "fst ` set (um_assign k v m) = insert k (fst ` set m)"
  by (simp add: um_assign_def dom_update)

lemma keys_visit_inst:
  assumes "visit_inst env M L A T f i st = Some st'"
  shows "fst ` set (instToEntryMap st') = fst ` set (instToEntryMap st)
    \<union> (if is_load_store (kind i) \<and> f \<in> set L \<and> iid i \<notin> set T then {iid i} else {})"
proof -
  have lib: "instToEntryMap st1 = instToEntryMap st" if "visit_library_call i fp d st = Some st1" for fp d st1
  proof (cases "case map_of functionCalls fp of None \<Rightarrow> Unknown | Some a \<Rightarrow> a")
  qed (use that in \<open>auto simp: visit_library_call_def Let_def bind_eq_Some_conv split: if_splits\<close>)
  have call: "instToEntryMap st' = instToEntryMap st" if "visitCallInvokeInst M i st = Some st'"
    using that
  proof (cases rule: visitCallInvokeInst_cases)
    case (2 fp d st1)
    then show ?thesis using lib [OF 2(1)] by auto
  qed simp
  show ?thesis
  proof (cases "kind i")
    case (AllocaInst t)
    then show ?thesis
      using assms by (auto simp: visit_inst_def visitAllocaInst_def is_load_store_def Let_def
          split: if_splits option.splits declare_info.splits)
  next
    case (LoadInst p)
    then have "st' = visitLoadInst L T f i p st" using assms by (simp add: visit_inst_def)
    then show ?thesis by (simp add: visitLoadInst_def is_load_store_def LoadInst dom_um_assign split: prod.split)
  next
    case (StoreInst v p)
    then have "st' = visitStoreInst (ve_typeOf env) L T f i v p st" using assms by (simp add: visit_inst_def)
    then show ?thesis
      by (simp add: visitStoreInst_def visitEscapeInst_def is_load_store_def StoreInst dom_um_assign Let_def split: prod.split)
  qed (use assms call in \<open>auto simp: visit_inst_def visitReturnInst_def is_load_store_def\<close>)
qed

lemma keys_fold_opt:
  assumes "fold_opt f xs st = Some st'"
    "\<And>x s t. f x s = Some t \<Longrightarrow> fst ` set (instToEntryMap t) = fst ` set (instToEntryMap s) \<union> K x"
  shows "fst ` set (instToEntryMap st') = fst ` set (instToEntryMap st) \<union> (\<Union>x \<in> set xs. K x)"
  using assms(1)
proof (induction xs arbitrary: st)
  case (Cons x xs)
  then obtain q where "f x st = Some q" "fold_opt f xs q = Some st'" by (auto simp: bind_eq_Some_conv)
  then show ?case using Cons.IH assms(2) by auto
qed simp

text \<open>The loads and stores of the chosen functions that no analysis took out.\<close>

definition tracked_accesses :: "llvm_module \<Rightarrow> string list \<Rightarrow> nat list \<Rightarrow> nat set" where
  "tracked_accesses M L T = {iid i | F i. F \<in> set (m_functions M) \<and> i \<in> set (func_insts F) \<and> is_load_store (kind i)
     \<and> fname F \<in> set L \<and> iid i \<notin> set T}"

lemma keys_visit_module:
  assumes "visit_module env M L A T = Some st"
  shows "fst ` set (instToEntryMap st) = tracked_accesses M L T"
proof -
  let ?K = "\<lambda>F i. if is_load_store (kind i) \<and> fname F \<in> set L \<and> iid i \<notin> set T then {iid i} else {}"
  have "fst ` set (instToEntryMap st) = fst ` set (instToEntryMap new_visitor)
      \<union> (\<Union>F \<in> set (m_functions M). \<Union>i \<in> set (func_insts F). ?K F i)"
    by (rule keys_fold_opt [OF assms [unfolded visit_module_def visit_functions_def]])
       (rule keys_fold_opt, assumption, rule keys_visit_inst)
  then show ?thesis by (auto simp: new_visitor_def tracked_accesses_def split: if_splits)
qed

section \<open>The numbers\<close>

lemma createDebugData_concat: "createDebugData all heap recs = createDebugDataForVector (concat all) heap recs"
proof (induction all arbitrary: heap recs)
  case (Cons es all)
  have "createDebugDataForVector (as @ bs) heap recs
      = Option.bind (createDebugDataForVector as heap recs) (\<lambda>(heap, recs). createDebugDataForVector bs heap recs)"
    for as bs heap recs
    by (induction as arbitrary: heap recs) (auto split: option.splits)
  then show ?case using Cons by (auto split: Option.bind_split)
qed simp

lemma createDebugDataForVector_numbers:
  assumes "createDebugDataForVector es heap recs = Some (heap', recs')" "distinct es" "set es \<subseteq> {..<length heap}"
  shows "length recs' = length recs + length es \<and> take (length recs) recs' = recs \<and> length heap' = length heap
    \<and> (\<forall>x. x \<notin> set es \<longrightarrow> heap' ! x = heap ! x)
    \<and> (\<forall>k < length es. e_id (heap' ! (es ! k)) = of_nat (length recs + k + 1)
          \<and> Entry_getDebugData (heap ! (es ! k)) = Some (recs' ! (length recs + k)))"
  using assms
proof (induction es arbitrary: heap recs)
  case (Cons e es)
  obtain d where d: "Entry_getDebugData (heap ! e) = Some d" using Cons.prems(1) by (auto split: option.splits)
  let ?h = "heap[e := (heap ! e)\<lparr>e_id := of_nat (length recs + 1)\<rparr>]"
  have run: "createDebugDataForVector es ?h (recs @ [d]) = Some (heap', recs')" using Cons.prems(1) d by simp
  have ih: "length recs' = length recs + 1 + length es" "take (length recs + 1) recs' = recs @ [d]" "length heap' = length heap"
    "\<And>x. x \<notin> set es \<Longrightarrow> heap' ! x = ?h ! x"
    "\<And>k. k < length es \<Longrightarrow> e_id (heap' ! (es ! k)) = of_nat (length recs + 1 + k + 1)
       \<and> Entry_getDebugData (?h ! (es ! k)) = Some (recs' ! (length recs + 1 + k))"
    using Cons.IH [OF run] Cons.prems(2,3) by auto
  have first: "recs' ! length recs = d" "take (length recs) recs' = recs"
  proof -
    have "recs' ! length recs = take (length recs + 1) recs' ! length recs" by simp
    also have "\<dots> = d" unfolding ih(2) by simp
    finally show "recs' ! length recs = d" .
    have "take (length recs) recs' = take (length recs) (take (length recs + 1) recs')" by simp
    also have "\<dots> = recs" unfolding ih(2) by simp
    finally show "take (length recs) recs' = recs" .
  qed
  have "e_id (heap' ! ((e # es) ! k)) = of_nat (length recs + k + 1)
      \<and> Entry_getDebugData (heap ! ((e # es) ! k)) = Some (recs' ! (length recs + k))" if k: "k < length (e # es)" for k
  proof (cases k)
    case 0
    then show ?thesis using ih(4) [of e] Cons.prems(2,3) d first by simp
  next
    case (Suc j)
    then have j: "j < length es" "es ! j \<noteq> e" using k Cons.prems(2) by (auto simp: in_set_conv_nth)
    then show ?thesis using ih(5) [OF j(1)] Suc by simp
  qed
  then show ?case using ih first Cons.prems by auto
qed simp

text \<open>
  C28: the numbers the compiler writes into the program lead back to the source. Each entry the pass collected has a
  number different from 0 and from the numbers of the other entries, and the report tools read under this number
  exactly the file, variable, line and column of the entry, for less than \<open>2 ^ 64\<close> entries.
\<close>

theorem entries_numbered:
  assumes "visit_module env M L A T = Some st0" "filterLibraryCalls M isPure st0 = Some st1"
    and "createDebugData (allEntries (getGlobals p M st1)) (e_heap (getGlobals p M st1)) [] = Some (heap, recs)"
    and "length recs < 2 ^ 64"
  shows "(\<forall>e \<in> set (concat (allEntries (getGlobals p M st1))). e_id (heap ! e) \<noteq> 0
        \<and> getDebugData recs (e_id (heap ! e)) = Entry_getDebugData (e_heap (getGlobals p M st1) ! e))
    \<and> inj_on (\<lambda>e. e_id (heap ! e)) (set (concat (allEntries (getGlobals p M st1))))"
proof -
  let ?st = "getGlobals p M st1" let ?es = "concat (allEntries ?st)"
  have inv: "entries_inv ?st"
    using entries_inv_getGlobals entries_inv_filterLibraryCalls [OF entries_inv_visit_module [OF assms(1)] assms(2)] by blast
  have num: "length recs = length ?es" "\<And>k. k < length ?es \<Longrightarrow> e_id (heap ! (?es ! k)) = of_nat (k + 1)
      \<and> Entry_getDebugData (e_heap ?st ! (?es ! k)) = Some (recs ! k)"
    using createDebugDataForVector_numbers [of ?es "e_heap ?st" "[]" heap recs] assms(3) inv
    by (auto simp: createDebugData_concat entries_inv_def)
  have small: "unat (of_nat (k + 1) :: u64) = k + 1" if "k < length ?es" for k
    using that num(1) assms(4) by (simp only: unsigned_of_nat) (simp add: take_bit_eq_mod)
  show ?thesis
  proof (intro conjI ballI inj_onI)
    fix e assume "e \<in> set ?es"
    then obtain k where k: "k < length ?es" "e = ?es ! k" by (metis in_set_conv_nth)
    have id: "e_id (heap ! e) = of_nat (k + 1)" "unat (e_id (heap ! e)) = k + 1"
      using num(2) [OF k(1)] small [OF k(1)] k(2) by simp_all
    then show "e_id (heap ! e) \<noteq> 0" by (metis add_is_0 one_neq_zero unat_0)
    show "getDebugData recs (e_id (heap ! e)) = Entry_getDebugData (e_heap ?st ! e)"
      using id(2) num k by (simp add: getDebugData_def)
  next
    fix e f assume e: "e \<in> set ?es" "f \<in> set ?es" and eq: "e_id (heap ! e) = e_id (heap ! f)"
    obtain k j where k: "k < length ?es" "e = ?es ! k" and j: "j < length ?es" "f = ?es ! j" using e by (metis in_set_conv_nth)
    have "k + 1 = j + 1" using num(2) [OF k(1)] num(2) [OF j(1)] small [OF k(1)] small [OF j(1)] eq k(2) j(2) by metis
    then show "e = f" using k j by simp
  qed
qed

text \<open>The example of the data flow analysis, with its second load skipped.\<close>

definition visit_sample_env :: visit_env where
  "visit_sample_env = \<lparr>ve_typeOf = (\<lambda>_. IntegerTy 64), ve_ptrSize = 8, ve_declareOf = (\<lambda>_. NoDeclare)\<rparr>"

lemma sample_numbered:
  "case visit_module visit_sample_env touch_module [''f''] [] [6] of None \<Rightarrow> False
     | Some st0 \<Rightarrow> (case filterLibraryCalls touch_module (\<lambda>_. False) st0 of None \<Rightarrow> False
        | Some st1 \<Rightarrow> (case createDebugData (allEntries (getGlobals 8 touch_module st1)) (e_heap (getGlobals 8 touch_module st1)) []
             of None \<Rightarrow> False | Some (heap, recs) \<Rightarrow> length recs = 3 \<and> concat (allEntries (getGlobals 8 touch_module st1)) = [1, 2, 0]))"
  by code_simp

theorem entries_numbered_witness:
  "\<exists>st0 st1 heap recs. visit_module visit_sample_env touch_module [''f''] [] [6] = Some st0
     \<and> filterLibraryCalls touch_module (\<lambda>_. False) st0 = Some st1
     \<and> createDebugData (allEntries (getGlobals 8 touch_module st1)) (e_heap (getGlobals 8 touch_module st1)) [] = Some (heap, recs)
     \<and> length recs < 2 ^ 64 \<and> e_id (heap ! 1) \<noteq> 0 \<and> e_id (heap ! 1) \<noteq> e_id (heap ! 2)"
proof -
  obtain st0 st1 heap recs where run: "visit_module visit_sample_env touch_module [''f''] [] [6] = Some st0"
    "filterLibraryCalls touch_module (\<lambda>_. False) st0 = Some st1"
    "createDebugData (allEntries (getGlobals 8 touch_module st1)) (e_heap (getGlobals 8 touch_module st1)) [] = Some (heap, recs)"
    and es: "length recs = 3" "concat (allEntries (getGlobals 8 touch_module st1)) = [1, 2, 0]"
    using sample_numbered by (auto split: option.splits)
  have small: "length recs < 2 ^ 64" using es(1) by simp
  note props = entries_numbered [OF run small]
  have "e_id (heap ! 1) \<noteq> 0" using props es(2) by auto
  moreover have "e_id (heap ! 1) \<noteq> e_id (heap ! 2)" using props es(2) by (auto dest!: inj_onD)
  ultimately show ?thesis using run small by blast
qed

end
