(* ===== verification/Select_Insts.thy ===== *)
theory Select_Insts
  imports Inst_Visitor Texas_Helpers
begin

text \<open>
  The analyses that choose how a load or a store is instrumented: \<open>OnlyRead.cpp\<close>, \<open>DirectState.cpp\<close>,
  \<open>Invariant.cpp\<close>, \<open>MostlyInvariant.cpp\<close>, \<open>Induction.cpp\<close>, \<open>BaseAddressMostlyInvariant.cpp\<close>, and the part of
  \<open>runOnModule\<close> that runs them one after the other. A loop of NOELLE is an argument: its instructions, what its
  managers answer about invariants and induction variables, and its dependence graph. The counts of the profiler
  are compared as exact fractions, which is what the division of doubles gives for counts below \<open>2 ^ 52\<close>.
\<close>

section \<open>What NOELLE tells about a loop\<close>

record gov_iv =
  iv_insts :: "nat list"
  iv_start :: "val option"
  iv_exit :: "val option"

record loop_info =
  l_insts :: "instr list"
  l_headerTerminator :: nat
  isLoopInvariant :: "val \<Rightarrow> bool"
  contributesToIV :: "nat \<Rightarrow> bool"
  depsFrom :: "nat \<Rightarrow> (val \<times> bool) list"
  depsTo :: "nat \<Rightarrow> (val \<times> bool) list"
  l_govIV :: "gov_iv option"

definition isIncluded :: "loop_info \<Rightarrow> nat \<Rightarrow> bool" where
  "isIncluded l n \<longleftrightarrow> n \<in> iid ` set (l_insts l)"

text \<open>
  The loops all these analyses have in common: the instructions of a loop that have an entry and are not skipped.
\<close>

definition candidates :: "nat list \<Rightarrow> (nat \<times> nat) list \<Rightarrow> loop_info \<Rightarrow> instr list" where
  "candidates instsToSkip instToEntry l =
     filter (\<lambda>i. map_of instToEntry (iid i) \<noteq> None \<and> iid i \<notin> set instsToSkip) (l_insts l)"

definition entry_of :: "Entry list \<Rightarrow> (nat \<times> nat) list \<Rightarrow> nat \<Rightarrow> Entry" where
  "entry_of heap instToEntry n = heap ! the (map_of instToEntry n)"

text \<open>The candidates of all loops for which a test that may abort holds.\<close>

definition collect_if :: "(loop_info \<Rightarrow> instr \<Rightarrow> bool option) \<Rightarrow> loop_info list \<Rightarrow> nat list \<Rightarrow> (nat \<times> nat) list \<Rightarrow> nat list option" where
  "collect_if test loops instsToSkip instToEntry =
     map_option (\<lambda>iss. us_insert_all (concat iss) [])
       (those (concat (map (\<lambda>l. map (\<lambda>i. map_option (\<lambda>b. if b then [iid i] else []) (test l i))
                                  (candidates instsToSkip instToEntry l)) loops)))"

section \<open>OnlyRead.cpp\<close>

definition getOnlyReadLoads :: "nat list \<Rightarrow> (nat \<times> nat) list \<Rightarrow> loop_info \<Rightarrow> nat list" where
  "getOnlyReadLoads instsToSkip instToEntry l =
     us_insert_all
       (map iid (filter (\<lambda>i. (case kind i of LoadInst _ \<Rightarrow> True | _ \<Rightarrow> False) \<and> isLoopInvariant l (InstV (iid i)))
                   (candidates instsToSkip instToEntry l))) []"

text \<open>
  \<open>roiLoop\<close> is \<open>getROILoop\<close>: the innermost loop around the start of a region, if there is one. The union writes into
  the set it reads from, which adds no element that is in neither.
\<close>

definition getOnlyReadLoadsAll :: "(nat \<Rightarrow> nat \<Rightarrow> bool) \<Rightarrow> (nat \<Rightarrow> loop_info option) \<Rightarrow> ROI list \<Rightarrow> nat list \<Rightarrow> (nat \<times> nat) list \<Rightarrow> nat list" where
  "getOnlyReadLoadsAll lt roiLoop rois instsToSkip instToEntry =
     fold (\<lambda>r acc. case roiLoop (roi_start r) of
                     None \<Rightarrow> acc
                   | Some l \<Rightarrow> us_insert_all (set_union lt (getOnlyReadLoads instsToSkip instToEntry l) acc) acc) rois []"

section \<open>DirectState.cpp\<close>



record DirectStateLoadStore =
  ds_inst :: nat
  ds_baseAddr :: val
  ds_startIndVar :: "val option"
  ds_stopIndVar :: "val option"
  ds_FSAState :: operations

text \<open>The induction variable is read only after the first three tests; a loop without one is a null pointer there.\<close>

definition isConnectedToLoopGovIndVar :: "llvm_module \<Rightarrow> val \<Rightarrow> gov_iv option \<Rightarrow> bool option" where
  "isConnectedToLoopGovIndVar M pointerOperand loopGovIndVar =
     (case inst_of M pointerOperand of
        Some g \<Rightarrow>
          (case kind g of
             GetElementPtrInst p [index] \<Rightarrow>
               (case inst_of M index of
                  None \<Rightarrow> Some False
                | Some ii \<Rightarrow> map_option (\<lambda>iv. iid ii \<in> set (iv_insts iv)) loopGovIndVar)
           | _ \<Rightarrow> Some False)
      | None \<Rightarrow> Some False)"

text \<open>The callback on one dependence: whether it is one that matters.\<close>

definition iterDep :: "llvm_module \<Rightarrow> loop_info \<Rightarrow> val \<times> bool \<Rightarrow> bool" where
  "iterDep M l dep =
     (case dep of
        (src, isControl) \<Rightarrow>
          (case inst_of M src of
             Some i \<Rightarrow>
               if \<not> isIncluded l (iid i) then False
               else if isControl then iid i \<noteq> l_headerTerminator l
               else (case (if isCallBase (kind i) then getCalledFunction (kind i) else None) of
                       None \<Rightarrow> True
                     | Some f \<Rightarrow>
                         \<not> ((case getFunctionByName M f of None \<Rightarrow> False | Some F \<Rightarrow> isIntrinsic F)
                            \<or> f \<in> {MEMORYTOOL_START_TRACKING, MEMORYTOOL_STOP_TRACKING, MEMORYTOOL_CONTEXT}))
           | None \<Rightarrow> True))"

definition isInput :: "llvm_module \<Rightarrow> loop_info \<Rightarrow> instr \<Rightarrow> bool" where
  "isInput M l i =
     (case kind i of
        LoadInst _ \<Rightarrow> \<not> list_ex (iterDep M l) (depsFrom l (iid i)) \<and> \<not> list_ex (iterDep M l) (depsTo l (iid i))
      | _ \<Rightarrow> False)"

definition isOutput :: "llvm_module \<Rightarrow> loop_info \<Rightarrow> instr \<Rightarrow> bool" where
  "isOutput M l i =
     (case kind i of
        StoreInst _ _ \<Rightarrow> \<not> list_ex (iterDep M l) (depsFrom l (iid i)) \<and> \<not> list_ex (iterDep M l) (depsTo l (iid i))
      | _ \<Rightarrow> False)"

text \<open>One access with the state it sets: the whole range of the array when its index is the induction variable.\<close>

definition direct_state :: "llvm_module \<Rightarrow> loop_info \<Rightarrow> instr \<Rightarrow> val \<Rightarrow> operations \<Rightarrow> DirectStateLoadStore option" where
  "direct_state M l i pointerOperand state =
     map_option
       (\<lambda>connected.
          if connected
          then \<lparr>ds_inst = iid i, ds_baseAddr = (case gep_base M pointerOperand of None \<Rightarrow> pointerOperand | Some p \<Rightarrow> p),
                ds_startIndVar = Option.bind (l_govIV l) iv_start, ds_stopIndVar = Option.bind (l_govIV l) iv_exit,
                ds_FSAState = state\<rparr>
          else \<lparr>ds_inst = iid i, ds_baseAddr = pointerOperand, ds_startIndVar = None, ds_stopIndVar = None, ds_FSAState = state\<rparr>)
       (isConnectedToLoopGovIndVar M pointerOperand (l_govIV l))"

definition direct_state_inst :: "llvm_module \<Rightarrow> loop_info \<Rightarrow> instr \<Rightarrow> DirectStateLoadStore list option" where
  "direct_state_inst M l i =
     (if isInput M l i
      then (case kind i of LoadInst p \<Rightarrow> map_option (\<lambda>d. [d]) (direct_state M l i p STATE_ADD_INPUT) | _ \<Rightarrow> Some [])
      else if isOutput M l i
      then (case kind i of StoreInst v p \<Rightarrow> map_option (\<lambda>d. [d]) (direct_state M l i p STATE_ADD_OUTPUT) | _ \<Rightarrow> Some [])
      else Some [])"

definition getDirectStateLoadStore :: "llvm_module \<Rightarrow> nat list \<Rightarrow> (nat \<times> nat) list \<Rightarrow> loop_info \<Rightarrow> DirectStateLoadStore list option" where
  "getDirectStateLoadStore M instsToSkip instToEntry l =
     map_option concat (those (map (direct_state_inst M l) (candidates instsToSkip instToEntry l)))"

definition PROMOTE_ALLOCAS :: string where
  "PROMOTE_ALLOCAS = ''PROMOTE_ALLOCAS''"

definition hasMetadata :: "instr \<Rightarrow> string \<Rightarrow> bool" where
  "hasMetadata i name \<longleftrightarrow> map_of (metadata i) name \<noteq> None"

definition getDirectStateLoadStoreAll :: "llvm_module \<Rightarrow> (nat \<Rightarrow> loop_info option) \<Rightarrow> ROI list \<Rightarrow> nat list \<Rightarrow> (nat \<times> nat) list \<Rightarrow>
    DirectStateLoadStore list option" where
  "getDirectStateLoadStoreAll M roiLoop rois instsToSkip instToEntry =
     map_option concat
       (those (map (\<lambda>r. case roiLoop (roi_start r) of
                          None \<Rightarrow> Some []
                        | Some l \<Rightarrow>
                            if (case inst_of M (InstV (roi_start r)) of None \<Rightarrow> False | Some i \<Rightarrow> hasMetadata i PROMOTE_ALLOCAS)
                            then getDirectStateLoadStore M instsToSkip instToEntry l else Some []) rois))"

definition getDirectStateLoadStoreInsts :: "DirectStateLoadStore list \<Rightarrow> nat list" where
  "getDirectStateLoadStoreInsts ds = us_insert_all (map ds_inst ds) []"

section \<open>Invariant.cpp\<close>

definition addr_of :: "Entry list \<Rightarrow> (nat \<times> nat) list \<Rightarrow> instr \<Rightarrow> val" where
  "addr_of heap instToEntry i = (case allocPointer (entry_of heap instToEntry (iid i)) of Some a \<Rightarrow> a | None \<Rightarrow> NullV)"

definition getLoopInvariants :: "loop_info list \<Rightarrow> nat list \<Rightarrow> (nat \<times> nat) list \<Rightarrow> Entry list \<Rightarrow> nat list" where
  "getLoopInvariants loops instsToSkip instToEntry heap =
     us_insert_all
       (concat (map (\<lambda>l. map iid (filter (\<lambda>i. isLoopInvariant l (addr_of heap instToEntry i))
                                   (candidates instsToSkip instToEntry l))) loops)) []"

section \<open>MostlyInvariant.cpp\<close>

text \<open>The instructions that can change a pointer inside a loop: the definitions behind the \<open>phi\<close> nodes.\<close>

fun getModifiers :: "nat \<Rightarrow> llvm_module \<Rightarrow> loop_info \<Rightarrow> instr \<Rightarrow> nat list \<times> nat list \<Rightarrow> (nat list \<times> nat list) option"
  and modifiers_incoming :: "nat \<Rightarrow> llvm_module \<Rightarrow> loop_info \<Rightarrow> (val \<times> nat) list \<Rightarrow> nat list \<times> nat list \<Rightarrow> (nat list \<times> nat list) option" where
  "getModifiers 0 M l ptr st = None"
| "getModifiers (Suc n) M l ptr (modifiers, visitedPHINodes) =
     (if iid ptr \<in> set modifiers then Some (modifiers, visitedPHINodes)
      else if \<not> isIncluded l (iid ptr) then Some (modifiers, visitedPHINodes)
      else (case kind ptr of
              PHINode incoming \<Rightarrow>
                if iid ptr \<in> set visitedPHINodes then Some (modifiers, visitedPHINodes)
                else modifiers_incoming n M l incoming (modifiers, us_insert (iid ptr) visitedPHINodes)
            | _ \<Rightarrow> Some (us_insert (iid ptr) modifiers, visitedPHINodes)))"
| "modifiers_incoming n M l [] st = Some st"
| "modifiers_incoming n M l (v # vs) st =
     (case inst_of M (fst v) of
        None \<Rightarrow> modifiers_incoming n M l vs st
      | Some i \<Rightarrow> Option.bind (getModifiers n M l i st) (modifiers_incoming n M l vs))"

definition hot_ratio :: "nat \<Rightarrow> nat \<Rightarrow> bool" where
  "hot_ratio mCounter instCounter \<longleftrightarrow> (if instCounter = 0 then mCounter > 0 else 2 * mCounter > instCounter)"

definition isMostlyInvariant :: "nat \<Rightarrow> llvm_module \<Rightarrow> (nat \<Rightarrow> nat) \<Rightarrow> loop_info \<Rightarrow> (nat \<times> nat) list \<Rightarrow> Entry list \<Rightarrow> instr \<Rightarrow> bool option" where
  "isMostlyInvariant n M hot l instToEntry heap i =
     (case inst_of M (addr_of heap instToEntry i) of
        None \<Rightarrow> Some False
      | Some addrInst \<Rightarrow>
          map_option (\<lambda>(modifiers, _). \<not> list_ex (\<lambda>m. hot_ratio (hot m) (hot (iid i))) modifiers)
            (getModifiers n M l addrInst ([], [])))"

definition getLoopMostlyInvariants :: "nat \<Rightarrow> llvm_module \<Rightarrow> (nat \<Rightarrow> nat) \<Rightarrow> loop_info list \<Rightarrow> nat list \<Rightarrow> (nat \<times> nat) list \<Rightarrow> Entry list \<Rightarrow> nat list option" where
  "getLoopMostlyInvariants n M hot loops instsToSkip instToEntry heap =
     collect_if (\<lambda>l i. isMostlyInvariant n M hot l instToEntry heap i) loops instsToSkip instToEntry"

section \<open>Induction.cpp\<close>

fun isConnectedToAnInductionVariableRecursive :: "nat \<Rightarrow> llvm_module \<Rightarrow> (nat \<Rightarrow> bool) \<Rightarrow> val \<Rightarrow> val list \<Rightarrow> (bool \<times> val list) option"
  and connected_operands :: "nat \<Rightarrow> llvm_module \<Rightarrow> (nat \<Rightarrow> bool) \<Rightarrow> val list \<Rightarrow> val list \<Rightarrow> (bool \<times> val list) option" where
  "isConnectedToAnInductionVariableRecursive 0 M iv v visited = None"
| "isConnectedToAnInductionVariableRecursive (Suc n) M iv v visited =
     (if v \<in> set visited then Some (False, visited)
      else (case inst_of M v of
              None \<Rightarrow> Some (False, us_insert v visited)
            | Some i \<Rightarrow>
                if iv (iid i) then Some (True, us_insert v visited)
                else connected_operands n M iv (operands (kind i)) (us_insert v visited)))"
| "connected_operands n M iv [] visited = Some (False, visited)"
| "connected_operands n M iv (v # vs) visited =
     (case isConnectedToAnInductionVariableRecursive n M iv v visited of
        None \<Rightarrow> None
      | Some (True, visited) \<Rightarrow> Some (True, visited)
      | Some (False, visited) \<Rightarrow> connected_operands n M iv vs visited)"

definition isConnectedToAnInductionVariable :: "nat \<Rightarrow> llvm_module \<Rightarrow> (nat \<Rightarrow> bool) \<Rightarrow> val \<Rightarrow> bool option" where
  "isConnectedToAnInductionVariable n M iv v = map_option fst (isConnectedToAnInductionVariableRecursive n M iv v [])"

definition hasAllConstantIndices :: "val list \<Rightarrow> bool" where
  "hasAllConstantIndices is = list_all (\<lambda>v. case v of ConstV _ \<Rightarrow> True | _ \<Rightarrow> False) is"

fun special_incoming :: "llvm_module \<Rightarrow> loop_info \<Rightarrow> (val \<times> nat) list \<Rightarrow> nat \<Rightarrow> nat \<Rightarrow> bool" where
  "special_incoming M l [] included numIncoming \<longleftrightarrow> included \<noteq> numIncoming"
| "special_incoming M l (v # vs) included numIncoming \<longleftrightarrow>
     (case inst_of M (fst v) of
        None \<Rightarrow> False
      | Some i \<Rightarrow>
          if \<not> isIncluded l (iid i) then special_incoming M l vs (included + 1) numIncoming
          else (case kind i of
                  GetElementPtrInst p is \<Rightarrow> hasAllConstantIndices is \<and> special_incoming M l vs included numIncoming
                | _ \<Rightarrow> False))"

definition checkSpecialInductionCondition :: "llvm_module \<Rightarrow> loop_info \<Rightarrow> val \<Rightarrow> bool" where
  "checkSpecialInductionCondition M l addr =
     (case inst_of M addr of
        Some i \<Rightarrow> (case kind i of PHINode incoming \<Rightarrow> special_incoming M l incoming 0 (length incoming) | _ \<Rightarrow> False)
      | None \<Rightarrow> False)"

definition isLoopInduction :: "nat \<Rightarrow> llvm_module \<Rightarrow> loop_info \<Rightarrow> val \<Rightarrow> bool option" where
  "isLoopInduction n M l addr =
     (if checkSpecialInductionCondition M l addr then Some True
      else map_option (\<lambda>c. c \<and> gep_base M addr \<noteq> None) (isConnectedToAnInductionVariable n M (contributesToIV l) addr))"

definition getLoopInductions :: "nat \<Rightarrow> llvm_module \<Rightarrow> loop_info list \<Rightarrow> nat list \<Rightarrow> (nat \<times> nat) list \<Rightarrow> Entry list \<Rightarrow> nat list option" where
  "getLoopInductions n M loops instsToSkip instToEntry heap =
     collect_if (\<lambda>l i. isLoopInduction n M l (addr_of heap instToEntry i)) loops instsToSkip instToEntry"

section \<open>BaseAddressMostlyInvariant.cpp\<close>

text \<open>The entries of the chosen accesses are changed to track the base address.\<close>

definition base_step :: "llvm_module \<Rightarrow> nat list \<Rightarrow> nat \<times> nat \<Rightarrow> Entry list \<times> nat list \<Rightarrow> Entry list \<times> nat list" where
  "base_step M instsToSkip elem st =
     (case (elem, st) of
        ((inst, e), (heap, out)) \<Rightarrow>
          if inst \<in> set instsToSkip then (heap, out)
          else (case Option.bind (allocPointer (heap ! e)) (gep_base M) of
                  None \<Rightarrow> (heap, out)
                | Some p \<Rightarrow> (heap[e := (heap ! e)\<lparr>allocPointer := Some p\<rparr>], us_insert inst out)))"

definition getBaseAddressMostlyInvariants :: "llvm_module \<Rightarrow> nat list \<Rightarrow> (nat \<times> nat) list \<Rightarrow> Entry list \<Rightarrow> Entry list \<times> nat list" where
  "getBaseAddressMostlyInvariants M instsToSkip instToEntry heap = fold (base_step M instsToSkip) instToEntry (heap, [])"

section \<open>The selection in runOnModule\<close>

text \<open>
  The switches of the build (the \<open>MEMORYTOOL_DISABLE\<close> macros) and of the command line.
\<close>

record pass_config =
  disable_STORE_DFA_OPT :: bool
  disable_SKIP_ROIS_LOADS_STORES :: bool
  disable_ONLY_READ_OPT :: bool
  disable_DIRECT_STATE :: bool
  disable_LOOP_INVARIANT_STORE_OPT :: bool
  disable_MOSTLY_LOOP_INVARIANT_STORE_OPT :: bool
  disable_LOOP_INDUCTION_STORE_OPT :: bool
  disable_BASE_ADDRESS_MOSTLY_INVARIANT_STORE_OPT :: bool
  disable_PIN :: bool
  enableDFAObjGranularity :: bool
  disableStateUsesInstrumentation :: bool
  disableAllInstrumentation :: bool

text \<open>\<open>std::merge\<close> into the set that is one of its inputs: in the end the set holds the elements of both.\<close>

definition mergeSets :: "'a list list \<Rightarrow> 'a list" where
  "mergeSets sets = fold us_insert_all sets []"

definition getLeftoverLoadStore :: "(nat \<times> nat) list \<Rightarrow> nat list \<Rightarrow> nat list" where
  "getLeftoverLoadStore instToEntry alreadyInstrumented =
     us_insert_all (filter (\<lambda>i. i \<notin> set alreadyInstrumented) (map fst instToEntry)) []"

record selection =
  onlyReadToInstrument :: "nat list"
  directStateToInstrumentAll :: "DirectStateLoadStore list"
  invariantsToInstrument :: "nat list"
  mostlyInvariantsToInstrument :: "nat list"
  inductionsToInstrument :: "nat list"
  baseAddressMostlyInvariantsToInstrument :: "nat list"
  sel_instsToSkip :: "nat list"
  sel_heap :: "Entry list"

record noelle_env =
  ne_lt :: "nat \<Rightarrow> nat \<Rightarrow> bool"
  ne_roiLoop :: "nat \<Rightarrow> loop_info option"
  ne_loops :: "loop_info list"
  ne_hot :: "nat \<Rightarrow> nat"
  ne_stack :: nat

definition select_onlyRead :: "pass_config \<Rightarrow> noelle_env \<Rightarrow> ROI list \<Rightarrow> nat list \<Rightarrow> (nat \<times> nat) list \<Rightarrow> nat list" where
  "select_onlyRead cfg ne rois instsToSkip instToEntry =
     (if disable_ONLY_READ_OPT cfg then [] else getOnlyReadLoadsAll (ne_lt ne) (ne_roiLoop ne) rois instsToSkip instToEntry)"

definition select_direct :: "pass_config \<Rightarrow> noelle_env \<Rightarrow> llvm_module \<Rightarrow> ROI list \<Rightarrow> nat list \<Rightarrow> (nat \<times> nat) list \<Rightarrow> DirectStateLoadStore list option" where
  "select_direct cfg ne M rois instsToSkip instToEntry =
     (if disable_DIRECT_STATE cfg then Some [] else getDirectStateLoadStoreAll M (ne_roiLoop ne) rois instsToSkip instToEntry)"

definition select_invariants :: "pass_config \<Rightarrow> noelle_env \<Rightarrow> nat list \<Rightarrow> (nat \<times> nat) list \<Rightarrow> Entry list \<Rightarrow> nat list" where
  "select_invariants cfg ne instsToSkip instToEntry heap =
     (if disable_LOOP_INVARIANT_STORE_OPT cfg then [] else getLoopInvariants (ne_loops ne) instsToSkip instToEntry heap)"

definition select_mostly :: "pass_config \<Rightarrow> noelle_env \<Rightarrow> llvm_module \<Rightarrow> nat list \<Rightarrow> (nat \<times> nat) list \<Rightarrow> Entry list \<Rightarrow> nat list option" where
  "select_mostly cfg ne M instsToSkip instToEntry heap =
     (if disable_MOSTLY_LOOP_INVARIANT_STORE_OPT cfg then Some []
      else getLoopMostlyInvariants (ne_stack ne) M (ne_hot ne) (ne_loops ne) instsToSkip instToEntry heap)"

definition select_inductions :: "pass_config \<Rightarrow> noelle_env \<Rightarrow> llvm_module \<Rightarrow> nat list \<Rightarrow> (nat \<times> nat) list \<Rightarrow> Entry list \<Rightarrow> nat list option" where
  "select_inductions cfg ne M instsToSkip instToEntry heap =
     (if disable_LOOP_INDUCTION_STORE_OPT cfg then Some []
      else if enableDFAObjGranularity cfg then getLoopInductions (ne_stack ne) M (ne_loops ne) instsToSkip instToEntry heap
      else Some [])"

definition select_base :: "pass_config \<Rightarrow> llvm_module \<Rightarrow> nat list \<Rightarrow> (nat \<times> nat) list \<Rightarrow> Entry list \<Rightarrow> Entry list \<times> nat list" where
  "select_base cfg M instsToSkip instToEntry heap =
     (if disable_BASE_ADDRESS_MOSTLY_INVARIANT_STORE_OPT cfg then (heap, [])
      else if enableDFAObjGranularity cfg then getBaseAddressMostlyInvariants M instsToSkip instToEntry heap
      else (heap, []))"

text \<open>Each analysis is told to skip what the earlier ones took.\<close>

definition select_insts :: "pass_config \<Rightarrow> noelle_env \<Rightarrow> llvm_module \<Rightarrow> ROI list \<Rightarrow> (nat \<times> nat) list \<Rightarrow> Entry list \<Rightarrow> selection option" where
  "select_insts cfg ne M rois instToEntry heap =
     (let onlyRead = select_onlyRead cfg ne rois [] instToEntry; skip1 = mergeSets [[], onlyRead] in
      case select_direct cfg ne M rois skip1 instToEntry of None \<Rightarrow> None | Some direct \<Rightarrow>
      let skip2 = mergeSets [skip1, getDirectStateLoadStoreInsts direct];
          invariants = select_invariants cfg ne skip2 instToEntry heap;
          skip3 = mergeSets [skip2, invariants] in
      case select_mostly cfg ne M skip3 instToEntry heap of None \<Rightarrow> None | Some mostly \<Rightarrow>
      let skip4 = mergeSets [skip3, mostly] in
      case select_inductions cfg ne M skip4 instToEntry heap of None \<Rightarrow> None | Some inductions \<Rightarrow>
      let skip5 = mergeSets [skip4, inductions] in
      case select_base cfg M skip5 instToEntry heap of (heap', base) \<Rightarrow>
      Some \<lparr>onlyReadToInstrument = onlyRead, directStateToInstrumentAll = direct, invariantsToInstrument = invariants,
            mostlyInvariantsToInstrument = mostly, inductionsToInstrument = inductions,
            baseAddressMostlyInvariantsToInstrument = base, sel_instsToSkip = mergeSets [skip5, base], sel_heap = heap'\<rparr>)"

section \<open>The search for an induction variable\<close>

definition value_operands :: "llvm_module \<Rightarrow> val \<Rightarrow> val list" where
  "value_operands M v = (case inst_of M v of None \<Rightarrow> [] | Some i \<Rightarrow> operands (kind i))"

definition computes_iv :: "llvm_module \<Rightarrow> (nat \<Rightarrow> bool) \<Rightarrow> val \<Rightarrow> bool" where
  "computes_iv M iv v \<longleftrightarrow> (case inst_of M v of None \<Rightarrow> False | Some i \<Rightarrow> iv (iid i))"

text \<open>A search that fails has visited a closed set of values, none of which computes an induction variable.\<close>

lemma connected_False:
  "isConnectedToAnInductionVariableRecursive n M iv v vis = Some (False, vis') \<Longrightarrow>
     insert v (set vis) \<subseteq> set vis' \<and> (\<forall>w \<in> set vis' - set vis. \<not> computes_iv M iv w \<and> set (value_operands M w) \<subseteq> set vis')"
  "connected_operands n M iv vs vis = Some (False, vis') \<Longrightarrow>
     set vs \<union> set vis \<subseteq> set vis' \<and> (\<forall>w \<in> set vis' - set vis. \<not> computes_iv M iv w \<and> set (value_operands M w) \<subseteq> set vis')"
proof (induction n M iv v vis and n M iv vs vis arbitrary: vis' and vis'
    rule: isConnectedToAnInductionVariableRecursive_connected_operands.induct)
  case (2 n M iv v vis)
  show ?case
  proof (cases "v \<in> set vis \<or> inst_of M v = None")
    case True
    then show ?thesis using "2.prems" by (auto simp: computes_iv_def value_operands_def split: if_splits)
  next
    case False
    then obtain i where i: "v \<notin> set vis" "inst_of M v = Some i" "\<not> iv (iid i)"
      "connected_operands n M iv (operands (kind i)) (us_insert v vis) = Some (False, vis')"
      using "2.prems" by (auto split: if_splits)
    have v: "\<not> computes_iv M iv v" "value_operands M v = operands (kind i)"
      using i by (simp_all add: computes_iv_def value_operands_def)
    note ih = "2.IH" [OF i]
    show ?thesis
    proof (intro conjI ballI)
      fix w assume w: "w \<in> set vis' - set vis"
      show "\<not> computes_iv M iv w" "set (value_operands M w) \<subseteq> set vis'"
        using ih v w by (cases "w = v"; auto)+
    qed (use ih in auto)
  qed
next
  case (4 n M iv v vs vis)
  then obtain q where q: "isConnectedToAnInductionVariableRecursive n M iv v vis = Some (False, q)"
    "connected_operands n M iv vs q = Some (False, vis')" by (auto split: option.splits prod.splits bool.splits)
  have one: "insert v (set vis) \<subseteq> set q" "\<forall>w \<in> set q - set vis. \<not> computes_iv M iv w \<and> set (value_operands M w) \<subseteq> set q"
    using "4.IH"(1) [OF q(1)] by auto
  have two: "set vs \<union> set q \<subseteq> set vis'" "\<forall>w \<in> set vis' - set q. \<not> computes_iv M iv w \<and> set (value_operands M w) \<subseteq> set vis'"
    using "4.IH"(2) [OF q(1) refl _ q(2)] by blast+
  show ?case
  proof (intro conjI ballI)
    fix w assume w: "w \<in> set vis' - set vis"
    show "\<not> computes_iv M iv w" "set (value_operands M w) \<subseteq> set vis'"
      using one two w by (cases "w \<in> set q"; blast)+
  qed (use one two in auto)
qed auto

lemma connected_True:
  "isConnectedToAnInductionVariableRecursive n M iv v vis = Some (True, vis') \<Longrightarrow>
     \<exists>w. (v, w) \<in> (graph_edges (value_operands M))\<^sup>* \<and> computes_iv M iv w"
  "connected_operands n M iv vs vis = Some (True, vis') \<Longrightarrow>
     \<exists>v \<in> set vs. \<exists>w. (v, w) \<in> (graph_edges (value_operands M))\<^sup>* \<and> computes_iv M iv w"
proof (induction n M iv v vis and n M iv vs vis arbitrary: vis' and vis'
    rule: isConnectedToAnInductionVariableRecursive_connected_operands.induct)
  case (2 n M iv v vis)
  then obtain i where i: "v \<notin> set vis" "inst_of M v = Some i" by (auto split: if_splits option.splits)
  show ?case
  proof (cases "iv (iid i)")
    case True
    then have "computes_iv M iv v" using i by (simp add: computes_iv_def)
    then show ?thesis by blast
  next
    case False
    then have "connected_operands n M iv (operands (kind i)) (us_insert v vis) = Some (True, vis')" using 2 i by simp
    from "2.IH" [OF i False this] obtain u w where uw: "u \<in> set (operands (kind i))"
      "(u, w) \<in> (graph_edges (value_operands M))\<^sup>*" "computes_iv M iv w" by blast
    have "(v, u) \<in> graph_edges (value_operands M)" using uw(1) i(2) by (simp add: graph_edges_def value_operands_def)
    then show ?thesis using uw by (meson converse_rtrancl_into_rtrancl)
  qed
next
  case (4 n M iv v vs vis)
  then obtain b q where q: "isConnectedToAnInductionVariableRecursive n M iv v vis = Some (b, q)"
    by (auto split: option.splits)
  show ?case
  proof (cases b)
    case True
    then show ?thesis using "4.IH"(1) q by auto
  next
    case False
    then have "connected_operands n M iv vs q = Some (True, vis')" using "4.prems" q by simp
    then show ?thesis using "4.IH"(2) [OF q] False by auto
  qed
qed auto

text \<open>The recursion is never deeper than the number of values it can meet.\<close>

lemma connected_mono:
  "isConnectedToAnInductionVariableRecursive n M iv v vis = Some (b, vis') \<Longrightarrow> set vis \<subseteq> set vis'"
  "connected_operands n M iv vs vis = Some (b, vis') \<Longrightarrow> set vis \<subseteq> set vis'"
proof (induction n M iv v vis and n M iv vs vis arbitrary: b vis' and b vis'
    rule: isConnectedToAnInductionVariableRecursive_connected_operands.induct)
  case (2 n M iv v vis)
  show ?case
  proof (cases "v \<in> set vis \<or> inst_of M v = None")
    case False
    then obtain i where i: "v \<notin> set vis" "inst_of M v = Some i" by auto
    then show ?thesis using 2 by (cases "iv (iid i)") force+
  qed (use "2.prems" in \<open>auto split: if_splits\<close>)
next
  case (4 n M iv v vs vis)
  then obtain c q where q: "isConnectedToAnInductionVariableRecursive n M iv v vis = Some (c, q)"
    by (auto split: option.splits)
  then have "set vis \<subseteq> set q" using "4.IH"(1) by blast
  then show ?case using "4.IH"(2) [OF q] "4.prems" q by (cases c) force+
qed auto

lemma connected_returns:
  "finite U \<Longrightarrow> (\<And>w. w \<in> U \<Longrightarrow> set (value_operands M w) \<subseteq> U) \<Longrightarrow> v \<in> U \<Longrightarrow> card (U - set vis) < n \<Longrightarrow>
     \<exists>b vis'. isConnectedToAnInductionVariableRecursive n M iv v vis = Some (b, vis')"
  "finite U \<Longrightarrow> (\<And>w. w \<in> U \<Longrightarrow> set (value_operands M w) \<subseteq> U) \<Longrightarrow> set vs \<subseteq> U \<Longrightarrow> card (U - set vis) < n \<or> vs = [] \<Longrightarrow>
     \<exists>b vis'. connected_operands n M iv vs vis = Some (b, vis')"
proof (induction n M iv v vis and n M iv vs vis rule: isConnectedToAnInductionVariableRecursive_connected_operands.induct)
  case (2 n M iv v vis)
  show ?case
  proof (cases "v \<in> set vis \<or> inst_of M v = None")
    case True
    then show ?thesis by auto
  next
    case False
    then obtain i where i: "v \<notin> set vis" "inst_of M v = Some i" by auto
    have ops: "set (operands (kind i)) \<subseteq> U" using "2.prems"(2) [OF "2.prems"(3)] i by (simp add: value_operands_def)
    have "card (U - set (us_insert v vis)) < card (U - set vis)"
      using i(1) "2.prems"(1,3) by (intro psubset_card_mono) auto
    then have "card (U - set (us_insert v vis)) < n" using "2.prems"(4) by simp
    then show ?thesis using "2.IH" [OF i] "2.prems"(1,2) ops i by (cases "iv (iid i)") auto
  qed
next
  case (4 n M iv v vs vis)
  then have c: "card (U - set vis) < n" by simp
  then obtain b q where q: "isConnectedToAnInductionVariableRecursive n M iv v vis = Some (b, q)"
    using "4.IH"(1) "4.prems" by auto
  have "card (U - set q) \<le> card (U - set vis)"
    using connected_mono(1) [OF q] "4.prems"(1) by (intro card_mono) auto
  then have "card (U - set q) < n" using c by simp
  then show ?case using "4.IH"(2) [OF q] "4.prems" q by (cases b) auto
qed auto

definition all_operands :: "llvm_module \<Rightarrow> val list" where
  "all_operands M = concat (map (\<lambda>i. operands (kind i)) (module_insts M))"

lemma value_operands_all: "set (value_operands M w) \<subseteq> set (all_operands M)"
proof (cases "inst_of M w")
  case (Some i)
  then have "i \<in> set (module_insts M)" by (auto simp: inst_of_def find_Some_iff split: val.splits)
  then show ?thesis using Some by (auto simp: value_operands_def all_operands_def)
qed (simp add: value_operands_def)

text \<open>
  The search for an induction variable is exact and ends. With a stack that holds one frame more than the program
  has operands, \<open>isConnectedToAnInductionVariable\<close> returns, and its answer is whether the address depends, through
  operands of instructions, on an instruction that helps to compute an induction variable of the loop.
\<close>

theorem induction_search_exact:
  assumes "length (all_operands M) + 1 < n"
  shows "isConnectedToAnInductionVariable n M iv v
    = Some (\<exists>w. (v, w) \<in> (graph_edges (value_operands M))\<^sup>* \<and> computes_iv M iv w)"
proof -
  let ?U = "insert v (set (all_operands M))"
  have "card ?U \<le> Suc (length (all_operands M))"
    using card_length [of "all_operands M"] card_insert_le_m1 [of "Suc (length (all_operands M))" "set (all_operands M)" v] by simp
  then have "card (?U - set []) < n" using assms by simp
  moreover have "set (value_operands M w) \<subseteq> ?U" for w using value_operands_all by blast
  ultimately obtain b vis where run: "isConnectedToAnInductionVariableRecursive n M iv v [] = Some (b, vis)"
    using connected_returns(1) [of ?U M v "[]" n iv] by blast
  have "b \<longleftrightarrow> (\<exists>w. (v, w) \<in> (graph_edges (value_operands M))\<^sup>* \<and> computes_iv M iv w)"
  proof (cases b)
    case True
    then show ?thesis using connected_True(1) [of n M iv v "[]" vis] run by auto
  next
    case False
    then have c: "v \<in> set vis" "\<And>w. w \<in> set vis \<Longrightarrow> \<not> computes_iv M iv w \<and> set (value_operands M w) \<subseteq> set vis"
      using connected_False(1) [of n M iv v "[]" vis] run by auto
    then have "\<not> computes_iv M iv w" if "(v, w) \<in> (graph_edges (value_operands M))\<^sup>*" for w
      using closed_reachable [OF that, of "set vis"] by blast
    then show ?thesis using False by blast
  qed
  then show ?thesis using run by (simp add: isConnectedToAnInductionVariable_def)
qed

theorem induction_search_exact_witness:
  "length (all_operands touch_module) + 1 < 20 \<and>
   isConnectedToAnInductionVariable 20 touch_module (\<lambda>n. n = 2) (InstV 3)
     = Some (\<exists>w. (InstV 3, w) \<in> (graph_edges (value_operands touch_module))\<^sup>* \<and> computes_iv touch_module (\<lambda>n. n = 2) w)"
proof -
  have "length (all_operands touch_module) + 1 < 20" by code_simp
  then show ?thesis using induction_search_exact [of touch_module 20] by blast
qed

section \<open>What the selection takes out\<close>

lemma in_candidates: "i \<in> set (candidates sk m l) \<Longrightarrow> iid i \<in> fst ` set m - set sk"
  by (force simp: candidates_def map_of_eq_None_iff)

lemma set_mergeSets [simp]: "set (mergeSets sets) = (\<Union>s \<in> set sets. set s)"
proof -
  have "set (fold us_insert_all sets acc) = set acc \<union> (\<Union>s \<in> set sets. set s)" for acc
    by (induction sets arbitrary: acc) auto
  then show ?thesis by (simp add: mergeSets_def)
qed

lemma onlyRead_keys:
  assumes "\<And>x y. lt x y \<or> lt y x \<or> x = y"
  shows "set (getOnlyReadLoadsAll lt roiLoop rois sk m) \<subseteq> fst ` set m - set sk"
proof -
  have "set (fold (\<lambda>r acc. case roiLoop (roi_start r) of None \<Rightarrow> acc
      | Some l \<Rightarrow> us_insert_all (set_union lt (getOnlyReadLoads sk m l) acc) acc) rois acc) \<subseteq> fst ` set m - set sk"
    if "set acc \<subseteq> fst ` set m - set sk" for acc
    using that
  proof (induction rois arbitrary: acc)
    case (Cons r rois)
    have "set (getOnlyReadLoads sk m l) \<subseteq> fst ` set m - set sk" for l
      using in_candidates by (force simp: getOnlyReadLoads_def)
    then show ?case using Cons by (auto simp: set_set_union [OF assms] split: option.splits intro!: Cons.IH)
  qed simp
  then show ?thesis by (simp add: getOnlyReadLoadsAll_def)
qed

lemma direct_keys:
  assumes "getDirectStateLoadStoreAll M roiLoop rois sk m = Some ds"
  shows "ds_inst ` set ds \<subseteq> fst ` set m - set sk"
proof
  fix n assume "n \<in> ds_inst ` set ds"
  then obtain d where d: "d \<in> set ds" "ds_inst d = n" by blast
  obtain dss where dss: "ds = concat dss" "those (map (\<lambda>r. case roiLoop (roi_start r) of None \<Rightarrow> Some []
      | Some l \<Rightarrow> if (case inst_of M (InstV (roi_start r)) of None \<Rightarrow> False | Some i \<Rightarrow> hasMetadata i PROMOTE_ALLOCAS)
          then getDirectStateLoadStore M sk m l else Some []) rois) = Some dss"
    using assms by (auto simp: getDirectStateLoadStoreAll_def)
  then obtain xs where xs: "xs \<in> set dss" "d \<in> set xs" using d(1) by auto
  obtain r :: ROI where r: "(case roiLoop (roi_start r) of None \<Rightarrow> Some []
      | Some l \<Rightarrow> if (case inst_of M (InstV (roi_start r)) of None \<Rightarrow> False | Some i \<Rightarrow> hasMetadata i PROMOTE_ALLOCAS)
          then getDirectStateLoadStore M sk m l else Some []) = Some xs"
    using those_map_Some [OF dss(2) xs(1)] by blast
  then obtain l where "getDirectStateLoadStore M sk m l = Some xs"
    using xs(2) by (cases "roiLoop (roi_start r)") (auto split: if_splits)
  then obtain yss where yss: "xs = concat yss" "those (map (direct_state_inst M l) (candidates sk m l)) = Some yss"
    by (auto simp: getDirectStateLoadStore_def)
  then obtain ys where ys: "ys \<in> set yss" "d \<in> set ys" using xs(2) by auto
  obtain i where i: "i \<in> set (candidates sk m l)" "direct_state_inst M l i = Some ys"
    using those_map_Some [OF yss(2) ys(1)] by blast
  have "ds_inst d = iid i"
    using i(2) ys(2) by (auto simp: direct_state_inst_def direct_state_def split: if_splits inst_kind.splits)
  then show "n \<in> fst ` set m - set sk" using in_candidates [OF i(1)] d(2) by simp
qed

lemma collect_if_keys:
  assumes "collect_if test ls sk m = Some ns"
  shows "set ns \<subseteq> fst ` set m - set sk"
proof
  fix n assume n: "n \<in> set ns"
  let ?xs = "concat (map (\<lambda>l. map (\<lambda>i. map_option (\<lambda>b. if b then [iid i] else []) (test l i)) (candidates sk m l)) ls)"
  obtain iss where iss: "those ?xs = Some iss" "set ns = set (concat iss)" using assms by (auto simp: collect_if_def)
  then obtain is' where is': "is' \<in> set iss" "n \<in> set is'" using n by auto
  have "Some is' \<in> set ?xs" using iss(1) is'(1) by (simp add: those_eq_Some)
  then obtain l i where i: "i \<in> set (candidates sk m l)" "map_option (\<lambda>b. if b then [iid i] else []) (test l i) = Some is'"
    by (auto simp: eq_commute [of "Some is'"])
  then have "n = iid i" using is'(2) by (auto split: if_splits)
  then show "n \<in> fst ` set m - set sk" using in_candidates [OF i(1)] by simp
qed

lemma base_keys:
  assumes "getBaseAddressMostlyInvariants M sk m heap = (heap', out)"
  shows "set out \<subseteq> fst ` set m - set sk"
proof -
  have "set (snd (fold (base_step M sk) es (h, acc))) \<subseteq> set acc \<union> (fst ` set es - set sk)" for es h acc
  proof (induction es arbitrary: h acc)
    case (Cons e es)
    obtain i r where e: "e = (i, r)" by (cases e)
    show ?case
    proof (cases "i \<in> set sk \<or> Option.bind (allocPointer (h ! r)) (gep_base M) = None")
      case True
      then have "base_step M sk e (h, acc) = (h, acc)" by (auto simp: base_step_def e)
      then show ?thesis using Cons [of h acc] by auto
    next
      case False
      then obtain p where "base_step M sk e (h, acc) = (h[r := (h ! r)\<lparr>allocPointer := Some p\<rparr>], us_insert i acc)"
        by (auto simp: base_step_def e)
      then show ?thesis using Cons [of "h[r := (h ! r)\<lparr>allocPointer := Some p\<rparr>]" "us_insert i acc"] False e by auto
    qed
  qed simp
  from this [of m heap "[]"] show ?thesis using assms by (simp add: getBaseAddressMostlyInvariants_def)
qed

text \<open>The sets are disjoint, hold accesses with an entry only, and together they are what is skipped in the end.\<close>

definition chosen_sets :: "selection \<Rightarrow> nat set list" where
  "chosen_sets sel =
     [set (onlyReadToInstrument sel), ds_inst ` set (directStateToInstrumentAll sel), set (invariantsToInstrument sel),
      set (mostlyInvariantsToInstrument sel), set (inductionsToInstrument sel), set (baseAddressMostlyInvariantsToInstrument sel)]"

fun disjoint_list :: "'a set list \<Rightarrow> bool" where
  "disjoint_list [] \<longleftrightarrow> True"
| "disjoint_list (A # As) \<longleftrightarrow> (\<forall>B \<in> set As. A \<inter> B = {}) \<and> disjoint_list As"

lemma select_stage_keys:
  "(\<And>x y. ne_lt ne x y \<or> ne_lt ne y x \<or> x = y) \<Longrightarrow> set (select_onlyRead cfg ne rois sk m) \<subseteq> fst ` set m - set sk"
  "select_direct cfg ne M rois sk m = Some ds \<Longrightarrow> ds_inst ` set ds \<subseteq> fst ` set m - set sk"
  "set (select_invariants cfg ne sk m heap) \<subseteq> fst ` set m - set sk"
  "select_mostly cfg ne M sk m heap = Some ns \<Longrightarrow> set ns \<subseteq> fst ` set m - set sk"
  "select_inductions cfg ne M sk m heap = Some ns \<Longrightarrow> set ns \<subseteq> fst ` set m - set sk"
  "select_base cfg M sk m heap = (heap', ns) \<Longrightarrow> set ns \<subseteq> fst ` set m - set sk"
proof -
  show "set (select_onlyRead cfg ne rois sk m) \<subseteq> fst ` set m - set sk" if "\<And>x y. ne_lt ne x y \<or> ne_lt ne y x \<or> x = y"
    using onlyRead_keys [OF that] by (simp add: select_onlyRead_def)
  show "ds_inst ` set ds \<subseteq> fst ` set m - set sk" if "select_direct cfg ne M rois sk m = Some ds"
    using that direct_keys [of M "ne_roiLoop ne" rois sk m ds] by (auto simp: select_direct_def split: if_splits)
  show "set (select_invariants cfg ne sk m heap) \<subseteq> fst ` set m - set sk"
    by (auto simp: select_invariants_def getLoopInvariants_def dest: in_candidates)
  show "set ns \<subseteq> fst ` set m - set sk" if "select_mostly cfg ne M sk m heap = Some ns"
    using that by (auto simp: select_mostly_def getLoopMostlyInvariants_def split: if_splits dest!: collect_if_keys)
  show "set ns \<subseteq> fst ` set m - set sk" if "select_inductions cfg ne M sk m heap = Some ns"
    using that by (auto simp: select_inductions_def getLoopInductions_def split: if_splits dest!: collect_if_keys)
  show "set ns \<subseteq> fst ` set m - set sk" if "select_base cfg M sk m heap = (heap', ns)"
    using that base_keys by (force simp: select_base_def split: if_splits)
qed

lemma select_insts_cases:
  assumes "select_insts cfg ne M rois m heap = Some sel"
  obtains only ds inv mostly ind base heap' where
    "only = select_onlyRead cfg ne rois [] m"
    "select_direct cfg ne M rois (mergeSets [[], only]) m = Some ds"
    "inv = select_invariants cfg ne (mergeSets [mergeSets [[], only], getDirectStateLoadStoreInsts ds]) m heap"
    "select_mostly cfg ne M (mergeSets [mergeSets [mergeSets [[], only], getDirectStateLoadStoreInsts ds], inv]) m heap = Some mostly"
    "select_inductions cfg ne M (mergeSets [mergeSets [mergeSets [mergeSets [[], only], getDirectStateLoadStoreInsts ds], inv], mostly])
       m heap = Some ind"
    "select_base cfg M (mergeSets [mergeSets [mergeSets [mergeSets [mergeSets [[], only], getDirectStateLoadStoreInsts ds], inv],
       mostly], ind]) m heap = (heap', base)"
    "sel = \<lparr>onlyReadToInstrument = only, directStateToInstrumentAll = ds, invariantsToInstrument = inv,
       mostlyInvariantsToInstrument = mostly, inductionsToInstrument = ind, baseAddressMostlyInvariantsToInstrument = base,
       sel_instsToSkip = mergeSets [mergeSets [mergeSets [mergeSets [mergeSets [mergeSets [[], only], getDirectStateLoadStoreInsts ds],
         inv], mostly], ind], base], sel_heap = heap'\<rparr>"
  using assms unfolding select_insts_def Let_def by (auto split: option.splits prod.splits)

lemma disjoint_stages:
  assumes "A1 \<subseteq> K" "A2 \<subseteq> K - A1" "A3 \<subseteq> K - (A1 \<union> A2)" "A4 \<subseteq> K - (A1 \<union> A2 \<union> A3)" "A5 \<subseteq> K - (A1 \<union> A2 \<union> A3 \<union> A4)"
    "A6 \<subseteq> K - (A1 \<union> A2 \<union> A3 \<union> A4 \<union> A5)"
  shows "disjoint_list [A1, A2, A3, A4, A5, A6]" "A1 \<union> A2 \<union> A3 \<union> A4 \<union> A5 \<union> A6 \<subseteq> K"
proof -
  show "disjoint_list [A1, A2, A3, A4, A5, A6]"
    unfolding disjoint_list.simps list.set ball_simps using assms by (intro conjI; blast)
  show "A1 \<union> A2 \<union> A3 \<union> A4 \<union> A5 \<union> A6 \<subseteq> K" using assms by blast
qed

lemma select_insts_sets:
  assumes order: "\<And>x y. ne_lt ne x y \<or> ne_lt ne y x \<or> x = y" and sel: "select_insts cfg ne M rois m heap = Some sel"
  shows "disjoint_list (chosen_sets sel)" "\<Union> (set (chosen_sets sel)) = set (sel_instsToSkip sel)"
    "set (sel_instsToSkip sel) \<subseteq> fst ` set m"
proof -
  from sel show "disjoint_list (chosen_sets sel)" "\<Union> (set (chosen_sets sel)) = set (sel_instsToSkip sel)"
    "set (sel_instsToSkip sel) \<subseteq> fst ` set m"
  proof (atomize (full), cases rule: select_insts_cases)
    case (1 only ds inv mostly ind base heap')
    have keys: "set only \<subseteq> fst ` set m" "ds_inst ` set ds \<subseteq> fst ` set m - set only"
      "set inv \<subseteq> fst ` set m - (set only \<union> ds_inst ` set ds)"
      "set mostly \<subseteq> fst ` set m - (set only \<union> ds_inst ` set ds \<union> set inv)"
      "set ind \<subseteq> fst ` set m - (set only \<union> ds_inst ` set ds \<union> set inv \<union> set mostly)"
      "set base \<subseteq> fst ` set m - (set only \<union> ds_inst ` set ds \<union> set inv \<union> set mostly \<union> set ind)"
      using select_stage_keys(1) [OF order, of cfg rois "[]" m] select_stage_keys(2) [OF 1(2)]
        select_stage_keys(3) [of cfg ne "mergeSets [mergeSets [[], only], getDirectStateLoadStoreInsts ds]" m heap]
        select_stage_keys(4) [OF 1(4)] select_stage_keys(5) [OF 1(5)] select_stage_keys(6) [OF 1(6)]
      by (simp_all add: 1(1,3) getDirectStateLoadStoreInsts_def Un_assoc)
    have "set (sel_instsToSkip sel) = set only \<union> ds_inst ` set ds \<union> set inv \<union> set mostly \<union> set ind \<union> set base"
      unfolding 1(7) by (simp add: getDirectStateLoadStoreInsts_def Un_assoc)
    then show "disjoint_list (chosen_sets sel) \<and> \<Union> (set (chosen_sets sel)) = set (sel_instsToSkip sel)
        \<and> set (sel_instsToSkip sel) \<subseteq> fst ` set m"
      using disjoint_stages [OF keys] unfolding 1(7) chosen_sets_def by (simp only: selection.simps) (simp add: Un_assoc)
  qed
qed

end
