(* ===== verification/Module_Edit.thy ===== *)
theory Module_Edit
  imports Select_Insts
begin

text \<open>
  What it means that a pass edits a module only by adding code: \<open>edits n M N\<close> says that the instructions of \<open>M\<close>
  numbered below \<open>n\<close> are all in \<open>N\<close>, function by function and in the same order, that everything else in \<open>N\<close> is
  instrumentation, and that \<open>N\<close> numbers its instructions and blocks without clashes. The functions of
  \<open>Utils.cpp\<close> that insert instructions are shown to be such edits, for every pass that uses them.
\<close>

section \<open>Names of the runtime\<close>

definition MAIN :: string where "MAIN = ''main''"

definition TEXAS_REMOVE :: string where "TEXAS_REMOVE = ''_Z42caratStateRemoveFromAllocationTableWrapperPv''"
definition TEXAS_MALLOC :: string where "TEXAS_MALLOC = ''_Z22caratStateAllocWrappermPvmS_''"
definition TEXAS_CALLOC :: string where "TEXAS_CALLOC = ''_Z23caratStateCallocWrappermPvmmS_''"
definition TEXAS_REALLOC :: string where "TEXAS_REALLOC = ''_Z24caratStateReallocWrappermPvS_mS_''"
definition TEXAS_ADD :: string where "TEXAS_ADD = ''_Z22caratAddToStateWrapperPv''"
definition TEXAS_ADD_WITH_INFO :: string where "TEXAS_ADD_WITH_INFO = ''_Z30texasAddToStateWithInfoWrappermPvmmS_''"
definition TEXAS_ADD_WITH_INFO_LOAD :: string where "TEXAS_ADD_WITH_INFO_LOAD = ''_Z19texasAddToStateLoadmPvS_''"
definition TEXAS_ADD_ESCAPE :: string where "TEXAS_ADD_ESCAPE = ''_Z28caratAddToEscapeTableWrapperPv''"
definition TEXAS_SET_STATE :: string where "TEXAS_SET_STATE = ''_Z14setDirectStatemPvllmmS_''"
definition MEMORYTOOL_PROLOGUE :: string where "MEMORYTOOL_PROLOGUE = ''_Z8prologueiiiiiiii''"
definition MEMORYTOOL_EPILOGUE :: string where "MEMORYTOOL_EPILOGUE = ''_Z16PrintJSONWrapperv''"
definition MEMORYTOOL_CALLSTACK :: string where "MEMORYTOOL_CALLSTACK = ''_Z12getBacktracev''"
definition MEMORYTOOL_CALLSTACK_UNIQUE :: string where "MEMORYTOOL_CALLSTACK_UNIQUE = ''_Z18getBacktraceUniquemm''"
definition MEMORYTOOL_RMCALLSTACK :: string where "MEMORYTOOL_RMCALLSTACK = ''_Z15removeBacktracev''"
definition PIN_START_TRACKING :: string where "PIN_START_TRACKING = ''startLogPinAll''"
definition PIN_STOP_TRACKING :: string where "PIN_STOP_TRACKING = ''stopLogPinAll''"
definition PIN_ADD :: string where "PIN_ADD = ''_Z23texasAddMultiToStatePinmPv''"

text \<open>The functions that \<open>insertRuntimeFunctions\<close> declares, in its order.\<close>

definition runtime_functions :: "string list" where
  "runtime_functions =
     [TEXAS_MALLOC, TEXAS_CALLOC, TEXAS_REALLOC, TEXAS_ADD_ESCAPE, TEXAS_ADD, TEXAS_REMOVE, TEXAS_ADD_WITH_INFO,
      TEXAS_ADD_WITH_INFO_LOAD, TEXAS_SET_STATE, MEMORYTOOL_CALLSTACK, MEMORYTOOL_CALLSTACK_UNIQUE, MEMORYTOOL_RMCALLSTACK,
      PIN_START_TRACKING, PIN_STOP_TRACKING, PIN_ADD, MEMORYTOOL_PROLOGUE, MEMORYTOOL_EPILOGUE]"

section \<open>New code\<close>

text \<open>
  A new instruction takes the next free number of the module; \<open>place\<close> inserts new instructions and counts their
  numbers as used. A new global variable has no name in LLVM; in the model its name is one no source can write.
\<close>

definition new_inst :: "nat \<Rightarrow> inst_kind \<Rightarrow> ty \<Rightarrow> DILocation option \<Rightarrow> instr" where
  "new_inst n k t d = \<lparr>iid = n, kind = k, ity = t, dbgLoc = d, metadata = []\<rparr>"

definition used_ids :: "nat \<Rightarrow> llvm_module \<Rightarrow> llvm_module" where
  "used_ids k M = M\<lparr>nextId := nextId M + k\<rparr>"

definition place :: "instr list \<Rightarrow> instr \<Rightarrow> llvm_module \<Rightarrow> llvm_module option" where
  "place new point M = map_option (used_ids (length new)) (insertInstructionsWithCheck new point M)"

definition place_at :: "instr list \<Rightarrow> nat \<Rightarrow> bool \<Rightarrow> llvm_module \<Rightarrow> llvm_module" where
  "place_at new point before M = used_ids (length new) (insertInstructions new point before M)"

definition unnamed :: "nat \<Rightarrow> string" where
  "unnamed k = CHR 0x00 # replicate k CHR ''@''"

definition is_unnamed :: "nat \<Rightarrow> string \<Rightarrow> bool" where
  "is_unnamed n g \<longleftrightarrow> g = unnamed (length g - 1) \<and> n \<le> length g - 1"

text \<open>
  The instructions the pass may add: casts, calls of the runtime, and the arithmetic, the branches and the accesses
  to variables of its own from which guards are built.
\<close>

definition instrumentation :: "nat \<Rightarrow> instr \<Rightarrow> bool" where
  "instrumentation n i \<longleftrightarrow> n \<le> iid i \<and>
     (case kind i of
        CastInst _ \<Rightarrow> True
      | CallInst (FuncV f) _ \<Rightarrow> f \<in> set runtime_functions
      | LoadInst (GlobalV g) \<Rightarrow> is_unnamed n g
      | StoreInst _ (GlobalV g) \<Rightarrow> is_unnamed n g
      | ICmpInst _ _ _ \<Rightarrow> True
      | BinaryOperator _ _ _ \<Rightarrow> True
      | BranchInst _ \<Rightarrow> True
      | CondBranchInst _ _ _ \<Rightarrow> True
      | _ \<Rightarrow> False)"

section \<open>Edits\<close>

definition all_blocks :: "llvm_module \<Rightarrow> bblock list" where
  "all_blocks M = concat (map blocks (m_functions M))"

definition module_ok :: "llvm_module \<Rightarrow> bool" where
  "module_ok M \<longleftrightarrow> wf_module M \<and> (\<forall>i \<in> set (module_insts M). iid i < nextId M)
     \<and> distinct (map bid (all_blocks M)) \<and> (\<forall>b \<in> set (all_blocks M). bid b < nextId M)"

text \<open>A split of a block renames it in the \<open>phi\<close> nodes of its successors; nothing else of an old instruction changes.\<close>

definition without_phi_blocks :: "instr \<Rightarrow> instr" where
  "without_phi_blocks i = (case kind i of PHINode vs \<Rightarrow> i\<lparr>kind := PHINode (map (\<lambda>(v, b). (v, 0)) vs)\<rparr> | _ \<Rightarrow> i)"

definition old_code :: "nat \<Rightarrow> func \<Rightarrow> string \<times> instr list" where
  "old_code n F = (fname F, map without_phi_blocks (filter (\<lambda>i. iid i < n) (func_insts F)))"

definition program_code :: "nat \<Rightarrow> llvm_module \<Rightarrow> (string \<times> instr list) list" where
  "program_code n M = map (old_code n) (filter (\<lambda>F. \<not> fempty F) (m_functions M))"

definition edits :: "nat \<Rightarrow> llvm_module \<Rightarrow> llvm_module \<Rightarrow> bool" where
  "edits n M N \<longleftrightarrow> module_ok N \<and> nextId M \<le> nextId N \<and> program_code n N = program_code n M
     \<and> (\<forall>i \<in> set (module_insts N). iid i < n \<or> instrumentation n i)"

lemma edits_trans: "edits n M N \<Longrightarrow> edits n N O' \<Longrightarrow> edits n M O'"
  by (auto simp: edits_def)

lemma module_insts_blocks: "module_insts M = concat (map insts (all_blocks M))"
proof -
  have "concat (map func_insts Fs) = concat (map insts (concat (map blocks Fs)))" for Fs
    by (induction Fs) (simp_all add: func_insts_def)
  then show ?thesis by (simp add: module_insts_def all_blocks_def)
qed

section \<open>Insertion is an edit\<close>

lemma put_none: "p \<notin> iid ` set xs \<Longrightarrow> put_after p new xs = xs" "p \<notin> iid ` set xs \<Longrightarrow> put_before p new xs = xs"
  by (induction xs) auto

lemma put_some:
  "p \<in> iid ` set xs \<Longrightarrow> \<exists>ys zs. xs = ys @ zs \<and> put_after p new xs = ys @ new @ zs"
  "p \<in> iid ` set xs \<Longrightarrow> \<exists>ys zs. xs = ys @ zs \<and> put_before p new xs = ys @ new @ zs"
proof -
  show "\<exists>ys zs. xs = ys @ zs \<and> put_after p new xs = ys @ new @ zs" if "p \<in> iid ` set xs"
    using that
  proof (induction xs)
    case (Cons x xs)
    show ?case
    proof (cases "iid x = p")
      case True
      then show ?thesis by (intro exI [of _ "[x]"] exI [of _ xs]) simp
    next
      case False
      then obtain ys zs where "xs = ys @ zs" "put_after p new xs = ys @ new @ zs" using Cons by auto
      then show ?thesis using False by (intro exI [of _ "x # ys"] exI [of _ zs]) simp
    qed
  qed simp
  show "\<exists>ys zs. xs = ys @ zs \<and> put_before p new xs = ys @ new @ zs" if "p \<in> iid ` set xs"
    using that
  proof (induction xs)
    case (Cons x xs)
    show ?case
    proof (cases "iid x = p")
      case True
      then show ?thesis by (intro exI [of _ "[]"] exI [of _ "x # xs"]) simp
    next
      case False
      then obtain ys zs where "xs = ys @ zs" "put_before p new xs = ys @ new @ zs" using Cons by auto
      then show ?thesis using False by (intro exI [of _ "x # ys"] exI [of _ zs]) simp
    qed
  qed simp
qed

text \<open>An edit of one block at the place of an instruction, wherever that instruction is.\<close>

definition puts :: "nat \<Rightarrow> instr list \<Rightarrow> (instr list \<Rightarrow> instr list) \<Rightarrow> bool" where
  "puts p new f \<longleftrightarrow> (\<forall>xs. if p \<in> iid ` set xs then \<exists>ys zs. xs = ys @ zs \<and> f xs = ys @ new @ zs else f xs = xs)"

lemma puts_put [simp]: "puts p new (put_after p new)" "puts p new (put_before p new)"
  using put_none put_some by (auto simp: puts_def)

lemma puts_old: "puts p new f \<Longrightarrow> (\<And>i. i \<in> set new \<Longrightarrow> \<not> P i) \<Longrightarrow> filter P (f xs) = filter P xs"
proof (cases "p \<in> iid ` set xs")
  case True
  assume f: "puts p new f" and new: "\<And>i. i \<in> set new \<Longrightarrow> \<not> P i"
  obtain ys zs where "xs = ys @ zs" "f xs = ys @ new @ zs" using f True unfolding puts_def by meson
  moreover have "filter P new = []" using new by (simp add: filter_empty_conv)
  ultimately show ?thesis by simp
qed (simp add: puts_def)

lemma puts_once:
  assumes "puts p new f" "distinct (map iid (concat xss))"
  shows "concat (map f xss) = concat xss \<or> mset (concat (map f xss)) = mset (concat xss) + mset new"
  using assms(2)
proof (induction xss)
  case (Cons xs xss)
  show ?case
  proof (cases "p \<in> iid ` set xs")
    case True
    have rest: "map f xss = xss" if "p \<notin> iid ` set (concat xss)"
      using that
    proof (induction xss)
      case (Cons x xss)
      then have "p \<notin> iid ` set x" by auto
      then have "f x = x" using assms(1) unfolding puts_def by meson
      then show ?case using Cons by auto
    qed simp
    have "p \<notin> iid ` set (concat xss)" using Cons.prems True by force
    moreover obtain ys zs where "xs = ys @ zs" "f xs = ys @ new @ zs" using True assms(1) unfolding puts_def by meson
    ultimately show ?thesis using rest by simp
  next
    case False
    then have "f xs = xs" using assms(1) unfolding puts_def by meson
    then show ?thesis using Cons by auto
  qed
qed simp

lemma map_blocks_simps [simp]:
  "nextId (map_blocks f M) = nextId M" "map fname (m_functions (map_blocks f M)) = map fname (m_functions M)"
  "m_globals (map_blocks f M) = m_globals M"
  by (simp_all add: map_blocks_def)

lemma all_blocks_map: "all_blocks (map_blocks f M) = map (\<lambda>b. b\<lparr>insts := f (insts b)\<rparr>) (all_blocks M)"
proof -
  have "concat (map blocks (map (\<lambda>F. F\<lparr>blocks := map g (blocks F)\<rparr>) Fs)) = map g (concat (map blocks Fs))" for g and Fs :: "func list"
    by (induction Fs) simp_all
  then show ?thesis by (simp add: all_blocks_def map_blocks_def)
qed

lemma module_insts_map: "module_insts (map_blocks f M) = concat (map f (map insts (all_blocks M)))"
  by (simp add: module_insts_blocks all_blocks_map o_def)

lemma used_ids_simps [simp]:
  "nextId (used_ids k M) = nextId M + k" "m_functions (used_ids k M) = m_functions M" "m_globals (used_ids k M) = m_globals M"
  "all_blocks (used_ids k M) = all_blocks M" "module_insts (used_ids k M) = module_insts M"
  "program_code n (used_ids k M) = program_code n M"
  by (simp_all add: used_ids_def all_blocks_def module_insts_def program_code_def)

lemma program_code_map:
  assumes "\<And>xs. filter (\<lambda>i. iid i < n) (f xs) = filter (\<lambda>i. iid i < n) xs"
  shows "program_code n (map_blocks f M) = program_code n M"
proof -
  have "filter (\<lambda>i. iid i < n) (concat (map (\<lambda>b. f (insts b)) bs)) = filter (\<lambda>i. iid i < n) (concat (map insts bs))"
    for bs :: "bblock list"
    by (induction bs) (simp_all add: assms)
  then have "old_code n (F\<lparr>blocks := map (\<lambda>b. b\<lparr>insts := f (insts b)\<rparr>) (blocks F)\<rparr>) = old_code n F" for F :: func
    by (simp add: old_code_def func_insts_def o_def)
  then show ?thesis by (simp add: program_code_def map_blocks_def filter_map o_def fempty_def)
qed

definition fresh_ids :: "llvm_module \<Rightarrow> instr list \<Rightarrow> bool" where
  "fresh_ids M new \<longleftrightarrow> map iid new = [nextId M ..< nextId M + length new]"

lemma fresh_ids_in:
  assumes "fresh_ids M new" "i \<in> set new"
  shows "nextId M \<le> iid i \<and> iid i < nextId M + length new"
proof -
  have "iid i \<in> set [nextId M ..< nextId M + length new]" using assms by (metis fresh_ids_def image_eqI set_map)
  then show ?thesis by simp
qed

lemma edits_puts:
  assumes M: "module_ok M" "n \<le> nextId M" "\<forall>i \<in> set (module_insts M). iid i < n \<or> instrumentation n i"
    and f: "puts p new f" and new: "fresh_ids M new" "\<forall>i \<in> set new. instrumentation n i"
  shows "edits n M (used_ids (length new) (map_blocks f M))"
proof -
  let ?N = "used_ids (length new) (map_blocks f M)"
  have ids: "distinct (map iid (concat (map insts (all_blocks M))))"
    using M(1) by (simp add: module_ok_def wf_module_def module_insts_blocks)
  have sub: "module_insts ?N = module_insts M \<or> mset (module_insts ?N) = mset (module_insts M) + mset new"
    using puts_once [OF f ids] by (simp only: used_ids_simps module_insts_map) (simp only: module_insts_blocks)
  have "distinct (map iid (module_insts ?N))"
  proof (rule disjE [OF sub])
    assume eq: "mset (module_insts ?N) = mset (module_insts M) + mset new"
    have "distinct (map iid (module_insts M @ new))"
      using M(1) new(1) fresh_ids_in [OF new(1)] unfolding module_ok_def wf_module_def
      by (force simp: fresh_ids_def)
    moreover have "mset (map iid (module_insts ?N)) = mset (map iid (module_insts M @ new))" using eq by simp
    ultimately show ?thesis by (metis mset_eq_imp_distinct_iff)
  qed (use M(1) in \<open>simp add: module_ok_def wf_module_def\<close>)
  moreover have mem: "set (module_insts ?N) \<subseteq> set (module_insts M) \<union> set new"
    using sub by (metis (no_types, lifting) Un_iff mset_append set_append set_mset_mset subsetI)
  ultimately have "module_ok ?N"
    using M(1) fresh_ids_in [OF new(1)] unfolding module_ok_def wf_module_def
    by (fastforce simp: all_blocks_map o_def)
  moreover have "program_code n ?N = program_code n M"
    unfolding used_ids_simps
    by (intro program_code_map puts_old [OF f]) (use fresh_ids_in [OF new(1)] M(2) in fastforce)
  ultimately show ?thesis using mem M(3) new(2) unfolding edits_def by auto
qed

text \<open>\<open>insertInstructions\<close> puts the instructions one behind the other; that is one insertion of the whole list.\<close>

lemma put_chain:
  assumes "iid y \<notin> iid ` set xs" "iid y \<notin> iid ` set acc"
  shows "put_after (iid y) [j] (put_after p (acc @ [y]) xs) = put_after p (acc @ [y, j]) xs"
    "put_after (iid y) [j] (put_before p (acc @ [y]) xs) = put_before p (acc @ [y, j]) xs"
proof -
  have split: "put_after (iid y) [j] (acc @ y # zs) = acc @ y # j # zs" for zs
    using assms(2) by (induction acc) auto
  show "put_after (iid y) [j] (put_after p (acc @ [y]) xs) = put_after p (acc @ [y, j]) xs"
    using assms(1) by (induction xs) (auto simp: split)
  show "put_after (iid y) [j] (put_before p (acc @ [y]) xs) = put_before p (acc @ [y, j]) xs"
    using assms(1) by (induction xs) (auto simp: split)
qed

lemma map_blocks_cong:
  assumes "\<And>b. b \<in> set (all_blocks M) \<Longrightarrow> g (f (insts b)) = h (insts b)"
  shows "map_blocks g (map_blocks f M) = map_blocks h M"
proof -
  have "F\<lparr>blocks := map (\<lambda>b. b\<lparr>insts := g (f (insts b))\<rparr>) (blocks F)\<rparr> = F\<lparr>blocks := map (\<lambda>b. b\<lparr>insts := h (insts b)\<rparr>) (blocks F)\<rparr>"
    if "F \<in> set (m_functions M)" for F
  proof -
    have "g (f (insts b)) = h (insts b)" if "b \<in> set (blocks F)" for b
      using that \<open>F \<in> set (m_functions M)\<close> by (intro assms) (auto simp: all_blocks_def)
    then show ?thesis by (simp cong: map_cong)
  qed
  then show ?thesis by (simp add: map_blocks_def o_def cong: map_cong)
qed

lemma insertInstructions_once:
  assumes "distinct (map iid new)" "iid ` set new \<inter> iid ` set (module_insts M) = {}"
  shows "insertInstructions new p before M =
    (if new = [] then M else map_blocks (if before then put_before p new else put_after p new) M)"
proof (cases new)
  case (Cons i js)
  let ?put = "\<lambda>new. if before then put_before p new else put_after p new"
  have loop: "fst (fold (\<lambda>j (N, prev). (map_blocks (put_after prev [j]) N, iid j)) ks
      (map_blocks (?put (acc @ [y])) M, iid y)) = map_blocks (?put (acc @ y # ks)) M"
    if "distinct (map iid (acc @ y # ks))" "iid ` set (acc @ y # ks) \<inter> iid ` set (module_insts M) = {}" for acc y ks
    using that
  proof (induction ks arbitrary: acc y)
    case (Cons j ks)
    have "iid y \<notin> iid ` set (insts b)" if "b \<in> set (all_blocks M)" for b
      using that Cons.prems(2) by (auto simp: module_insts_blocks)
    then have "map_blocks (put_after (iid y) [j]) (map_blocks (?put (acc @ [y])) M) = map_blocks (?put ((acc @ [y]) @ [j])) M"
      using Cons.prems(1) by (intro map_blocks_cong) (auto simp: put_chain)
    then show ?case using Cons.IH [of "acc @ [y]" j] Cons.prems by simp
  qed simp
  from loop [of "[]" i js] assms Cons show ?thesis by (cases before) simp_all
qed simp

lemma edits_refl: "module_ok M \<Longrightarrow> \<forall>i \<in> set (module_insts M). iid i < n \<or> instrumentation n i \<Longrightarrow> edits n M M"
  by (simp add: edits_def)

lemma edits_insert:
  assumes "module_ok M" "n \<le> nextId M" "\<forall>i \<in> set (module_insts M). iid i < n \<or> instrumentation n i"
    and new: "fresh_ids M new" "\<forall>i \<in> set new. instrumentation n i"
  shows "edits n M (place_at new p before M)"
proof -
  have "iid ` set new \<inter> iid ` set (module_insts M) = {}"
    using assms(1) fresh_ids_in [OF new(1)] by (force simp: module_ok_def)
  moreover have "distinct (map iid new)" using new(1) by (simp add: fresh_ids_def)
  ultimately show ?thesis
    using edits_puts [OF assms(1-3) _ new, of p] edits_refl [OF assms(1,3)]
    by (cases before) (auto simp: place_at_def insertInstructions_once used_ids_def)
qed

lemma place_cases:
  assumes "place new point M = Some N"
  obtains p before where "N = place_at new p before M"
  using assms unfolding place_def insertInstructionsWithCheck_def place_at_def
  by (auto simp: Let_def split: inst_kind.splits)

end
