(* ===== verification/Instrument.thy ===== *)
theory Instrument
  imports Module_Edit
begin

text \<open>
  The second half of \<open>CatPass.cpp\<close> with \<open>LoadStoreInstrumentation.cpp\<close> and the last function of
  \<open>ClusterCallstackInstrumentation.cpp\<close>: the functions that write calls of the runtime into the program. A function
  of the pass is a function on modules; \<open>None\<close> is an abort, a failed cast or a null pointer that is dereferenced.
  \<open>funcToCallstack\<close> maps the name of a function to the call that computes its call stack.
\<close>

section \<open>Calls of the runtime\<close>

text \<open>Casts with the numbers that follow each other, then the call that uses them; \<open>cast_no M j\<close> is the j-th cast.\<close>

definition cast_no :: "llvm_module \<Rightarrow> nat \<Rightarrow> val" where
  "cast_no M j = InstV (nextId M + j)"

definition casts :: "llvm_module \<Rightarrow> DILocation option \<Rightarrow> (val \<times> ty) list \<Rightarrow> instr list" where
  "casts M d vs = map (\<lambda>(j, v, t). new_inst (nextId M + j) (CastInst v) t d) (enumerate 0 vs)"

definition runtime_call :: "llvm_module \<Rightarrow> DILocation option \<Rightarrow> (val \<times> ty) list \<Rightarrow> func \<Rightarrow> val list \<Rightarrow> instr list" where
  "runtime_call M d vs f args =
     casts M d vs @ [new_inst (nextId M + length vs) (CallInst (FuncV (fname f)) args) VoidTy d]"

definition int64Type :: ty where "int64Type = IntegerTy 64"

definition const64 :: "u64 \<Rightarrow> val" where "const64 w = ConstV (uint w)"

definition first_inst :: "func \<Rightarrow> instr option" where
  "first_inst F = (case blocks F of [] \<Rightarrow> None | b # _ \<Rightarrow> (case insts b of [] \<Rightarrow> None | i # _ \<Rightarrow> Some i))"

definition callstack_of :: "llvm_module \<Rightarrow> (string \<times> nat) list \<Rightarrow> instr \<Rightarrow> val option" where
  "callstack_of M funcToCallstack i =
     Option.bind (function_of M (iid i)) (\<lambda>F. map_option InstV (map_of funcToCallstack (fname F)))"

section \<open>Declarations and call stacks\<close>

definition getOrInsertFunction :: "string \<Rightarrow> llvm_module \<Rightarrow> llvm_module" where
  "getOrInsertFunction f M =
     (if getFunctionByName M f = None
      then M\<lparr>m_functions := m_functions M @ [\<lparr>fname = f, isIntrinsic = False, blocks = [], optNone = False, noInline = False, fmetadata = []\<rparr>]\<rparr>
      else M)"

definition insertRuntimeFunctions :: "llvm_module \<Rightarrow> llvm_module" where
  "insertRuntimeFunctions M = fold getOrInsertFunction runtime_functions M"

definition callstack_step :: "string list \<Rightarrow> func \<Rightarrow> func \<Rightarrow> func \<Rightarrow> nat \<times> (string \<times> nat) list \<times> llvm_module \<Rightarrow> (nat \<times> (string \<times> nat) list \<times> llvm_module) option" where
  "callstack_step unique getBacktrace getBacktraceUnique F st =
     (case st of (index, funcToCallstack, M) \<Rightarrow>
        if fempty F \<or> isIntrinsic F then Some st
        else (case first_inst F of
                None \<Rightarrow> None
              | Some entryI \<Rightarrow>
                  let call = (if fname F \<in> set unique
                              then CallInst (FuncV (fname getBacktraceUnique)) [ConstV (int index), ConstV (int (length unique))]
                              else CallInst (FuncV (fname getBacktrace)) []) in
                  Some (if fname F \<in> set unique then index + 1 else index,
                        um_assign (fname F) (nextId M) funcToCallstack,
                        place_at [new_inst (nextId M) call PointerTy None] (iid entryI) True M)))"

definition callstackInstrumentation :: "string list \<Rightarrow> llvm_module \<Rightarrow> ((string \<times> nat) list \<times> llvm_module) option" where
  "callstackInstrumentation unique M =
     Option.bind (getRuntimeFunction M MEMORYTOOL_CALLSTACK) (\<lambda>getBacktrace.
     Option.bind (getRuntimeFunction M MEMORYTOOL_CALLSTACK_UNIQUE) (\<lambda>getBacktraceUnique.
     map_option snd (fold_opt (callstack_step unique getBacktrace getBacktraceUnique) (m_functions M) (0, [], M))))"

section \<open>Allocations\<close>

text \<open>
  Where the call goes and which call stack it gets: behind an instruction with the call stack of its function, or
  for a global variable behind the first instruction of \<open>main\<close> with the call stack of \<open>main\<close>.
\<close>

definition inst_point :: "llvm_module \<Rightarrow> (string \<times> nat) list \<Rightarrow> val \<Rightarrow> (instr \<times> val) option" where
  "inst_point M funcToCallstack v =
     Option.bind (inst_of M v) (\<lambda>i. map_option (\<lambda>c. (i, c)) (callstack_of M funcToCallstack i))"

definition alloc_point :: "llvm_module \<Rightarrow> (string \<times> nat) list \<Rightarrow> instr \<Rightarrow> val \<Rightarrow> (instr \<times> val) option" where
  "alloc_point M funcToCallstack firstInstOfMain v =
     (case v of
        InstV _ \<Rightarrow> inst_point M funcToCallstack v
      | GlobalV _ \<Rightarrow> map_option (\<lambda>c. (firstInstOfMain, InstV c)) (map_of funcToCallstack MAIN)
      | _ \<Rightarrow> None)"

definition instrumentAllocation :: "func \<Rightarrow> instr \<Rightarrow> (string \<times> nat) list \<Rightarrow> Entry \<Rightarrow> llvm_module \<Rightarrow> llvm_module option" where
  "instrumentAllocation runtimeFunc firstInstOfMain funcToCallstack e M =
     Option.bind (allocPointer e) (\<lambda>p.
     Option.bind (if e_size e \<noteq> 0 then Some (const64 (e_size e)) else allocSize e) (\<lambda>bytes.
     Option.bind (alloc_point M funcToCallstack firstInstOfMain (e_value e)) (\<lambda>(insertPoint, callstack).
     place (runtime_call M (getDefaultDebugLoc M (e_value e)) [(p, PointerTy), (bytes, int64Type)] runtimeFunc
              [const64 (e_id e), cast_no M 0, cast_no M 1, callstack]) insertPoint M)))"

definition instrumentAllocations :: "Entry list \<Rightarrow> (string \<times> nat) list \<Rightarrow> llvm_module \<Rightarrow> llvm_module option" where
  "instrumentAllocations entries funcToCallstack M =
     (if entries = [] then Some M
      else Option.bind (getRuntimeFunction M TEXAS_MALLOC) (\<lambda>runtimeFunc.
           Option.bind (Option.bind (getFunctionByName M MAIN) first_inst) (\<lambda>firstInstOfMain.
           fold_opt (instrumentAllocation runtimeFunc firstInstOfMain funcToCallstack) entries M)))"

definition instrumentCalloc :: "func \<Rightarrow> (string \<times> nat) list \<Rightarrow> Entry \<Rightarrow> llvm_module \<Rightarrow> llvm_module option" where
  "instrumentCalloc runtimeFunc funcToCallstack e M =
     Option.bind (allocPointer e) (\<lambda>p. Option.bind (allocSize e) (\<lambda>bytes. Option.bind (allocNumElems e) (\<lambda>num.
     Option.bind (inst_point M funcToCallstack (e_value e)) (\<lambda>(insertPoint, callstack).
     place (runtime_call M (getDefaultDebugLoc M (e_value e)) [(p, PointerTy), (bytes, int64Type), (num, int64Type)] runtimeFunc
              [const64 (e_id e), cast_no M 0, cast_no M 1, cast_no M 2, callstack]) insertPoint M))))"

definition instrumentCallocs :: "Entry list \<Rightarrow> (string \<times> nat) list \<Rightarrow> llvm_module \<Rightarrow> llvm_module option" where
  "instrumentCallocs entries funcToCallstack M =
     (if entries = [] then Some M
      else Option.bind (getRuntimeFunction M TEXAS_CALLOC) (\<lambda>runtimeFunc.
           fold_opt (instrumentCalloc runtimeFunc funcToCallstack) entries M))"

definition instrumentRealloc :: "func \<Rightarrow> (string \<times> nat) list \<Rightarrow> Entry \<Rightarrow> llvm_module \<Rightarrow> llvm_module option" where
  "instrumentRealloc runtimeFunc funcToCallstack e M =
     Option.bind (allocPointer e) (\<lambda>p. Option.bind (allocNewPointer e) (\<lambda>new. Option.bind (allocSize e) (\<lambda>bytes.
     Option.bind (inst_point M funcToCallstack (e_value e)) (\<lambda>(insertPoint, callstack).
     place (runtime_call M (getDefaultDebugLoc M (e_value e)) [(p, PointerTy), (new, PointerTy), (bytes, int64Type)] runtimeFunc
              [const64 (e_id e), cast_no M 0, cast_no M 1, cast_no M 2, callstack]) insertPoint M))))"

definition instrumentReallocs :: "Entry list \<Rightarrow> (string \<times> nat) list \<Rightarrow> llvm_module \<Rightarrow> llvm_module option" where
  "instrumentReallocs entries funcToCallstack M =
     (if entries = [] then Some M
      else Option.bind (getRuntimeFunction M TEXAS_REALLOC) (\<lambda>runtimeFunc.
           fold_opt (instrumentRealloc runtimeFunc funcToCallstack) entries M))"

section \<open>Library calls, escapes\<close>

text \<open>Pin starts before the call; behind it Pin stops and the recorded accesses are added.\<close>

definition instrumentUnkown :: "func \<Rightarrow> func \<Rightarrow> func \<Rightarrow> (string \<times> nat) list \<Rightarrow> Entry \<Rightarrow> llvm_module \<Rightarrow> llvm_module option" where
  "instrumentUnkown start stop add funcToCallstack e M =
     Option.bind (inst_of M (e_value e)) (\<lambda>i.
       if \<not> isCallBase (kind i) then None
       else
         let d = getDefaultDebugLoc M (e_value e);
             M1 = place_at (runtime_call M d [] start []) (iid i) True M;
             toStop = new_inst (nextId M1) (CallInst (FuncV (fname stop)) []) VoidTy d in
         Option.bind (callstack_of M1 funcToCallstack i) (\<lambda>callstack.
           let toAdd = new_inst (nextId M1 + 1) (CallInst (FuncV (fname add)) [const64 (e_id e), callstack]) VoidTy d in
           place [toStop, toAdd] i M1))"

definition instrumentUnkowns :: "Entry list \<Rightarrow> (string \<times> nat) list \<Rightarrow> llvm_module \<Rightarrow> llvm_module option" where
  "instrumentUnkowns entries funcToCallstack M =
     (if entries = [] then Some M
      else Option.bind (getRuntimeFunction M PIN_START_TRACKING) (\<lambda>start.
           Option.bind (getRuntimeFunction M PIN_STOP_TRACKING) (\<lambda>stop.
           Option.bind (getRuntimeFunction M PIN_ADD) (\<lambda>add.
           fold_opt (instrumentUnkown start stop add funcToCallstack) entries M))))"

definition instrumentEscape :: "func \<Rightarrow> nat \<Rightarrow> llvm_module \<Rightarrow> llvm_module option" where
  "instrumentEscape addFunc n M =
     Option.bind (inst_of M (InstV n)) (\<lambda>i.
       case kind i of
         StoreInst v p \<Rightarrow> place (runtime_call M None [(p, PointerTy)] addFunc [cast_no M 0]) i M
       | _ \<Rightarrow> None)"

definition instrumentEscapes :: "nat list \<Rightarrow> llvm_module \<Rightarrow> llvm_module option" where
  "instrumentEscapes escapes M =
     (if escapes = [] then Some M
      else Option.bind (getRuntimeFunction M TEXAS_ADD_ESCAPE) (\<lambda>addFunc. fold_opt (instrumentEscape addFunc) escapes M))"

section \<open>Deallocations\<close>

text \<open>An erased instruction leaves its block; LLVM does not allow that while it has users.\<close>

definition eraseDealloc :: "nat \<Rightarrow> llvm_module \<Rightarrow> llvm_module option" where
  "eraseDealloc n M =
     (if users M (InstV n) \<noteq> [] then None else Some (map_blocks (filter (\<lambda>i. iid i \<noteq> n)) M))"

definition eraseDeallocs :: "nat list \<Rightarrow> llvm_module \<Rightarrow> llvm_module option" where
  "eraseDeallocs deallocs M = fold_opt eraseDealloc deallocs M"

text \<open>The two instructions go behind the call even when it is an \<open>invoke\<close>, the last instruction of its block.\<close>

definition instrumentDealloc :: "func \<Rightarrow> nat \<Rightarrow> llvm_module \<Rightarrow> llvm_module option" where
  "instrumentDealloc allocFunc n M =
     Option.bind (inst_of M (InstV n)) (\<lambda>i. Option.bind (getOperand (kind i) 0) (\<lambda>p.
       Some (place_at (runtime_call M (getDefaultDebugLoc M (InstV n)) [(p, PointerTy)] allocFunc [cast_no M 0]) n False M)))"

definition instrumentDeallocs :: "nat list \<Rightarrow> llvm_module \<Rightarrow> llvm_module option" where
  "instrumentDeallocs deallocs M =
     (if deallocs = [] then Some M
      else Option.bind (getRuntimeFunction M TEXAS_REMOVE) (\<lambda>allocFunc. fold_opt (instrumentDealloc allocFunc) deallocs M))"

definition removeAlloca :: "func \<Rightarrow> nat \<Rightarrow> nat \<Rightarrow> llvm_module \<Rightarrow> llvm_module option" where
  "removeAlloca runtimeFunc insertPoint allocaInst M =
     Some (place_at (runtime_call M (getDefaultDebugLoc M (InstV allocaInst)) [(InstV allocaInst, PointerTy)] runtimeFunc [cast_no M 0])
             insertPoint True M)"

definition instrumentReturn :: "func \<Rightarrow> (string \<times> nat list) list \<Rightarrow> nat \<Rightarrow> llvm_module \<Rightarrow> llvm_module option" where
  "instrumentReturn runtimeFunc functionAllocas n M =
     Option.bind (function_of M n) (\<lambda>currentFunc.
       case map_of functionAllocas (fname currentFunc) of
         None \<Rightarrow> Some M
       | Some allocas \<Rightarrow> fold_opt (removeAlloca runtimeFunc n) allocas M)"

definition instrumentReturns :: "nat list \<Rightarrow> (string \<times> nat list) list \<Rightarrow> llvm_module \<Rightarrow> llvm_module option" where
  "instrumentReturns rets functionAllocas M =
     (if rets = [] then Some M
      else Option.bind (getRuntimeFunction M TEXAS_REMOVE) (\<lambda>runtimeFunc.
           fold_opt (instrumentReturn runtimeFunc functionAllocas) rets M))"

definition unwind_point :: "llvm_module \<Rightarrow> nat \<Rightarrow> nat option" where
  "unwind_point M n =
     Option.bind (inst_of M (InstV n)) (\<lambda>i.
       case kind i of
         InvokeInst f as normal unwind \<Rightarrow>
           Option.bind (block_of M unwind) (\<lambda>b. if insts b = [] then None else Some (iid (last (insts b))))
       | _ \<Rightarrow> None)"

definition instrumentInvoke :: "func \<Rightarrow> (string \<times> nat list) list \<Rightarrow> nat \<Rightarrow> llvm_module \<Rightarrow> llvm_module option" where
  "instrumentInvoke runtimeFunc functionAllocas n M =
     Option.bind (function_of M n) (\<lambda>currentFunc.
       case map_of functionAllocas (fname currentFunc) of
         None \<Rightarrow> Some M
       | Some allocas \<Rightarrow>
           Option.bind (unwind_point M n) (\<lambda>insertPoint. fold_opt (removeAlloca runtimeFunc insertPoint) allocas M))"

definition instrumentInvokes :: "nat list \<Rightarrow> (string \<times> nat list) list \<Rightarrow> llvm_module \<Rightarrow> llvm_module option" where
  "instrumentInvokes invs functionAllocas M =
     (if invs = [] then Some M
      else Option.bind (getRuntimeFunction M TEXAS_REMOVE) (\<lambda>runtimeFunc.
           fold_opt (instrumentInvoke runtimeFunc functionAllocas) invs M))"

section \<open>Loads and stores\<close>

text \<open>
  \<open>getLoadStoreInstrumentation\<close>: the cast of the address and the call. The address is the one of the instruction
  and not the one of the entry, which the base address analysis changes.
\<close>

definition access_call :: "inst_kind \<Rightarrow> (string \<times> val \<times> (Entry \<Rightarrow> val list)) option" where
  "access_call k =
     (case k of
        StoreInst v p \<Rightarrow> Some (TEXAS_ADD_WITH_INFO, p, \<lambda>e. [const64 (e_size e), const64 (sizeElement e)])
      | LoadInst p \<Rightarrow> Some (TEXAS_ADD_WITH_INFO_LOAD, p, \<lambda>e. [])
      | _ \<Rightarrow> None)"

definition getLoadStoreInstrumentation :: "llvm_module \<Rightarrow> Entry \<Rightarrow> (string \<times> nat) list \<Rightarrow> instr list option" where
  "getLoadStoreInstrumentation M e funcToCallstack =
     Option.bind (inst_of M (e_value e)) (\<lambda>i.
     Option.bind (access_call (kind i)) (\<lambda>(f, pointer, sizes).
     Option.bind (getRuntimeFunction M f) (\<lambda>runtimeFunc.
     Option.bind (callstack_of M funcToCallstack i) (\<lambda>callstackInst.
     Some (runtime_call M (getDefaultDebugLoc M (e_value e)) [(pointer, PointerTy)] runtimeFunc
             ([const64 (e_id e), cast_no M 0] @ sizes e @ [callstackInst]))))))"

definition instrumentAccess :: "(string \<times> nat) list \<Rightarrow> Entry list \<Rightarrow> nat list \<Rightarrow> nat \<times> nat \<Rightarrow> llvm_module \<Rightarrow> llvm_module option" where
  "instrumentAccess funcToCallstack heap alreadyInstrumented elem M =
     (if fst elem \<in> set alreadyInstrumented then Some M
      else Option.bind (getLoadStoreInstrumentation M (heap ! snd elem) funcToCallstack) (\<lambda>instsToInsert.
           Option.bind (inst_of M (InstV (fst elem))) (\<lambda>insertPoint. place instsToInsert insertPoint M)))"

definition instrumentLoadsStoresRegular :: "(string \<times> nat) list \<Rightarrow> (nat \<times> nat) list \<Rightarrow> Entry list \<Rightarrow> nat list \<Rightarrow> llvm_module \<Rightarrow> llvm_module option" where
  "instrumentLoadsStoresRegular funcToCallstack instToEntry heap alreadyInstrumented M =
     fold_opt (instrumentAccess funcToCallstack heap alreadyInstrumented) instToEntry M"

section \<open>Prologue and epilogue\<close>

text \<open>The options of the command line: each is set when it occurs.\<close>

record pass_options =
  disableStateInBytesOpt :: bool
  disableInputOpt :: bool
  disableOutputOpt :: bool
  disableCloneableOpt :: bool
  disableTransferOpt :: bool
  cycleFindingOpt :: bool
  disableStateUsesOpt :: bool
  disableCallstackOpt :: bool

definition prologue_args :: "pass_options \<Rightarrow> int list" where
  "prologue_args opts =
     [if disableStateInBytesOpt opts then 0 else 1,
      if disableInputOpt opts then 0 else 1,
      if disableOutputOpt opts then 0 else 1,
      if disableCloneableOpt opts then 0 else 1,
      if disableTransferOpt opts then 0 else 1,
      if cycleFindingOpt opts then 1 else 0,
      if disableStateUsesOpt opts then 1 else 0,
      if disableCallstackOpt opts then 1 else 0]"

definition setRuntimeGlobalVariables :: "pass_options \<Rightarrow> llvm_module \<Rightarrow> llvm_module option" where
  "setRuntimeGlobalVariables opts M =
     Option.bind (Option.bind (getFunctionByName M MAIN) first_inst) (\<lambda>firstInstOfMain.
     Option.bind (getRuntimeFunction M MEMORYTOOL_PROLOGUE) (\<lambda>prologueFunc.
     Some (place_at (runtime_call M None [] prologueFunc (map ConstV (prologue_args opts))) (iid firstInstOfMain) True M)))"

text \<open>A call is an exit when the function that contains it is named \<open>exit\<close>.\<close>

definition getExitInstructions :: "func \<Rightarrow> nat list" where
  "getExitInstructions F =
     us_insert_all (map iid (filter (\<lambda>i. case kind i of
                                           CallInst _ _ \<Rightarrow> fname F = ''exit''
                                         | ReturnInst _ \<Rightarrow> True
                                         | _ \<Rightarrow> False) (func_insts F))) []"

definition insertEpilogue :: "llvm_module \<Rightarrow> llvm_module option" where
  "insertEpilogue M =
     Option.bind (getFunctionByName M MAIN) (\<lambda>main.
     Option.bind (getRuntimeFunction M MEMORYTOOL_EPILOGUE) (\<lambda>epilogueFunc.
     Some (fold (\<lambda>exitPoint N. place_at (runtime_call N None [] epilogueFunc []) exitPoint True N) (getExitInstructions main) M)))"

section \<open>Every step only adds instrumentation\<close>

definition ready :: "nat \<Rightarrow> llvm_module \<Rightarrow> bool" where
  "ready n M \<longleftrightarrow> module_ok M \<and> n \<le> nextId M \<and> (\<forall>i \<in> set (module_insts M). iid i < n \<or> instrumentation n i)"

text \<open>A function on modules that only adds instrumentation, if it returns.\<close>

definition adds :: "nat \<Rightarrow> (llvm_module \<Rightarrow> llvm_module option) \<Rightarrow> bool" where
  "adds n f \<longleftrightarrow> (\<forall>M N. ready n M \<longrightarrow> f M = Some N \<longrightarrow> edits n M N)"

lemma edits_ready: "edits n M N \<Longrightarrow> ready n M \<Longrightarrow> ready n N"
  by (auto simp: edits_def ready_def)

lemma ready_edits_refl: "ready n M \<Longrightarrow> edits n M M"
  by (simp add: ready_def edits_refl)

lemma addsD: "adds n f \<Longrightarrow> ready n M \<Longrightarrow> f M = Some N \<Longrightarrow> edits n M N \<and> ready n N"
  unfolding adds_def using edits_ready by blast

lemma adds_fold_opt: "(\<And>x. x \<in> set xs \<Longrightarrow> adds n (f x)) \<Longrightarrow> adds n (fold_opt f xs)"
proof (induction xs)
  case (Cons x xs)
  show ?case unfolding adds_def
  proof (intro allI impI)
    fix M N assume M: "ready n M" and N: "fold_opt f (x # xs) M = Some N"
    obtain L where L: "f x M = Some L" "fold_opt f xs L = Some N" using N by (auto simp: bind_eq_Some_conv)
    have first: "edits n M L \<and> ready n L" using Cons.prems [of x] M L(1) addsD [of n "f x" M L] by simp
    have "adds n (fold_opt f xs)" using Cons by simp
    then have "edits n L N" using first L(2) addsD by blast
    then show "edits n M N" using first edits_trans by blast
  qed
qed (simp add: adds_def ready_edits_refl)

lemma runtime_call_fresh [simp]: "fresh_ids M (runtime_call M d vs f args)"
proof -
  have "map iid (casts M d vs) = [nextId M ..< nextId M + length vs]"
    by (rule nth_equalityI) (simp_all add: casts_def new_inst_def enumerate_eq_zip split: prod.splits)
  then show ?thesis by (simp add: fresh_ids_def runtime_call_def new_inst_def casts_def)
qed

lemma runtime_call_instrumentation:
  "ready n M \<Longrightarrow> fname f \<in> set runtime_functions \<Longrightarrow> \<forall>i \<in> set (runtime_call M d vs f args). instrumentation n i"
  by (auto simp: runtime_call_def casts_def instrumentation_def new_inst_def ready_def)

lemma edits_place_at:
  "ready n M \<Longrightarrow> fresh_ids M new \<Longrightarrow> \<forall>i \<in> set new. instrumentation n i \<Longrightarrow> edits n M (place_at new p before M)"
  by (simp add: ready_def edits_insert)

lemma edits_place:
  "ready n M \<Longrightarrow> fresh_ids M new \<Longrightarrow> \<forall>i \<in> set new. instrumentation n i \<Longrightarrow> place new point M = Some N \<Longrightarrow> edits n M N"
  by (metis edits_place_at place_cases)

lemma edits_call_at:
  "ready n M \<Longrightarrow> fname f \<in> set runtime_functions \<Longrightarrow> edits n M (place_at (runtime_call M d vs f args) p before M)"
  by (simp add: edits_place_at runtime_call_instrumentation)

lemma edits_call:
  "place (runtime_call M d vs f args) point M = Some N \<Longrightarrow> ready n M \<Longrightarrow> fname f \<in> set runtime_functions \<Longrightarrow> edits n M N"
  by (rule edits_place [OF _ _ runtime_call_instrumentation]) simp_all

lemma getRuntimeFunction_name: "getRuntimeFunction M f = Some F \<Longrightarrow> fname F = f"
  by (auto simp: getRuntimeFunction_def getFunctionByName_def find_Some_iff)

lemmas runtime_names =
  TEXAS_REMOVE_def TEXAS_MALLOC_def TEXAS_CALLOC_def TEXAS_REALLOC_def TEXAS_ADD_def TEXAS_ADD_WITH_INFO_def
  TEXAS_ADD_WITH_INFO_LOAD_def TEXAS_ADD_ESCAPE_def TEXAS_SET_STATE_def MEMORYTOOL_PROLOGUE_def MEMORYTOOL_EPILOGUE_def
  MEMORYTOOL_CALLSTACK_def MEMORYTOOL_CALLSTACK_UNIQUE_def MEMORYTOOL_RMCALLSTACK_def PIN_START_TRACKING_def PIN_STOP_TRACKING_def
  PIN_ADD_def

lemma runtime_functions_in [simp]:
  "TEXAS_REMOVE \<in> set runtime_functions" "TEXAS_MALLOC \<in> set runtime_functions" "TEXAS_CALLOC \<in> set runtime_functions"
  "TEXAS_REALLOC \<in> set runtime_functions" "TEXAS_ADD_WITH_INFO \<in> set runtime_functions"
  "TEXAS_ADD_WITH_INFO_LOAD \<in> set runtime_functions" "TEXAS_ADD_ESCAPE \<in> set runtime_functions"
  "TEXAS_SET_STATE \<in> set runtime_functions" "MEMORYTOOL_PROLOGUE \<in> set runtime_functions"
  "MEMORYTOOL_EPILOGUE \<in> set runtime_functions" "MEMORYTOOL_CALLSTACK \<in> set runtime_functions"
  "MEMORYTOOL_CALLSTACK_UNIQUE \<in> set runtime_functions" "PIN_START_TRACKING \<in> set runtime_functions"
  "PIN_STOP_TRACKING \<in> set runtime_functions" "PIN_ADD \<in> set runtime_functions"
  by (simp_all add: runtime_functions_def)

lemma edits_fold_opt:
  "fold_opt f xs M = Some N \<Longrightarrow> ready n M \<Longrightarrow> (\<And>x. x \<in> set xs \<Longrightarrow> adds n (f x)) \<Longrightarrow> edits n M N"
  using adds_fold_opt [of xs n f] by (simp add: adds_def)

text \<open>The shape of most functions: nothing to do, or the runtime function is looked up and a loop runs.\<close>

lemma adds_loop:
  assumes "\<And>F x. fname F = f \<Longrightarrow> adds n (step F x)"
  shows "adds n (\<lambda>M. if xs = [] then Some M else Option.bind (getRuntimeFunction M f) (\<lambda>F. fold_opt (step F) xs M))"
  unfolding adds_def
proof (intro allI impI)
  fix M N
  assume M: "ready n M"
    and N: "(if xs = [] then Some M else Option.bind (getRuntimeFunction M f) (\<lambda>F. fold_opt (step F) xs M)) = Some N"
  show "edits n M N"
  proof (cases "xs = []")
    case False
    then obtain F where F: "getRuntimeFunction M f = Some F" "fold_opt (step F) xs M = Some N"
      using N by (auto simp: bind_eq_Some_conv)
    then show ?thesis using M assms getRuntimeFunction_name by (intro edits_fold_opt [OF F(2)]) blast+
  qed (use M N ready_edits_refl in simp)
qed

lemma adds_allocations: "adds n (instrumentAllocations entries cs)"
proof -
  have "adds n (instrumentAllocation F i cs e)" if "fname F = TEXAS_MALLOC" for F i e
    using that by (auto simp: adds_def instrumentAllocation_def bind_eq_Some_conv intro: edits_call)
  then have step: "edits n M N"
    if "getRuntimeFunction M TEXAS_MALLOC = Some F" "ready n M" "fold_opt (instrumentAllocation F i cs) entries M = Some N" for F i M N
    using that getRuntimeFunction_name by (intro edits_fold_opt [OF that(3)]) blast+
  then show ?thesis
    by (auto simp: adds_def instrumentAllocations_def bind_eq_Some_conv ready_edits_refl split: if_splits)
qed

lemma adds_callocs: "adds n (instrumentCallocs entries cs)"
proof -
  have "adds n (instrumentCalloc F cs e)" if "fname F = TEXAS_CALLOC" for F e
    using that by (auto simp: adds_def instrumentCalloc_def bind_eq_Some_conv intro: edits_call)
  then show ?thesis unfolding instrumentCallocs_def [abs_def] by (rule adds_loop)
qed

lemma adds_reallocs: "adds n (instrumentReallocs entries cs)"
proof -
  have "adds n (instrumentRealloc F cs e)" if "fname F = TEXAS_REALLOC" for F e
    using that by (auto simp: adds_def instrumentRealloc_def bind_eq_Some_conv intro: edits_call)
  then show ?thesis unfolding instrumentReallocs_def [abs_def] by (rule adds_loop)
qed

lemma adds_escapes: "adds n (instrumentEscapes es)"
proof -
  have "adds n (instrumentEscape F e)" if "fname F = TEXAS_ADD_ESCAPE" for F e
    using that unfolding adds_def instrumentEscape_def
    by (auto simp: bind_eq_Some_conv split: inst_kind.split_asm) (erule edits_call; simp)
  then show ?thesis unfolding instrumentEscapes_def [abs_def] by (rule adds_loop)
qed

lemma adds_deallocs: "adds n (instrumentDeallocs ds)"
proof -
  have "adds n (instrumentDealloc F e)" if "fname F = TEXAS_REMOVE" for F e
    using that by (auto simp: adds_def instrumentDealloc_def bind_eq_Some_conv intro: edits_call_at)
  then show ?thesis unfolding instrumentDeallocs_def [abs_def] by (rule adds_loop)
qed

lemma adds_removeAlloca: "fname F = TEXAS_REMOVE \<Longrightarrow> adds n (removeAlloca F p a)"
  by (auto simp: adds_def removeAlloca_def intro: edits_call_at)

lemma adds_returns: "adds n (instrumentReturns rs fam)"
proof -
  have "adds n (instrumentReturn F fam e)" if "fname F = TEXAS_REMOVE" for F e
    using that unfolding adds_def instrumentReturn_def
    by (auto simp: bind_eq_Some_conv ready_edits_refl split: option.splits intro: edits_fold_opt [OF _ _ adds_removeAlloca])
  then show ?thesis unfolding instrumentReturns_def [abs_def] by (rule adds_loop)
qed

lemma adds_invokes: "adds n (instrumentInvokes is fam)"
proof -
  have "adds n (instrumentInvoke F fam e)" if "fname F = TEXAS_REMOVE" for F e
    using that unfolding adds_def instrumentInvoke_def
    by (auto simp: bind_eq_Some_conv ready_edits_refl split: option.splits intro: edits_fold_opt [OF _ _ adds_removeAlloca])
  then show ?thesis unfolding instrumentInvokes_def [abs_def] by (rule adds_loop)
qed

lemma access_call_load_store: "access_call k \<noteq> None \<longleftrightarrow> is_load_store k"
  by (auto simp: access_call_def is_load_store_def split: inst_kind.splits)

lemma access_call_runtime: "access_call k = Some (f, p, sz) \<Longrightarrow> f \<in> set runtime_functions"
  by (auto simp: access_call_def split: inst_kind.splits)

lemma getLoadStoreInstrumentation_cases:
  assumes "getLoadStoreInstrumentation M e cs = Some new"
  obtains d p F args where "new = runtime_call M d [(p, PointerTy)] F args" "fname F \<in> set runtime_functions"
  using assms access_call_runtime
  by (auto simp: getLoadStoreInstrumentation_def bind_eq_Some_conv dest!: getRuntimeFunction_name split: prod.splits)

lemma adds_accesses: "adds n (instrumentLoadsStoresRegular cs m heap skip)"
proof -
  have "adds n (instrumentAccess cs heap skip e)" for e
    unfolding adds_def instrumentAccess_def
    by (auto simp: bind_eq_Some_conv ready_edits_refl elim!: getLoadStoreInstrumentation_cases split: if_splits intro: edits_call)
  then have "adds n (fold_opt (instrumentAccess cs heap skip) m)" by (rule adds_fold_opt)
  then show ?thesis by (simp add: adds_def instrumentLoadsStoresRegular_def)
qed

lemma adds_setRuntimeGlobalVariables: "adds n (setRuntimeGlobalVariables opts)"
  by (auto simp: adds_def setRuntimeGlobalVariables_def bind_eq_Some_conv dest!: getRuntimeFunction_name intro: edits_call_at)

lemma adds_insertEpilogue: "adds n insertEpilogue"
proof -
  have "edits n M (fold (\<lambda>p N. place_at (runtime_call N None [] F []) p True N) ps M)"
    if "fname F = MEMORYTOOL_EPILOGUE" "ready n M" for F ps M
    using that(2)
  proof (induction ps arbitrary: M)
    case (Cons p ps)
    have "edits n M (place_at (runtime_call M None [] F []) p True M)" using Cons.prems that(1) by (intro edits_call_at) simp_all
    then show ?case using Cons edits_ready edits_trans [OF _ Cons.IH] by simp
  qed (simp add: ready_edits_refl)
  then show ?thesis
    by (auto simp: adds_def insertEpilogue_def bind_eq_Some_conv dest!: getRuntimeFunction_name)
qed

lemma adds_unkowns: "adds n (instrumentUnkowns es cs)"
proof -
  have "adds n (instrumentUnkown F G H cs e)"
    if "fname F = PIN_START_TRACKING" "fname G = PIN_STOP_TRACKING" "fname H = PIN_ADD" for F G H e
    unfolding adds_def
  proof (intro allI impI)
    fix M N assume M: "ready n M" and N: "instrumentUnkown F G H cs e M = Some N"
    let ?d = "getDefaultDebugLoc M (e_value e)"
    let ?L = "\<lambda>i. place_at (runtime_call M ?d [] F []) (iid i) True M"
    obtain i c where i: "place [new_inst (nextId (?L i)) (CallInst (FuncV (fname G)) []) VoidTy ?d,
        new_inst (nextId (?L i) + 1) (CallInst (FuncV (fname H)) [const64 (e_id e), c]) VoidTy ?d] i (?L i) = Some N"
      using N by (auto simp: instrumentUnkown_def bind_eq_Some_conv Let_def split: if_splits)
    have L: "edits n M (?L i)" using M that(1) by (intro edits_call_at) simp_all
    then have "edits n (?L i) N"
      using i M that edits_ready by (intro edits_place [OF _ _ _ i]) (auto simp: fresh_ids_def new_inst_def instrumentation_def ready_def edits_def)
    then show "edits n M N" using L edits_trans by blast
  qed
  then have "edits n M N"
    if "getRuntimeFunction M PIN_START_TRACKING = Some F" "getRuntimeFunction M PIN_STOP_TRACKING = Some G"
      "getRuntimeFunction M PIN_ADD = Some H" "ready n M" "fold_opt (instrumentUnkown F G H cs) es M = Some N" for F G H M N
    using that getRuntimeFunction_name by (intro edits_fold_opt [OF that(5)]) blast+
  then show ?thesis by (auto simp: adds_def instrumentUnkowns_def bind_eq_Some_conv ready_edits_refl split: if_splits)
qed

lemma getFunctionByName_None: "getFunctionByName M f = None \<longleftrightarrow> f \<notin> fname ` set (m_functions M)"
  by (auto simp: getFunctionByName_def find_None_iff)

lemma edits_insertRuntimeFunctions: "ready n M \<Longrightarrow> edits n M (insertRuntimeFunctions M)"
proof -
  have step: "edits n M (getOrInsertFunction f M)" if "ready n M" for f M
  proof (cases "getFunctionByName M f = None")
    case True
    let ?N = "getOrInsertFunction f M"
    have "module_insts ?N = module_insts M" "all_blocks ?N = all_blocks M" "program_code n ?N = program_code n M"
      "nextId ?N = nextId M" "map fname (m_functions ?N) = map fname (m_functions M) @ [f]"
      using True by (simp_all add: getOrInsertFunction_def module_insts_def func_insts_def all_blocks_def program_code_def fempty_def)
    then show ?thesis using that True unfolding edits_def ready_def module_ok_def wf_module_def getFunctionByName_None by auto
  qed (use that in \<open>auto simp: getOrInsertFunction_def ready_edits_refl\<close>)
  have "edits n M (fold getOrInsertFunction fs M)" if "ready n M" for fs
    using that
  proof (induction fs arbitrary: M)
    case (Cons f fs)
    show ?case using edits_trans [OF step [OF Cons.prems] Cons.IH [OF edits_ready [OF step [OF Cons.prems] Cons.prems]]] by simp
  qed (simp add: ready_edits_refl)
  then show "ready n M \<Longrightarrow> edits n M (insertRuntimeFunctions M)" by (simp add: insertRuntimeFunctions_def)
qed

lemma insertRuntimeFunctions_names:
  "fname ` set (m_functions (insertRuntimeFunctions M)) = fname ` set (m_functions M) \<union> set runtime_functions"
proof -
  have "fname ` set (m_functions (fold getOrInsertFunction fs M)) = fname ` set (m_functions M) \<union> set fs" for fs
    by (induction fs arbitrary: M) (auto simp: getOrInsertFunction_def getFunctionByName_None)
  then show ?thesis by (simp add: insertRuntimeFunctions_def)
qed

section \<open>Call stacks\<close>

text \<open>
  The reference: every function with a body gets one call in front of its entry block, numbered from \<open>n\<close>; the
  functions with a unique call stack count their indices from \<open>k\<close>.
\<close>

definition prefix_call :: "nat \<Rightarrow> inst_kind \<Rightarrow> func \<Rightarrow> func" where
  "prefix_call n call F =
     F\<lparr>blocks := (case blocks F of [] \<Rightarrow> [] | b # bs \<Rightarrow> b\<lparr>insts := new_inst n call PointerTy None # insts b\<rparr> # bs)\<rparr>"

definition callstack_call :: "string list \<Rightarrow> nat \<Rightarrow> string \<Rightarrow> inst_kind" where
  "callstack_call unique k f =
     (if f \<in> set unique then CallInst (FuncV MEMORYTOOL_CALLSTACK_UNIQUE) [ConstV (int k), ConstV (int (length unique))]
      else CallInst (FuncV MEMORYTOOL_CALLSTACK) [])"

fun with_callstacks :: "string list \<Rightarrow> nat \<Rightarrow> nat \<Rightarrow> func list \<Rightarrow> func list" where
  "with_callstacks unique k n [] = []"
| "with_callstacks unique k n (F # Fs) =
     (if fempty F \<or> isIntrinsic F then F # with_callstacks unique k n Fs
      else prefix_call n (callstack_call unique k (fname F)) F
           # with_callstacks unique (if fname F \<in> set unique then k + 1 else k) (n + 1) Fs)"

fun callstack_numbers :: "nat \<Rightarrow> func list \<Rightarrow> (string \<times> nat) list" where
  "callstack_numbers n [] = []"
| "callstack_numbers n (F # Fs) =
     (if fempty F \<or> isIntrinsic F then callstack_numbers n Fs else (fname F, n) # callstack_numbers (n + 1) Fs)"

lemma um_assign_new: "map_of m k = None \<Longrightarrow> um_assign k v m = m @ [(k, v)]"
  by (induction m) (auto simp: um_assign_def split: if_splits)

lemma put_before_first:
  assumes "module_ok M" "F \<in> set (m_functions M)" "first_inst F = Some i" "G \<in> set (m_functions M)"
  shows "G\<lparr>blocks := map (\<lambda>b. b\<lparr>insts := put_before (iid i) [new_inst n k PointerTy None] (insts b)\<rparr>) (blocks G)\<rparr>
    = (if G = F then prefix_call n k F else G)"
proof -
  obtain b bs is' where F: "blocks F = b # bs" "insts b = i # is'"
    using assms(3) by (auto simp: first_inst_def split: list.splits)
  have wf: "wf_module M" using assms(1) by (simp add: module_ok_def)
  have iF: "i \<in> set (func_insts F)" using F by (simp add: func_insts_def)
  have keep: "map (\<lambda>b. b\<lparr>insts := put_before (iid i) new (insts b)\<rparr>) cs = cs" if "iid i \<notin> iid ` set (concat (map insts cs))" for new and cs :: "bblock list"
    using that
  proof (induction cs)
    case (Cons c cs)
    then have "iid i \<notin> iid ` set (insts c)" by auto
    then show ?case using Cons by (auto simp: put_none)
  qed simp
  show ?thesis
  proof (cases "G = F")
    case True
    have "distinct (map iid (func_insts F))"
    proof -
      obtain xs ys where "m_functions M = xs @ F # ys" using assms(2) by (meson split_list)
      then show ?thesis using wf by (simp add: wf_module_def module_insts_def)
    qed
    then have "iid i \<notin> iid ` set (concat (map insts bs))" using F by (simp add: func_insts_def)
    then have "map (\<lambda>b. b\<lparr>insts := put_before (iid i) [new_inst n k PointerTy None] (insts b)\<rparr>) (blocks F)
        = b\<lparr>insts := new_inst n k PointerTy None # i # is'\<rparr> # bs"
      using F keep by simp
    then show ?thesis using True F by (simp add: prefix_call_def)
  next
    case False
    have "iid i \<notin> iid ` set (func_insts G)"
    proof
      assume "iid i \<in> iid ` set (func_insts G)"
      then obtain j where "j \<in> set (func_insts G)" "iid i = iid j" by blast
      then show False using False wf_same_function [OF wf assms(2,4) iF] by blast
    qed
    then show ?thesis using False keep by (simp add: func_insts_def)
  qed
qed

lemma callstack_step_skip: "fempty F \<or> isIntrinsic F \<Longrightarrow> callstack_step unique B U F st = Some st"
  by (cases st) (auto simp: callstack_step_def)

lemma callstack_step_call:
  assumes "\<not> (fempty F \<or> isIntrinsic F)" "fname B = MEMORYTOOL_CALLSTACK" "fname U = MEMORYTOOL_CALLSTACK_UNIQUE"
    "map_of cs (fname F) = None" "callstack_step unique B U F (k, cs, M) = Some st"
  obtains i where "first_inst F = Some i"
    "st = (if fname F \<in> set unique then k + 1 else k, cs @ [(fname F, nextId M)],
       place_at [new_inst (nextId M) (callstack_call unique k (fname F)) PointerTy None] (iid i) True M)"
  using assms by (auto simp: callstack_step_def callstack_call_def Let_def um_assign_new split: option.splits if_splits)

lemma callstack_loop:
  assumes "ready n M" "m_functions M = Fs @ Gs" "fname B = MEMORYTOOL_CALLSTACK" "fname U = MEMORYTOOL_CALLSTACK_UNIQUE"
    and run: "fold_opt (callstack_step unique B U) Gs (k, cs, M) = Some (k', cs', N)"
    and new: "\<forall>F \<in> set Gs. map_of cs (fname F) = None"
  shows "m_functions N = Fs @ with_callstacks unique k (nextId M) Gs \<and> cs' = cs @ callstack_numbers (nextId M) Gs \<and> edits n M N"
  using assms
proof (induction Gs arbitrary: Fs k cs M)
  case Nil
  then show ?case by (simp add: ready_edits_refl)
next
  case (Cons F Gs)
  show ?case
  proof (cases "fempty F \<or> isIntrinsic F")
    case True
    then show ?thesis using Cons.IH [of M "Fs @ [F]" k cs] Cons.prems by (simp add: callstack_step_skip)
  next
    case False
    let ?call = "callstack_call unique k (fname F)"
    let ?new = "[new_inst (nextId M) ?call PointerTy None]"
    obtain st where st: "callstack_step unique B U F (k, cs, M) = Some st" "fold_opt (callstack_step unique B U) Gs st = Some (k', cs', N)"
      using Cons.prems(5) by (auto simp: bind_eq_Some_conv)
    have none: "map_of cs (fname F) = None" using Cons.prems(6) by simp
    obtain i where i: "first_inst F = Some i"
      "st = (if fname F \<in> set unique then k + 1 else k, cs @ [(fname F, nextId M)], place_at ?new (iid i) True M)"
      using callstack_step_call [OF False Cons.prems(3,4) none st(1)] by blast
    define L where "L = place_at ?new (iid i) True M"
    note run = st(2) [unfolded i(2), folded L_def]
    have fresh: "fresh_ids M ?new" "\<forall>i \<in> set ?new. instrumentation n i"
      using Cons.prems(1) by (auto simp: fresh_ids_def new_inst_def instrumentation_def callstack_call_def ready_def)
    have edit: "edits n M L" unfolding L_def by (rule edits_place_at [OF Cons.prems(1) fresh])
    have ok: "module_ok M" and names: "distinct (map fname (m_functions M))"
      using Cons.prems(1) by (auto simp: ready_def module_ok_def wf_module_def)
    have next_L: "nextId L = nextId M + 1" by (simp add: L_def place_at_def map_blocks_def)
    have "m_functions L = map (\<lambda>G. G\<lparr>blocks := map (\<lambda>b. b\<lparr>insts := put_before (iid i) ?new (insts b)\<rparr>) (blocks G)\<rparr>) (m_functions M)"
      by (simp add: L_def place_at_def map_blocks_def)
    also have "\<dots> = map (\<lambda>G. if G = F then prefix_call (nextId M) ?call F else G) (m_functions M)"
      using put_before_first [OF ok _ i(1)] Cons.prems(2) by (intro map_cong) auto
    also have "\<dots> = Fs @ prefix_call (nextId M) ?call F # Gs"
      using names Cons.prems(2) by (auto intro!: map_idI)
    finally have fs: "m_functions L = (Fs @ [prefix_call (nextId M) ?call F]) @ Gs" by simp
    have "\<forall>G \<in> set Gs. map_of (cs @ [(fname F, nextId M)]) (fname G) = None"
    proof
      fix G assume G: "G \<in> set Gs"
      have "fname F \<notin> fname ` set Gs" using names Cons.prems(2) by simp
      then have "fname G \<noteq> fname F" using G by (metis image_eqI)
      then show "map_of (cs @ [(fname F, nextId M)]) (fname G) = None" using Cons.prems(6) G by (simp add: map_add_def)
    qed
    note rest = Cons.IH [OF edits_ready [OF edit Cons.prems(1)] fs Cons.prems(3,4) run this]
    then have "edits n M N" using edit edits_trans by blast
    then show ?thesis using rest False next_L by simp
  qed
qed

definition has_code :: "func \<Rightarrow> bool" where
  "has_code F \<longleftrightarrow> \<not> (fempty F \<or> isIntrinsic F)"

definition count_before :: "('a \<Rightarrow> bool) \<Rightarrow> nat \<Rightarrow> 'a list \<Rightarrow> nat" where
  "count_before P j xs = length (filter P (take j xs))"

lemma with_callstacks_nth:
  "j < length Fs \<Longrightarrow> has_code (Fs ! j) \<Longrightarrow>
   with_callstacks unique k n Fs ! j = prefix_call (n + count_before has_code j Fs)
     (callstack_call unique (k + count_before (\<lambda>F. has_code F \<and> fname F \<in> set unique) j Fs) (fname (Fs ! j))) (Fs ! j)"
  by (induction Fs arbitrary: j k n) (auto simp: count_before_def has_code_def nth_Cons split: nat.splits)

lemma callstack_numbers_map_of:
  "distinct (map fname Fs) \<Longrightarrow> j < length Fs \<Longrightarrow> has_code (Fs ! j) \<Longrightarrow>
   map_of (callstack_numbers n Fs) (fname (Fs ! j)) = Some (n + count_before has_code j Fs)"
proof (induction Fs arbitrary: j n)
  case (Cons F Fs)
  have "fname (Fs ! i) \<noteq> fname F" if "i < length Fs" for i
    using Cons.prems(1) that by (metis distinct.simps(2) length_map list.simps(9) nth_map nth_mem)
  then show ?case using Cons by (cases j) (auto simp: count_before_def has_code_def)
qed simp

lemma count_before_unique:
  assumes "distinct (map fname Fs)" "j < length Fs" "P (Fs ! j)" "\<And>F. P F \<Longrightarrow> fname F \<in> set unique"
  shows "count_before P j Fs < length unique"
proof -
  let ?ns = "map fname (filter P (take (Suc j) Fs))"
  have "distinct ?ns" using assms(1) by (metis distinct_map_filter distinct_take take_map)
  moreover have "set ?ns \<subseteq> set unique" using assms(4) by auto
  ultimately have "length ?ns \<le> length unique" by (metis card_length card_mono distinct_card le_trans List.finite_set)
  then show ?thesis using assms(2,3) by (simp add: count_before_def take_Suc_conv_app_nth)
qed

lemma count_before_less:
  assumes "i < j" "j \<le> length xs" "P (xs ! i)"
  shows "count_before P i xs < count_before P j xs"
proof -
  have "take j xs = take i xs @ xs ! i # drop (Suc i) (take j xs)"
    using id_take_nth_drop [of i "take j xs"] assms(1,2) by (simp add: min_absorb1)
  then have "filter P (take j xs) = filter P (take i xs) @ xs ! i # filter P (drop (Suc i) (take j xs))"
    using assms(3) by (metis filter.simps(2) filter_append)
  then show ?thesis by (simp add: count_before_def)
qed

text \<open>
  C31: every function with code computes its call stack first. The pass puts one call in front of its entry block and
  records it for the function; a function with a unique call stack gets an index below the number of such functions,
  which is the size of the table the runtime allocates, and no two functions get the same index.
\<close>

theorem callstacks_in_front:
  assumes "module_ok M" "callstackInstrumentation unique M = Some (cs, N)" "j < length (m_functions M)"
    and "F = m_functions M ! j" "has_code F"
    and "index = (\<lambda>j. count_before (\<lambda>F. has_code F \<and> fname F \<in> set unique) j (m_functions M))"
    and "n = nextId M + count_before has_code j (m_functions M)"
  shows "m_functions N ! j = prefix_call n (callstack_call unique (index j) (fname F)) F \<and> map_of cs (fname F) = Some n
    \<and> (fname F \<in> set unique \<longrightarrow> index j < length unique
         \<and> (\<forall>i < length (m_functions M). has_code (m_functions M ! i) \<longrightarrow> fname (m_functions M ! i) \<in> set unique \<longrightarrow>
              index i = index j \<longrightarrow> i = j))"
proof -
  let ?Fs = "m_functions M" and ?P = "\<lambda>F. has_code F \<and> fname F \<in> set unique"
  obtain B U k where B: "getRuntimeFunction M MEMORYTOOL_CALLSTACK = Some B" "getRuntimeFunction M MEMORYTOOL_CALLSTACK_UNIQUE = Some U"
    and run: "fold_opt (callstack_step unique B U) ?Fs (0, [], M) = Some (k, cs, N)"
    using assms(2) by (auto simp: callstackInstrumentation_def bind_eq_Some_conv)
  have "ready (nextId M) M" using assms(1) by (auto simp: ready_def module_ok_def)
  from callstack_loop [OF this, of "[]" ?Fs B U unique 0 "[]" k cs N] B run
  have N: "m_functions N = with_callstacks unique 0 (nextId M) ?Fs" "cs = callstack_numbers (nextId M) ?Fs"
    by (simp_all add: getRuntimeFunction_name)
  have names: "distinct (map fname ?Fs)" using assms(1) by (simp add: module_ok_def wf_module_def)
  have "i = j" if "i < length ?Fs" "?P (?Fs ! i)" "?P F" "index i = index j" for i
    using count_before_less [of i j ?Fs ?P] count_before_less [of j i ?Fs ?P] that assms(3,4,6)
    by (metis (no_types, lifting) less_imp_le_nat linorder_neqE_nat less_irrefl)
  moreover have "index j < length unique" if "fname F \<in> set unique"
    unfolding assms(6) by (rule count_before_unique [OF names assms(3)]) (use that assms(4,5) in simp_all)
  ultimately show ?thesis
    using with_callstacks_nth [OF assms(3), of unique 0 "nextId M"] callstack_numbers_map_of [OF names assms(3), of "nextId M"]
      assms(4-7) N by auto
qed

section \<open>Loads and stores are instrumented once\<close>

text \<open>The reference: code in which the instruction numbered \<open>k\<close> is followed by \<open>probe k\<close>.\<close>

definition expand :: "(nat \<Rightarrow> instr list) \<Rightarrow> instr list \<Rightarrow> instr list" where
  "expand probe xs = concat (map (\<lambda>i. i # probe (iid i)) xs)"

definition access_probe :: "(string \<times> nat) list \<Rightarrow> string \<Rightarrow> inst_kind \<Rightarrow> Entry \<Rightarrow> instr list \<Rightarrow> bool" where
  "access_probe cs f k e new \<longleftrightarrow>
     (\<exists>n d g p sizes c. access_call k = Some (g, p, sizes) \<and> map_of cs f = Some c
        \<and> new = [new_inst n (CastInst p) PointerTy d,
                 new_inst (n + 1) (CallInst (FuncV g) ([const64 (e_id e), InstV n] @ sizes e @ [InstV c])) VoidTy d])"

lemma put_after_expand:
  assumes "distinct (map iid xs)" "\<And>i j. j \<in> set (probe i) \<Longrightarrow> iid j \<noteq> k"
  shows "put_after k new (expand probe xs) = expand (probe(k := new @ probe k)) xs"
  using assms(1)
proof (induction xs)
  case (Cons x xs)
  have skip: "put_after k new (ys @ zs) = ys @ put_after k new zs" if "\<forall>j \<in> set ys. iid j \<noteq> k" for ys zs
    using that by (induction ys) auto
  have step: "expand q (x # xs) = x # q (iid x) @ expand q xs" for q by (simp add: expand_def)
  show ?case
  proof (cases "k = iid x")
    case True
    then have "map (\<lambda>i. i # (probe(k := new @ probe k)) (iid i)) xs = map (\<lambda>i. i # probe (iid i)) xs"
      using Cons.prems by (intro map_cong) (auto simp: image_iff)
    then have "expand (probe(k := new @ probe k)) xs = expand probe xs" unfolding expand_def by (rule arg_cong)
    then show ?thesis unfolding step using True by (simp del: fun_upd_apply) simp
  next
    case False
    then show ?thesis using Cons skip [of "probe (iid x)"] assms(2) by (simp add: step)
  qed
qed (simp add: expand_def)

lemma wf_inst_of:
  assumes "wf_module M" "i \<in> set (module_insts M)"
  shows "inst_of M (InstV (iid i)) = Some i"
proof -
  obtain j where j: "List.find (\<lambda>j. iid j = iid i) (module_insts M) = Some j"
    using assms(2) by (cases "List.find (\<lambda>j. iid j = iid i) (module_insts M)") (auto simp: find_None_iff)
  then have "j \<in> set (module_insts M)" "iid j = iid i" by (auto simp: find_Some_iff)
  then show ?thesis using wf_same_inst [OF assms(1) _ assms(2)] j by (simp add: inst_of_def)
qed

lemma expand_functions:
  assumes "m_functions L = m_functions (map_blocks (expand probe) M)" "F \<in> set (m_functions M)" "i \<in> set (func_insts F)"
  obtains G where "G \<in> set (m_functions L)" "i \<in> set (func_insts G)" "fname G = fname F"
proof -
  have "i \<in> set (concat (map (\<lambda>b. expand probe (insts b)) (blocks F)))"
    using assms(3) by (auto simp: func_insts_def expand_def)
  then have "i \<in> set (func_insts (F\<lparr>blocks := map (\<lambda>b. b\<lparr>insts := expand probe (insts b)\<rparr>) (blocks F)\<rparr>))"
    by (simp add: func_insts_def o_def)
  then show ?thesis using that assms(1,2) by (fastforce simp: map_blocks_def)
qed

lemma instrumentAccess_step:
  assumes L: "m_functions L = m_functions (map_blocks (expand probe) M)" "module_ok L"
    and M: "module_ok M" "set runtime_functions \<subseteq> fname ` set (m_functions M)" "F \<in> set (m_functions M)" "i \<in> set (func_insts F)"
    and e: "e_value (heap ! r) = InstV (iid i)" "access_call (kind i) \<noteq> None" "map_of cs (fname F) \<noteq> None" "iid i \<notin> set skip"
    and fresh: "\<forall>k. \<forall>j \<in> set (probe k). iid j \<noteq> iid i" "probe (iid i) = []"
  obtains new N where "instrumentAccess cs heap skip (iid i, r) L = Some N" "N = place_at new (iid i) False L"
    "m_functions N = m_functions (map_blocks (expand (probe(iid i := new))) M)"
    "access_probe cs (fname F) (kind i) (heap ! r) new" "fresh_ids L new" "\<forall>n. ready n L \<longrightarrow> (\<forall>j \<in> set new. instrumentation n j)"
proof -
  obtain G where G: "G \<in> set (m_functions L)" "i \<in> set (func_insts G)" "fname G = fname F"
    using expand_functions [OF L(1) M(3,4)] by blast
  have wf: "wf_module L" using L(2) by (simp add: module_ok_def)
  have i: "inst_of L (InstV (iid i)) = Some i" using wf_inst_of [OF wf] func_insts_module G by blast
  have fn: "function_of L (iid i) = Some G" by (rule wf_function_of [OF wf G(1,2)])
  obtain g p sizes where acc: "access_call (kind i) = Some (g, p, sizes)" using e(2) by auto
  then have "g \<in> fname ` set (m_functions L)" using access_call_runtime M(2) L(1) by (metis (no_types, lifting) map_blocks_simps(2) set_map subsetD)
  then obtain R where R: "getRuntimeFunction L g = Some R" "fname R = g"
    by (metis getRuntimeFunction_def getRuntimeFunction_name getFunctionByName_None not_Some_eq)
  obtain c where c: "map_of cs (fname F) = Some c" using e(3) by auto
  define new where "new = runtime_call L (getDefaultDebugLoc L (InstV (iid i))) [(p, PointerTy)] R
    ([const64 (e_id (heap ! r)), cast_no L 0] @ sizes (heap ! r) @ [InstV c])"
  have probe: "getLoadStoreInstrumentation L (heap ! r) cs = Some new"
    by (simp add: getLoadStoreInstrumentation_def e(1) i acc R(1) callstack_of_def fn G(3) c new_def)
  have access: "access_probe cs (fname F) (kind i) (heap ! r) new"
    unfolding access_probe_def new_def runtime_call_def casts_def cast_no_def using acc c R(2) by (auto simp: enumerate_eq_zip)
  have nt: "place new i L = Some (place_at new (iid i) False L)"
    using acc by (auto simp: place_def place_at_def insertInstructionsWithCheck_def access_call_def split: inst_kind.splits)
  have fr: "fresh_ids L new" by (simp add: new_def)
  have ids: "distinct (map iid new)" "iid ` set new \<inter> iid ` set (module_insts L) = {}"
    using fr fresh_ids_in [OF fr] L(2) by (force simp: fresh_ids_def module_ok_def)+
  have "new \<noteq> []" by (simp add: new_def runtime_call_def)
  then have "m_functions (place_at new (iid i) False L) = m_functions (map_blocks (put_after (iid i) new) (map_blocks (expand probe) M))"
    by (simp add: place_at_def insertInstructions_once [OF ids] map_blocks_def L(1))
  also have "\<dots> = m_functions (map_blocks (expand (probe(iid i := new))) M)"
  proof -
    have "distinct (map iid (insts b))" if "b \<in> set (all_blocks M)" for b
    proof -
      obtain xs ys where "all_blocks M = xs @ b # ys" using \<open>b \<in> set (all_blocks M)\<close> by (meson split_list)
      then show ?thesis using M(1) by (simp add: module_ok_def wf_module_def module_insts_blocks)
    qed
    then have "map_blocks (put_after (iid i) new) (map_blocks (expand probe) M) = map_blocks (expand (probe(iid i := new))) M"
      using put_after_expand [of _ probe "iid i" new] fresh by (intro map_blocks_cong) simp
    then show ?thesis by simp
  qed
  finally have "m_functions (place_at new (iid i) False L) = m_functions (map_blocks (expand (probe(iid i := new))) M)" .
  moreover have "\<forall>n. ready n L \<longrightarrow> (\<forall>j \<in> set new. instrumentation n j)"
    using runtime_call_instrumentation R(2) access_call_runtime [OF acc] unfolding new_def by blast
  moreover have "instrumentAccess cs heap skip (iid i, r) L = Some (place_at new (iid i) False L)"
    using e(4) by (simp add: instrumentAccess_def probe i nt)
  ultimately show ?thesis using that access fr by blast
qed

definition all_probed :: "llvm_module \<Rightarrow> (string \<times> nat) list \<Rightarrow> Entry list \<Rightarrow> nat list \<Rightarrow> (nat \<times> nat) list \<Rightarrow> (nat \<Rightarrow> instr list) \<Rightarrow> bool" where
  "all_probed M cs heap skip m probe \<longleftrightarrow>
     (\<forall>k r F i. (k, r) \<in> set m \<longrightarrow> k \<notin> set skip \<longrightarrow> F \<in> set (m_functions M) \<longrightarrow> i \<in> set (func_insts F) \<longrightarrow> iid i = k \<longrightarrow>
        access_probe cs (fname F) (kind i) (heap ! r) (probe k))"

lemma accesses_loop:
  assumes "module_ok M" "set runtime_functions \<subseteq> fname ` set (m_functions M)" "distinct_keys m"
    and "\<And>k r. (k, r) \<in> set m \<Longrightarrow> \<exists>F i. F \<in> set (m_functions M) \<and> i \<in> set (func_insts F) \<and> iid i = k
      \<and> access_call (kind i) \<noteq> None \<and> e_value (heap ! r) = InstV k \<and> map_of cs (fname F) \<noteq> None"
    and "m_functions L = m_functions (map_blocks (expand probe) M)" "module_ok L" "nextId M \<le> nextId L"
    and "\<And>k j. j \<in> set (probe k) \<Longrightarrow> nextId M \<le> iid j" "\<And>k. k \<in> fst ` set m \<Longrightarrow> probe k = []"
  shows "\<exists>N probe'. fold_opt (instrumentAccess cs heap skip) m L = Some N \<and> m_functions N = m_functions (map_blocks (expand probe') M)
    \<and> (\<forall>k. k \<notin> fst ` set m \<or> k \<in> set skip \<longrightarrow> probe' k = probe k)
    \<and> all_probed M cs heap skip m probe'"
  using assms(3-)
proof (induction m arbitrary: L probe)
  case (Cons kr m)
  obtain k r where kr: "kr = (k, r)" by (cases kr)
  obtain F i where F: "F \<in> set (m_functions M)" "i \<in> set (func_insts F)" "iid i = k" "access_call (kind i) \<noteq> None"
    "e_value (heap ! r) = InstV k" "map_of cs (fname F) \<noteq> None"
    using Cons.prems(2) [of k r] kr by auto
  have new_k: "k \<notin> fst ` set m" and keys: "distinct_keys m" using Cons.prems(1) kr by auto
  have old_i: "iid i < nextId M" using assms(1) F func_insts_module by (auto simp: module_ok_def)
  show ?case
  proof (cases "k \<in> set skip")
    case True
    then have "fold_opt (instrumentAccess cs heap skip) (kr # m) L = fold_opt (instrumentAccess cs heap skip) m L"
      by (simp add: kr instrumentAccess_def)
    moreover have "\<exists>N probe'. fold_opt (instrumentAccess cs heap skip) m L = Some N
        \<and> m_functions N = m_functions (map_blocks (expand probe') M)
        \<and> (\<forall>k. k \<notin> fst ` set m \<or> k \<in> set skip \<longrightarrow> probe' k = probe k) \<and> all_probed M cs heap skip m probe'"
      by (rule Cons.IH [OF keys _ Cons.prems(3-6)]) (use Cons.prems(2,7) in auto)
    ultimately show ?thesis using True kr by (auto simp: all_probed_def)
  next
    case False
    have apart: "\<forall>k. \<forall>j \<in> set (probe k). iid j \<noteq> iid i" using Cons.prems(6) old_i by fastforce
    have none: "probe (iid i) = []" using Cons.prems(7) F(3) kr by simp
    have val: "e_value (heap ! r) = InstV (iid i)" and keep: "iid i \<notin> set skip" using F(3,5) False by simp_all
    obtain new N where N: "instrumentAccess cs heap skip (iid i, r) L = Some N" "N = place_at new (iid i) False L"
      "m_functions N = m_functions (map_blocks (expand (probe(iid i := new))) M)"
      "access_probe cs (fname F) (kind i) (heap ! r) new" "fresh_ids L new" "\<forall>n. ready n L \<longrightarrow> (\<forall>j \<in> set new. instrumentation n j)"
      by (rule instrumentAccess_step [OF Cons.prems(3,4) assms(1,2) F(1,2) val F(4,6) keep apart none])
    have rd: "ready (nextId L) L" using Cons.prems(4) by (auto simp: ready_def module_ok_def)
    have ed: "edits (nextId L) L N" unfolding N(2) using edits_place_at [OF rd N(5)] N(6) rd by blast
    have "\<exists>N' probe'. fold_opt (instrumentAccess cs heap skip) m N = Some N' \<and> m_functions N' = m_functions (map_blocks (expand probe') M)
      \<and> (\<forall>k. k \<notin> fst ` set m \<or> k \<in> set skip \<longrightarrow> probe' k = (probe(iid i := new)) k)
      \<and> all_probed M cs heap skip m probe'"
    proof (rule Cons.IH [OF keys _ N(3)])
      show "module_ok N" "nextId M \<le> nextId N" using ed Cons.prems(5) by (auto simp: edits_def)
      show "nextId M \<le> iid j" if "j \<in> set ((probe(iid i := new)) k')" for k' j
        using that Cons.prems(5,6) fresh_ids_in [OF N(5)] by (fastforce split: if_splits)
      show "(probe(iid i := new)) k' = []" if "k' \<in> fst ` set m" for k'
      proof -
        have "k' \<noteq> iid i" using that new_k F(3) by blast
        then show ?thesis using that Cons.prems(7) by simp
      qed
    qed (use Cons.prems(2) kr in auto)
    then obtain N' probe' where N': "fold_opt (instrumentAccess cs heap skip) m N = Some N'"
      "m_functions N' = m_functions (map_blocks (expand probe') M)"
      "\<forall>k. k \<notin> fst ` set m \<or> k \<in> set skip \<longrightarrow> probe' k = (probe(iid i := new)) k"
      "all_probed M cs heap skip m probe'"
      by blast
    have "probe' k = new" using N'(3) new_k F(3) by simp
    moreover have "F' = F \<and> i' = i" if "F' \<in> set (m_functions M)" "i' \<in> set (func_insts F')" "iid i' = k" for F' i'
      using that F(1-3) wf_same_function [of M F' F i' i] wf_same_inst [of M i' i] func_insts_module assms(1)
      unfolding module_ok_def by metis
    ultimately have "all_probed M cs heap skip (kr # m) probe'"
      using N'(4) N(4) kr by (auto simp: all_probed_def)
    moreover have "\<forall>k'. k' \<notin> fst ` set (kr # m) \<or> k' \<in> set skip \<longrightarrow> probe' k' = probe k'"
      using N'(3) F(3) False kr by auto
    moreover have "fold_opt (instrumentAccess cs heap skip) (kr # m) L = Some N'" using N(1) N'(1) kr F(3) by simp
    ultimately show ?thesis using N'(2) by blast
  qed
qed (auto simp: all_probed_def)

text \<open>
  C26: the accesses left for plain instrumentation are instrumented, each exactly once, and nothing else changes. The pass
  returns; its module is the old one in which each load and store with an entry that is not skipped is followed by a
  cast of its own address and a call of the runtime with its number, for a store its sizes, and the call stack of its
  function, and every other instruction by nothing.
\<close>

theorem accesses_instrumented:
  assumes "module_ok M" "set runtime_functions \<subseteq> fname ` set (m_functions M)" "distinct_keys m"
    and "\<And>k r. (k, r) \<in> set m \<Longrightarrow> \<exists>F i. F \<in> set (m_functions M) \<and> i \<in> set (func_insts F) \<and> iid i = k
      \<and> is_load_store (kind i) \<and> e_value (heap ! r) = InstV k \<and> map_of cs (fname F) \<noteq> None"
  shows "\<exists>N probe. instrumentLoadsStoresRegular cs m heap skip M = Some N
    \<and> m_functions N = m_functions (map_blocks (expand probe) M)
    \<and> (\<forall>k. k \<notin> fst ` set m \<or> k \<in> set skip \<longrightarrow> probe k = []) \<and> all_probed M cs heap skip m probe"
proof -
  have "expand (\<lambda>_. []) = (\<lambda>xs. xs)" by (simp add: expand_def fun_eq_iff)
  then have base: "m_functions M = m_functions (map_blocks (expand (\<lambda>_. [])) M)" by (simp add: map_blocks_def)
  show ?thesis
    using accesses_loop [OF assms(1-3) assms(4) [folded access_call_load_store] base assms(1), of skip] by (simp add: instrumentLoadsStoresRegular_def)
qed

section \<open>The example\<close>

definition declared_sample :: llvm_module where
  "declared_sample = insertRuntimeFunctions touch_module"

lemma declared_sample_ok:
  "module_ok declared_sample" "set runtime_functions \<subseteq> fname ` set (m_functions declared_sample)" "m_functions declared_sample ! 2 = touch_sample"
  "length (m_functions declared_sample) = 20" "nextId declared_sample = 40"
  by code_simp+

lemma declared_sample_callstacks: "callstackInstrumentation [''f''] declared_sample \<noteq> None"
  by code_simp

theorem callstacks_in_front_witness:
  "\<exists>cs N. callstackInstrumentation [''f''] declared_sample = Some (cs, N) \<and> map_of cs ''f'' = Some 40
     \<and> m_functions N ! 2 = prefix_call 40 (CallInst (FuncV MEMORYTOOL_CALLSTACK_UNIQUE) [ConstV 0, ConstV 1]) touch_sample"
proof -
  obtain cs N where run: "callstackInstrumentation [''f''] declared_sample = Some (cs, N)"
    using declared_sample_callstacks by auto
  have code: "has_code touch_sample" "fname touch_sample = ''f''" by code_simp+
  have count: "count_before (\<lambda>F. has_code F \<and> fname F \<in> set [''f'']) 2 (m_functions declared_sample) = 0"
    "count_before has_code 2 (m_functions declared_sample) = 0"
    by code_simp+
  have j: "2 < length (m_functions declared_sample)" by (simp add: declared_sample_ok)
  from callstacks_in_front [OF declared_sample_ok(1) run j declared_sample_ok(3) [symmetric] code(1) refl refl] count code(2)
  show ?thesis using run by (simp add: callstack_call_def declared_sample_ok(5))
qed

definition sample_accesses :: "Entry list" where
  "sample_accesses = map (\<lambda>n. (new_Entry (InstV n) (Some (ArgV ''f'' 0)) None None None 8 [] [] 0 0)\<lparr>e_id := of_nat n\<rparr>) [2, 4, 6, 7]"

theorem accesses_instrumented_witness:
  "\<exists>N probe. instrumentLoadsStoresRegular [(''f'', 40)] [(2, 0), (4, 1), (6, 2), (7, 3)] sample_accesses [6] declared_sample = Some N
     \<and> m_functions N = m_functions (map_blocks (expand probe) declared_sample) \<and> probe 6 = [] \<and> probe 5 = [] \<and> probe 4 \<noteq> []"
proof -
  let ?m = "[(2, 0), (4, 1), (6, 2), (7, 3)]"
  have "m_functions declared_sample ! 2 \<in> set (m_functions declared_sample)" by (rule nth_mem) (simp add: declared_sample_ok(4))
  then have mem: "touch_sample \<in> set (m_functions declared_sample)" by (simp add: declared_sample_ok(3))
  have ex: "\<exists>F i. F \<in> set (m_functions declared_sample) \<and> i \<in> set (func_insts F) \<and> iid i = k \<and> is_load_store (kind i)
      \<and> e_value (sample_accesses ! r) = InstV k \<and> map_of [(''f'', 40 :: nat)] (fname F) \<noteq> None"
    if "(k, r) \<in> set ?m" for k r
  proof -
    have "\<forall>(k, r) \<in> set ?m. \<exists>i \<in> set (func_insts touch_sample). iid i = k \<and> is_load_store (kind i) \<and> e_value (sample_accesses ! r) = InstV k"
      "map_of [(''f'', 40 :: nat)] (fname touch_sample) \<noteq> None"
      by code_simp+
    then show ?thesis using that mem by blast
  qed
  obtain N probe where N: "instrumentLoadsStoresRegular [(''f'', 40)] ?m sample_accesses [6] declared_sample = Some N"
    "m_functions N = m_functions (map_blocks (expand probe) declared_sample)"
    "\<forall>k. k \<notin> fst ` set ?m \<or> k \<in> set [6] \<longrightarrow> probe k = []" "all_probed declared_sample [(''f'', 40)] sample_accesses [6] ?m probe"
    using accesses_instrumented [OF declared_sample_ok(1,2), of ?m sample_accesses "[(''f'', 40)]" "[6]"] ex by auto
  have "access_probe [(''f'', 40)] (fname touch_sample) (StoreInst (InstV 2) (ArgV ''f'' 0)) (sample_accesses ! 1) (probe 4)"
  proof -
    have i: "inst_num 4 (StoreInst (InstV 2) (ArgV ''f'' 0)) \<in> set (func_insts touch_sample)" by code_simp
    show ?thesis using N(4) [unfolded all_probed_def, rule_format, OF _ _ mem i, of 4 1] by (simp add: inst_num_def)
  qed
  then have "probe 4 \<noteq> []" by (auto simp: access_probe_def)
  then show ?thesis using N(1-3) by auto
qed

end
