(* ===== verification/Guards.thy ===== *)
theory Guards
  imports Instrument
begin

text \<open>
  The guarded instrumentation: \<open>OnlyRead.cpp\<close>, \<open>DirectState.cpp\<close>, \<open>Invariant.cpp\<close> and \<open>MostlyInvariant.cpp\<close> split
  the block of an access in front of it and put blocks in between that call the runtime only when a test on global
  variables of their own asks for it. A guard is built as a value: the code at the end of the old block, the blocks in
  between, and the number of the new block that starts with the access. Numbers are given out in the order in which
  the source creates blocks, variables and instructions. What the blocks do when the program runs is in
  \<open>Guard_Runs\<close>.
\<close>

section \<open>Splitting a block\<close>

record guard =
  g_check :: "instr list"
  g_blocks :: "bblock list"
  g_new :: nat
  g_globals :: "llvm_global list"
  g_used :: nat

fun cut_at :: "nat \<Rightarrow> instr list \<Rightarrow> (instr list \<times> instr list) option" where
  "cut_at n [] = None"
| "cut_at n (i # is) = (if iid i = n then Some ([], i # is) else map_option (\<lambda>(pre, post). (i # pre, post)) (cut_at n is))"

text \<open>\<open>splitBasicBlock\<close>: the \<open>phi\<close> nodes of the successors name the new block; the wrapper blocks go in front of it.\<close>

definition rename_phi :: "nat \<Rightarrow> nat \<Rightarrow> instr \<Rightarrow> instr" where
  "rename_phi old new i =
     (case kind i of PHINode vs \<Rightarrow> i\<lparr>kind := PHINode (map (\<lambda>(v, b). (v, if b = old then new else b)) vs)\<rparr> | _ \<Rightarrow> i)"

definition fix_phis :: "nat \<Rightarrow> nat \<Rightarrow> nat list \<Rightarrow> bblock \<Rightarrow> bblock" where
  "fix_phis old new succs b = (if bid b \<in> set succs then b\<lparr>insts := map (rename_phi old new) (insts b)\<rparr> else b)"

definition split_block :: "nat \<Rightarrow> guard \<Rightarrow> bblock \<Rightarrow> bblock list" where
  "split_block n G b =
     (case cut_at n (insts b) of
        None \<Rightarrow> [b]
      | Some (pre, post) \<Rightarrow> [b\<lparr>insts := pre @ g_check G\<rparr>] @ g_blocks G @ [\<lparr>bid = g_new G, insts = post\<rparr>])"

definition split_func :: "nat \<Rightarrow> guard \<Rightarrow> func \<Rightarrow> func" where
  "split_func n G F =
     (case List.find (\<lambda>b. n \<in> iid ` set (insts b)) (blocks F) of
        None \<Rightarrow> F
      | Some b \<Rightarrow>
          F\<lparr>blocks := map (fix_phis (bid b) (g_new G) (successors (kind (last (insts b))))) (concat (map (split_block n G) (blocks F)))\<rparr>)"

definition place_guard :: "nat \<Rightarrow> guard \<Rightarrow> llvm_module \<Rightarrow> llvm_module" where
  "place_guard n G M =
     M\<lparr>m_functions := map (split_func n G) (m_functions M), m_globals := m_globals M @ g_globals G, nextId := nextId M + g_used G\<rparr>"

definition guard_global :: "nat \<Rightarrow> ty \<Rightarrow> llvm_global" where
  "guard_global k t = \<lparr>gname = unnamed k, valueType = t, gdebug = []\<rparr>"

definition code :: "nat \<Rightarrow> inst_kind \<Rightarrow> ty \<Rightarrow> instr" where
  "code n k t = new_inst n k t None"

definition var :: "nat \<Rightarrow> val" where
  "var k = GlobalV (unnamed k)"

abbreviation int1Type :: ty where
  "int1Type \<equiv> IntegerTy 1"

section \<open>OnlyRead.cpp\<close>

text \<open>The call is made when the address differs from the one of the last call.\<close>

definition only_read_guard :: "nat \<Rightarrow> val \<Rightarrow> instr list \<Rightarrow> guard" where
  "only_read_guard b addr probe =
     \<lparr>g_check = [code (b + 3) (LoadInst (var b)) PointerTy, code (b + 4) (ICmpInst ''eq'' addr (InstV (b + 3))) int1Type,
                 code (b + 5) (CondBranchInst (InstV (b + 4)) (b + 1) (b + 2)) VoidTy],
      g_blocks = [\<lparr>bid = b + 2, insts = [code (b + 9) (StoreInst addr (var b)) VoidTy] @ probe @ [code (b + 6) (BranchInst (b + 1)) VoidTy]\<rparr>],
      g_new = b + 1, g_globals = [guard_global b PointerTy], g_used = 10\<rparr>"

definition entry_at :: "(nat \<times> nat) list \<Rightarrow> Entry list \<Rightarrow> nat \<Rightarrow> Entry option" where
  "entry_at instToEntry heap n = map_option (\<lambda>r. heap ! r) (map_of instToEntry n)"

definition pointer_addr :: "(val \<Rightarrow> ty) \<Rightarrow> Entry \<Rightarrow> val option" where
  "pointer_addr typeOf e = Option.bind (allocPointer e) (\<lambda>addr. if typeOf addr = PointerTy then Some addr else None)"

definition instrumentOnlyRead :: "(val \<Rightarrow> ty) \<Rightarrow> (string \<times> nat) list \<Rightarrow> (nat \<times> nat) list \<Rightarrow> Entry list \<Rightarrow> nat \<Rightarrow> llvm_module \<Rightarrow> llvm_module option" where
  "instrumentOnlyRead typeOf funcToCallstack instToEntry heap n M =
     Option.bind (entry_at instToEntry heap n) (\<lambda>e.
     Option.bind (pointer_addr typeOf e) (\<lambda>addr.
     Option.bind (getLoadStoreInstrumentation (used_ids 7 M) e funcToCallstack) (\<lambda>probe.
     Some (place_guard n (only_read_guard (nextId M) addr probe) M))))"

definition instrumentOnlyReads :: "(val \<Rightarrow> ty) \<Rightarrow> (string \<times> nat) list \<Rightarrow> (nat \<times> nat) list \<Rightarrow> Entry list \<Rightarrow> nat list \<Rightarrow> llvm_module \<Rightarrow> llvm_module option" where
  "instrumentOnlyReads typeOf funcToCallstack instToEntry heap instsToInstrument M =
     fold_opt (instrumentOnlyRead typeOf funcToCallstack instToEntry heap) instsToInstrument M"

section \<open>DirectState.cpp\<close>

text \<open>The range of the induction variable is cast when there is one; otherwise 0 and 2 stand for a single element.\<close>

definition range_args :: "llvm_module \<Rightarrow> val option \<Rightarrow> val option \<Rightarrow> (val \<times> ty) list \<times> val list" where
  "range_args M start stop =
     (case start of
        Some s \<Rightarrow> (case stop of
                     Some t \<Rightarrow> ([(s, int64Type), (t, int64Type)], [cast_no M 1, cast_no M 2])
                   | None \<Rightarrow> ([(s, int64Type)], [cast_no M 1, ConstV 2]))
      | None \<Rightarrow> (case stop of
                   Some t \<Rightarrow> ([(t, int64Type)], [ConstV 0, cast_no M 1])
                 | None \<Rightarrow> ([], [ConstV 0, ConstV 2])))"

definition elementBitwidth :: "(val \<Rightarrow> ty) \<Rightarrow> instr \<Rightarrow> nat" where
  "elementBitwidth typeOf i = (case kind i of StoreInst v p \<Rightarrow> getScalarSizeInBits (typeOf v) | _ \<Rightarrow> getScalarSizeInBits (ity i))"

definition createCallToRuntime :: "(val \<Rightarrow> ty) \<Rightarrow> llvm_module \<Rightarrow> DirectStateLoadStore \<Rightarrow> Entry \<Rightarrow> (string \<times> nat) list \<Rightarrow> instr list option" where
  "createCallToRuntime typeOf M elem e funcToCallstack =
     Option.bind (inst_of M (InstV (ds_inst elem))) (\<lambda>i.
     Option.bind (callstack_of M funcToCallstack i) (\<lambda>callstackInst.
     Option.bind (getRuntimeFunction M TEXAS_SET_STATE) (\<lambda>runtimeFunc.
     case range_args M (ds_startIndVar elem) (ds_stopIndVar elem) of
       (rangeCasts, rangeArgs) \<Rightarrow>
         Some (runtime_call M None ((ds_baseAddr elem, PointerTy) # rangeCasts) runtimeFunc
                 ([const64 (e_id e), cast_no M 0] @ rangeArgs
                  @ [ConstV (int (elementBitwidth typeOf i)), ConstV (int (opcode (ds_FSAState elem))), callstackInst])))))"

definition direct_guard :: "nat \<Rightarrow> val \<Rightarrow> instr list \<Rightarrow> guard" where
  "direct_guard b addr call =
     (let k = length call in
      \<lparr>g_check = [code (b + 4) (LoadInst (var b)) PointerTy, code (b + 5) (ICmpInst ''eq'' addr (InstV (b + 4))) int1Type,
                  code (b + 6) (CondBranchInst (InstV (b + 5)) (b + 2) (b + 3)) VoidTy],
       g_blocks = [\<lparr>bid = b + 3, insts = [code (b + 8 + k) (StoreInst addr (var b)) VoidTy] @ call
                                         @ [code (b + 7 + k) (BranchInst (b + 2)) VoidTy]\<rparr>],
       g_new = b + 2, g_globals = [guard_global b PointerTy, guard_global (b + 1) int1Type], g_used = 9 + k\<rparr>)"

definition instrumentDirectStateIorO :: "(val \<Rightarrow> ty) \<Rightarrow> (string \<times> nat) list \<Rightarrow> Entry \<Rightarrow> DirectStateLoadStore \<Rightarrow> llvm_module \<Rightarrow> llvm_module option" where
  "instrumentDirectStateIorO typeOf funcToCallstack e elem M =
     (if typeOf (ds_baseAddr elem) \<noteq> PointerTy then None
      else Option.bind (createCallToRuntime typeOf (used_ids 7 M) elem e funcToCallstack) (\<lambda>call.
           Some (place_guard (ds_inst elem) (direct_guard (nextId M) (ds_baseAddr elem) call) M)))"

text \<open>
  The block \<open>executedWrapperBlock\<close> computes \<open>isExecutedOnce\<close>, but its branch tests the comparison of the addresses, which
  holds whenever the block runs.
\<close>

definition output_guard :: "nat \<Rightarrow> val \<Rightarrow> instr list \<Rightarrow> instr list \<Rightarrow> guard" where
  "output_guard b addr call1 call2 =
     (let k = length call1; l = length call2 in
      \<lparr>g_check = [code (b + 6) (LoadInst (var b)) PointerTy, code (b + 7) (ICmpInst ''eq'' addr (InstV (b + 6))) int1Type,
                  code (b + 8) (CondBranchInst (InstV (b + 7)) (b + 4) (b + 3)) VoidTy],
       g_blocks =
         [\<lparr>bid = b + 3, insts = [code (b + 11 + k) (StoreInst (ConstV 1) (var (b + 1))) VoidTy, code (b + 10 + k) (StoreInst addr (var b)) VoidTy]
                                @ call1 @ [code (b + 9 + k) (BranchInst (b + 2)) VoidTy]\<rparr>,
          \<lparr>bid = b + 4, insts = [code (b + 12 + k) (LoadInst (var (b + 1))) int1Type,
                                 code (b + 13 + k) (ICmpInst ''eq'' (ConstV 1) (InstV (b + 12 + k))) int1Type,
                                 code (b + 14 + k) (CondBranchInst (InstV (b + 7)) (b + 5) (b + 2)) VoidTy]\<rparr>,
          \<lparr>bid = b + 5, insts = [code (b + 16 + k + l) (StoreInst (ConstV 0) (var (b + 1))) VoidTy] @ call2
                                @ [code (b + 15 + k + l) (BranchInst (b + 2)) VoidTy]\<rparr>],
       g_new = b + 2, g_globals = [guard_global b PointerTy, guard_global (b + 1) int1Type], g_used = 17 + k + l\<rparr>)"

definition instrumentDirectStateOorCO :: "(val \<Rightarrow> ty) \<Rightarrow> (string \<times> nat) list \<Rightarrow> Entry \<Rightarrow> DirectStateLoadStore \<Rightarrow> llvm_module \<Rightarrow> llvm_module option" where
  "instrumentDirectStateOorCO typeOf funcToCallstack e elem M =
     (if typeOf (ds_baseAddr elem) \<noteq> PointerTy then None
      else Option.bind (createCallToRuntime typeOf (used_ids 9 M) (elem\<lparr>ds_FSAState := STATE_ADD_OUTPUT\<rparr>) e funcToCallstack) (\<lambda>call1.
           Option.bind (createCallToRuntime typeOf (used_ids (15 + length call1) M) (elem\<lparr>ds_FSAState := STATE_ADD_CO\<rparr>) e funcToCallstack) (\<lambda>call2.
           Some (place_guard (ds_inst elem) (output_guard (nextId M) (ds_baseAddr elem) call1 call2) M))))"

definition instrumentDirectState :: "(val \<Rightarrow> ty) \<Rightarrow> (string \<times> nat) list \<Rightarrow> (nat \<times> nat) list \<Rightarrow> Entry list \<Rightarrow> DirectStateLoadStore \<Rightarrow> llvm_module \<Rightarrow> llvm_module option" where
  "instrumentDirectState typeOf funcToCallstack instToEntry heap elem M =
     Option.bind (entry_at instToEntry heap (ds_inst elem)) (\<lambda>e.
       if ds_FSAState elem = STATE_ADD_INPUT then instrumentDirectStateIorO typeOf funcToCallstack e elem M
       else if ds_FSAState elem = STATE_ADD_OUTPUT \<and> ds_startIndVar elem \<noteq> None then instrumentDirectStateIorO typeOf funcToCallstack e elem M
       else if ds_FSAState elem = STATE_ADD_OUTPUT \<and> ds_startIndVar elem = None then instrumentDirectStateOorCO typeOf funcToCallstack e elem M
       else Some M)"

definition instrumentDirectStateLoadStore :: "(val \<Rightarrow> ty) \<Rightarrow> (string \<times> nat) list \<Rightarrow> (nat \<times> nat) list \<Rightarrow> Entry list \<Rightarrow> DirectStateLoadStore list \<Rightarrow>
    llvm_module \<Rightarrow> llvm_module option" where
  "instrumentDirectStateLoadStore typeOf funcToCallstack instToEntry heap instsToInstrument M =
     fold_opt (instrumentDirectState typeOf funcToCallstack instToEntry heap) instsToInstrument M"

section \<open>Invariant.cpp\<close>

definition invariant_guard :: "nat \<Rightarrow> instr list \<Rightarrow> guard" where
  "invariant_guard b probe =
     \<lparr>g_check = [code (b + 3) (LoadInst (var b)) int64Type, code (b + 4) (ICmpInst ''ult'' (InstV (b + 3)) (ConstV 2)) int1Type,
                 code (b + 5) (CondBranchInst (InstV (b + 4)) (b + 2) (b + 1)) VoidTy],
      g_blocks = [\<lparr>bid = b + 2, insts = [code (b + 7) (BinaryOperator ''add'' (InstV (b + 3)) (ConstV 1)) int64Type,
                                        code (b + 8) (StoreInst (InstV (b + 7)) (var b)) VoidTy]
                                       @ probe @ [code (b + 6) (BranchInst (b + 1)) VoidTy]\<rparr>],
      g_new = b + 1, g_globals = [guard_global b int64Type], g_used = 11\<rparr>"

definition instrumentLoopInvariant :: "(string \<times> nat) list \<Rightarrow> (nat \<times> nat) list \<Rightarrow> Entry list \<Rightarrow> nat \<Rightarrow> llvm_module \<Rightarrow> llvm_module option" where
  "instrumentLoopInvariant funcToCallstack instToEntry heap n M =
     Option.bind (entry_at instToEntry heap n) (\<lambda>e.
     Option.bind (getLoadStoreInstrumentation (used_ids 9 M) e funcToCallstack) (\<lambda>probe.
     Some (place_guard n (invariant_guard (nextId M) probe) M)))"

definition instrumentLoopInvariants :: "(string \<times> nat) list \<Rightarrow> (nat \<times> nat) list \<Rightarrow> Entry list \<Rightarrow> nat list \<Rightarrow> llvm_module \<Rightarrow> llvm_module option" where
  "instrumentLoopInvariants funcToCallstack instToEntry heap instsToInstrument M =
     fold_opt (instrumentLoopInvariant funcToCallstack instToEntry heap) instsToInstrument M"

section \<open>MostlyInvariant.cpp\<close>

text \<open>The new address is stored at the start of the wrapper block, not in the block that resets the counter.\<close>

definition mostly_guard :: "nat \<Rightarrow> val \<Rightarrow> instr list \<Rightarrow> guard" where
  "mostly_guard b addr probe =
     \<lparr>g_check = [code (b + 6) (LoadInst (var b)) PointerTy, code (b + 7) (ICmpInst ''eq'' addr (InstV (b + 6))) int1Type,
                 code (b + 8) (CondBranchInst (InstV (b + 7)) (b + 4) (b + 5)) VoidTy],
      g_blocks =
        [\<lparr>bid = b + 3, insts = [code (b + 10) (StoreInst addr (var b)) VoidTy, code (b + 15) (LoadInst (var (b + 1))) int64Type,
                                code (b + 16) (BinaryOperator ''add'' (InstV (b + 15)) (ConstV 1)) int64Type,
                                code (b + 17) (StoreInst (InstV (b + 16)) (var (b + 1))) VoidTy]
                               @ probe @ [code (b + 20) (BranchInst (b + 2)) VoidTy]\<rparr>,
         \<lparr>bid = b + 4, insts = [code (b + 12) (LoadInst (var (b + 1))) int64Type, code (b + 13) (ICmpInst ''ult'' (InstV (b + 12)) (ConstV 2)) int1Type,
                                code (b + 14) (CondBranchInst (InstV (b + 13)) (b + 3) (b + 2)) VoidTy]\<rparr>,
         \<lparr>bid = b + 5, insts = [code (b + 9) (StoreInst (ConstV 0) (var (b + 1))) VoidTy, code (b + 11) (BranchInst (b + 3)) VoidTy]\<rparr>],
      g_new = b + 2, g_globals = [guard_global b PointerTy, guard_global (b + 1) int64Type], g_used = 21\<rparr>"

definition instrumentLoopMostlyInvariant :: "(val \<Rightarrow> ty) \<Rightarrow> (string \<times> nat) list \<Rightarrow> (nat \<times> nat) list \<Rightarrow> Entry list \<Rightarrow> nat \<Rightarrow> llvm_module \<Rightarrow> llvm_module option" where
  "instrumentLoopMostlyInvariant typeOf funcToCallstack instToEntry heap n M =
     Option.bind (entry_at instToEntry heap n) (\<lambda>e.
     Option.bind (pointer_addr typeOf e) (\<lambda>addr.
     Option.bind (getLoadStoreInstrumentation (used_ids 18 M) e funcToCallstack) (\<lambda>probe.
     Some (place_guard n (mostly_guard (nextId M) addr probe) M))))"

definition instrumentLoopMostlyInvariants :: "(val \<Rightarrow> ty) \<Rightarrow> (string \<times> nat) list \<Rightarrow> (nat \<times> nat) list \<Rightarrow> Entry list \<Rightarrow> nat list \<Rightarrow> llvm_module \<Rightarrow> llvm_module option" where
  "instrumentLoopMostlyInvariants typeOf funcToCallstack instToEntry heap instsToInstrument M =
     fold_opt (instrumentLoopMostlyInvariant typeOf funcToCallstack instToEntry heap) instsToInstrument M"

definition instrumentLoadsStores :: "(val \<Rightarrow> ty) \<Rightarrow> (string \<times> nat) list \<Rightarrow> (nat \<times> nat) list \<Rightarrow> Entry list \<Rightarrow> nat list \<Rightarrow> llvm_module \<Rightarrow> llvm_module option" where
  "instrumentLoadsStores typeOf funcToCallstack instToEntry heap alreadyInstrumented M =
     instrumentLoopMostlyInvariants typeOf funcToCallstack instToEntry heap (getLeftoverLoadStore instToEntry alreadyInstrumented) M"

section \<open>A guard only adds instrumentation\<close>

definition guard_insts :: "guard \<Rightarrow> instr list" where
  "guard_insts G = g_check G @ concat (map insts (g_blocks G))"

definition guard_bids :: "guard \<Rightarrow> nat list" where
  "guard_bids G = map bid (g_blocks G) @ [g_new G]"

definition guard_ok :: "nat \<Rightarrow> nat \<Rightarrow> guard \<Rightarrow> bool" where
  "guard_ok n b G \<longleftrightarrow> distinct (map iid (guard_insts G)) \<and> distinct (guard_bids G)
     \<and> (\<forall>i \<in> set (guard_insts G). b \<le> iid i \<and> iid i < b + g_used G \<and> instrumentation n i)
     \<and> (\<forall>c \<in> set (guard_bids G). b \<le> c \<and> c < b + g_used G)"

lemma cut_at_None: "cut_at n xs = None \<longleftrightarrow> n \<notin> iid ` set xs"
  by (induction xs) auto

lemma cut_at_Some: "cut_at n xs = Some (pre, post) \<Longrightarrow> xs = pre @ post \<and> post \<noteq> []"
  by (induction xs arbitrary: pre) (auto split: if_splits)

lemma rename_phi_simps [simp]:
  "iid (rename_phi o' w i) = iid i" "without_phi_blocks (rename_phi o' w i) = without_phi_blocks i"
  "isTerminator (kind (rename_phi o' w i)) = isTerminator (kind i)"
  by (simp_all add: rename_phi_def without_phi_blocks_def o_def split_def split: inst_kind.split)

lemma rename_phi_instrumentation: "instrumentation n (rename_phi o' w i) = instrumentation n i"
  by (auto simp: rename_phi_def instrumentation_def split: inst_kind.split)

lemma fix_phis_simps [simp]:
  "bid (fix_phis o' w ss b) = bid b" "map iid (insts (fix_phis o' w ss b)) = map iid (insts b)"
  by (simp_all add: fix_phis_def)

lemma fix_phis_insts:
  "map iid (concat (map (insts \<circ> fix_phis o' w ss) bs)) = map iid (concat (map insts bs))"
  "map without_phi_blocks (filter (\<lambda>i. iid i < n) (concat (map (insts \<circ> fix_phis o' w ss) bs)))
     = map without_phi_blocks (filter (\<lambda>i. iid i < n) (concat (map insts bs)))"
proof -
  have f: "filter (\<lambda>i. iid i < n) (map (rename_phi o' w) xs) = map (rename_phi o' w) (filter (\<lambda>i. iid i < n) xs)" for xs
    by (induction xs) auto
  show "map iid (concat (map (insts \<circ> fix_phis o' w ss) bs)) = map iid (concat (map insts bs))"
    by (induction bs) simp_all
  show "map without_phi_blocks (filter (\<lambda>i. iid i < n) (concat (map (insts \<circ> fix_phis o' w ss) bs)))
     = map without_phi_blocks (filter (\<lambda>i. iid i < n) (concat (map insts bs)))"
    by (induction bs) (simp_all add: fix_phis_def f)
qed

text \<open>The function that holds the access, cut at the access.\<close>

lemma split_func_cases:
  assumes "distinct (map iid (func_insts F))"
  obtains "n \<notin> iid ` set (func_insts F)" "split_func n G F = F"
  | xs b ys pre post ss where "n \<in> iid ` set (func_insts F)" "blocks F = xs @ b # ys" "insts b = pre @ post"
      "split_func n G F = F\<lparr>blocks := map (fix_phis (bid b) (g_new G) ss)
         (xs @ [b\<lparr>insts := pre @ g_check G\<rparr>] @ g_blocks G @ [\<lparr>bid = g_new G, insts = post\<rparr>] @ ys)\<rparr>"
proof (cases "n \<in> iid ` set (func_insts F)")
  case False
  then have "List.find (\<lambda>b. n \<in> iid ` set (insts b)) (blocks F) = None" by (auto simp: find_None_iff func_insts_def)
  then show ?thesis using that(1) False by (simp add: split_func_def)
next
  case True
  then obtain c where c: "c \<in> set (blocks F)" "n \<in> iid ` set (insts c)" by (auto simp: func_insts_def)
  then obtain b where b: "List.find (\<lambda>b. n \<in> iid ` set (insts b)) (blocks F) = Some b"
    by (cases "List.find (\<lambda>b. n \<in> iid ` set (insts b)) (blocks F)") (auto simp: find_None_iff)
  then have nb: "n \<in> iid ` set (insts b)" "b \<in> set (blocks F)" by (auto simp: find_Some_iff)
  then obtain pre post where cut: "cut_at n (insts b) = Some (pre, post)" using cut_at_None [of n "insts b"] by auto
  obtain xs ys where bs: "blocks F = xs @ b # ys" using nb(2) by (meson split_list)
  have keep: "concat (map (split_block n G) cs) = cs" if "n \<notin> iid ` set (concat (map insts cs))" for cs
    using that
  proof (induction cs)
    case (Cons d cs)
    then have "n \<notin> iid ` set (insts d)" by auto
    then have "cut_at n (insts d) = None" by (simp add: cut_at_None)
    then show ?case using Cons by (auto simp: split_block_def)
  qed simp
  have "n \<notin> iid ` set (concat (map insts xs))" "n \<notin> iid ` set (concat (map insts ys))"
  proof -
    have "distinct (map iid (concat (map insts xs)) @ map iid (insts b) @ map iid (concat (map insts ys)))"
      using assms bs by (simp add: func_insts_def)
    then have "set (map iid (concat (map insts xs))) \<inter> set (map iid (insts b)) = {}"
      "set (map iid (insts b)) \<inter> set (map iid (concat (map insts ys))) = {}"
      by (simp_all only: distinct_append set_append) blast+
    then show "n \<notin> iid ` set (concat (map insts xs))" "n \<notin> iid ` set (concat (map insts ys))"
      using nb(1) by (simp_all only: set_map) blast+
  qed
  then have "concat (map (split_block n G) (blocks F)) = xs @ [b\<lparr>insts := pre @ g_check G\<rparr>] @ g_blocks G @ [\<lparr>bid = g_new G, insts = post\<rparr>] @ ys"
    using keep by (simp add: bs split_block_def cut)
  then show ?thesis using that(2) [OF True bs] cut_at_Some [OF cut] b by (simp add: split_func_def)
qed

lemma split_func_insts:
  assumes "blocks F = xs @ b # ys" "insts b = pre @ post"
    "split_func n G F = F\<lparr>blocks := map (fix_phis (bid b) (g_new G) ss)
       (xs @ [b\<lparr>insts := pre @ g_check G\<rparr>] @ g_blocks G @ [\<lparr>bid = g_new G, insts = post\<rparr>] @ ys)\<rparr>"
  shows "func_insts F = concat (map insts xs) @ pre @ post @ concat (map insts ys)"
    and "func_insts (split_func n G F) = concat (map (insts \<circ> fix_phis (bid b) (g_new G) ss)
      (xs @ [b\<lparr>insts := pre @ g_check G\<rparr>] @ g_blocks G @ [\<lparr>bid = g_new G, insts = post\<rparr>] @ ys))"
    and "concat (map insts (xs @ [b\<lparr>insts := pre @ g_check G\<rparr>] @ g_blocks G @ [\<lparr>bid = g_new G, insts = post\<rparr>] @ ys))
      = concat (map insts xs) @ pre @ guard_insts G @ post @ concat (map insts ys)"
  by (simp_all add: func_insts_def assms guard_insts_def)

lemma split_func_name:
  assumes ids: "distinct (map iid (func_insts F))"
  shows "fname (split_func n G F) = fname F \<and> fempty (split_func n G F) = fempty F"
  by (cases rule: split_func_cases [OF ids, of n G]) (simp_all add: fempty_def)

lemma split_func_ids:
  assumes ids: "distinct (map iid (func_insts F))"
  shows "mset (map iid (func_insts (split_func n G F))) =
     mset (map iid (func_insts F)) + (if n \<in> iid ` set (func_insts F) then mset (map iid (guard_insts G)) else {#})"
proof (cases rule: split_func_cases [OF ids, of n G])
  case (2 xs b ys pre post ss)
  note parts = split_func_insts [OF 2(2-4)]
  show ?thesis unfolding parts(2) fix_phis_insts(1) parts(3) using 2(1) by (simp add: parts(1))
qed simp

lemma split_func_bids:
  assumes ids: "distinct (map iid (func_insts F))"
  shows "mset (map bid (blocks (split_func n G F))) =
     mset (map bid (blocks F)) + (if n \<in> iid ` set (func_insts F) then mset (guard_bids G) else {#})"
  by (cases rule: split_func_cases [OF ids, of n G]) (simp_all add: guard_bids_def o_def)

lemma split_func_old:
  assumes ids: "distinct (map iid (func_insts F))" and "guard_ok n0 b0 G" "n0 \<le> b0"
  shows "old_code n0 (split_func n G F) = old_code n0 F"
proof (cases rule: split_func_cases [OF ids, of n G])
  case (2 xs b ys pre post ss)
  note parts = split_func_insts [OF 2(2-4)]
  have "filter (\<lambda>i. iid i < n0) (guard_insts G) = []"
    using assms by (auto simp: guard_ok_def filter_empty_conv)
  then show ?thesis unfolding old_code_def parts(2) fix_phis_insts(2) parts(3) using split_func_name [OF ids] by (simp add: parts(1))
qed simp

lemma split_func_members:
  assumes ids: "distinct (map iid (func_insts F))" and "guard_ok n0 b0 G" "i \<in> set (func_insts (split_func n G F))"
  shows "instrumentation n0 i \<or> (\<exists>j \<in> set (func_insts F). iid j = iid i \<and> instrumentation n0 j = instrumentation n0 i)"
proof (cases rule: split_func_cases [OF ids, of n G])
  case (2 xs b ys pre post ss)
  note parts = split_func_insts [OF 2(2-4)]
  have "\<exists>j \<in> set (concat (map insts bs)). iid j = iid i \<and> instrumentation n0 j = instrumentation n0 i"
    if "i \<in> set (concat (map (insts \<circ> fix_phis (bid b) (g_new G) ss) bs))" for bs
    using that by (induction bs) (auto simp: fix_phis_def rename_phi_instrumentation split: if_splits)
  then obtain j where j: "j \<in> set (concat (map insts xs) @ pre @ guard_insts G @ post @ concat (map insts ys))"
    "iid j = iid i" "instrumentation n0 j = instrumentation n0 i"
    using assms(3) unfolding parts(2) using parts(3) by metis
  then show ?thesis using assms(2) unfolding guard_ok_def parts(1) by auto
qed (use assms(3) in auto)

text \<open>A change of at most one element of a list adds at most once to what the list holds.\<close>

lemma mset_concat_split:
  assumes "distinct (map iid (concat (map func_insts Fs)))"
    and "\<And>F. F \<in> set Fs \<Longrightarrow> mset (h (split_func n G F)) = mset (h F) + (if n \<in> iid ` set (func_insts F) then A else {#})"
  shows "mset (concat (map h (map (split_func n G) Fs))) =
    mset (concat (map h Fs)) + (if n \<in> iid ` set (concat (map func_insts Fs)) then A else {#})"
  using assms
proof (induction Fs)
  case (Cons F Fs)
  have "distinct (map iid (func_insts F) @ map iid (concat (map func_insts Fs)))" using Cons.prems(1) by simp
  then have "set (map iid (func_insts F)) \<inter> set (map iid (concat (map func_insts Fs))) = {}" by (simp only: distinct_append)
  then have "\<not> (n \<in> iid ` set (func_insts F) \<and> n \<in> iid ` set (concat (map func_insts Fs)))" by (simp only: set_map) blast
  moreover have "iid ` set (concat (map func_insts (F # Fs))) = iid ` set (func_insts F) \<union> iid ` set (concat (map func_insts Fs))"
    by (simp add: image_Un)
  ultimately show ?case using Cons by (auto simp: ac_simps)
qed simp

lemma distinct_added:
  assumes "mset xs = mset ys + (if c then mset zs else {#})" "distinct (ys @ zs)"
  shows "distinct xs" "set xs \<subseteq> set ys \<union> set zs"
proof -
  have eq: "mset xs = mset (if c then ys @ zs else ys)" using assms(1) by simp
  show "distinct xs" using assms(2) mset_eq_imp_distinct_iff [OF eq] by (cases c) simp_all
  show "set xs \<subseteq> set ys \<union> set zs" using mset_eq_setD [OF eq] by (cases c) simp_all
qed

lemma func_ids:
  assumes "module_ok M" "F \<in> set (m_functions M)"
  shows "distinct (map iid (func_insts F))"
proof -
  obtain xs ys where "m_functions M = xs @ F # ys" using assms(2) by (meson split_list)
  then show ?thesis using assms(1) by (simp add: module_ok_def wf_module_def module_insts_def)
qed

lemma place_guard_ids:
  assumes "module_ok M"
  shows "mset (map iid (module_insts (place_guard k G M))) =
      mset (map iid (module_insts M)) + (if k \<in> iid ` set (module_insts M) then mset (map iid (guard_insts G)) else {#})"
    and "mset (map bid (all_blocks (place_guard k G M))) =
      mset (map bid (all_blocks M)) + (if k \<in> iid ` set (module_insts M) then mset (guard_bids G) else {#})"
proof -
  have all: "distinct (map iid (concat (map func_insts (m_functions M))))"
    using assms by (simp add: module_ok_def wf_module_def module_insts_def)
  show "mset (map iid (module_insts (place_guard k G M))) =
      mset (map iid (module_insts M)) + (if k \<in> iid ` set (module_insts M) then mset (map iid (guard_insts G)) else {#})"
    using mset_concat_split [OF all, of "map iid \<circ> func_insts" k G "mset (map iid (guard_insts G))"] split_func_ids [OF func_ids [OF assms]]
    by (simp add: module_insts_def place_guard_def map_concat o_def del: mset_map)
  show "mset (map bid (all_blocks (place_guard k G M))) =
      mset (map bid (all_blocks M)) + (if k \<in> iid ` set (module_insts M) then mset (guard_bids G) else {#})"
    using mset_concat_split [OF all, of "map bid \<circ> blocks" k G "mset (guard_bids G)"] split_func_bids [OF func_ids [OF assms]]
    by (simp add: all_blocks_def module_insts_def place_guard_def map_concat o_def del: mset_map)
qed

lemma module_ok_place_guard:
  assumes ok: "module_ok M" and G: "guard_ok n (nextId M) G"
  shows "module_ok (place_guard k G M)"
proof -
  let ?N = "place_guard k G M"
  have fresh: "distinct (map iid (module_insts M) @ map iid (guard_insts G))" "distinct (map bid (all_blocks M) @ guard_bids G)"
    using ok G unfolding module_ok_def wf_module_def guard_ok_def by fastforce+
  note i = distinct_added [OF place_guard_ids(1) [OF ok, of k G] fresh(1)]
  note b = distinct_added [OF place_guard_ids(2) [OF ok, of k G] fresh(2)]
  have li: "iid i < nextId ?N" if "i \<in> set (module_insts ?N)" for i
  proof -
    have "iid i \<in> iid ` set (module_insts M) \<union> iid ` set (guard_insts G)" using i(2) that by (simp only: set_map) blast
    then show ?thesis using ok G by (fastforce simp: module_ok_def guard_ok_def place_guard_def)
  qed
  have lb: "bid b < nextId ?N" if "b \<in> set (all_blocks ?N)" for b
  proof -
    have "bid b \<in> bid ` set (all_blocks M) \<union> set (guard_bids G)" using b(2) that by (simp only: set_map) blast
    then show ?thesis using ok G by (fastforce simp: module_ok_def guard_ok_def place_guard_def)
  qed
  have "map fname (m_functions ?N) = map fname (m_functions M)"
    using split_func_name [OF func_ids [OF ok]] by (simp add: place_guard_def)
  then show ?thesis using i(1) b(1) li lb ok by (auto simp: module_ok_def wf_module_def)
qed

lemma edits_place_guard:
  assumes M: "ready n M" and G: "guard_ok n (nextId M) G"
  shows "edits n M (place_guard k G M)"
proof -
  let ?N = "place_guard k G M"
  have ok: "module_ok M" and n: "n \<le> nextId M" and old: "\<forall>i \<in> set (module_insts M). iid i < n \<or> instrumentation n i"
    using M by (auto simp: ready_def)
  note ids = func_ids [OF ok]
  have "filter (\<lambda>F. \<not> fempty F) (map (split_func k G) Fs) = map (split_func k G) (filter (\<lambda>F. \<not> fempty F) Fs)"
    if "set Fs \<subseteq> set (m_functions M)" for Fs
    using that split_func_name [OF ids] by (induction Fs) auto
  then have "program_code n ?N = program_code n M"
    using split_func_old [OF ids G n] by (simp add: program_code_def place_guard_def)
  moreover have "iid i < n \<or> instrumentation n i" if i: "i \<in> set (module_insts ?N)" for i
  proof -
    obtain F where F: "F \<in> set (m_functions M)" "i \<in> set (func_insts (split_func k G F))"
      using i by (auto simp: module_insts_def place_guard_def)
    show ?thesis using split_func_members [OF ids [OF F(1)] G F(2)] old func_insts_module [OF F(1)] by metis
  qed
  ultimately show ?thesis using module_ok_place_guard [OF ok G] by (simp add: edits_def place_guard_def)
qed

text \<open>Code inside a guard: calls with the numbers from \<open>m\<close> on, and the code around them.\<close>

definition inner_code :: "nat \<Rightarrow> nat \<Rightarrow> instr list \<Rightarrow> bool" where
  "inner_code n m call \<longleftrightarrow> map iid call = [m ..< m + length call] \<and> (\<forall>i \<in> set call. instrumentation n i)"

lemma inner_code_in: "inner_code n m call \<Longrightarrow> i \<in> set call \<Longrightarrow> m \<le> iid i \<and> iid i < m + length call \<and> instrumentation n i"
proof -
  assume c: "inner_code n m call" "i \<in> set call"
  then have "iid i \<in> set [m ..< m + length call]" unfolding inner_code_def by (metis image_eqI set_map)
  then show ?thesis using c by (simp add: inner_code_def)
qed

lemma inner_code_ids: "inner_code n m call \<Longrightarrow> distinct (map iid call)" "inner_code n m call \<Longrightarrow> iid ` set call = {m ..< m + length call}"
proof -
  assume c: "inner_code n m call"
  show "distinct (map iid call)" using c by (simp add: inner_code_def)
  have "set (map iid call) = set [m ..< m + length call]" using c unfolding inner_code_def by (rule arg_cong [OF conjunct1])
  then show "iid ` set call = {m ..< m + length call}" by simp
qed

lemma is_unnamed_unnamed [simp]: "is_unnamed n (unnamed k) \<longleftrightarrow> n \<le> k"
  by (simp add: is_unnamed_def unnamed_def)

lemma code_simps [simp]:
  "iid (code m k t) = m" "kind (code m k t) = k"
  "instrumentation n (code m (LoadInst (var g)) t) \<longleftrightarrow> n \<le> m \<and> n \<le> g"
  "instrumentation n (code m (StoreInst v (var g)) t) \<longleftrightarrow> n \<le> m \<and> n \<le> g"
  "instrumentation n (code m (ICmpInst p x y) t) \<longleftrightarrow> n \<le> m" "instrumentation n (code m (BinaryOperator p x y) t) \<longleftrightarrow> n \<le> m"
  "instrumentation n (code m (BranchInst c) t) \<longleftrightarrow> n \<le> m" "instrumentation n (code m (CondBranchInst x c d) t) \<longleftrightarrow> n \<le> m"
  by (simp_all add: code_def new_inst_def instrumentation_def var_def)

lemma inner_code_facts:
  assumes "inner_code n m call"
  shows "distinct (map iid call)" "\<forall>i \<in> set call. m \<le> iid i \<and> iid i < m + length call \<and> instrumentation n i"
    and "k < m \<or> m + length call \<le> k \<Longrightarrow> k \<notin> iid ` set call"
  using inner_code_ids [OF assms] inner_code_in [OF assms] by auto

lemmas guard_shape = guard_ok_def guard_insts_def guard_bids_def

lemma guard_ok_only_read:
  assumes "n \<le> b" "inner_code n (b + 7) probe" "length probe = 2"
  shows "guard_ok n b (only_read_guard b addr probe)"
  using assms(1,3) inner_code_facts [OF assms(2)] by (fastforce simp: guard_shape only_read_guard_def)

lemma guard_ok_direct:
  assumes "n \<le> b" "inner_code n (b + 7) call"
  shows "guard_ok n b (direct_guard b addr call)"
  using assms(1) inner_code_facts [OF assms(2)] by (fastforce simp: guard_shape direct_guard_def Let_def)

lemma guard_ok_invariant:
  assumes "n \<le> b" "inner_code n (b + 9) probe" "length probe = 2"
  shows "guard_ok n b (invariant_guard b probe)"
  using assms(1,3) inner_code_facts [OF assms(2)] by (fastforce simp: guard_shape invariant_guard_def)

lemma guard_ok_mostly:
  assumes "n \<le> b" "inner_code n (b + 18) probe" "length probe = 2"
  shows "guard_ok n b (mostly_guard b addr probe)"
  using assms(1,3) inner_code_facts [OF assms(2)] by (fastforce simp: guard_shape mostly_guard_def)

lemma guard_ok_output:
  assumes "n \<le> b" "inner_code n (b + 9) call1" "inner_code n (b + 15 + length call1) call2"
  shows "guard_ok n b (output_guard b addr call1 call2)"
  using assms(1) inner_code_facts [OF assms(2)] inner_code_facts [OF assms(3)]
  by (fastforce simp: guard_shape output_guard_def Let_def)

lemma ready_used_ids: "ready n M \<Longrightarrow> ready n (used_ids k M)"
  by (auto simp: ready_def module_ok_def wf_module_def)

lemma runtime_call_inner:
  assumes "ready n M" "fname F \<in> set runtime_functions"
  shows "inner_code n (nextId M + k) (runtime_call (used_ids k M) d vs F args)"
  using runtime_call_fresh [of "used_ids k M" d vs F args] runtime_call_instrumentation [OF ready_used_ids [OF assms(1)] assms(2)]
  by (simp add: inner_code_def fresh_ids_def)

lemma probe_inner:
  assumes "getLoadStoreInstrumentation (used_ids k M) e cs = Some probe" "ready n M"
  shows "inner_code n (nextId M + k) probe" "length probe = 2"
proof -
  obtain d p F args where p: "probe = runtime_call (used_ids k M) d [(p, PointerTy)] F args" "fname F \<in> set runtime_functions"
    by (rule getLoadStoreInstrumentation_cases [OF assms(1)])
  show "inner_code n (nextId M + k) probe" unfolding p(1) by (rule runtime_call_inner [OF assms(2) p(2)])
  show "length probe = 2" by (simp add: p(1) runtime_call_def casts_def)
qed

lemma call_inner:
  assumes "createCallToRuntime typeOf (used_ids k M) elem e cs = Some call" "ready n M"
  shows "inner_code n (nextId M + k) call"
proof -
  obtain vs F args where c: "getRuntimeFunction (used_ids k M) TEXAS_SET_STATE = Some F" "call = runtime_call (used_ids k M) None vs F args"
    using assms(1) by (cases "range_args (used_ids k M) (ds_startIndVar elem) (ds_stopIndVar elem)")
      (auto simp: createCallToRuntime_def bind_eq_Some_conv)
  show ?thesis unfolding c(2) by (rule runtime_call_inner [OF assms(2)]) (simp add: getRuntimeFunction_name [OF c(1)])
qed

lemma adds_only_reads: "adds n (instrumentOnlyReads typeOf cs m heap is)"
proof -
  have "adds n (instrumentOnlyRead typeOf cs m heap i)" for i
    unfolding adds_def
  proof (intro allI impI)
    fix M N assume M: "ready n M" and N: "instrumentOnlyRead typeOf cs m heap i M = Some N"
    obtain e addr probe where p: "getLoadStoreInstrumentation (used_ids 7 M) e cs = Some probe"
      "N = place_guard i (only_read_guard (nextId M) addr probe) M"
      using N by (auto simp: instrumentOnlyRead_def bind_eq_Some_conv)
    show "edits n M N" unfolding p(2)
      by (rule edits_place_guard [OF M guard_ok_only_read]) (use M probe_inner [OF p(1) M] in \<open>simp_all add: ready_def\<close>)
  qed
  then show ?thesis unfolding instrumentOnlyReads_def [abs_def] by (intro adds_fold_opt)
qed

lemma adds_invariants: "adds n (instrumentLoopInvariants cs m heap is)"
proof -
  have "adds n (instrumentLoopInvariant cs m heap i)" for i
    unfolding adds_def
  proof (intro allI impI)
    fix M N assume M: "ready n M" and N: "instrumentLoopInvariant cs m heap i M = Some N"
    obtain e probe where p: "getLoadStoreInstrumentation (used_ids 9 M) e cs = Some probe"
      "N = place_guard i (invariant_guard (nextId M) probe) M"
      using N by (auto simp: instrumentLoopInvariant_def bind_eq_Some_conv)
    show "edits n M N" unfolding p(2)
      by (rule edits_place_guard [OF M guard_ok_invariant]) (use M probe_inner [OF p(1) M] in \<open>simp_all add: ready_def\<close>)
  qed
  then show ?thesis unfolding instrumentLoopInvariants_def [abs_def] by (intro adds_fold_opt)
qed

lemma adds_mostly_invariants: "adds n (instrumentLoopMostlyInvariants typeOf cs m heap is)"
proof -
  have "adds n (instrumentLoopMostlyInvariant typeOf cs m heap i)" for i
    unfolding adds_def
  proof (intro allI impI)
    fix M N assume M: "ready n M" and N: "instrumentLoopMostlyInvariant typeOf cs m heap i M = Some N"
    obtain e addr probe where p: "getLoadStoreInstrumentation (used_ids 18 M) e cs = Some probe"
      "N = place_guard i (mostly_guard (nextId M) addr probe) M"
      using N by (auto simp: instrumentLoopMostlyInvariant_def bind_eq_Some_conv)
    show "edits n M N" unfolding p(2)
      by (rule edits_place_guard [OF M guard_ok_mostly]) (use M probe_inner [OF p(1) M] in \<open>simp_all add: ready_def\<close>)
  qed
  then show ?thesis unfolding instrumentLoopMostlyInvariants_def [abs_def] by (intro adds_fold_opt)
qed

lemma adds_direct_state: "adds n (instrumentDirectStateLoadStore typeOf cs m heap ds)"
proof -
  have inp: "edits n M N" if M: "ready n M" and N: "instrumentDirectStateIorO typeOf cs e d M = Some N" for e d M N
  proof -
    obtain call where c: "createCallToRuntime typeOf (used_ids 7 M) d e cs = Some call"
      "N = place_guard (ds_inst d) (direct_guard (nextId M) (ds_baseAddr d) call) M"
      using N by (auto simp: instrumentDirectStateIorO_def bind_eq_Some_conv split: if_splits)
    show ?thesis unfolding c(2)
      by (rule edits_place_guard [OF M guard_ok_direct]) (use M call_inner [OF c(1) M] in \<open>simp_all add: ready_def\<close>)
  qed
  have outp: "edits n M N" if M: "ready n M" and N: "instrumentDirectStateOorCO typeOf cs e d M = Some N" for e d M N
  proof -
    obtain call1 call2 where c: "createCallToRuntime typeOf (used_ids 9 M) (d\<lparr>ds_FSAState := STATE_ADD_OUTPUT\<rparr>) e cs = Some call1"
      "createCallToRuntime typeOf (used_ids (15 + length call1) M) (d\<lparr>ds_FSAState := STATE_ADD_CO\<rparr>) e cs = Some call2"
      "N = place_guard (ds_inst d) (output_guard (nextId M) (ds_baseAddr d) call1 call2) M"
      using N by (auto simp: instrumentDirectStateOorCO_def bind_eq_Some_conv split: if_splits)
    show ?thesis unfolding c(3)
      by (rule edits_place_guard [OF M guard_ok_output])
         (use M call_inner [OF c(1) M] call_inner [OF c(2) M] in \<open>simp_all add: ready_def add.assoc\<close>)
  qed
  have "adds n (instrumentDirectState typeOf cs m heap d)" for d
    unfolding adds_def instrumentDirectState_def
    by (auto simp: bind_eq_Some_conv ready_edits_refl intro: inp outp split: if_splits)
  then show ?thesis unfolding instrumentDirectStateLoadStore_def [abs_def] by (intro adds_fold_opt)
qed

end
