(* ===== verification/Guard_Runs.thy ===== *)
theory Guard_Runs
  imports Guards
begin

text \<open>
  What the guards do when the program runs. The interpreter executes the code a guard adds, from the end of the old block
  until control reaches the new one: registers are those of the running function, \<open>gmem\<close> holds the variables of the
  guards, and \<open>trace\<close> collects the calls of the runtime with the values of their arguments. The argument \<open>env\<close> gives the
  value of arguments, globals and functions. Between two executions of a guard the program may change every register; the
  variables of a guard have no name it could use. Arithmetic is that of 64-bit integers.
\<close>

section \<open>The interpreter\<close>

record run_state =
  regs :: "nat \<Rightarrow> int"
  gmem :: "string \<Rightarrow> int"
  trace :: "(string \<times> int list) list"

definition eval_val :: "(val \<Rightarrow> int) \<Rightarrow> (nat \<Rightarrow> int) \<Rightarrow> val \<Rightarrow> int" where
  "eval_val env r v = (case v of InstV n \<Rightarrow> r n | ConstV c \<Rightarrow> c | NullV \<Rightarrow> 0 | _ \<Rightarrow> env v)"

lemma eval_val_simps [simp]:
  "eval_val env r (InstV n) = r n" "eval_val env r (ConstV c) = c" "eval_val env r NullV = 0"
  "eval_val env r (GlobalV g) = env (GlobalV g)" "eval_val env r (FuncV g) = env (FuncV g)"
  "eval_val env r (BlockV d) = env (BlockV d)" "eval_val env r (ArgV g d) = env (ArgV g d)"
  by (simp_all add: eval_val_def)

definition icmp :: "string \<Rightarrow> int \<Rightarrow> int \<Rightarrow> int option" where
  "icmp p x y =
     (if p = ''eq'' then Some (of_bool (x = y))
      else if p = ''ult'' then Some (of_bool (x mod 2 ^ 64 < y mod 2 ^ 64))
      else None)"

definition exec_inst :: "(val \<Rightarrow> int) \<Rightarrow> instr \<Rightarrow> run_state \<Rightarrow> run_state option" where
  "exec_inst env i st =
     (case kind i of
        CastInst x \<Rightarrow> Some (st\<lparr>regs := (regs st)(iid i := eval_val env (regs st) x)\<rparr>)
      | LoadInst p \<Rightarrow> (case p of GlobalV g \<Rightarrow> Some (st\<lparr>regs := (regs st)(iid i := gmem st g)\<rparr>) | _ \<Rightarrow> None)
      | StoreInst v p \<Rightarrow> (case p of GlobalV g \<Rightarrow> Some (st\<lparr>gmem := (gmem st)(g := eval_val env (regs st) v)\<rparr>) | _ \<Rightarrow> None)
      | ICmpInst p x y \<Rightarrow>
          map_option (\<lambda>z. st\<lparr>regs := (regs st)(iid i := z)\<rparr>) (icmp p (eval_val env (regs st) x) (eval_val env (regs st) y))
      | BinaryOperator op x y \<Rightarrow>
          (if op = ''add''
           then Some (st\<lparr>regs := (regs st)(iid i := (eval_val env (regs st) x + eval_val env (regs st) y) mod 2 ^ 64)\<rparr>)
           else None)
      | CallInst f as \<Rightarrow>
          (case f of FuncV g \<Rightarrow> Some (st\<lparr>trace := trace st @ [(g, map (eval_val env (regs st)) as)]\<rparr>) | _ \<Rightarrow> None)
      | _ \<Rightarrow> None)"

fun exec_code :: "(val \<Rightarrow> int) \<Rightarrow> instr list \<Rightarrow> run_state \<Rightarrow> (nat \<times> run_state) option" where
  "exec_code env [] st = None"
| "exec_code env (i # is) st =
     (case kind i of
        BranchInst c \<Rightarrow> Some (c, st)
      | CondBranchInst x c d \<Rightarrow> Some (if eval_val env (regs st) x \<noteq> 0 then c else d, st)
      | _ \<Rightarrow> Option.bind (exec_inst env i st) (exec_code env is))"

fun run_blocks :: "nat \<Rightarrow> (val \<Rightarrow> int) \<Rightarrow> bblock list \<Rightarrow> nat \<Rightarrow> nat \<Rightarrow> run_state \<Rightarrow> run_state option" where
  "run_blocks fuel env bs stop cur st =
     (if cur = stop then Some st
      else case fuel of
             0 \<Rightarrow> None
           | Suc n \<Rightarrow> Option.bind (List.find (\<lambda>b. bid b = cur) bs) (\<lambda>b.
                       Option.bind (exec_code env (insts b) st) (\<lambda>(next, st1). run_blocks n env bs stop next st1)))"

declare run_blocks.simps [simp del]

text \<open>A guard has no loop: no path visits more blocks than there are.\<close>

definition run_guard :: "(val \<Rightarrow> int) \<Rightarrow> guard \<Rightarrow> run_state \<Rightarrow> run_state option" where
  "run_guard env G st =
     Option.bind (exec_code env (g_check G) st) (\<lambda>(next, st1). run_blocks (length (g_blocks G)) env (g_blocks G) (g_new G) next st1)"

text \<open>Executions of a guard one after the other, each with the registers the program has then.\<close>

fun visits :: "(val \<Rightarrow> int) \<Rightarrow> guard \<Rightarrow> (nat \<Rightarrow> int) list \<Rightarrow> run_state \<Rightarrow> run_state option" where
  "visits env G [] st = Some st"
| "visits env G (r # rs) st = Option.bind (run_guard env G (st\<lparr>regs := r\<rparr>)) (visits env G rs)"

section \<open>Calls inside a guard\<close>

definition program_val :: "nat \<Rightarrow> val \<Rightarrow> bool" where
  "program_val b v \<longleftrightarrow> (case v of InstV k \<Rightarrow> k < b | _ \<Rightarrow> True)"

lemma eval_program_val:
  "program_val b v \<Longrightarrow> (\<And>k. k < b \<Longrightarrow> r' k = r k) \<Longrightarrow> eval_val env r' v = eval_val env r v"
  by (auto simp: program_val_def eval_val_def split: val.splits)

text \<open>Code that makes one call, whose values depend on the registers of the program only.\<close>

definition makes_call :: "(val \<Rightarrow> int) \<Rightarrow> nat \<Rightarrow> instr list \<Rightarrow> ((nat \<Rightarrow> int) \<Rightarrow> string \<times> int list) \<Rightarrow> bool" where
  "makes_call env b call event \<longleftrightarrow>
     (\<forall>r r'. (\<forall>k < b. r' k = r k) \<longrightarrow> event r' = event r) \<and>
     (\<forall>st rest. \<exists>r'. exec_code env (call @ rest) st = exec_code env rest (st\<lparr>regs := r', trace := trace st @ [event (regs st)]\<rparr>))"

lemma exec_casts:
  assumes "\<forall>v \<in> fst ` set vs. program_val m v"
  shows "\<exists>r'. (\<forall>k < m. r' k = regs st k) \<and> (\<forall>j < length vs. r' (m + j) = eval_val env (regs st) (fst (vs ! j)))
    \<and> exec_code env (map (\<lambda>(j, v, t). new_inst (m + j) (CastInst v) t d) (enumerate 0 vs) @ rest) st = exec_code env rest (st\<lparr>regs := r'\<rparr>)"
  using assms
proof (induction vs arbitrary: rest rule: rev_induct)
  case Nil
  then show ?case by (intro exI [of _ "regs st"]) simp
next
  case (snoc v vs)
  obtain x t where v: "v = (x, t)" by (cases v)
  let ?last = "new_inst (m + length vs) (CastInst x) t d"
  obtain r' where r: "\<forall>k < m. r' k = regs st k" "\<forall>j < length vs. r' (m + j) = eval_val env (regs st) (fst (vs ! j))"
    "exec_code env (map (\<lambda>(j, v, t). new_inst (m + j) (CastInst v) t d) (enumerate 0 vs) @ ?last # rest) st
       = exec_code env (?last # rest) (st\<lparr>regs := r'\<rparr>)"
    using snoc.IH [of "?last # rest"] snoc.prems by auto
  have x: "eval_val env r' x = eval_val env (regs st) x"
    using snoc.prems v r(1) by (intro eval_program_val [of m]) auto
  let ?r = "r'(m + length vs := eval_val env (regs st) x)"
  have step: "exec_code env (?last # rest) (st\<lparr>regs := r'\<rparr>) = exec_code env rest (st\<lparr>regs := ?r\<rparr>)"
    by (simp add: new_inst_def exec_inst_def x)
  have "enumerate 0 (vs @ [v]) = enumerate 0 vs @ [(length vs, v)]" by (simp add: enumerate_append_eq)
  then have "exec_code env (map (\<lambda>(j, v, t). new_inst (m + j) (CastInst v) t d) (enumerate 0 (vs @ [v])) @ rest) st
      = exec_code env rest (st\<lparr>regs := ?r\<rparr>)"
    using r(3) step v by (simp del: fun_upd_apply)
  moreover have "\<forall>k < m. ?r k = regs st k" "\<forall>j < length (vs @ [v]). ?r (m + j) = eval_val env (regs st) (fst ((vs @ [v]) ! j))"
    using r v by (auto simp: nth_append less_Suc_eq)
  ultimately show ?case by blast
qed

text \<open>The value of an argument: a cast made for the call, or a value of the program.\<close>

definition arg_value :: "(val \<Rightarrow> int) \<Rightarrow> nat \<Rightarrow> (val \<times> ty) list \<Rightarrow> (nat \<Rightarrow> int) \<Rightarrow> val \<Rightarrow> int" where
  "arg_value env m vs r a = (case a of InstV k \<Rightarrow> if m \<le> k then eval_val env r (fst (vs ! (k - m))) else r k | _ \<Rightarrow> eval_val env r a)"

definition call_arg :: "nat \<Rightarrow> nat \<Rightarrow> (val \<times> ty) list \<Rightarrow> val \<Rightarrow> bool" where
  "call_arg b m vs a \<longleftrightarrow> program_val b a \<or> (\<exists>j < length vs. a = InstV (m + j))"

lemma exec_runtime_call:
  assumes vs: "\<forall>v \<in> fst ` set vs. program_val b v" and b: "b \<le> nextId M" and args: "\<forall>a \<in> set args. call_arg b (nextId M) vs a"
  shows "makes_call env b (runtime_call M d vs F args) (\<lambda>r. (fname F, map (arg_value env (nextId M) vs r) args))"
  unfolding makes_call_def
proof (intro conjI allI impI)
  fix r r' :: "nat \<Rightarrow> int" assume r: "\<forall>k < b. r' k = r k"
  have "arg_value env (nextId M) vs r' a = arg_value env (nextId M) vs r a" if "a \<in> set args" for a
  proof -
    have "eval_val env r' (fst (vs ! j)) = eval_val env r (fst (vs ! j))" if "j < length vs" for j
      using vs r that by (intro eval_program_val [of b]) auto
    moreover have "eval_val env r' a = eval_val env r a" if "program_val b a" using that r by (intro eval_program_val [of b]) auto
    moreover have "call_arg b (nextId M) vs a" using args that by blast
    ultimately show ?thesis using r b by (cases a) (auto simp: call_arg_def arg_value_def program_val_def)
  qed
  then show "(fname F, map (arg_value env (nextId M) vs r') args) = (fname F, map (arg_value env (nextId M) vs r) args)" by simp
next
  fix st :: run_state and rest
  let ?call = "new_inst (nextId M + length vs) (CallInst (FuncV (fname F)) args) VoidTy d"
  have "\<forall>v \<in> fst ` set vs. program_val (nextId M) v" using vs b by (auto simp: program_val_def split: val.splits)
  then obtain r' where r: "\<forall>k < nextId M. r' k = regs st k" "\<forall>j < length vs. r' (nextId M + j) = eval_val env (regs st) (fst (vs ! j))"
    "exec_code env (casts M d vs @ ?call # rest) st = exec_code env (?call # rest) (st\<lparr>regs := r'\<rparr>)"
    unfolding casts_def using exec_casts [of vs "nextId M" st env d "?call # rest"] by blast
  have "eval_val env r' a = arg_value env (nextId M) vs (regs st) a" if "a \<in> set args" for a
  proof -
    have "call_arg b (nextId M) vs a" using args that by blast
    then show ?thesis using r(1,2) b by (cases a) (auto simp: call_arg_def arg_value_def program_val_def)
  qed
  then have args': "map (eval_val env r') args = map (arg_value env (nextId M) vs (regs st)) args" by simp
  have "exec_code env (runtime_call M d vs F args @ rest) st =
      exec_code env rest (st\<lparr>regs := r', trace := trace st @ [(fname F, map (arg_value env (nextId M) vs (regs st)) args)]\<rparr>)"
    using r(3) by (simp add: runtime_call_def new_inst_def exec_inst_def flip: args')
  then show "\<exists>r'. exec_code env (runtime_call M d vs F args @ rest) st =
      exec_code env rest (st\<lparr>regs := r', trace := trace st @ [(fname F, map (arg_value env (nextId M) vs (regs st)) args)]\<rparr>)" by blast
qed

section \<open>One execution of a guard\<close>

text \<open>A guard acts on its variables and on the trace; what it leaves in the registers nobody reads.\<close>

definition runs_as :: "(val \<Rightarrow> int) \<Rightarrow> guard \<Rightarrow> ((nat \<Rightarrow> int) \<Rightarrow> (string \<Rightarrow> int) \<Rightarrow> (string \<Rightarrow> int) \<times> (string \<times> int list) list) \<Rightarrow> bool" where
  "runs_as env G step \<longleftrightarrow>
     (\<forall>st. \<exists>r'. run_guard env G st =
        Some (st\<lparr>regs := r', gmem := fst (step (regs st) (gmem st)), trace := trace st @ snd (step (regs st) (gmem st))\<rparr>))"

fun replay :: "('r \<Rightarrow> 'g \<Rightarrow> 'g \<times> 'e list) \<Rightarrow> 'r list \<Rightarrow> 'g \<Rightarrow> 'e list" where
  "replay step [] g = []"
| "replay step (r # rs) g = snd (step r g) @ replay step rs (fst (step r g))"

lemma visits_replay:
  assumes "runs_as env G step"
  shows "\<exists>st'. visits env G rs st = Some st' \<and> trace st' = trace st @ replay step rs (gmem st)"
proof (induction rs arbitrary: st)
  case (Cons r rs)
  obtain r' where r: "run_guard env G (st\<lparr>regs := r\<rparr>) =
      Some (st\<lparr>regs := r', gmem := fst (step r (gmem st)), trace := trace st @ snd (step r (gmem st))\<rparr>)"
    using assms [unfolded runs_as_def, rule_format, of "st\<lparr>regs := r\<rparr>"] by auto
  show ?case using Cons.IH [of "st\<lparr>regs := r', gmem := fst (step r (gmem st)), trace := trace st @ snd (step r (gmem st))\<rparr>"] r by auto
qed simp

definition change_step :: "((nat \<Rightarrow> int) \<Rightarrow> int) \<Rightarrow> nat \<Rightarrow> ((nat \<Rightarrow> int) \<Rightarrow> 'e) \<Rightarrow> (nat \<Rightarrow> int) \<Rightarrow> (string \<Rightarrow> int) \<Rightarrow> (string \<Rightarrow> int) \<times> 'e list" where
  "change_step addr b event r g = (if addr r = g (unnamed b) then (g, []) else (g(unnamed b := addr r), [event r]))"

lemma makes_callD:
  assumes "makes_call env b call event"
  shows "\<exists>r'. exec_code env (call @ rest) st = exec_code env rest (st\<lparr>regs := r', trace := trace st @ [event (regs st)]\<rparr>)"
    and "\<forall>k < b. r' k = r k \<Longrightarrow> event r' = event r"
  using assms by (auto simp: makes_call_def)

lemma eval_fresh [simp]: "program_val b v \<Longrightarrow> b \<le> k \<Longrightarrow> eval_val env (r(k := x)) v = eval_val env r v"
  by (rule eval_program_val) auto

lemmas guard_exec = run_guard_def run_blocks.simps exec_inst_def icmp_def var_def

lemma call_and_leave:
  assumes "makes_call env b call event" "\<forall>k < b. regs st k = r k"
  shows "\<exists>r'. exec_code env (call @ [code m (BranchInst c) t]) st = Some (c, st\<lparr>regs := r', trace := trace st @ [event r]\<rparr>)"
  using makes_callD(1) [OF assms(1), of "[code m (BranchInst c) t]" st] makes_callD(2) [OF assms] by auto

text \<open>Both the guard of a read and the guard of a state are instances of one shape.\<close>

lemma change_guard_step:
  assumes call: "makes_call env b call event" and addr: "program_val b addr"
    and G: "g_check G = [code l (LoadInst (var b)) PointerTy, code m (ICmpInst ''eq'' addr (InstV l)) int1Type,
                         code m1 (CondBranchInst (InstV m) c d) VoidTy]"
      "g_blocks G = [\<lparr>bid = d, insts = [code m2 (StoreInst addr (var b)) VoidTy] @ call @ [code m3 (BranchInst c) VoidTy]\<rparr>]" "g_new G = c"
    and fresh: "b \<le> l" "l < m" "c \<noteq> d"
  shows "runs_as env G (change_step (\<lambda>r. eval_val env r addr) b event)"
  unfolding runs_as_def
proof
  fix st :: run_state
  let ?x = "eval_val env (regs st) addr"
  let ?r = "(regs st)(l := gmem st (unnamed b), m := of_bool (?x = gmem st (unnamed b)))"
  let ?st = "st\<lparr>regs := ?r, gmem := (gmem st)(unnamed b := ?x)\<rparr>"
  obtain r' where r: "exec_code env (call @ [code m3 (BranchInst c) VoidTy]) ?st =
      Some (c, ?st\<lparr>regs := r', trace := trace st @ [event (regs st)]\<rparr>)"
    using call_and_leave [OF call, of ?st "regs st" m3 c VoidTy] fresh by auto
  show "\<exists>r'. run_guard env G st =
      Some (st\<lparr>regs := r', gmem := fst (change_step (\<lambda>r. eval_val env r addr) b event (regs st) (gmem st)),
             trace := trace st @ snd (change_step (\<lambda>r. eval_val env r addr) b event (regs st) (gmem st))\<rparr>)"
  proof (cases "?x = gmem st (unnamed b)")
    case True
    then show ?thesis using addr fresh by (intro exI [of _ ?r]) (simp add: guard_exec G change_step_def)
  next
    case False
    then show ?thesis using addr r fresh by (intro exI [of _ r']) (simp add: guard_exec G change_step_def)
  qed
qed

lemma only_read_step:
  assumes "makes_call env b probe event" "program_val b addr"
  shows "runs_as env (only_read_guard b addr probe) (change_step (\<lambda>r. eval_val env r addr) b event)"
  by (rule change_guard_step [OF assms]) ((simp add: only_read_guard_def)+)

lemma direct_step:
  assumes "makes_call env b call event" "program_val b addr"
  shows "runs_as env (direct_guard b addr call) (change_step (\<lambda>r. eval_val env r addr) b event)"
  by (rule change_guard_step [OF assms]) ((simp add: direct_guard_def Let_def)+)

definition output_step :: "((nat \<Rightarrow> int) \<Rightarrow> int) \<Rightarrow> nat \<Rightarrow> ((nat \<Rightarrow> int) \<Rightarrow> 'e) \<Rightarrow> ((nat \<Rightarrow> int) \<Rightarrow> 'e) \<Rightarrow> (nat \<Rightarrow> int) \<Rightarrow> (string \<Rightarrow> int) \<Rightarrow>
    (string \<Rightarrow> int) \<times> 'e list" where
  "output_step addr b event1 event2 r g =
     (if addr r = g (unnamed b) then (g(unnamed (b + 1) := 0), [event2 r])
      else (g(unnamed (b + 1) := 1, unnamed b := addr r), [event1 r]))"

lemma output_step:
  assumes call1: "makes_call env b call1 event1" and call2: "makes_call env b call2 event2" and addr: "program_val b addr"
  shows "runs_as env (output_guard b addr call1 call2) (output_step (\<lambda>r. eval_val env r addr) b event1 event2)"
  unfolding runs_as_def
proof
  fix st :: run_state
  let ?x = "eval_val env (regs st) addr" and ?k = "length call1"
  let ?r = "(regs st)(b + 6 := gmem st (unnamed b), b + 7 := of_bool (?x = gmem st (unnamed b)))"
  let ?r2 = "?r(b + 12 + ?k := gmem st (unnamed (b + 1)), b + 13 + ?k := of_bool (1 = gmem st (unnamed (b + 1))))"
  let ?st1 = "st\<lparr>regs := ?r, gmem := (gmem st)(unnamed (b + 1) := 1, unnamed b := ?x)\<rparr>"
  let ?st2 = "st\<lparr>regs := ?r2, gmem := (gmem st)(unnamed (b + 1) := 0)\<rparr>"
  obtain r1 where r1: "exec_code env (call1 @ [code (b + 9 + ?k) (BranchInst (b + 2)) VoidTy]) ?st1 =
      Some (b + 2, ?st1\<lparr>regs := r1, trace := trace st @ [event1 (regs st)]\<rparr>)"
    using call_and_leave [OF call1, of ?st1 "regs st" "b + 9 + ?k" "b + 2" VoidTy] by auto
  obtain r2 where r2: "exec_code env (call2 @ [code (b + 15 + ?k + length call2) (BranchInst (b + 2)) VoidTy]) ?st2 =
      Some (b + 2, ?st2\<lparr>regs := r2, trace := trace st @ [event2 (regs st)]\<rparr>)"
    using call_and_leave [OF call2, of ?st2 "regs st" "b + 15 + ?k + length call2" "b + 2" VoidTy] by auto
  show "\<exists>r'. run_guard env (output_guard b addr call1 call2) st =
      Some (st\<lparr>regs := r', gmem := fst (output_step (\<lambda>r. eval_val env r addr) b event1 event2 (regs st) (gmem st)),
             trace := trace st @ snd (output_step (\<lambda>r. eval_val env r addr) b event1 event2 (regs st) (gmem st))\<rparr>)"
  proof (cases "?x = gmem st (unnamed b)")
    case True
    then show ?thesis using addr r2
      by (intro exI [of _ r2]) (simp add: guard_exec output_guard_def Let_def output_step_def)
  next
    case False
    then show ?thesis using addr r1
      by (intro exI [of _ r1]) (simp add: guard_exec output_guard_def Let_def output_step_def)
  qed
qed

definition invariant_step :: "nat \<Rightarrow> ((nat \<Rightarrow> int) \<Rightarrow> 'e) \<Rightarrow> (nat \<Rightarrow> int) \<Rightarrow> (string \<Rightarrow> int) \<Rightarrow> (string \<Rightarrow> int) \<times> 'e list" where
  "invariant_step b event r g =
     (if g (unnamed b) mod 2 ^ 64 < 2 then (g(unnamed b := (g (unnamed b) + 1) mod 2 ^ 64), [event r]) else (g, []))"

lemma invariant_step:
  assumes call: "makes_call env b probe event"
  shows "runs_as env (invariant_guard b probe) (invariant_step b event)"
  unfolding runs_as_def
proof
  fix st :: run_state
  let ?n = "gmem st (unnamed b)"
  let ?r = "(regs st)(b + 3 := ?n, b + 4 := of_bool (?n mod 2 ^ 64 < 2))"
  let ?st = "st\<lparr>regs := ?r(b + 7 := (?n + 1) mod 2 ^ 64), gmem := (gmem st)(unnamed b := (?n + 1) mod 2 ^ 64)\<rparr>"
  obtain r' where r: "exec_code env (probe @ [code (b + 6) (BranchInst (b + 1)) VoidTy]) ?st =
      Some (b + 1, ?st\<lparr>regs := r', trace := trace st @ [event (regs st)]\<rparr>)"
    using call_and_leave [OF call, of ?st "regs st" "b + 6" "b + 1" VoidTy] by auto
  show "\<exists>r'. run_guard env (invariant_guard b probe) st =
      Some (st\<lparr>regs := r', gmem := fst (invariant_step b event (regs st) (gmem st)),
             trace := trace st @ snd (invariant_step b event (regs st) (gmem st))\<rparr>)"
  proof (cases "?n mod 2 ^ 64 < 2")
    case True
    then show ?thesis using r by (intro exI [of _ r']) (simp add: guard_exec invariant_guard_def invariant_step_def)
  next
    case False
    then show ?thesis by (intro exI [of _ ?r]) (simp add: guard_exec invariant_guard_def invariant_step_def)
  qed
qed

definition mostly_step :: "((nat \<Rightarrow> int) \<Rightarrow> int) \<Rightarrow> nat \<Rightarrow> ((nat \<Rightarrow> int) \<Rightarrow> 'e) \<Rightarrow> (nat \<Rightarrow> int) \<Rightarrow> (string \<Rightarrow> int) \<Rightarrow> (string \<Rightarrow> int) \<times> 'e list" where
  "mostly_step addr b event r g =
     (let c = (if addr r = g (unnamed b) then g (unnamed (b + 1)) else 0) in
      if addr r = g (unnamed b) \<and> \<not> c mod 2 ^ 64 < 2 then (g, [])
      else (g(unnamed b := addr r, unnamed (b + 1) := (c + 1) mod 2 ^ 64), [event r]))"

lemma unnamed_inject [simp]: "unnamed j = unnamed k \<longleftrightarrow> j = k"
  by (simp add: unnamed_def)

lemma mostly_step:
  assumes call: "makes_call env b probe event" and addr: "program_val b addr"
  shows "runs_as env (mostly_guard b addr probe) (mostly_step (\<lambda>r. eval_val env r addr) b event)"
  unfolding runs_as_def
proof
  fix st :: run_state
  let ?x = "eval_val env (regs st) addr" and ?leave = "[code (b + 20) (BranchInst (b + 2)) VoidTy]"
  let ?same = "?x = gmem st (unnamed b)" and ?n = "gmem st (unnamed (b + 1))"
  let ?r = "(regs st)(b + 6 := gmem st (unnamed b), b + 7 := of_bool ?same)"
  let ?r2 = "?r(b + 12 := ?n, b + 13 := of_bool (?n mod 2 ^ 64 < 2))"
  let ?count = "[code (b + 10) (StoreInst addr (var b)) VoidTy, code (b + 15) (LoadInst (var (b + 1))) int64Type,
    code (b + 16) (BinaryOperator ''add'' (InstV (b + 15)) (ConstV 1)) int64Type,
    code (b + 17) (StoreInst (InstV (b + 16)) (var (b + 1))) VoidTy] @ probe @ ?leave"
  have count: "\<exists>r'. exec_code env ?count (st\<lparr>regs := r, gmem := g\<rparr>)
      = Some (b + 2, st\<lparr>regs := r', gmem := g(unnamed b := ?x, unnamed (b + 1) := (g (unnamed (b + 1)) + 1) mod 2 ^ 64), trace := trace st @ [event (regs st)]\<rparr>)"
    if r: "\<forall>k < b. r k = regs st k" for r g
  proof -
    let ?st = "st\<lparr>regs := r(b + 15 := g (unnamed (b + 1)), b + 16 := (g (unnamed (b + 1)) + 1) mod 2 ^ 64),
      gmem := g(unnamed b := ?x, unnamed (b + 1) := (g (unnamed (b + 1)) + 1) mod 2 ^ 64)\<rparr>"
    have x: "eval_val env r addr = ?x" using r by (intro eval_program_val [OF addr]) auto
    obtain r' where "exec_code env (probe @ ?leave) ?st = Some (b + 2, ?st\<lparr>regs := r', trace := trace st @ [event (regs st)]\<rparr>)"
      using call_and_leave [OF call, of ?st "regs st" "b + 20" "b + 2" VoidTy] r by auto
    then show ?thesis by (intro exI [of _ r']) (simp add: exec_inst_def var_def x)
  qed
  show "\<exists>r'. run_guard env (mostly_guard b addr probe) st =
      Some (st\<lparr>regs := r', gmem := fst (mostly_step (\<lambda>r. eval_val env r addr) b event (regs st) (gmem st)),
             trace := trace st @ snd (mostly_step (\<lambda>r. eval_val env r addr) b event (regs st) (gmem st))\<rparr>)"
  proof (cases ?same)
    case True
    show ?thesis
    proof (cases "?n mod 2 ^ 64 < 2")
      case small: True
      obtain r' where "exec_code env ?count (st\<lparr>regs := ?r2\<rparr>)
      = Some (b + 2, st\<lparr>regs := r', gmem := (gmem st)(unnamed b := ?x, unnamed (b + 1) := (?n + 1) mod 2 ^ 64), trace := trace st @ [event (regs st)]\<rparr>)"
        using count [of ?r2 "gmem st"] by auto
      then show ?thesis using True small addr
        by (intro exI [of _ r']) (simp add: guard_exec mostly_guard_def mostly_step_def Let_def)
    next
      case False
      then show ?thesis using True addr by (intro exI [of _ ?r2]) (simp add: guard_exec mostly_guard_def mostly_step_def Let_def)
    qed
  next
    case False
    obtain r' where "exec_code env ?count (st\<lparr>regs := ?r, gmem := (gmem st)(unnamed (b + 1) := 0)\<rparr>)
      = Some (b + 2, st\<lparr>regs := r', gmem := (gmem st)(unnamed b := ?x, unnamed (b + 1) := 1), trace := trace st @ [event (regs st)]\<rparr>)"
      using count [of ?r "(gmem st)(unnamed (b + 1) := 0)"] by (auto simp: fun_upd_twist)
    then show ?thesis using False addr
      by (intro exI [of _ r']) (simp add: guard_exec mostly_guard_def mostly_step_def Let_def)
  qed
qed

section \<open>Whole executions\<close>

text \<open>The executions of an access, in maximal runs with the same address.\<close>

fun runs_of :: "('a \<Rightarrow> 'b) \<Rightarrow> 'a list \<Rightarrow> 'a list list" where
  "runs_of f [] = []"
| "runs_of f (x # xs) =
     (case runs_of f xs of [] \<Rightarrow> [[x]] | run # runs \<Rightarrow> if f (hd run) = f x then (x # run) # runs else [x] # run # runs)"

lemma concat_runs_of: "concat (runs_of f xs) = xs"
  by (induction xs) (auto split: list.splits)

lemma runs_of_nonempty: "[] \<notin> set (runs_of f xs)"
  by (induction xs) (auto split: list.splits)

lemma runs_of_takeWhile:
  "runs_of f (x # xs) = (x # takeWhile (\<lambda>y. f y = f x) xs) # runs_of f (dropWhile (\<lambda>y. f y = f x) xs)"
proof (induction xs arbitrary: x)
  case (Cons y ys)
  show ?case
  proof (cases "f y = f x")
    case True
    then have "(\<lambda>z. f z = f x) = (\<lambda>z. f z = f y)" by simp
    then show ?thesis using Cons.IH [of y] True by (simp del: runs_of.simps add: runs_of.simps(2) [of f x])
  next
    case False
    then show ?thesis using Cons.IH [of y] by (simp del: runs_of.simps(2) add: runs_of.simps(2) [of f x])
  qed
qed simp

lemma replay_change:
  "replay (change_step addr b event) rs g = map event (map hd (runs_of addr (dropWhile (\<lambda>r. addr r = g (unnamed b)) rs)))"
proof (induction rs arbitrary: g)
  case (Cons r rs)
  show ?case
  proof (cases "addr r = g (unnamed b)")
    case False
    then have "replay (change_step addr b event) (r # rs) g = event r # replay (change_step addr b event) rs (g(unnamed b := addr r))"
      by (simp add: change_step_def)
    also have "\<dots> = map event (map hd (runs_of addr (r # rs)))"
      by (simp add: Cons.IH runs_of_takeWhile del: runs_of.simps)
    finally show ?thesis using False by simp
  qed (simp add: change_step_def [of addr b event r g] Cons.IH)
qed simp

lemma replay_output:
  "replay (output_step addr b event1 event2) rs g =
     map event2 (takeWhile (\<lambda>r. addr r = g (unnamed b)) rs)
     @ concat (map (\<lambda>run. event1 (hd run) # map event2 (tl run)) (runs_of addr (dropWhile (\<lambda>r. addr r = g (unnamed b)) rs)))"
proof (induction rs arbitrary: g)
  case (Cons r rs)
  show ?case
  proof (cases "addr r = g (unnamed b)")
    case False
    then have "replay (output_step addr b event1 event2) (r # rs) g =
        event1 r # replay (output_step addr b event1 event2) rs (g(unnamed (b + 1) := 1, unnamed b := addr r))"
      by (simp add: output_step_def)
    also have "\<dots> = concat (map (\<lambda>run. event1 (hd run) # map event2 (tl run)) (runs_of addr (r # rs)))"
      by (simp add: Cons.IH runs_of_takeWhile del: runs_of.simps)
    finally show ?thesis using False by simp
  qed (simp add: output_step_def [of addr b event1 event2 r g] Cons.IH)
qed simp

lemma replay_invariant:
  "g (unnamed b) = int c \<Longrightarrow> c \<le> 2 \<Longrightarrow> replay (invariant_step b event) rs g = map event (take (2 - c) rs)"
proof (induction rs arbitrary: g c)
  case (Cons r rs)
  show ?case
  proof (cases "c < 2")
    case True
    then have "g (unnamed b) = 0 \<or> g (unnamed b) = 1" using Cons.prems(1) by auto
    then have "replay (invariant_step b event) (r # rs) g = event r # replay (invariant_step b event) rs (g(unnamed b := int (Suc c)))"
      using Cons.prems(1) by (auto simp: invariant_step_def)
    also have "\<dots> = event r # map event (take (2 - Suc c) rs)" using True by (subst Cons.IH [of _ "Suc c"]) simp_all
    finally show ?thesis using True by (cases c) (auto simp: less_Suc_eq)
  next
    case False
    then show ?thesis using Cons by (simp add: invariant_step_def)
  qed
qed simp

lemma replay_mostly:
  "g (unnamed (b + 1)) = int c \<Longrightarrow> c \<le> 2 \<Longrightarrow>
   replay (mostly_step addr b event) rs g =
     map event (take (2 - c) (takeWhile (\<lambda>r. addr r = g (unnamed b)) rs))
     @ map event (concat (map (take 2) (runs_of addr (dropWhile (\<lambda>r. addr r = g (unnamed b)) rs))))"
proof (induction rs arbitrary: g c)
  case (Cons r rs)
  let ?count = "\<lambda>c. g(unnamed b := addr r, unnamed (b + 1) := int (Suc c))"
  have step: "replay (mostly_step addr b event) rs (?count c') =
      map event (take (1 - c') (takeWhile (\<lambda>q. addr q = addr r) rs)) @ map event (concat (map (take 2) (runs_of addr (dropWhile (\<lambda>q. addr q = addr r) rs))))"
    if "c' \<le> 1" for c' using that by (subst Cons.IH [of _ "Suc c'"]) simp_all
  show ?case
  proof (cases "addr r = g (unnamed b)")
    case same: True
    show ?thesis
    proof (cases "c < 2")
      case True
      then have "g (unnamed (b + 1)) = 0 \<or> g (unnamed (b + 1)) = 1" using Cons.prems(1) by auto
      then have "replay (mostly_step addr b event) (r # rs) g = event r # replay (mostly_step addr b event) rs (?count c)"
        using Cons.prems(1) same by (auto simp: mostly_step_def)
      then show ?thesis using same True step [of c] by (cases "2 - c") (auto simp: Suc_diff_le numeral_2_eq_2)
    next
      case False
      then have "c = 2" using Cons.prems(2) by simp
      then show ?thesis using Cons.prems Cons.IH [of g 2] same by (simp add: mostly_step_def)
    qed
  next
    case False
    then have "replay (mostly_step addr b event) (r # rs) g = event r # replay (mostly_step addr b event) rs (?count 0)"
      by (simp add: mostly_step_def)
    then show ?thesis using False step [of 0] by (simp add: runs_of_takeWhile del: runs_of.simps)
  qed
qed simp

section \<open>The calls of the pass\<close>

definition access_event :: "(val \<Rightarrow> int) \<Rightarrow> string \<times> val \<times> (Entry \<Rightarrow> val list) \<Rightarrow> val \<Rightarrow> Entry \<Rightarrow> (nat \<Rightarrow> int) \<Rightarrow> string \<times> int list" where
  "access_event env call c e r =
     (case call of (f, p, sizes) \<Rightarrow> (f, [uint (e_id e), eval_val env r p] @ map (eval_val env r) (sizes e) @ [eval_val env r c]))"

definition state_event :: "(val \<Rightarrow> int) \<Rightarrow> nat \<Rightarrow> DirectStateLoadStore \<Rightarrow> val \<Rightarrow> Entry \<Rightarrow> (nat \<Rightarrow> int) \<Rightarrow> string \<times> int list" where
  "state_event env bitwidth elem c e r =
     (TEXAS_SET_STATE,
      [uint (e_id e), eval_val env r (ds_baseAddr elem),
       (case ds_startIndVar elem of None \<Rightarrow> 0 | Some v \<Rightarrow> eval_val env r v), (case ds_stopIndVar elem of None \<Rightarrow> 2 | Some v \<Rightarrow> eval_val env r v),
       int bitwidth, int (opcode (ds_FSAState elem)), eval_val env r c])"

lemma arg_value_cast:
  "arg_value env m vs r (InstV m) = eval_val env r (fst (vs ! 0))"
  "arg_value env m vs r (InstV (Suc m)) = eval_val env r (fst (vs ! 1))"
  "arg_value env m vs r (InstV (Suc (Suc m))) = eval_val env r (fst (vs ! 2))"
  by (simp_all add: arg_value_def Suc_diff_le numeral_2_eq_2)

lemma call_arg_cast:
  "vs \<noteq> [] \<Longrightarrow> call_arg b m vs (InstV m)" "1 < length vs \<Longrightarrow> call_arg b m vs (InstV (Suc m))"
  "2 < length vs \<Longrightarrow> call_arg b m vs (InstV (Suc (Suc m)))"
  unfolding call_arg_def by (rule disjI2, rule exI [of _ 0], simp) (rule disjI2, rule exI [of _ 1], simp, rule disjI2, rule exI [of _ 2], simp)

lemma call_arg_program: "program_val b v \<Longrightarrow> call_arg b m vs v"
  by (simp add: call_arg_def)

lemma arg_value_program: "program_val b a \<Longrightarrow> b \<le> m \<Longrightarrow> arg_value env m vs r a = eval_val env r a"
  by (auto simp: arg_value_def program_val_def split: val.splits)

lemma program_val_const [simp]: "program_val b (ConstV c)"
  by (simp add: program_val_def)

lemma used_ids_lookup [simp]:
  "inst_of (used_ids k M) v = inst_of M v" "callstack_of (used_ids k M) cs i = callstack_of M cs i"
  "getRuntimeFunction (used_ids k M) f = getRuntimeFunction M f" "nextId (used_ids k M) = nextId M + k"
  by (simp_all add: used_ids_def inst_of_def callstack_of_def function_of_def getRuntimeFunction_def getFunctionByName_def module_insts_def
      split: val.split)

lemma probe_makes_call:
  assumes probe: "getLoadStoreInstrumentation (used_ids k M) e cs = Some probe" "inst_of M (e_value e) = Some i"
    "access_call (kind i) = Some (f, p, sizes)" "callstack_of M cs i = Some c"
    and vals: "program_val (nextId M) p" "program_val (nextId M) c"
  shows "makes_call env (nextId M) probe (access_event env (f, p, sizes) c e)"
proof -
  obtain F where F: "getRuntimeFunction M f = Some F" "probe = runtime_call (used_ids k M) (getDefaultDebugLoc (used_ids k M) (e_value e)) [(p, PointerTy)] F
      ([const64 (e_id e), cast_no (used_ids k M) 0] @ sizes e @ [c])"
    using probe by (auto simp: getLoadStoreInstrumentation_def bind_eq_Some_conv)
  have sizes: "\<forall>a \<in> set (sizes e). program_val (nextId M) a" "\<And>m vs r. map (arg_value env m vs r) (sizes e) = map (eval_val env r) (sizes e)"
    using probe(3) by (auto simp: access_call_def const64_def arg_value_def split: inst_kind.splits)
  have "makes_call env (nextId M) probe (\<lambda>r. (fname F, map (arg_value env (nextId (used_ids k M)) [(p, PointerTy)] r)
      ([const64 (e_id e), cast_no (used_ids k M) 0] @ sizes e @ [c])))"
    unfolding F(2)
    by (rule exec_runtime_call) (use vals sizes in \<open>auto simp: call_arg_cast call_arg_program cast_no_def const64_def\<close>)
  moreover have "(fname F, map (arg_value env (nextId (used_ids k M)) [(p, PointerTy)] r) ([const64 (e_id e), cast_no (used_ids k M) 0] @ sizes e @ [c]))
      = access_event env (f, p, sizes) c e r" for r
    using vals by (simp add: access_event_def getRuntimeFunction_name [OF F(1)] cast_no_def const64_def sizes(2)
        arg_value_program [OF vals(2)] arg_value_program [of "nextId M" "ConstV x" for x] arg_value_cast)
  ultimately show ?thesis by simp
qed

lemma state_makes_call:
  assumes call: "createCallToRuntime typeOf (used_ids k M) elem e cs = Some call" "inst_of M (InstV (ds_inst elem)) = Some i"
    "callstack_of M cs i = Some c"
    and vals: "program_val (nextId M) (ds_baseAddr elem)" "program_val (nextId M) c"
      "\<forall>v \<in> set_option (ds_startIndVar elem) \<union> set_option (ds_stopIndVar elem). program_val (nextId M) v"
  shows "makes_call env (nextId M) call (state_event env (elementBitwidth typeOf i) elem c e)"
proof -
  let ?M = "used_ids k M"
  obtain vs args where va: "range_args ?M (ds_startIndVar elem) (ds_stopIndVar elem) = (vs, args)" by fastforce
  let ?vs = "(ds_baseAddr elem, PointerTy) # vs"
  let ?args = "[const64 (e_id e), cast_no ?M 0] @ args @ [ConstV (int (elementBitwidth typeOf i)), ConstV (int (opcode (ds_FSAState elem))), c]"
  obtain F where F: "getRuntimeFunction M TEXAS_SET_STATE = Some F" "call = runtime_call ?M None ?vs F ?args"
    using call va by (auto simp: createCallToRuntime_def bind_eq_Some_conv)
  have range: "\<forall>v \<in> fst ` set vs. program_val (nextId M) v" "\<forall>a \<in> set args. call_arg (nextId M) (nextId ?M) ?vs a"
    "map (arg_value env (nextId ?M) ?vs r) args = [case ds_startIndVar elem of None \<Rightarrow> 0 | Some v \<Rightarrow> eval_val env r v,
       case ds_stopIndVar elem of None \<Rightarrow> 2 | Some v \<Rightarrow> eval_val env r v]" for r
    using va vals(3) by (auto simp: range_args_def arg_value_cast cast_no_def call_arg_cast call_arg_program arg_value_program [of "nextId M" "ConstV x" for x] split: option.splits)
  have "makes_call env (nextId M) call (\<lambda>r. (fname F, map (arg_value env (nextId ?M) ?vs r) ?args))"
    unfolding F(2) by (rule exec_runtime_call) (use vals range in \<open>auto simp: call_arg_cast call_arg_program cast_no_def const64_def\<close>)
  moreover have "(fname F, map (arg_value env (nextId ?M) ?vs r) ?args) = state_event env (elementBitwidth typeOf i) elem c e r" for r
    unfolding map_append range(3)
    by (simp add: state_event_def getRuntimeFunction_name [OF F(1)] cast_no_def const64_def
        arg_value_program [OF vals(2)] arg_value_program [of "nextId M" "ConstV x" for x] arg_value_cast)
  ultimately show ?thesis by simp
qed

lemma runs_of_values: "f ` set (map hd (runs_of f xs)) = f ` set xs"
proof (induction xs)
  case (Cons x xs)
  then show ?case by (cases "runs_of f xs") (simp_all, metis insert_absorb2)
qed simp

section \<open>What the runtime hears of a guarded access\<close>

text \<open>
  C18: the guard of an access that is only read (\<open>OnlyRead.cpp\<close>). Over any sequence of executions, the runtime is told of
  the first access of every run of equal addresses and of no other, with the arguments the plain instrumentation gives;
  so every address that is read is recorded. The guard starts with a null address.
\<close>

theorem only_read_once_per_run:
  assumes e: "entry_at instToEntry heap n = Some e" "pointer_addr typeOf e = Some addr"
    and probe: "getLoadStoreInstrumentation (used_ids 7 M) e cs = Some probe" "inst_of M (e_value e) = Some i"
      "access_call (kind i) = Some (f, p, sizes)" "callstack_of M cs i = Some c"
    and vals: "\<forall>v \<in> {addr, p, c}. program_val (nextId M) v"
    and start: "gmem st (unnamed (nextId M)) = 0" "\<forall>r \<in> set rs. eval_val env r addr \<noteq> 0"
  shows "\<exists>G st' told. instrumentOnlyRead typeOf cs instToEntry heap n M = Some (place_guard n G M)
    \<and> visits env G rs st = Some st' \<and> trace st' = trace st @ map (access_event env (f, p, sizes) c e) told
    \<and> told = map hd (runs_of (\<lambda>r. eval_val env r addr) rs)
    \<and> (\<lambda>r. eval_val env r addr) ` set told = (\<lambda>r. eval_val env r addr) ` set rs"
proof -
  let ?G = "only_read_guard (nextId M) addr probe"
  have "runs_as env ?G (change_step (\<lambda>r. eval_val env r addr) (nextId M) (access_event env (f, p, sizes) c e))"
    by (rule only_read_step [OF probe_makes_call [OF probe]]) (use vals in auto)
  then obtain st' where st': "visits env ?G rs st = Some st'"
    "trace st' = trace st @ replay (change_step (\<lambda>r. eval_val env r addr) (nextId M) (access_event env (f, p, sizes) c e)) rs (gmem st)"
    using visits_replay by blast
  have "dropWhile (\<lambda>r. eval_val env r addr = gmem st (unnamed (nextId M))) rs = rs" using start by (cases rs) auto
  then show ?thesis using e probe(1) st' runs_of_values [of "\<lambda>r. eval_val env r addr" rs]
    by (intro exI [of _ ?G] exI [of _ st'] exI [of _ "map hd (runs_of (\<lambda>r. eval_val env r addr) rs)"])
       (simp add: instrumentOnlyRead_def replay_change)
qed

text \<open>
  C20: the guard of a write whose state is set directly, outside a range of an induction variable (\<open>DirectState.cpp\<close>). In
  every run of equal addresses the first execution sets the output state and every further one sets the cloneable-output
  state again: the flag \<open>isExecutedOnce\<close>, there to make that second call once, is computed and not tested.
\<close>

theorem output_state_set_repeatedly:
  assumes elem: "typeOf (ds_baseAddr elem) = PointerTy" "ds_startIndVar elem = None" "ds_stopIndVar elem = None"
    and calls: "createCallToRuntime typeOf (used_ids 9 M) (elem\<lparr>ds_FSAState := STATE_ADD_OUTPUT\<rparr>) e cs = Some call1"
      "createCallToRuntime typeOf (used_ids (15 + length call1) M) (elem\<lparr>ds_FSAState := STATE_ADD_CO\<rparr>) e cs = Some call2"
    and i: "inst_of M (InstV (ds_inst elem)) = Some i" "callstack_of M cs i = Some c"
    and vals: "program_val (nextId M) (ds_baseAddr elem)" "program_val (nextId M) c"
    and start: "gmem st (unnamed (nextId M)) = 0" "\<forall>r \<in> set rs. eval_val env r (ds_baseAddr elem) \<noteq> 0"
  shows "\<exists>G st'. instrumentDirectStateOorCO typeOf cs e elem M = Some (place_guard (ds_inst elem) G M)
    \<and> visits env G rs st = Some st'
    \<and> trace st' = trace st @ concat (map (\<lambda>run.
        state_event env (elementBitwidth typeOf i) (elem\<lparr>ds_FSAState := STATE_ADD_OUTPUT\<rparr>) c e (hd run)
        # map (state_event env (elementBitwidth typeOf i) (elem\<lparr>ds_FSAState := STATE_ADD_CO\<rparr>) c e) (tl run))
      (runs_of (\<lambda>r. eval_val env r (ds_baseAddr elem)) rs))"
proof -
  let ?G = "output_guard (nextId M) (ds_baseAddr elem) call1 call2"
  let ?addr = "\<lambda>r. eval_val env r (ds_baseAddr elem)"
  let ?event = "\<lambda>s. state_event env (elementBitwidth typeOf i) (elem\<lparr>ds_FSAState := s\<rparr>) c e"
  have "runs_as env ?G (output_step ?addr (nextId M) (?event STATE_ADD_OUTPUT) (?event STATE_ADD_CO))"
    by (rule output_step [OF state_makes_call [OF calls(1)] state_makes_call [OF calls(2)] vals(1)]) (use i vals elem in auto)
  then obtain st' where st': "visits env ?G rs st = Some st'"
    "trace st' = trace st @ replay (output_step ?addr (nextId M) (?event STATE_ADD_OUTPUT) (?event STATE_ADD_CO)) rs (gmem st)"
    using visits_replay by blast
  have "dropWhile (\<lambda>r. ?addr r = gmem st (unnamed (nextId M))) rs = rs" "takeWhile (\<lambda>r. ?addr r = gmem st (unnamed (nextId M))) rs = []"
    using start by (cases rs; auto)+
  then show ?thesis using elem calls st'
    by (intro exI [of _ ?G] exI [of _ st']) (simp add: instrumentDirectStateOorCO_def replay_output)
qed

text \<open>
  The guards of the accesses of a loop. \<open>Invariant.cpp\<close> keeps one counter for the whole program, so that only the first
  two executions ever are recorded, whatever the addresses and however often the loop is entered;
  \<open>MostlyInvariant.cpp\<close> starts the counter again with every new address and records the first two of every run.
\<close>

theorem loop_guards_record:
  assumes e: "entry_at instToEntry heap n = Some e" "pointer_addr typeOf e = Some addr"
    and probe: "getLoadStoreInstrumentation (used_ids 9 M) e cs = Some probe" "getLoadStoreInstrumentation (used_ids 18 M) e cs = Some probe'"
      "inst_of M (e_value e) = Some i" "access_call (kind i) = Some (f, p, sizes)" "callstack_of M cs i = Some c"
    and vals: "\<forall>v \<in> {addr, p, c}. program_val (nextId M) v"
    and start: "gmem st (unnamed (nextId M)) = 0" "gmem st (unnamed (nextId M + 1)) = 0"
  shows "(\<exists>G st'. instrumentLoopInvariant cs instToEntry heap n M = Some (place_guard n G M)
    \<and> visits env G rs st = Some st' \<and> trace st' = trace st @ map (access_event env (f, p, sizes) c e) (take 2 rs))
    \<and> (\<exists>G st'. instrumentLoopMostlyInvariant typeOf cs instToEntry heap n M = Some (place_guard n G M)
    \<and> visits env G rs st = Some st'
    \<and> trace st' = trace st @ map (access_event env (f, p, sizes) c e) (concat (map (take 2) (runs_of (\<lambda>r. eval_val env r addr) rs))))"
proof -
  let ?event = "access_event env (f, p, sizes) c e" and ?addr = "\<lambda>r. eval_val env r addr"
  let ?G = "invariant_guard (nextId M) probe" and ?H = "mostly_guard (nextId M) addr probe'"
  note calls = probe_makes_call [OF probe(1,3-5), of env] probe_makes_call [OF probe(2,3-5), of env]
  have "runs_as env ?G (invariant_step (nextId M) ?event)" by (rule invariant_step [OF calls(1)]) (use vals in auto)
  then obtain st1 where "visits env ?G rs st = Some st1" "trace st1 = trace st @ replay (invariant_step (nextId M) ?event) rs (gmem st)"
    using visits_replay by blast
  then have inv: "\<exists>G st'. instrumentLoopInvariant cs instToEntry heap n M = Some (place_guard n G M)
    \<and> visits env G rs st = Some st' \<and> trace st' = trace st @ map ?event (take 2 rs)"
    using e probe start(1) replay_invariant [of "gmem st" "nextId M" 0 ?event rs]
    by (intro exI [of _ ?G] exI [of _ st1]) (simp add: instrumentLoopInvariant_def)
  have "runs_as env ?H (mostly_step ?addr (nextId M) ?event)" by (rule mostly_step [OF calls(2)]) (use vals in auto)
  then obtain st2 where st2: "visits env ?H rs st = Some st2" "trace st2 = trace st @ replay (mostly_step ?addr (nextId M) ?event) rs (gmem st)"
    using visits_replay by blast
  have runs: "map ?event (take 2 (takeWhile (\<lambda>r. ?addr r = 0) rs)) @ map ?event (concat (map (take 2) (runs_of ?addr (dropWhile (\<lambda>r. ?addr r = 0) rs))))
      = map ?event (concat (map (take 2) (runs_of ?addr rs)))"
    by (cases rs) (auto simp: runs_of_takeWhile simp del: runs_of.simps(2))
  have "\<exists>G st'. instrumentLoopMostlyInvariant typeOf cs instToEntry heap n M = Some (place_guard n G M)
    \<and> visits env G rs st = Some st' \<and> trace st' = trace st @ map ?event (concat (map (take 2) (runs_of ?addr rs)))"
    using e probe start st2 replay_mostly [of "gmem st" "nextId M" 0 ?addr ?event rs] runs
    by (intro exI [of _ ?H] exI [of _ st2]) (simp add: instrumentLoopMostlyInvariant_def)
  then show ?thesis using inv by blast
qed

section \<open>The example\<close>

text \<open>A loop body that reads and writes an element of an array; the entries of the accesses; registers for five executions.\<close>

definition guard_sample :: llvm_module where
  "guard_sample = insertRuntimeFunctions \<lparr>m_functions = [plain_func ''g''
     [\<lparr>bid = 0, insts = [inst_num 1 (OtherInst ''stack'' False []), inst_num 2 (GetElementPtrInst (ArgV ''g'' 0) [ArgV ''g'' 1]),
        inst_num 3 (LoadInst (InstV 2)), inst_num 4 (StoreInst (InstV 3) (InstV 2)), inst_num 5 (ReturnInst None)]\<rparr>]],
     m_globals = [], nextId = 40\<rparr>"

definition guard_entry :: Entry where
  "guard_entry = (new_Entry (InstV 3) (Some (InstV 2)) None None None 8 [] [] 0 0)\<lparr>e_id := 7\<rparr>"

definition guard_elem :: DirectStateLoadStore where
  "guard_elem = \<lparr>ds_inst = 4, ds_baseAddr = InstV 2, ds_startIndVar = None, ds_stopIndVar = None, ds_FSAState = STATE_ADD_OUTPUT\<rparr>"

definition guard_regs :: "(nat \<Rightarrow> int) list" where
  "guard_regs = map (\<lambda>a k. if k = 2 then a else if k = 1 then 5 else 0) [64, 64, 64, 72, 64]"

definition guard_start :: run_state where
  "guard_start = \<lparr>regs = (\<lambda>_. 0), gmem = (\<lambda>_. 0), trace = []\<rparr>"

definition guard_probe :: "nat \<Rightarrow> instr list" where
  "guard_probe k = the (getLoadStoreInstrumentation (used_ids k guard_sample) guard_entry [(''g'', 1)])"

definition guard_call :: "nat \<Rightarrow> operations \<Rightarrow> instr list" where
  "guard_call k s = the (createCallToRuntime (\<lambda>_. PointerTy) (used_ids k guard_sample) (guard_elem\<lparr>ds_FSAState := s\<rparr>) guard_entry [(''g'', 1)])"

lemma guard_sample_facts:
  "nextId guard_sample = 40" "inst_of guard_sample (InstV 3) = Some (inst_num 3 (LoadInst (InstV 2)))"
  "inst_of guard_sample (InstV 4) = Some (inst_num 4 (StoreInst (InstV 3) (InstV 2)))"
  "function_of guard_sample 3 = Some (m_functions guard_sample ! 0)" "function_of guard_sample 4 = Some (m_functions guard_sample ! 0)"
  "fname (m_functions guard_sample ! 0) = ''g''" "getRuntimeFunction guard_sample TEXAS_ADD_WITH_INFO_LOAD \<noteq> None"
  "getRuntimeFunction guard_sample TEXAS_SET_STATE \<noteq> None"
  by code_simp+

lemma guard_sample_stack:
  "callstack_of guard_sample [(''g'', 1)] (inst_num 3 k) = Some (InstV 1)"
  "callstack_of guard_sample [(''g'', 1)] (inst_num 4 k) = Some (InstV 1)"
  by (simp_all add: callstack_of_def inst_num_def guard_sample_facts)

lemma guard_probe: "getLoadStoreInstrumentation (used_ids k guard_sample) guard_entry [(''g'', 1)] = Some (guard_probe k)"
proof -
  obtain F where "getRuntimeFunction guard_sample TEXAS_ADD_WITH_INFO_LOAD = Some F" using guard_sample_facts(7) by blast
  moreover have "e_value guard_entry = InstV 3" by (simp add: guard_entry_def new_Entry_def)
  ultimately show ?thesis using guard_sample_stack
    by (simp add: guard_probe_def getLoadStoreInstrumentation_def guard_sample_facts access_call_def inst_num_def)
qed

lemma guard_call:
  "createCallToRuntime (\<lambda>_. PointerTy) (used_ids k guard_sample) (guard_elem\<lparr>ds_FSAState := s\<rparr>) guard_entry [(''g'', 1)] = Some (guard_call k s)"
proof -
  obtain F where "getRuntimeFunction guard_sample TEXAS_SET_STATE = Some F" using guard_sample_facts(8) by blast
  moreover have "range_args (used_ids k guard_sample) None None = ([], [ConstV 0, ConstV 2])" by (simp add: range_args_def)
  ultimately show ?thesis using guard_sample_stack
    by (simp add: guard_call_def createCallToRuntime_def guard_sample_facts guard_elem_def)
qed

lemma guard_values:
  "pointer_addr (\<lambda>_. PointerTy) guard_entry = Some (InstV 2)" "entry_at [(3, 0)] [guard_entry] 3 = Some guard_entry"
  "\<forall>v \<in> {InstV 2, InstV 2, InstV 1}. program_val (nextId guard_sample) v" "inst_of guard_sample (e_value guard_entry) = Some (inst_num 3 (LoadInst (InstV 2)))"
  "access_call (kind (inst_num 3 (LoadInst (InstV 2)))) = Some (TEXAS_ADD_WITH_INFO_LOAD, InstV 2, \<lambda>e. [])"
  "\<forall>r \<in> set guard_regs. eval_val env r (InstV 2) \<noteq> 0" "gmem guard_start x = 0" "trace guard_start = []"
  by (simp_all add: pointer_addr_def entry_at_def guard_entry_def new_Entry_def guard_sample_facts program_val_def access_call_def inst_num_def
      guard_regs_def guard_start_def)

abbreviation at_addr :: "int \<Rightarrow> nat \<Rightarrow> int" where
  "at_addr a \<equiv> (\<lambda>k. if k = 2 then a else if k = 1 then 5 else 0)"

lemma guard_runs:
  "runs_of (\<lambda>r. eval_val env r (InstV 2)) guard_regs = [[at_addr 64, at_addr 64, at_addr 64], [at_addr 72], [at_addr 64]]"
  "take 2 guard_regs = [at_addr 64, at_addr 64]"
  "access_event env (TEXAS_ADD_WITH_INFO_LOAD, InstV 2, \<lambda>e. []) (InstV 1) guard_entry (at_addr a) = (TEXAS_ADD_WITH_INFO_LOAD, [7, a, 5])"
  by (simp_all add: guard_regs_def access_event_def guard_entry_def)

theorem only_read_once_per_run_witness:
  "\<exists>G st'. visits (\<lambda>_. 0) G guard_regs guard_start = Some st'
    \<and> instrumentOnlyRead (\<lambda>_. PointerTy) [(''g'', 1)] [(3, 0)] [guard_entry] 3 guard_sample = Some (place_guard 3 G guard_sample)
    \<and> trace st' = [(TEXAS_ADD_WITH_INFO_LOAD, [7, 64, 5]), (TEXAS_ADD_WITH_INFO_LOAD, [7, 72, 5]), (TEXAS_ADD_WITH_INFO_LOAD, [7, 64, 5])]"
proof -
  obtain G st' where G: "instrumentOnlyRead (\<lambda>_. PointerTy) [(''g'', 1)] [(3, 0)] [guard_entry] 3 guard_sample = Some (place_guard 3 G guard_sample)"
    "visits (\<lambda>_. 0) G guard_regs guard_start = Some st'"
    "trace st' = trace guard_start @ map (access_event (\<lambda>_. 0) (TEXAS_ADD_WITH_INFO_LOAD, InstV 2, \<lambda>e. []) (InstV 1) guard_entry)
       (map hd (runs_of (\<lambda>r. eval_val (\<lambda>_. 0) r (InstV 2)) guard_regs))"
    using only_read_once_per_run [OF guard_values(2,1) guard_probe guard_values(4,5) guard_sample_stack(1) guard_values(3) guard_values(7,6)] by blast
  then show ?thesis by (intro exI conjI) (simp_all add: guard_runs [simplified] guard_values(8))
qed

theorem output_state_set_repeatedly_witness:
  "\<exists>G st' a b. visits (\<lambda>_. 0) G guard_regs guard_start = Some st' \<and> a \<noteq> b
    \<and> instrumentDirectStateOorCO (\<lambda>_. PointerTy) [(''g'', 1)] guard_entry guard_elem guard_sample = Some (place_guard 4 G guard_sample)
    \<and> map (\<lambda>(f, xs). (xs ! 1, xs ! 5)) (trace st') = [(64, a), (64, b), (64, b), (72, a), (64, a)]"
proof -
  let ?event = "\<lambda>s. state_event (\<lambda>_. 0) (elementBitwidth (\<lambda>_. PointerTy) (inst_num 4 (StoreInst (InstV 3) (InstV 2)))) (guard_elem\<lparr>ds_FSAState := s\<rparr>) (InstV 1) guard_entry"
  have elem: "ds_inst guard_elem = 4" "ds_baseAddr guard_elem = InstV 2" "ds_startIndVar guard_elem = None" "ds_stopIndVar guard_elem = None"
    by (simp_all add: guard_elem_def)
  have vals: "program_val (nextId guard_sample) (ds_baseAddr guard_elem)" "program_val (nextId guard_sample) (InstV 1)"
    "\<forall>r \<in> set guard_regs. eval_val env r (ds_baseAddr guard_elem) \<noteq> 0" for env
    using guard_values by (simp_all add: elem)
  have i: "inst_of guard_sample (InstV (ds_inst guard_elem)) = Some (inst_num 4 (StoreInst (InstV 3) (InstV 2)))"
    by (simp add: elem guard_sample_facts)
  have codes: "opcode STATE_ADD_OUTPUT \<noteq> opcode STATE_ADD_CO" by code_simp
  obtain G st' where G: "instrumentDirectStateOorCO (\<lambda>_. PointerTy) [(''g'', 1)] guard_entry guard_elem guard_sample = Some (place_guard 4 G guard_sample)"
    "visits (\<lambda>_. 0) G guard_regs guard_start = Some st'"
    "trace st' = trace guard_start @ concat (map (\<lambda>run. ?event STATE_ADD_OUTPUT (hd run) # map (?event STATE_ADD_CO) (tl run))
       (runs_of (\<lambda>r. eval_val (\<lambda>_. 0) r (InstV 2)) guard_regs))"
    using output_state_set_repeatedly [OF refl elem(3,4) guard_call guard_call i guard_sample_stack(2) vals(1,2) guard_values(7) vals(3)]
    unfolding elem(1,2) by blast
  have "map (\<lambda>(f, xs). (xs ! 1, xs ! 5)) (trace st') =
      [(64, int (opcode STATE_ADD_OUTPUT)), (64, int (opcode STATE_ADD_CO)), (64, int (opcode STATE_ADD_CO)), (72, int (opcode STATE_ADD_OUTPUT)),
       (64, int (opcode STATE_ADD_OUTPUT))]"
    by (simp add: G(3) guard_runs [simplified] guard_values(8) state_event_def [abs_def] elem)
  then show ?thesis using G(1,2) codes by (intro exI conjI) simp_all
qed

theorem loop_guards_record_witness:
  "(\<exists>G st'. instrumentLoopInvariant [(''g'', 1)] [(3, 0)] [guard_entry] 3 guard_sample = Some (place_guard 3 G guard_sample)
      \<and> visits (\<lambda>_. 0) G guard_regs guard_start = Some st' \<and> map (\<lambda>(f, xs). xs ! 1) (trace st') = [64, 64])
    \<and> (\<exists>G st'. instrumentLoopMostlyInvariant (\<lambda>_. PointerTy) [(''g'', 1)] [(3, 0)] [guard_entry] 3 guard_sample = Some (place_guard 3 G guard_sample)
      \<and> visits (\<lambda>_. 0) G guard_regs guard_start = Some st' \<and> map (\<lambda>(f, xs). xs ! 1) (trace st') = [64, 64, 72, 64])"
proof -
  let ?event = "access_event (\<lambda>_. 0) (TEXAS_ADD_WITH_INFO_LOAD, InstV 2, \<lambda>e. []) (InstV 1) guard_entry"
  note both = loop_guards_record [OF guard_values(2,1) guard_probe guard_probe guard_values(4,5) guard_sample_stack(1) guard_values(3) guard_values(7,7),
      where env = "\<lambda>_. 0" and rs = guard_regs]
  obtain G st1 where G: "instrumentLoopInvariant [(''g'', 1)] [(3, 0)] [guard_entry] 3 guard_sample = Some (place_guard 3 G guard_sample)"
    "visits (\<lambda>_. 0) G guard_regs guard_start = Some st1" "trace st1 = trace guard_start @ map ?event (take 2 guard_regs)"
    using both by blast
  obtain H st2 where H: "instrumentLoopMostlyInvariant (\<lambda>_. PointerTy) [(''g'', 1)] [(3, 0)] [guard_entry] 3 guard_sample = Some (place_guard 3 H guard_sample)"
    "visits (\<lambda>_. 0) H guard_regs guard_start = Some st2"
    "trace st2 = trace guard_start @ map ?event (concat (map (take 2) (runs_of (\<lambda>r. eval_val (\<lambda>_. 0) r (InstV 2)) guard_regs)))"
    using both by blast
  have "map (\<lambda>(f, xs). xs ! 1) (trace st1) = [64, 64]" "map (\<lambda>(f, xs). xs ! 1) (trace st2) = [64, 64, 72, 64]"
    by (simp_all add: G(3) H(3) guard_runs [simplified] guard_values(8))
  with G(1,2) H(1,2) show ?thesis by - (intro conjI exI, assumption+)
qed

end
