(* ===== verification/Trace_Table.thy ===== *)
theory Trace_Table
  imports Report_Sets
begin

text \<open>
  Call stacks in the wrapper of the runtime (\<open>src/include/wrapper.cpp\<close>, \<open>utils.cpp\<close>): the comparison and the hash of two
  traces, the table that keeps one object for a call stack, the LRU cache in front of it, the frequency cache, and the
  table that numbers pairs of a static ID and a call stack. Traces are objects: the code compares and returns pointers to
  them, so they live in a store and the tables hold references. A \<open>long long\<close> is an \<open>int\<close>; its bytes are those of its
  two's complement, least significant first. \<open>backtrace_asm\<close> is assembly and a parameter: the trace it fills in.
\<close>

unbundle bit_operations_syntax

section \<open>Traces\<close>

type_synonym tref = nat

record trace_store =
  trace_at :: "tref \<Rightarrow> Trace"
  next_trace :: tref

definition new_Trace :: "Trace \<Rightarrow> trace_store \<Rightarrow> tref \<times> trace_store" where
  "new_Trace t h = (next_trace h, h\<lparr>trace_at := (trace_at h)(next_trace h := t), next_trace := Suc (next_trace h)\<rparr>)"

definition le_bytes :: "int \<Rightarrow> int list" where
  "le_bytes x = map (\<lambda>i. (x div 256 ^ i) mod 256) [0..<8]"

text \<open>\<open>memcmp\<close> of the first \<open>n\<close> bytes of two arrays, as far as the code looks at its result.\<close>

definition memcmp_eq :: "int list \<Rightarrow> int list \<Rightarrow> nat \<Rightarrow> bool" where
  "memcmp_eq b1 b2 n \<longleftrightarrow> take n (concat (map le_bytes b1)) = take n (concat (map le_bytes b2))"

definition traceCompare :: "Trace \<Rightarrow> Trace \<Rightarrow> bool" where
  "traceCompare t1 t2 \<longleftrightarrow> nptrs t1 = nptrs t2 \<and> memcmp_eq (buffer t1) (buffer t2) (nat (nptrs t1))"

definition myHashPart1 :: "Trace \<Rightarrow> u64 option" where
  "myHashPart1 t =
     (if nptrs t \<le> 0 then None
      else Some (fold (\<lambda>x acc. acc XOR word_of_int x) (take (nat (nptrs t)) (buffer t)) 0))"

text \<open>The hash of the standard library for an unsigned integer is the integer.\<close>

definition myHashPart2 :: "u64 \<Rightarrow> u64 \<Rightarrow> u64" where
  "myHashPart2 h sid = h XOR sid"

section \<open>One object for a call stack\<close>

type_synonym trace_map = "u64 \<rightharpoonup> tref list"

definition find_same :: "trace_store \<Rightarrow> Trace \<Rightarrow> tref list \<Rightarrow> tref option" where
  "find_same h x rs = find (\<lambda>r. traceCompare x (trace_at h r)) rs"

definition push_trace :: "Trace \<Rightarrow> trace_map \<Rightarrow> trace_store \<Rightarrow> tref \<times> trace_map \<times> trace_store" where
  "push_trace x m h =
     (case new_Trace x h of (r, h1) \<Rightarrow>
        (r, m(hashPart1 x \<mapsto> (case m (hashPart1 x) of None \<Rightarrow> [] | Some rs \<Rightarrow> rs) @ [r]), h1))"

definition intern :: "Trace \<Rightarrow> trace_map \<Rightarrow> trace_store \<Rightarrow> tref \<times> trace_map \<times> trace_store" where
  "intern x m h =
     (case m (hashPart1 x) of
        None \<Rightarrow> push_trace x m h
      | Some rs \<Rightarrow> (case find_same h x rs of Some r \<Rightarrow> (r, m, h) | None \<Rightarrow> push_trace x m h))"

section \<open>The LRU cache\<close>

text \<open>A node of the list has an identity of its own, which is what an iterator holds.\<close>

record LRUCache =
  lru_map :: trace_map
  dq :: "(nat \<times> tref) list"
  ma :: "tref \<rightharpoonup> nat"
  csize :: nat
  next_node :: nat

definition new_LRUCache :: "nat \<Rightarrow> LRUCache" where
  "new_LRUCache n = \<lparr>lru_map = Map.empty, dq = [], ma = Map.empty, csize = n, next_node = 0\<rparr>"

definition push_front :: "tref \<Rightarrow> LRUCache \<Rightarrow> LRUCache" where
  "push_front r c = c\<lparr>dq := (next_node c, r) # dq c, ma := (ma c)(r \<mapsto> next_node c), next_node := Suc (next_node c)\<rparr>"

text \<open>\<open>back\<close> of an empty list has no meaning.\<close>

definition evict :: "LRUCache \<Rightarrow> LRUCache option" where
  "evict c =
     (if length (dq c) = csize c then
        (if dq c = [] then None
         else Some (c\<lparr>dq := butlast (dq c), ma := (ma c)(snd (last (dq c)) := None)\<rparr>))
      else Some c)"

text \<open>Erasing through an iterator that names no node of the list has no meaning.\<close>

definition move_front :: "tref \<Rightarrow> LRUCache \<Rightarrow> LRUCache option" where
  "move_front r c =
     (case ma c r of
        None \<Rightarrow> None
      | Some it \<Rightarrow>
          (if dq c \<noteq> [] \<and> fst (hd (dq c)) = it then Some c
           else if it \<in> fst ` set (dq c) then Some (push_front r (c\<lparr>dq := filter (\<lambda>e. fst e \<noteq> it) (dq c)\<rparr>))
           else None))"

definition refer :: "Trace \<Rightarrow> LRUCache \<times> trace_store \<Rightarrow> (tref \<times> LRUCache \<times> trace_store) option" where
  "refer x = (\<lambda>(c, h).
     case find_same h x (map snd (dq c)) of
       Some r \<Rightarrow> map_option (\<lambda>c1. (r, c1, h)) (move_front r c)
     | None \<Rightarrow>
         (case evict c of
            None \<Rightarrow> None
          | Some c1 \<Rightarrow>
              (case intern x (lru_map c1) h of (r, m, h1) \<Rightarrow> Some (r, push_front r (c1\<lparr>lru_map := m\<rparr>), h1))))"

section \<open>Taking a call stack\<close>

text \<open>
  \<open>stack\<close> is what \<open>backtrace_asm\<close> wrote: the buffer and the number of its entries. The three variants of
  \<open>getBacktrace\<close> are chosen when the wrapper is compiled; the repository's build uses the second.
\<close>

definition take_trace :: "int list \<times> int \<Rightarrow> Trace option" where
  "take_trace stack =
     (let t = \<lparr>buffer = fst stack, nptrs = snd stack, accessFrequency = 0, hashPart1 = 0\<rparr> in
      map_option (\<lambda>hc. t\<lparr>hashPart1 := hc\<rparr>) (myHashPart1 t))"

definition getBacktrace_lru ::
  "bool \<Rightarrow> int list \<times> int \<Rightarrow> LRUCache option \<times> trace_store \<Rightarrow> (tref option \<times> LRUCache option \<times> trace_store) option" where
  "getBacktrace_lru disableCallstack stack = (\<lambda>(lru, h).
     if disableCallstack then Some (None, lru, h)
     else case take_trace stack of
       None \<Rightarrow> None
     | Some t \<Rightarrow>
         (let c = (case lru of None \<Rightarrow> new_LRUCache 200 | Some c \<Rightarrow> c) in
          map_option (\<lambda>(r, c1, h1). (Some r, Some c1, h1)) (refer t (c, h))))"

definition getBacktrace_nocache ::
  "bool \<Rightarrow> int list \<times> int \<Rightarrow> trace_map \<times> trace_store \<Rightarrow> (tref option \<times> trace_map \<times> trace_store) option" where
  "getBacktrace_nocache disableCallstack stack = (\<lambda>(m, h).
     if disableCallstack then Some (None, m, h)
     else map_option (\<lambda>t. case intern t m h of (r, m1, h1) \<Rightarrow> (Some r, m1, h1)) (take_trace stack))"

text \<open>
  The frequency cache. The first \<open>traceCacheSize\<close> call stacks are stored without looking for them; later ones are looked
  for. \<open>swapLeastFrequentTrace\<close> exchanges its own variables, the loop variable and its parameter: the result here is
  the pair of the two, and the cache and the objects are not written.
\<close>

definition insertOrGetTrace :: "Trace \<Rightarrow> tref list \<times> trace_store \<Rightarrow> tref option \<times> tref list \<times> trace_store" where
  "insertOrGetTrace x = (\<lambda>(cache, h).
     if length cache < 10 then (case new_Trace x h of (r, h1) \<Rightarrow> (Some r, cache @ [r], h1))
     else (find_same h x cache, cache, h))"

fun swapLeastFrequentTrace :: "trace_store \<Rightarrow> tref list \<Rightarrow> tref \<Rightarrow> tref option \<times> tref" where
  "swapLeastFrequentTrace h [] r = (None, r)"
| "swapLeastFrequentTrace h (q # qs) r =
     (if accessFrequency (trace_at h q) < accessFrequency (trace_at h r) then (Some r, q)
      else swapLeastFrequentTrace h qs r)"

definition count_access :: "tref \<Rightarrow> trace_store \<Rightarrow> trace_store" where
  "count_access r h = h\<lparr>trace_at := (trace_at h)(r := (trace_at h r)\<lparr>accessFrequency := accessFrequency (trace_at h r) + 1\<rparr>)\<rparr>"

record trace_tables =
  traceCache :: "tref list"
  hashToTraceMap :: trace_map
  tt_store :: trace_store

definition getBacktrace_cache :: "bool \<Rightarrow> int list \<times> int \<Rightarrow> trace_tables \<Rightarrow> (tref option \<times> trace_tables) option" where
  "getBacktrace_cache disableCallstack stack tt =
     (if disableCallstack then Some (None, tt)
      else case take_trace stack of
        None \<Rightarrow> None
      | Some t \<Rightarrow>
          (case insertOrGetTrace t (traceCache tt, tt_store tt) of
             (Some r, cache, h) \<Rightarrow> Some (Some r, tt\<lparr>traceCache := cache, tt_store := count_access r h\<rparr>)
           | (None, cache, h) \<Rightarrow>
               (case intern t (hashToTraceMap tt) h of (r, m, h1) \<Rightarrow>
                  (let h2 = count_access r h1; locals = swapLeastFrequentTrace h2 cache r in
                   Some (Some r, tt\<lparr>traceCache := cache, hashToTraceMap := m, tt_store := h2\<rparr>)))))"

text \<open>
  \<open>getBacktraceUnique\<close> keeps one call stack for each of a fixed number of call sites; an index outside the vector
  has no meaning.
\<close>

definition getBacktraceUnique ::
  "bool \<Rightarrow> int list \<times> int \<Rightarrow> nat \<Rightarrow> nat \<Rightarrow> tref option list option \<times> trace_store
   \<Rightarrow> (tref option \<times> tref option list option \<times> trace_store) option" where
  "getBacktraceUnique disableCallstack stack index numberOfUniqueTraces = (\<lambda>(uniq, h).
     if disableCallstack then Some (None, uniq, h)
     else
       (let us = (case uniq of None \<Rightarrow> replicate numberOfUniqueTraces None | Some us \<Rightarrow> us) in
        if index \<ge> length us then None
        else case us ! index of
          Some r \<Rightarrow> Some (Some r, Some us, h)
        | None \<Rightarrow>
            (case take_trace stack of
               None \<Rightarrow> None
             | Some t \<Rightarrow> (case new_Trace t h of (r, h1) \<Rightarrow> Some (Some r, Some (us[index := Some r]), h1)))))"

section \<open>Numbering call stacks\<close>

record DynamicTrace =
  dt_trace :: tref
  dt_staticID :: u64
  dt_uniqueID :: u64

text \<open>The two tables are made on first use; a missing one is an empty one.\<close>

record callstacks =
  traces :: "u64 \<rightharpoonup> (int \<rightharpoonup> DynamicTrace list)"
  dynamicTraces :: "u64 \<rightharpoonup> DynamicTrace"
  globalID :: u64

definition no_callstacks :: callstacks where
  "no_callstacks = \<lparr>traces = Map.empty, dynamicTraces = Map.empty, globalID = 1\<rparr>"

definition bucket :: "u64 \<Rightarrow> int \<Rightarrow> callstacks \<Rightarrow> DynamicTrace list" where
  "bucket d n cs = (case traces cs d of None \<Rightarrow> [] | Some m \<Rightarrow> (case m n of None \<Rightarrow> [] | Some ds \<Rightarrow> ds))"

definition incrementPushReturn :: "trace_store \<Rightarrow> tref \<Rightarrow> u64 \<Rightarrow> u64 \<Rightarrow> callstacks \<Rightarrow> u64 \<times> callstacks" where
  "incrementPushReturn h tr sid dynamicID cs =
     (let d = \<lparr>dt_trace = tr, dt_staticID = sid, dt_uniqueID = globalID cs\<rparr>;
          n = nptrs (trace_at h tr);
          inner = (case traces cs dynamicID of None \<Rightarrow> Map.empty | Some m \<Rightarrow> m)
      in (globalID cs,
          cs\<lparr>globalID := globalID cs + 1,
             traces := (traces cs)(dynamicID \<mapsto> inner(n \<mapsto> bucket dynamicID n cs @ [d])),
             dynamicTraces := (dynamicTraces cs)(globalID cs \<mapsto> d)\<rparr>))"

definition same_stack :: "trace_store \<Rightarrow> tref \<Rightarrow> DynamicTrace \<Rightarrow> bool" where
  "same_stack h tr e \<longleftrightarrow> hashPart1 (trace_at h (dt_trace e)) = hashPart1 (trace_at h tr)
     \<and> memcmp_eq (buffer (trace_at h tr)) (buffer (trace_at h (dt_trace e))) (nat (nptrs (trace_at h tr)))"

definition saveCallstack :: "trace_store \<Rightarrow> u64 \<Rightarrow> tref option \<Rightarrow> callstacks \<Rightarrow> u64 \<times> callstacks" where
  "saveCallstack h sid traceArg cs =
     (case traceArg of
        None \<Rightarrow> (0, cs)
      | Some tr \<Rightarrow>
          (let dynamicID = myHashPart2 (hashPart1 (trace_at h tr)) sid in
           case traces cs dynamicID of
             None \<Rightarrow> incrementPushReturn h tr sid dynamicID cs
           | Some m \<Rightarrow>
               (case m (nptrs (trace_at h tr)) of
                  None \<Rightarrow> incrementPushReturn h tr sid dynamicID cs
                | Some ds \<Rightarrow>
                    (case find (same_stack h tr) ds of
                       None \<Rightarrow> incrementPushReturn h tr sid dynamicID cs
                     | Some e \<Rightarrow> (dt_uniqueID e, cs)))))"

definition getTraceAndStaticID :: "bool \<Rightarrow> callstacks \<Rightarrow> u64 \<Rightarrow> (tref option \<times> u64) option" where
  "getTraceAndStaticID disableCallstack cs uid =
     (if disableCallstack then Some (None, uid)
      else map_option (\<lambda>d. (Some (dt_trace d), dt_staticID d)) (dynamicTraces cs uid))"

section \<open>What the comparison sees\<close>

definition trace_key :: "Trace \<Rightarrow> int \<times> int list" where
  "trace_key t = (nptrs t, take (nat (nptrs t)) (concat (map le_bytes (buffer t))))"

lemma traceCompare_key: "traceCompare t1 t2 \<longleftrightarrow> trace_key t1 = trace_key t2"
  by (auto simp: traceCompare_def trace_key_def memcmp_eq_def)

text \<open>Objects that exist are not changed.\<close>

definition keeps :: "trace_store \<Rightarrow> trace_store \<Rightarrow> bool" where
  "keeps h h' \<longleftrightarrow> next_trace h \<le> next_trace h' \<and> (\<forall>r < next_trace h. trace_at h' r = trace_at h r)"

lemma keeps_refl [simp]: "keeps h h" by (simp add: keeps_def)

lemma keeps_trans: "keeps h h1 \<Longrightarrow> keeps h1 h2 \<Longrightarrow> keeps h h2" by (simp add: keeps_def)

lemma keeps_at: "keeps h h' \<Longrightarrow> r < next_trace h \<Longrightarrow> trace_at h' r = trace_at h r" by (simp add: keeps_def)

lemma new_Trace_facts:
  assumes "new_Trace t h = (r, h')"
  shows "r = next_trace h" "keeps h h'" "r < next_trace h'" "trace_at h' r = t"
  using assms by (auto simp: new_Trace_def keeps_def)

section \<open>The table of call stacks\<close>

definition map_ok :: "trace_map \<times> trace_store \<Rightarrow> bool" where
  "map_ok = (\<lambda>(m, h). \<forall>hc rs. m hc = Some rs \<longrightarrow>
     (\<forall>r \<in> set rs. r < next_trace h \<and> hashPart1 (trace_at h r) = hc) \<and> distinct (map (\<lambda>r. trace_key (trace_at h r)) rs))"

definition lookup_trace :: "trace_map \<times> trace_store \<Rightarrow> Trace \<Rightarrow> tref option" where
  "lookup_trace = (\<lambda>(m, h) x. case m (hashPart1 x) of None \<Rightarrow> None | Some rs \<Rightarrow> find_same h x rs)"

lemma find_same_Some:
  assumes "find_same h x rs = Some r"
  shows "r \<in> set rs" "trace_key (trace_at h r) = trace_key x"
  using assms by (auto simp: find_same_def find_Some_iff traceCompare_key)

lemma find_same_None: "find_same h x rs = None \<longleftrightarrow> (\<forall>r \<in> set rs. trace_key (trace_at h r) \<noteq> trace_key x)"
  by (auto simp: find_same_def find_None_iff traceCompare_key)

lemma find_same_append:
  "find_same h x (rs @ qs) = (case find_same h x rs of None \<Rightarrow> find_same h x qs | Some r \<Rightarrow> Some r)"
  by (induction rs) (auto simp: find_same_def)

lemma find_same_keeps:
  assumes "keeps h h'" "\<forall>r \<in> set rs. r < next_trace h"
  shows "find_same h' x rs = find_same h x rs"
  using assms(2) by (induction rs) (auto simp: find_same_def keeps_at [OF assms(1)])

lemma lookup_trace_sound:
  assumes "map_ok (m, h)" and "lookup_trace (m, h) x = Some r"
  shows "r < next_trace h" "hashPart1 (trace_at h r) = hashPart1 x" "trace_key (trace_at h r) = trace_key x"
  using assms by (auto simp: lookup_trace_def map_ok_def split: option.splits dest: find_same_Some)

lemma push_trace_facts:
  assumes ok: "map_ok (m, h)" and new: "lookup_trace (m, h) x = None" and p: "push_trace x m h = (r, m', h')"
  shows "map_ok (m', h')" "keeps h h'" "r = next_trace h" "lookup_trace (m', h') x = Some r"
    "\<And>y q. lookup_trace (m, h) y = Some q \<Longrightarrow> lookup_trace (m', h') y = Some q"
proof -
  obtain qs where qs: "qs = (case m (hashPart1 x) of None \<Rightarrow> [] | Some rs \<Rightarrow> rs)" by simp
  have h': "h' = snd (new_Trace x h)" and r: "r = next_trace h" and m': "m' = m(hashPart1 x \<mapsto> qs @ [r])"
    using p by (auto simp: push_trace_def new_Trace_def qs)
  have k: "keeps h h'" and at: "trace_at h' r = x" and lt: "r < next_trace h'"
    using new_Trace_facts [of x h r h'] h' r by (auto simp: new_Trace_def)
  have old: "\<forall>q \<in> set qs. q < next_trace h" and hash: "\<forall>q \<in> set qs. hashPart1 (trace_at h q) = hashPart1 x"
    and dist: "distinct (map (\<lambda>r. trace_key (trace_at h r)) qs)"
    using ok by (cases "m (hashPart1 x)"; simp add: map_ok_def qs)+
  have none: "\<forall>q \<in> set qs. trace_key (trace_at h q) \<noteq> trace_key x"
    using new by (cases "m (hashPart1 x)") (simp_all add: lookup_trace_def find_same_None qs)
  have eq: "map (\<lambda>r. trace_key (trace_at h' r)) ps = map (\<lambda>r. trace_key (trace_at h r)) ps"
    if "\<forall>q \<in> set ps. q < next_trace h" for ps
    using that k by (simp add: keeps_at)
  have old': "q < next_trace h' \<and> trace_at h' q = trace_at h q" if "q < next_trace h" for q
    using that k by (auto simp: keeps_def)
  show "keeps h h'" "r = next_trace h" by (fact k, fact r)
  show "map_ok (m', h')"
    unfolding map_ok_def prod.case
  proof (intro allI impI)
    fix hc rs assume rs: "m' hc = Some rs"
    show "(\<forall>q \<in> set rs. q < next_trace h' \<and> hashPart1 (trace_at h' q) = hc) \<and> distinct (map (\<lambda>r. trace_key (trace_at h' r)) rs)"
    proof (cases "hc = hashPart1 x")
      case True
      then have "rs = qs @ [r]" using rs m' by simp
      moreover have "\<forall>q \<in> set qs. q < next_trace h' \<and> hashPart1 (trace_at h' q) = hc"
      proof
        fix q assume q: "q \<in> set qs"
        with old have "q < next_trace h" by blast
        from old' [OF this] True hash q show "q < next_trace h' \<and> hashPart1 (trace_at h' q) = hc" by auto
      qed
      moreover have "distinct (map (\<lambda>r. trace_key (trace_at h' r)) (qs @ [r]))"
        unfolding map_append eq [OF old] distinct_append
        using dist none at by force
      ultimately show ?thesis using True at lt by simp
    next
      case False
      then have "m hc = Some rs" using rs m' by simp
      with ok have rs: "\<forall>q \<in> set rs. q < next_trace h" "\<forall>q \<in> set rs. hashPart1 (trace_at h q) = hc"
        "distinct (map (\<lambda>r. trace_key (trace_at h r)) rs)" by (auto simp: map_ok_def)
      show ?thesis unfolding eq [OF rs(1)] using rs old' by auto
    qed
  qed
  have "find_same h' x qs = None" using find_same_keeps [OF k old, of x] none by (simp add: find_same_None)
  then show "lookup_trace (m', h') x = Some r"
    by (simp add: lookup_trace_def m' find_same_append) (simp add: find_same_def at traceCompare_key)
  show "lookup_trace (m', h') y = Some q" if y: "lookup_trace (m, h) y = Some q" for y q
  proof -
    obtain rs where rs: "m (hashPart1 y) = Some rs" "find_same h y rs = Some q"
      using y by (auto simp: lookup_trace_def split: option.splits)
    then have "\<forall>q \<in> set rs. q < next_trace h" using ok by (auto simp: map_ok_def)
    then have "find_same h' y rs = Some q" using find_same_keeps [OF k] rs(2) by simp
    then show ?thesis using rs(1) by (auto simp: lookup_trace_def m' find_same_append qs)
  qed
qed

text \<open>Interning finds the object of a call stack or makes it, and forgets none.\<close>

lemma intern_facts:
  assumes ok: "map_ok (m, h)" and i: "intern x m h = (r, m', h')"
  shows "map_ok (m', h')" "keeps h h'" "lookup_trace (m', h') x = Some r"
    "\<And>y q. lookup_trace (m, h) y = Some q \<Longrightarrow> lookup_trace (m', h') y = Some q"
proof -
  have i': "intern x m h = (case lookup_trace (m, h) x of Some r \<Rightarrow> (r, m, h) | None \<Rightarrow> push_trace x m h)"
    by (simp add: intern_def lookup_trace_def split: option.splits)
  have "map_ok (m', h') \<and> keeps h h' \<and> lookup_trace (m', h') x = Some r
      \<and> (\<forall>y q. lookup_trace (m, h) y = Some q \<longrightarrow> lookup_trace (m', h') y = Some q)"
  proof (cases "lookup_trace (m, h) x")
    case None
    then show ?thesis using push_trace_facts [OF ok None] i i' by auto
  next
    case (Some q)
    then show ?thesis using ok i i' by auto
  qed
  then show "map_ok (m', h')" "keeps h h'" "lookup_trace (m', h') x = Some r"
    "\<And>y q. lookup_trace (m, h) y = Some q \<Longrightarrow> lookup_trace (m', h') y = Some q" by auto
qed

section \<open>The cache keeps the most recent call stacks\<close>

definition recency :: "LRUCache \<Rightarrow> trace_store \<Rightarrow> (int \<times> int list) list" where
  "recency c h = map (\<lambda>e. trace_key (trace_at h (snd e))) (dq c)"

definition dq_ok :: "LRUCache \<Rightarrow> trace_store \<Rightarrow> bool" where
  "dq_ok c h \<longleftrightarrow> distinct (map fst (dq c)) \<and> (\<forall>e \<in> set (dq c). fst e < next_node c \<and> snd e < next_trace h)
     \<and> distinct (recency c h)"

definition ma_of :: "(nat \<times> tref) list \<Rightarrow> tref \<rightharpoonup> nat" where
  "ma_of es = map_of (map prod.swap es)"

definition lru_ok :: "LRUCache \<times> trace_store \<Rightarrow> bool" where
  "lru_ok = (\<lambda>(c, h). 0 < csize c \<and> length (dq c) \<le> csize c \<and> dq_ok c h \<and> ma c = ma_of (dq c) \<and> map_ok (lru_map c, h))"

lemma ma_of_None: "ma_of es r = None \<longleftrightarrow> r \<notin> snd ` set es"
  by (simp add: ma_of_def map_of_eq_None_iff image_image)

lemma ma_of_simps [simp]:
  "ma_of [] = Map.empty" "ma_of ((n, r) # es) = (ma_of es)(r \<mapsto> n)"
  "ma_of (es @ fs) = (\<lambda>x. case ma_of es x of None \<Rightarrow> ma_of fs x | Some n \<Rightarrow> Some n)"
  by (auto simp: ma_of_def map_add_def split: option.splits intro!: ext)

lemma ma_of_remove:
  assumes "r \<notin> snd ` set es" "r \<notin> snd ` set fs"
  shows "ma_of (es @ (n, r) # fs) r = Some n" "(ma_of (es @ (n, r) # fs))(r := None) = ma_of (es @ fs)"
proof -
  have "ma_of es r = None" "ma_of fs r = None" using assms by (simp_all add: ma_of_None)
  then show "ma_of (es @ (n, r) # fs) r = Some n" "(ma_of (es @ (n, r) # fs))(r := None) = ma_of (es @ fs)"
    by (auto split: option.splits intro!: ext)
qed

lemma dq_ok_refs: "dq_ok c h \<Longrightarrow> distinct (map snd (dq c))"
  by (auto simp: dq_ok_def recency_def distinct_map comp_inj_on inj_on_def dest: inj_onD)

lemma dq_ok_keeps:
  assumes "dq_ok c h" "keeps h h'"
  shows "dq_ok c h'" "recency c h' = recency c h"
proof -
  show r: "recency c h' = recency c h"
    using assms by (auto simp: recency_def dq_ok_def keeps_at)
  show "dq_ok c h'"
    unfolding dq_ok_def r using assms by (auto simp: dq_ok_def keeps_def)
qed

lemma push_front_ok:
  assumes "dq_ok c h" "r < next_trace h" "trace_key (trace_at h r) \<notin> set (recency c h)"
    and ma: "(ma c)(r := None) = ma_of (dq c)"
  shows "dq_ok (push_front r c) h" "recency (push_front r c) h = trace_key (trace_at h r) # recency c h"
    "ma (push_front r c) = ma_of (dq (push_front r c))"
proof -
  show "recency (push_front r c) h = trace_key (trace_at h r) # recency c h"
    by (simp add: recency_def push_front_def)
  show "dq_ok (push_front r c) h"
    using assms(1-3) by (auto simp: dq_ok_def push_front_def recency_def less_Suc_eq)
  have "(ma c)(r \<mapsto> next_node c) = ((ma c)(r := None))(r \<mapsto> next_node c)" by simp
  then show "ma (push_front r c) = ma_of (dq (push_front r c))"
    unfolding ma by (simp add: push_front_def ma_of_def)
qed

lemma evict_ok:
  assumes ok: "lru_ok (c, h)"
  shows "\<exists>c1. evict c = Some c1 \<and> dq_ok c1 h \<and> ma c1 = ma_of (dq c1) \<and> csize c1 = csize c \<and> lru_map c1 = lru_map c
     \<and> length (dq c1) < csize c \<and> recency c1 h = take (csize c - 1) (recency c h)"
proof (cases "length (dq c) = csize c")
  case True
  with ok obtain es n r where dq: "dq c = es @ [(n, r)]"
    by (cases "dq c" rule: rev_cases) (auto simp: lru_ok_def)
  let ?c = "c\<lparr>dq := es, ma := (ma c)(r := None)\<rparr>"
  have e: "evict c = Some ?c" using True by (simp add: evict_def dq)
  have "r \<notin> snd ` set es" using ok dq_ok_refs [of c h] by (simp add: lru_ok_def dq)
  then have "(ma_of (dq c))(r := None) = ma_of es"
    unfolding dq using ma_of_remove(2) [of r es "[]" n] by (simp add: option.case_eq_if)
  then have "ma ?c = ma_of (dq ?c)" using ok by (simp add: lru_ok_def)
  moreover have "dq_ok ?c h" using ok by (auto simp: lru_ok_def dq_ok_def recency_def dq)
  moreover have "recency ?c h = take (csize c - 1) (recency c h)" using True by (auto simp: recency_def dq)
  ultimately show ?thesis using e True dq by auto
next
  case False
  with ok show ?thesis by (auto simp: evict_def lru_ok_def recency_def)
qed

lemma move_front_ok:
  assumes ok: "lru_ok (c, h)" and r: "r \<in> snd ` set (dq c)" and x: "trace_key (trace_at h r) = k"
  shows "\<exists>c1. move_front r c = Some c1 \<and> lru_ok (c1, h) \<and> csize c1 = csize c
     \<and> recency c1 h = k # removeAll k (recency c h)"
proof -
  obtain as n bs where dq: "dq c = as @ (n, r) # bs"
    using r split_list [of _ "dq c"] by fastforce
  have refs: "distinct (map snd (dq c))" and nodes: "distinct (map fst (dq c))" and keys: "distinct (recency c h)"
    using ok dq_ok_refs [of c h] by (auto simp: lru_ok_def dq_ok_def)
  have "r \<notin> snd ` set as" "r \<notin> snd ` set bs" using refs by (simp_all add: dq)
  from ma_of_remove [OF this, of n] ok have ma: "ma c r = Some n" and ma': "(ma c)(r := None) = ma_of (as @ bs)"
    by (simp_all only: lru_ok_def dq prod.case)
  have notin: "k \<notin> set (map (\<lambda>e. trace_key (trace_at h (snd e))) (as @ bs))"
    using keys x by (auto simp: recency_def dq)
  have rem: "removeAll k (recency c h) = map (\<lambda>e. trace_key (trace_at h (snd e))) (as @ bs)"
    using notin x by (simp add: recency_def dq)
  show ?thesis
  proof (cases as)
    case Nil
    then have "move_front r c = Some c" by (simp add: move_front_def ma dq)
    moreover have "recency c h = k # removeAll k (recency c h)" unfolding rem by (simp add: recency_def dq Nil x)
    ultimately show ?thesis using ok by auto
  next
    case (Cons a as')
    let ?c = "c\<lparr>dq := as @ bs\<rparr>"
    have f: "filter (\<lambda>e. fst e \<noteq> n) (dq c) = as @ bs"
    proof -
      have "n \<notin> fst ` set as" "n \<notin> fst ` set bs" using nodes by (simp_all add: dq)
      then have "\<forall>e \<in> set as. fst e \<noteq> n" "\<forall>e \<in> set bs. fst e \<noteq> n" by force+
      then show ?thesis by (simp add: dq)
    qed
    have "fst a \<noteq> n" using nodes by (auto simp: dq Cons)
    then have m: "move_front r c = Some (push_front r ?c)"
      unfolding move_front_def ma option.case f by (simp add: dq Cons)
    have ok': "dq_ok ?c h" using ok by (auto simp: lru_ok_def dq_ok_def recency_def dq)
    have lt: "r < next_trace h" using ok by (simp add: lru_ok_def dq_ok_def dq)
    have new: "trace_key (trace_at h r) \<notin> set (recency ?c h)" using notin x by (simp add: recency_def)
    have "(ma ?c)(r := None) = ma_of (dq ?c)" using ma' by simp
    note p = push_front_ok [OF ok' lt new this]
    moreover have "recency ?c h = removeAll k (recency c h)" unfolding rem by (simp add: recency_def)
    moreover have "lru_ok (push_front r ?c, h)"
      using ok p(1,3) by (simp add: lru_ok_def) (simp add: push_front_def dq)
    ultimately show ?thesis
      using m p(2) x by (simp add: push_front_def)
  qed
qed

lemma lru_new: "0 < n \<Longrightarrow> lru_ok (new_LRUCache n, h)"
  by (simp add: lru_ok_def new_LRUCache_def dq_ok_def recency_def map_ok_def)

lemma refer_effect:
  assumes ok: "lru_ok (c, h)"
  shows "\<exists>r c' h'. refer x (c, h) = Some (r, c', h') \<and> lru_ok (c', h') \<and> keeps h h' \<and> r < next_trace h'
     \<and> traceCompare x (trace_at h' r) \<and> csize c' = csize c
     \<and> recency c' h' = take (csize c) (trace_key x # removeAll (trace_key x) (recency c h))"
proof (cases "find_same h x (map snd (dq c))")
  case (Some r)
  note r = find_same_Some [OF Some]
  from move_front_ok [OF ok _ r(2)] r(1) obtain c1 where c1: "move_front r c = Some c1" "lru_ok (c1, h)"
    "csize c1 = csize c" "recency c1 h = trace_key x # removeAll (trace_key x) (recency c h)" by auto
  have "length (recency c1 h) \<le> csize c" using c1(2,3) by (simp add: lru_ok_def recency_def)
  then have "recency c1 h = take (csize c) (recency c1 h)" by simp
  then show ?thesis
    using Some c1 r ok by (auto simp: refer_def traceCompare_key lru_ok_def dq_ok_def)
next
  case None
  obtain c1 where c1: "evict c = Some c1" "dq_ok c1 h" "ma c1 = ma_of (dq c1)" "csize c1 = csize c" "lru_map c1 = lru_map c"
    "length (dq c1) < csize c" "recency c1 h = take (csize c - 1) (recency c h)"
    using evict_ok [OF ok] by blast
  obtain r m h' where i: "intern x (lru_map c1) h = (r, m, h')" by (cases "intern x (lru_map c1) h")
  have mok: "map_ok (lru_map c1, h)" using ok c1(5) by (simp add: lru_ok_def)
  note ip = intern_facts [OF mok i]
  note is_r = lookup_trace_sound [OF ip(1,3)]
  let ?c = "c1\<lparr>lru_map := m\<rparr>"
  have dqc: "dq_ok ?c h'" "recency ?c h' = recency c1 h"
    using dq_ok_keeps [OF c1(2) ip(2)] by (simp_all add: dq_ok_def recency_def)
  have notin: "trace_key x \<notin> set (recency c h)" using None by (auto simp: find_same_None recency_def)
  then have new: "trace_key (trace_at h' r) \<notin> set (recency ?c h')"
    unfolding dqc(2) c1(7) is_r(3) by (auto dest: in_set_takeD)
  have "r \<notin> snd ` set (dq c1)" using new by (auto simp: recency_def)
  then have "(ma ?c)(r := None) = ma_of (dq ?c)" using c1(3) ma_of_None [of "dq c1" r] by (simp add: fun_upd_idem)
  note p = push_front_ok [OF dqc(1) is_r(1) new this]
  have "refer x (c, h) = Some (r, push_front r ?c, h')" by (simp add: refer_def None c1(1) i)
  moreover have "lru_ok (push_front r ?c, h')"
    using ok p(1,3) ip(1) c1(4,6) by (simp add: lru_ok_def) (simp add: push_front_def)
  moreover have "recency (push_front r ?c) h' = take (csize c) (trace_key x # removeAll (trace_key x) (recency c h))"
  proof -
    have "removeAll (trace_key x) (recency c h) = recency c h" using notin by simp
    moreover have "0 < csize c" using ok by (simp add: lru_ok_def)
    ultimately show ?thesis unfolding p(2) is_r(3) dqc(2) c1(7) by (cases "csize c") simp_all
  qed
  ultimately show ?thesis
    using ip(2) is_r c1(4) by (auto simp: traceCompare_key push_front_def)
qed

section \<open>Providers of call stacks\<close>

text \<open>
  What the code that takes call stacks relies on: a request gives an object that compares equal to the stack, and
  objects handed out before keep their contents.
\<close>

fun get_all :: "(Trace \<Rightarrow> 's \<Rightarrow> (tref \<times> 's) option) \<Rightarrow> Trace list \<Rightarrow> 's \<Rightarrow> (tref list \<times> 's) option" where
  "get_all g [] s = Some ([], s)"
| "get_all g (x # xs) s =
     (case g x s of None \<Rightarrow> None
      | Some (r, s1) \<Rightarrow> map_option (\<lambda>(rs, s2). (r # rs, s2)) (get_all g xs s1))"

locale trace_provider =
  fixes get :: "Trace \<Rightarrow> 't \<times> trace_store \<Rightarrow> (tref \<times> 't \<times> trace_store) option"
    and ok :: "'t \<times> trace_store \<Rightarrow> bool"
  assumes get_gives: "ok s \<Longrightarrow> \<exists>r s'. get x s = Some (r, s') \<and> ok s' \<and> keeps (snd s) (snd s')
     \<and> r < next_trace (snd s') \<and> traceCompare x (trace_at (snd s') r)"
begin

lemma get_all_gives:
  "ok s \<Longrightarrow> \<exists>rs s'. get_all get xs s = Some (rs, s') \<and> ok s' \<and> keeps (snd s) (snd s') \<and> length rs = length xs
     \<and> (\<forall>i < length xs. rs ! i < next_trace (snd s') \<and> traceCompare (xs ! i) (trace_at (snd s') (rs ! i)))"
proof (induction xs arbitrary: s)
  case (Cons x xs)
  from get_gives [OF Cons.prems, of x] obtain r s1 where 1: "get x s = Some (r, s1)" "ok s1" "keeps (snd s) (snd s1)"
    "r < next_trace (snd s1)" "traceCompare x (trace_at (snd s1) r)" by auto
  from Cons.IH [OF 1(2)] obtain rs s2 where 2: "get_all get xs s1 = Some (rs, s2)" "ok s2" "keeps (snd s1) (snd s2)"
    "length rs = length xs"
    "\<And>i. i < length xs \<Longrightarrow> rs ! i < next_trace (snd s2) \<and> traceCompare (xs ! i) (trace_at (snd s2) (rs ! i))" by auto
  have "(r # rs) ! i < next_trace (snd s2) \<and> traceCompare ((x # xs) ! i) (trace_at (snd s2) ((r # rs) ! i))"
    if "i < length (x # xs)" for i
    using that 1(4,5) 2(3,5) keeps_at [OF 2(3) 1(4)] by (cases i) (auto simp: keeps_def)
  then show ?case
    using 1 2 keeps_trans [OF 1(3) 2(3)] by auto
qed simp

end

interpretation lru: trace_provider refer lru_ok
proof
  fix s x assume "lru_ok s"
  then show "\<exists>r s'. refer x s = Some (r, s') \<and> lru_ok s' \<and> keeps (snd s) (snd s')
      \<and> r < next_trace (snd s') \<and> traceCompare x (trace_at (snd s') r)"
    using refer_effect [of "fst s" "snd s" x] by fastforce
qed

definition intern_get :: "Trace \<Rightarrow> trace_map \<times> trace_store \<Rightarrow> (tref \<times> trace_map \<times> trace_store) option" where
  "intern_get x = (\<lambda>(m, h). Some (intern x m h))"

lemma intern_get_pair: "intern_get x (m, h) = Some (intern x m h)"
  by (simp add: intern_get_def)

interpretation interned: trace_provider intern_get map_ok
proof
  fix s x assume ok: "map_ok s"
  obtain m h r m' h' where s: "s = (m, h)" and i: "intern x m h = (r, m', h')"
    by (metis prod_cases3 surj_pair)
  show "\<exists>r s'. intern_get x s = Some (r, s') \<and> map_ok s' \<and> keeps (snd s) (snd s')
      \<and> r < next_trace (snd s') \<and> traceCompare x (trace_at (snd s') r)"
    using intern_facts [OF ok [unfolded s] i] lookup_trace_sound [of m' h' x r]
    by (simp add: intern_get_def s i traceCompare_key)
qed

section \<open>Numbers stand for call stacks\<close>

text \<open>What two requests must share to get one number: the static ID, the hash, and what the comparison sees.\<close>

definition stack_class :: "trace_store \<Rightarrow> u64 \<Rightarrow> tref \<Rightarrow> u64 \<times> u64 \<times> int \<times> int list" where
  "stack_class h sid tr = (sid, hashPart1 (trace_at h tr), trace_key (trace_at h tr))"

abbreviation entry_class :: "trace_store \<Rightarrow> DynamicTrace \<Rightarrow> u64 \<times> u64 \<times> int \<times> int list" where
  "entry_class h d \<equiv> stack_class h (dt_staticID d) (dt_trace d)"

definition cs_ok :: "trace_store \<Rightarrow> callstacks \<Rightarrow> bool" where
  "cs_ok h cs \<longleftrightarrow> 0 < globalID cs \<and> dom (dynamicTraces cs) = {0<..<globalID cs}
     \<and> (\<forall>u d. dynamicTraces cs u = Some d \<longrightarrow> dt_uniqueID d = u)
     \<and> (\<forall>d. d \<in> ran (dynamicTraces cs) \<longleftrightarrow>
          d \<in> set (bucket (myHashPart2 (hashPart1 (trace_at h (dt_trace d))) (dt_staticID d)) (nptrs (trace_at h (dt_trace d))) cs))
     \<and> (\<forall>x n d. d \<in> set (bucket x n cs) \<longrightarrow>
          x = myHashPart2 (hashPart1 (trace_at h (dt_trace d))) (dt_staticID d) \<and> n = nptrs (trace_at h (dt_trace d)))
     \<and> inj_on (entry_class h) (ran (dynamicTraces cs))"

lemma cs_ok_empty: "cs_ok h no_callstacks"
  by (auto simp: cs_ok_def no_callstacks_def bucket_def)

lemma xor_cancel: "(h :: u64) XOR a = h XOR b \<longleftrightarrow> a = b"
proof
  have inv: "h XOR (h XOR x) = x" for x by (simp add: xor.assoc [symmetric])
  assume "h XOR a = h XOR b"
  then have "h XOR (h XOR a) = h XOR (h XOR b)" by simp
  then show "a = b" by (simp only: inv)
qed simp

lemma same_stack_class:
  assumes "cs_ok h cs"
    and "e \<in> set (bucket (myHashPart2 (hashPart1 (trace_at h tr)) sid) (nptrs (trace_at h tr)) cs)"
  shows "same_stack h tr e \<longleftrightarrow> entry_class h e = stack_class h sid tr"
proof -
  have "myHashPart2 (hashPart1 (trace_at h tr)) sid = myHashPart2 (hashPart1 (trace_at h (dt_trace e))) (dt_staticID e)"
    "nptrs (trace_at h tr) = nptrs (trace_at h (dt_trace e))"
    using assms unfolding cs_ok_def by blast+
  then show ?thesis
    by (auto simp: same_stack_def stack_class_def trace_key_def memcmp_eq_def myHashPart2_def xor_cancel)
qed

lemma saveCallstack_alt:
  "saveCallstack h sid (Some tr) cs =
     (let x = myHashPart2 (hashPart1 (trace_at h tr)) sid in
      case find (same_stack h tr) (bucket x (nptrs (trace_at h tr)) cs) of
        None \<Rightarrow> incrementPushReturn h tr sid x cs | Some e \<Rightarrow> (dt_uniqueID e, cs))"
  by (simp add: saveCallstack_def bucket_def Let_def split: option.splits)

lemma bucket_push:
  assumes "incrementPushReturn h tr sid x cs = (u, cs')"
  shows "bucket y n cs' = (if y = x \<and> n = nptrs (trace_at h tr)
     then bucket x n cs @ [\<lparr>dt_trace = tr, dt_staticID = sid, dt_uniqueID = globalID cs\<rparr>] else bucket y n cs)"
proof -
  have cs': "traces cs' = (traces cs)(x \<mapsto> (case traces cs x of None \<Rightarrow> Map.empty | Some m \<Rightarrow> m)
      (nptrs (trace_at h tr) \<mapsto> bucket x (nptrs (trace_at h tr)) cs
         @ [\<lparr>dt_trace = tr, dt_staticID = sid, dt_uniqueID = globalID cs\<rparr>]))"
    using assms by (auto simp: incrementPushReturn_def Let_def)
  show ?thesis
    unfolding bucket_def [of y n cs'] cs' by (cases "traces cs x") (auto simp: bucket_def)
qed

lemma unat_inc: "(g :: u64) < - 1 \<Longrightarrow> unat (g + 1) = Suc (unat g)"
proof -
  assume "g < - 1"
  then have "unat g + 1 < 18446744073709551616" by (simp add: word_less_nat_alt)
  then show ?thesis using unat_add_lem [of g 1] by simp
qed

lemma next_id_range: "g < - 1 \<Longrightarrow> 0 < g \<Longrightarrow> {0<..<g + 1} = insert g {0<..<g :: u64}"
proof -
  assume g: "g < - 1" "0 < g"
  have "x < g + 1 \<longleftrightarrow> x < g \<or> x = g" for x :: u64
    by (simp only: word_less_nat_alt unat_inc [OF g(1)] less_Suc_eq word_unat_eq_iff)
  with g(2) show ?thesis unfolding greaterThanLessThan_eq by auto
qed

lemma push_ok:
  assumes ok: "cs_ok h cs" and room: "globalID cs < - 1"
    and new: "stack_class h sid tr \<notin> entry_class h ` ran (dynamicTraces cs)"
    and p: "incrementPushReturn h tr sid (myHashPart2 (hashPart1 (trace_at h tr)) sid) cs = (u, cs')"
  shows "u = globalID cs" "globalID cs' = globalID cs + 1"
    "dynamicTraces cs' = (dynamicTraces cs)(u \<mapsto> \<lparr>dt_trace = tr, dt_staticID = sid, dt_uniqueID = u\<rparr>)"
    "cs_ok h cs'"
proof -
  let ?x = "myHashPart2 (hashPart1 (trace_at h tr)) sid" and ?n = "nptrs (trace_at h tr)"
  let ?d = "\<lparr>dt_trace = tr, dt_staticID = sid, dt_uniqueID = globalID cs\<rparr>"
  show u: "u = globalID cs" and g: "globalID cs' = globalID cs + 1"
    and dt: "dynamicTraces cs' = (dynamicTraces cs)(u \<mapsto> \<lparr>dt_trace = tr, dt_staticID = sid, dt_uniqueID = u\<rparr>)"
    using p by (auto simp: incrementPushReturn_def Let_def)
  have free: "dynamicTraces cs (globalID cs) = None" using ok by (auto simp: cs_ok_def)
  have ran: "ran (dynamicTraces cs') = insert ?d (ran (dynamicTraces cs))"
    unfolding dt u using free by simp
  have b: "set (bucket y n cs') = (if y = ?x \<and> n = ?n then insert ?d (set (bucket y n cs)) else set (bucket y n cs))" for y n
    unfolding bucket_push [OF p] by simp
  have dom: "dom (dynamicTraces cs') = {0<..<globalID cs'}"
    using ok next_id_range [OF room] unfolding dt u g by (simp add: cs_ok_def)
  have pos: "0 < globalID cs'"
  proof -
    have "0 < globalID cs" using ok by (simp add: cs_ok_def)
    then have "globalID cs \<in> {0<..<globalID cs'}" using next_id_range [OF room] g by simp
    then show ?thesis using order.strict_trans by auto
  qed
  have old: "\<And>u d. dynamicTraces cs u = Some d \<Longrightarrow> dt_uniqueID d = u"
    "\<And>d. d \<in> ran (dynamicTraces cs) \<longleftrightarrow>
       d \<in> set (bucket (myHashPart2 (hashPart1 (trace_at h (dt_trace d))) (dt_staticID d)) (nptrs (trace_at h (dt_trace d))) cs)"
    "\<And>x n d. d \<in> set (bucket x n cs) \<Longrightarrow>
       x = myHashPart2 (hashPart1 (trace_at h (dt_trace d))) (dt_staticID d) \<and> n = nptrs (trace_at h (dt_trace d))"
    "inj_on (entry_class h) (ran (dynamicTraces cs))"
    using ok unfolding cs_ok_def by blast+
  have inj: "inj_on (entry_class h) (ran (dynamicTraces cs'))"
  proof -
    have "entry_class h ?d \<notin> entry_class h ` (ran (dynamicTraces cs) - {?d})" using new by auto
    then show ?thesis unfolding ran inj_on_insert using old(4) by blast
  qed
  have ids: "\<forall>v d. dynamicTraces cs' v = Some d \<longrightarrow> dt_uniqueID d = v"
    unfolding dt u using old(1) by auto
  have bs: "d \<in> set (bucket y n cs') \<Longrightarrow>
      y = myHashPart2 (hashPart1 (trace_at h (dt_trace d))) (dt_staticID d) \<and> n = nptrs (trace_at h (dt_trace d))" for y n d
    using old(3) unfolding b by (auto split: if_splits)
  have mem: "d \<in> ran (dynamicTraces cs') \<longleftrightarrow>
      d \<in> set (bucket (myHashPart2 (hashPart1 (trace_at h (dt_trace d))) (dt_staticID d)) (nptrs (trace_at h (dt_trace d))) cs')" for d
    unfolding ran b insert_iff old(2) by auto
  show "cs_ok h cs'"
    unfolding cs_ok_def using pos dom ids mem bs inj by blast
qed

lemma saveCallstack_effect:
  assumes ok: "cs_ok h cs" and room: "globalID cs < - 1" and s: "saveCallstack h sid (Some tr) cs = (u, cs')"
  shows "cs_ok h cs'" "\<exists>d. dynamicTraces cs' u = Some d \<and> entry_class h d = stack_class h sid tr"
    "\<And>v e. dynamicTraces cs v = Some e \<Longrightarrow> dynamicTraces cs' v = Some e"
    "globalID cs' = globalID cs \<or> globalID cs' = globalID cs + 1"
proof -
  let ?x = "myHashPart2 (hashPart1 (trace_at h tr)) sid" and ?n = "nptrs (trace_at h tr)"
  have "cs_ok h cs' \<and> (\<exists>d. dynamicTraces cs' u = Some d \<and> entry_class h d = stack_class h sid tr)
     \<and> (\<forall>v e. dynamicTraces cs v = Some e \<longrightarrow> dynamicTraces cs' v = Some e)
     \<and> (globalID cs' = globalID cs \<or> globalID cs' = globalID cs + 1)"
  proof (cases "find (same_stack h tr) (bucket ?x ?n cs)")
    case (Some e)
    then have e: "e \<in> set (bucket ?x ?n cs)" "same_stack h tr e" by (auto simp: find_Some_iff)
    then have cl: "entry_class h e = stack_class h sid tr" using same_stack_class [OF ok e(1)] by simp
    have x: "?x = myHashPart2 (hashPart1 (trace_at h (dt_trace e))) (dt_staticID e)" "?n = nptrs (trace_at h (dt_trace e))"
      using ok e(1) unfolding cs_ok_def by blast+
    have "e \<in> ran (dynamicTraces cs)" using ok e(1) [unfolded x] unfolding cs_ok_def by blast
    then obtain v where v: "dynamicTraces cs v = Some e" by (auto simp: ran_def)
    then have "dt_uniqueID e = v" using ok unfolding cs_ok_def by blast
    with v have "dynamicTraces cs (dt_uniqueID e) = Some e" by simp
    moreover have "u = dt_uniqueID e" "cs' = cs" using s Some by (simp_all add: saveCallstack_alt)
    ultimately show ?thesis using ok cl by auto
  next
    case None
    have new: "stack_class h sid tr \<notin> entry_class h ` ran (dynamicTraces cs)"
    proof
      assume "stack_class h sid tr \<in> entry_class h ` ran (dynamicTraces cs)"
      then obtain e where e: "e \<in> ran (dynamicTraces cs)" "stack_class h sid tr = entry_class h e" by blast
      have "e \<in> set (bucket (myHashPart2 (hashPart1 (trace_at h (dt_trace e))) (dt_staticID e)) (nptrs (trace_at h (dt_trace e))) cs)"
        using ok e(1) unfolding cs_ok_def by blast
      moreover have "hashPart1 (trace_at h (dt_trace e)) = hashPart1 (trace_at h tr)" "dt_staticID e = sid"
        "nptrs (trace_at h (dt_trace e)) = ?n"
        using e(2) by (simp_all add: stack_class_def trace_key_def)
      ultimately have "e \<in> set (bucket ?x ?n cs)" by simp
      with None same_stack_class [OF ok this] e(2) show False by (auto simp: find_None_iff)
    qed
    have p: "incrementPushReturn h tr sid ?x cs = (u, cs')" using s None by (simp add: saveCallstack_alt)
    note f = push_ok [OF ok room new p]
    have "dynamicTraces cs (globalID cs) = None" using ok by (auto simp: cs_ok_def)
    then have "dynamicTraces cs v = Some e \<Longrightarrow> dynamicTraces cs' v = Some e" for v e
      using f(1,3) by auto
    then show ?thesis using f by (auto simp: stack_class_def)
  qed
  then show "cs_ok h cs'" "\<exists>d. dynamicTraces cs' u = Some d \<and> entry_class h d = stack_class h sid tr"
    "\<And>v e. dynamicTraces cs v = Some e \<Longrightarrow> dynamicTraces cs' v = Some e"
    "globalID cs' = globalID cs \<or> globalID cs' = globalID cs + 1" by auto
qed

lemma saveCallstack_ids:
  assumes "saveCallstack h sid tr cs = (u, cs')" and "d \<in> ran (dynamicTraces cs')"
  shows "d \<in> ran (dynamicTraces cs) \<or> dt_staticID d = sid"
  using assms by (auto simp: saveCallstack_def incrementPushReturn_def Let_def ran_def split: option.splits if_splits)

fun save_all :: "trace_store \<Rightarrow> (u64 \<times> tref) list \<Rightarrow> callstacks \<Rightarrow> u64 list \<times> callstacks" where
  "save_all h [] cs = ([], cs)"
| "save_all h ((sid, tr) # reqs) cs =
     (case saveCallstack h sid (Some tr) cs of (u, cs1) \<Rightarrow> (case save_all h reqs cs1 of (us, cs2) \<Rightarrow> (u # us, cs2)))"

lemma save_all_facts:
  "cs_ok h cs \<Longrightarrow> unat (globalID cs) + length reqs < 2 ^ 64 \<Longrightarrow> save_all h reqs cs = (us, cs') \<Longrightarrow>
     cs_ok h cs' \<and> length us = length reqs \<and> (\<forall>v e. dynamicTraces cs v = Some e \<longrightarrow> dynamicTraces cs' v = Some e)
     \<and> (\<forall>i < length reqs. \<exists>d. dynamicTraces cs' (us ! i) = Some d \<and> entry_class h d = stack_class h (fst (reqs ! i)) (snd (reqs ! i)))"
proof (induction h reqs cs arbitrary: us cs' rule: save_all.induct)
  case (2 h sid tr reqs cs)
  obtain u cs1 where s: "saveCallstack h sid (Some tr) cs = (u, cs1)" by (cases "saveCallstack h sid (Some tr) cs")
  obtain us1 cs2 where r: "save_all h reqs cs1 = (us1, cs2)" by (cases "save_all h reqs cs1")
  have us: "us = u # us1" "cs' = cs2" using 2(4) s r by simp_all
  have room: "globalID cs < - 1" using 2(3) by (simp add: word_less_nat_alt)
  note e = saveCallstack_effect [OF 2(2) room s]
  have "unat (globalID cs1) + length reqs < 2 ^ 64"
    using 2(3) e(4) unat_inc [OF room] by (elim disjE) simp_all
  from 2(1) [OF s [symmetric] e(1) this r] have IH: "cs_ok h cs2" "length us1 = length reqs"
    "\<And>v e. dynamicTraces cs1 v = Some e \<Longrightarrow> dynamicTraces cs2 v = Some e"
    "\<And>i. i < length reqs \<Longrightarrow> \<exists>d. dynamicTraces cs2 (us1 ! i) = Some d \<and> entry_class h d = stack_class h (fst (reqs ! i)) (snd (reqs ! i))"
    by auto
  have "\<exists>d. dynamicTraces cs2 ((u # us1) ! i) = Some d
      \<and> entry_class h d = stack_class h (fst (((sid, tr) # reqs) ! i)) (snd (((sid, tr) # reqs) ! i))"
    if "i < length ((sid, tr) # reqs)" for i
    using that e(2) IH(3,4) by (cases i) auto
  then show ?case using IH e(3) us by auto
qed auto

section \<open>Properties\<close>

text \<open>The least recently used policy on keys: a use moves the key to the front and the cache keeps the first \<open>n\<close>.\<close>

definition lru_use :: "nat \<Rightarrow> 'k \<Rightarrow> 'k list \<Rightarrow> 'k list" where
  "lru_use n k ks = take n (k # removeAll k ks)"

lemma refer_all_recency:
  "lru_ok (c, h) \<Longrightarrow> \<exists>rs c' h'. get_all refer xs (c, h) = Some (rs, c', h') \<and> csize c' = csize c
     \<and> recency c' h' = fold (lru_use (csize c)) (map trace_key xs) (recency c h)"
proof (induction xs arbitrary: c h)
  case (Cons x xs)
  from refer_effect [OF Cons.prems, of x] obtain r c1 h1 where 1: "refer x (c, h) = Some (r, c1, h1)" "lru_ok (c1, h1)"
    "csize c1 = csize c" "recency c1 h1 = lru_use (csize c) (trace_key x) (recency c h)"
    unfolding lru_use_def by blast
  from Cons.IH [OF 1(2)] 1 show ?case by auto
qed simp

text \<open>
  C15: the LRU cache implements the least-recently-used policy. Every sequence of call stacks is served, each with an
  object that compares equal to it; afterwards the list of the cache holds exactly the most recently used keys, the
  latest first, as many as the cache has room for; no iterator is used after its node was erased.
\<close>

theorem LRUCache_is_lru:
  "\<exists>rs c h'. get_all refer xs (new_LRUCache (Suc n), h) = Some (rs, c, h')
     \<and> list_all2 (\<lambda>x r. traceCompare x (trace_at h' r)) xs rs
     \<and> recency c h' = fold (lru_use (Suc n)) (map trace_key xs) []"
proof -
  have ok: "lru_ok (new_LRUCache (Suc n), h)" by (rule lru_new) simp
  have "csize (new_LRUCache (Suc n)) = Suc n" "recency (new_LRUCache (Suc n)) h = []"
    by (simp_all add: new_LRUCache_def recency_def)
  with refer_all_recency [OF ok, of xs] lru.get_all_gives [OF ok, of xs] show ?thesis
    by (fastforce simp: list_all2_conv_all_nth)
qed

lemma intern_all_lookup:
  "map_ok (m, h) \<Longrightarrow> get_all intern_get xs (m, h) = Some (rs, m', h') \<Longrightarrow>
     map_ok (m', h') \<and> length rs = length xs \<and> (\<forall>y q. lookup_trace (m, h) y = Some q \<longrightarrow> lookup_trace (m', h') y = Some q)
     \<and> (\<forall>i < length xs. lookup_trace (m', h') (xs ! i) = Some (rs ! i))"
proof (induction xs arbitrary: m h rs)
  case (Cons x xs)
  obtain r m1 h1 where i: "intern x m h = (r, m1, h1)" by (cases "intern x m h")
  obtain rs1 where r1: "get_all intern_get xs (m1, h1) = Some (rs1, m', h')" "rs = r # rs1"
    using Cons.prems(2) i by (auto simp: intern_get_pair)
  note f = intern_facts [OF Cons.prems(1) i]
  from Cons.IH [OF f(1) r1(1)] have IH: "map_ok (m', h')" "length rs1 = length xs"
    "\<And>y q. lookup_trace (m1, h1) y = Some q \<Longrightarrow> lookup_trace (m', h') y = Some q"
    "\<And>i. i < length xs \<Longrightarrow> lookup_trace (m', h') (xs ! i) = Some (rs1 ! i)" by auto
  have "lookup_trace (m', h') ((x # xs) ! i) = Some ((r # rs1) ! i)" if "i < length (x # xs)" for i
    using that IH(3,4) f(3) by (cases i) auto
  then show ?case using IH f(4) r1(2) by auto
qed simp

text \<open>
  Without the cache, one object stands for one call stack: two requests of a run get the same object exactly when
  their traces have the same hash and compare equal.
\<close>

theorem getBacktrace_shares:
  assumes "get_all intern_get xs (Map.empty, h) = Some (rs, m', h')" and "i < length xs" and "j < length xs"
  shows "rs ! i = rs ! j \<longleftrightarrow> hashPart1 (xs ! i) = hashPart1 (xs ! j) \<and> traceCompare (xs ! i) (xs ! j)"
proof -
  have "map_ok (Map.empty, h)" by (simp add: map_ok_def)
  from intern_all_lookup [OF this assms(1)] assms(2,3) have ok: "map_ok (m', h')"
    and i: "lookup_trace (m', h') (xs ! i) = Some (rs ! i)" and j: "lookup_trace (m', h') (xs ! j) = Some (rs ! j)" by auto
  show ?thesis
  proof
    assume "rs ! i = rs ! j"
    then show "hashPart1 (xs ! i) = hashPart1 (xs ! j) \<and> traceCompare (xs ! i) (xs ! j)"
      using lookup_trace_sound [OF ok i] lookup_trace_sound [OF ok j] by (simp add: traceCompare_key)
  next
    assume "hashPart1 (xs ! i) = hashPart1 (xs ! j) \<and> traceCompare (xs ! i) (xs ! j)"
    then have "lookup_trace (m', h') (xs ! i) = lookup_trace (m', h') (xs ! j)"
      by (simp add: lookup_trace_def find_same_def traceCompare_key split: option.splits)
    with i j show "rs ! i = rs ! j" by simp
  qed
qed

definition sample_trace :: "int list \<Rightarrow> Trace" where
  "sample_trace as = \<lparr>buffer = as, nptrs = int (length as), accessFrequency = 0, hashPart1 = 0\<rparr>"

definition empty_traces :: trace_store where
  "empty_traces = \<lparr>trace_at = (\<lambda>_. sample_trace []), next_trace = 0\<rparr>"

lemmas trace_eval = sample_trace_def empty_traces_def intern_get_def intern_def push_trace_def new_Trace_def find_same_def
  traceCompare_def memcmp_eq_def le_bytes_def upt_rec

theorem getBacktrace_shares_witness:
  "\<exists>m h. get_all intern_get [sample_trace [1, 2], sample_trace [1, 3]] (Map.empty, empty_traces) = Some ([0, 0], m, h)
     \<and> traceCompare (sample_trace [1, 2]) (sample_trace [1, 3])"
proof -
  obtain m h where r: "get_all intern_get [sample_trace [1, 2], sample_trace [1, 3]] (Map.empty, empty_traces) = Some ([0, 0], m, h)"
    by (simp add: trace_eval)
  from getBacktrace_shares [OF r, of 0 1] r show ?thesis by auto
qed

text \<open>
  C16: what a number stands for. Over a run, two requests get the same number exactly when they have the same static ID and call
  stacks with the same hash and the same length that agree in as many leading bytes as they have addresses, which is
  what \<open>memcmp\<close> is asked to compare; so equal call stacks share a number, and different ones may. The number is in the table
  with that static ID and such a call stack, so that \<open>getTraceAndStaticID\<close> recovers them, and it is never the reserved number 0.
\<close>

theorem saveCallstack_numbers:
  assumes "save_all h reqs no_callstacks = (us, cs)" and "length reqs < 2 ^ 64 - 1"
    and "i < length reqs" and "j < length reqs"
  shows "(us ! i = us ! j \<longleftrightarrow> fst (reqs ! i) = fst (reqs ! j)
        \<and> hashPart1 (trace_at h (snd (reqs ! i))) = hashPart1 (trace_at h (snd (reqs ! j)))
        \<and> traceCompare (trace_at h (snd (reqs ! i))) (trace_at h (snd (reqs ! j))))
     \<and> us ! i \<noteq> 0 \<and> (\<exists>tr. getTraceAndStaticID False cs (us ! i) = Some (Some tr, fst (reqs ! i))
            \<and> hashPart1 (trace_at h tr) = hashPart1 (trace_at h (snd (reqs ! i)))
            \<and> traceCompare (trace_at h tr) (trace_at h (snd (reqs ! i))))"
proof -
  have "unat (globalID no_callstacks) + length reqs < 2 ^ 64" using assms(2) by (simp add: no_callstacks_def)
  note f = save_all_facts [OF cs_ok_empty this assms(1)]
  have ok: "cs_ok h cs" using f by (rule conjunct1)
  have ex: "\<exists>d. dynamicTraces cs (us ! k) = Some d \<and> entry_class h d = stack_class h (fst (reqs ! k)) (snd (reqs ! k))"
    if "k < length reqs" for k using f that by simp
  obtain d where d: "dynamicTraces cs (us ! i) = Some d" "entry_class h d = stack_class h (fst (reqs ! i)) (snd (reqs ! i))"
    using ex [OF assms(3)] by auto
  obtain e where e: "dynamicTraces cs (us ! j) = Some e" "entry_class h e = stack_class h (fst (reqs ! j)) (snd (reqs ! j))"
    using ex [OF assms(4)] by auto
  have "inj_on (entry_class h) (ran (dynamicTraces cs))" using ok unfolding cs_ok_def by blast
  then have "entry_class h d = entry_class h e \<longleftrightarrow> d = e"
    using d(1) e(1) by (meson inj_on_eq_iff ranI)
  moreover have "dt_uniqueID d = us ! i" "dt_uniqueID e = us ! j" using ok d(1) e(1) unfolding cs_ok_def by blast+
  moreover have "us ! i \<noteq> 0" using ok d(1) by (auto simp: cs_ok_def)
  moreover have "dt_staticID d = fst (reqs ! i)" using d(2) by (simp add: stack_class_def)
  ultimately have eq: "us ! i = us ! j \<longleftrightarrow> entry_class h d = entry_class h e" and "us ! i \<noteq> 0" "dt_staticID d = fst (reqs ! i)"
    using d(1) e(1) by auto
  moreover have "getTraceAndStaticID False cs (us ! i) = Some (Some (dt_trace d), dt_staticID d)"
    by (simp add: getTraceAndStaticID_def d(1))
  ultimately show ?thesis
    unfolding eq d(2) e(2) using d(2) by (auto simp: stack_class_def traceCompare_key)
qed

definition sample_traces :: trace_store where
  "sample_traces = \<lparr>trace_at = (\<lambda>r. sample_trace [int r]), next_trace = 3\<rparr>"

theorem saveCallstack_numbers_witness:
  "fst (save_all sample_traces [(7, 1), (7, 2), (7, 1)] no_callstacks) = [1, 2, 1]
     \<and> \<not> (hashPart1 (trace_at sample_traces 1) = hashPart1 (trace_at sample_traces 2)
          \<and> traceCompare (trace_at sample_traces 1) (trace_at sample_traces 2))"
proof -
  obtain us cs where r: "save_all sample_traces [(7, 1), (7, 2), (7, 1)] no_callstacks = (us, cs)"
    by (cases "save_all sample_traces [(7, 1), (7, 2), (7, 1)] no_callstacks")
  have us: "us = [1, 2, 1]"
    using r by (simp add: no_callstacks_def saveCallstack_def incrementPushReturn_def Let_def bucket_def same_stack_def
        sample_traces_def myHashPart2_def trace_eval)
  from saveCallstack_numbers [OF r, of 0 1] have "\<not> (hashPart1 (trace_at sample_traces 1) = hashPart1 (trace_at sample_traces 2)
      \<and> traceCompare (trace_at sample_traces 1) (trace_at sample_traces 2))" by (simp add: us)
  then show ?thesis by (simp only: r us fst_conv) simp
qed

text \<open>
  \<open>memcmp\<close> compares as many bytes as a trace has addresses, and an address has eight: call stacks of up to eight
  addresses that agree in the first are one for the comparison, and the cache hands out the first one for both.
\<close>

theorem traceCompare_first_address:
  assumes "nptrs t1 = nptrs t2" and "nptrs t1 \<le> 8" and "buffer t1 = a # as" and "buffer t2 = a # bs"
  shows "traceCompare t1 t2"
  using assms by (simp add: traceCompare_def memcmp_eq_def le_bytes_def)

theorem traceCompare_first_address_witness:
  "\<exists>c h. get_all refer [sample_trace [1, 2], sample_trace [1, 3]] (new_LRUCache 200, empty_traces) = Some ([0, 0], c, h)
     \<and> traceCompare (sample_trace [1, 2]) (sample_trace [1, 3])"
proof -
  have "traceCompare (sample_trace [1, 2]) (sample_trace [1, 3])"
    by (rule traceCompare_first_address) (simp_all add: sample_trace_def)
  then show ?thesis
    by (simp add: refer_def new_LRUCache_def evict_def push_front_def move_front_def trace_eval)
qed

text \<open>
  The frequency cache keeps a call stack twice when it is taken twice while the cache fills up: the two objects are
  different.
\<close>

theorem insertOrGetTrace_duplicates:
  assumes "length cache < 9" and "insertOrGetTrace x (cache, h) = (r1, cache1, h1)"
    and "insertOrGetTrace x (cache1, h1) = (r2, cache2, h2)"
  shows "r1 \<noteq> r2"
  using assms by (auto simp: insertOrGetTrace_def new_Trace_def)

theorem insertOrGetTrace_duplicates_witness:
  "fst (insertOrGetTrace (sample_trace [1]) ([], empty_traces))
     \<noteq> fst (insertOrGetTrace (sample_trace [1]) (snd (insertOrGetTrace (sample_trace [1]) ([], empty_traces))))"
proof -
  obtain r1 c1 h1 r2 c2 h2 where r: "insertOrGetTrace (sample_trace [1]) ([], empty_traces) = (r1, c1, h1)"
    "insertOrGetTrace (sample_trace [1]) (c1, h1) = (r2, c2, h2)"
    by (metis prod_cases3)
  from insertOrGetTrace_duplicates [OF _ r] r show ?thesis by simp
qed

end
