(* ===== verification/Wrapper.thy ===== *)
theory Wrapper
  imports Texas_Runtime Trace_Table
begin

text \<open>
  \<open>src/include/wrapper.cpp\<close>: the functions that the compiler passes call in the instrumented program. They number the call
  stack of a use, drop accesses already seen in the current invocation of the region of interest, forward the rest to
  the TEXAS runtime, and at the end turn the states of the runtime into the saved data that the report tools read.
  The model is the build without the \<open>MEMORYTOOL_\<close> switches for statistics and counters. A call that blocks, aborts or
  dereferences a null pointer has the result \<open>None\<close>. \<open>pin_interface.cpp\<close> is the list of addresses that the Pin tool
  recorded during a call of uninstrumented code.
\<close>

section \<open>State\<close>

record ('w, 'r) wrapper =
  rt :: "('w, 'r) runtime"
  cstacks :: callstacks
  tstore :: trace_store
  loads :: "u64 list"
  stores :: "u64 list"
  disableTexas :: bool
  disableStateUses :: bool
  disableCallstack :: bool

definition with_rt ::
  "(('w, 'r) runtime \<Rightarrow> ('w, 'r) runtime option) \<Rightarrow> ('w, 'r) wrapper \<Rightarrow> ('w, 'r) wrapper option" where
  "with_rt f w = map_option (\<lambda>r. w\<lparr>rt := r\<rparr>) (f (rt w))"

text \<open>
  The default build of \<open>wrapper.cpp\<close>. A target of the Makefile that defines \<open>MEMORYTOOL_DISABLE_TRACKING_OPTIONS\<close> makes \<open>prologue\<close> overwrite
  all flags but the first with constants behind these assignments; that build is not modelled.
\<close>

definition prologue :: "int \<Rightarrow> int \<Rightarrow> int \<Rightarrow> int \<Rightarrow> int \<Rightarrow> int \<Rightarrow> int \<Rightarrow> int \<Rightarrow> ('w, 'r) wrapper \<Rightarrow> ('w, 'r) wrapper" where
  "prologue measureState inputArg outputArg cloneableArg transferArg cyclesArg usesArg callstackArg w =
     w\<lparr>rt := (rt w)\<lparr>r_store := (r_store (rt w))\<lparr>stateReductionTracking := measureState \<noteq> 0\<rparr>,
             r_config := (r_config (rt w))\<lparr>trackInput := inputArg \<noteq> 0, trackOutput := outputArg \<noteq> 0,
               trackCloneable := cloneableArg \<noteq> 0, trackTransfer := transferArg \<noteq> 0, trackCycles := cyclesArg \<noteq> 0\<rparr>\<rparr>,
       disableStateUses := usesArg \<noteq> 0, disableCallstack := callstackArg \<noteq> 0\<rparr>"

section \<open>Numbers of allocations and uses\<close>

definition alloc_id :: "u64 \<Rightarrow> tref option \<Rightarrow> ('w, 'r) wrapper \<Rightarrow> u64 \<times> ('w, 'r) wrapper" where
  "alloc_id i tr w =
     (if disableCallstack w then (i, w)
      else case saveCallstack (tstore w) i tr (cstacks w) of (u, cs) \<Rightarrow> (u, w\<lparr>cstacks := cs\<rparr>))"

definition use_id :: "u64 \<Rightarrow> tref option \<Rightarrow> ('w, 'r) wrapper \<Rightarrow> u64 \<times> ('w, 'r) wrapper" where
  "use_id i tr w = (if disableStateUses w then (0, w) else alloc_id i tr w)"

section \<open>Allocations and escapes\<close>

definition caratStateRemoveFromAllocationTableWrapper ::
  "('w, 'r) queue_ops \<Rightarrow> environment \<Rightarrow> u64 \<Rightarrow> ('w, 'r) wrapper \<Rightarrow> ('w, 'r) wrapper option" where
  "caratStateRemoveFromAllocationTableWrapper q env address w =
     (if disableTexas w then Some w else with_rt (RemoveFromAllocationTable q env address) w)"

definition caratStateAllocWrapper ::
  "('w, 'r) queue_ops \<Rightarrow> environment \<Rightarrow> u64 \<Rightarrow> u64 \<Rightarrow> u64 \<Rightarrow> tref option \<Rightarrow> ('w, 'r) wrapper \<Rightarrow> ('w, 'r) wrapper option" where
  "caratStateAllocWrapper q env i address n tr w =
     (if disableTexas w then Some w
      else case alloc_id i tr w of (u, w1) \<Rightarrow> with_rt (AddToAllocationTable q env address n u) w1)"

definition caratStateCallocWrapper ::
  "('w, 'r) queue_ops \<Rightarrow> environment \<Rightarrow> u64 \<Rightarrow> u64 \<Rightarrow> u64 \<Rightarrow> u64 \<Rightarrow> tref option \<Rightarrow> ('w, 'r) wrapper
   \<Rightarrow> ('w, 'r) wrapper option" where
  "caratStateCallocWrapper q env i address n sizeOfEntry tr w =
     (if disableTexas w then Some w
      else case alloc_id i tr w of (u, w1) \<Rightarrow> with_rt (AddCallocToAllocationTable q env address n sizeOfEntry u) w1)"

definition caratStateReallocWrapper ::
  "('w, 'r) queue_ops \<Rightarrow> environment \<Rightarrow> u64 \<Rightarrow> u64 \<Rightarrow> u64 \<Rightarrow> u64 \<Rightarrow> tref option \<Rightarrow> ('w, 'r) wrapper
   \<Rightarrow> ('w, 'r) wrapper option" where
  "caratStateReallocWrapper q env i address newAddress n tr w =
     (if disableTexas w then Some w
      else case alloc_id i tr w of (u, w1) \<Rightarrow> with_rt (HandleReallocInAllocationTable q env address newAddress n u) w1)"

definition caratAddToEscapeTableWrapper ::
  "('w, 'r) queue_ops \<Rightarrow> environment \<Rightarrow> u64 \<Rightarrow> ('w, 'r) wrapper \<Rightarrow> ('w, 'r) wrapper option" where
  "caratAddToEscapeTableWrapper q env p w =
     (if disableTexas w then Some w else with_rt (AddToEscapeTable q env p) w)"

section \<open>Accesses\<close>

text \<open>
  The loop over the elements of a store. Its index is an \<open>int\<close>, compared as an unsigned 64-bit number and narrowed after
  each step; with elements of size 0 it does not end.
\<close>

partial_function (option) store_loop ::
  "('w, 'r) queue_ops \<Rightarrow> environment \<Rightarrow> u64 \<Rightarrow> u64 \<Rightarrow> u64 \<Rightarrow> u64 \<Rightarrow> u32 \<Rightarrow> ('w, 'r) runtime \<Rightarrow> ('w, 'r) runtime option" where
  "store_loop q env p sizeInBytes sizeElementInBytes u i r =
     (if scast i < sizeInBytes then
        Option.bind (AddToState q env (p + scast i) 1 u r)
          (store_loop q env p sizeInBytes sizeElementInBytes u (ucast (scast i + sizeElementInBytes :: u64)))
      else Some r)"

declare store_loop.simps [code]

definition texasAddToStateWithInfoWrapper ::
  "('w, 'r) queue_ops \<Rightarrow> environment \<Rightarrow> u64 \<Rightarrow> u64 \<Rightarrow> u64 \<Rightarrow> u64 \<Rightarrow> tref option \<Rightarrow> ('w, 'r) wrapper
   \<Rightarrow> ('w, 'r) wrapper option" where
  "texasAddToStateWithInfoWrapper q env i p sizeInBytes sizeElementInBytes tr w =
     (if disableTexas w \<or> activeState (rt w) = None \<or> p \<in> set (stores w) then Some w
      else case use_id i tr (w\<lparr>stores := us_insert p (stores w)\<rparr>) of
        (u, w1) \<Rightarrow> with_rt (store_loop q env p sizeInBytes sizeElementInBytes u 0) w1)"

definition texasAddToStateLoad ::
  "('w, 'r) queue_ops \<Rightarrow> environment \<Rightarrow> u64 \<Rightarrow> u64 \<Rightarrow> tref option \<Rightarrow> ('w, 'r) wrapper \<Rightarrow> ('w, 'r) wrapper option" where
  "texasAddToStateLoad q env i p tr w =
     (if disableTexas w \<or> activeState (rt w) = None \<or> p \<in> set (loads w) then Some w
      else case use_id i tr (w\<lparr>loads := us_insert p (loads w)\<rparr>) of
        (u, w1) \<Rightarrow> with_rt (AddToState q env p 0 u) w1)"

text \<open>The length is computed in 64-bit arithmetic: the signed difference is converted before the multiplication.\<close>

definition setDirectState ::
  "('w, 'r) queue_ops \<Rightarrow> environment \<Rightarrow> u64 \<Rightarrow> u64 \<Rightarrow> int \<Rightarrow> int \<Rightarrow> u64 \<Rightarrow> u64 \<Rightarrow> tref option \<Rightarrow> ('w, 'r) wrapper
   \<Rightarrow> ('w, 'r) wrapper option" where
  "setDirectState q env i startPtr startIndVar stopIndVar elementBitwidth setCode tr w =
     (case activeState (rt w) of
        None \<Rightarrow> Some w
      | Some s \<Rightarrow>
          (if disableTexas w then Some w
           else case use_id i tr w of (u, w1) \<Rightarrow>
             (let lengthInBytes = (word_of_int ((stopIndVar - 1) - startIndVar) * elementBitwidth) div 8 in
              with_rt (SetStateRegion q env startPtr lengthInBytes (stateID (states (r_store (rt w1)) s)) setCode u) w1)))"

section \<open>Accesses that Pin recorded\<close>

datatype Address = TouchedAddress u64 bool | MallocAddress u64 u64 | FreeAddress u64

text \<open>
  What the Pin tool holds, in order, and what the loop makes of it: the tool takes the stub calls over and answers them.
  A record of a release is read and then dropped: the object made for it is not put into the vector.
\<close>

fun retrieveAddressesVector :: "Address list \<Rightarrow> Address list" where
  "retrieveAddressesVector [] = []"
| "retrieveAddressesVector (TouchedAddress a w # as) = TouchedAddress a w # retrieveAddressesVector as"
| "retrieveAddressesVector (MallocAddress a n # as) = MallocAddress a n # retrieveAddressesVector as"
| "retrieveAddressesVector (FreeAddress a # as) = retrieveAddressesVector as"

fun pin_loop ::
  "('w, 'r) queue_ops \<Rightarrow> environment \<Rightarrow> u64 \<Rightarrow> Address list \<Rightarrow> ('w, 'r) wrapper \<Rightarrow> ('w, 'r) wrapper option" where
  "pin_loop q env u [] w = Some w"
| "pin_loop q env u (TouchedAddress a isWritten # as) w =
     (if activeState (rt w) = None then Some w
      else if isWritten then
        (if a \<in> set (stores w) then pin_loop q env u as w
         else Option.bind (with_rt (AddToState q env a 1 u) (w\<lparr>stores := us_insert a (stores w)\<rparr>)) (pin_loop q env u as))
      else
        (if a \<in> set (loads w) then pin_loop q env u as w
         else Option.bind (with_rt (AddToState q env a 0 u) (w\<lparr>loads := us_insert a (loads w)\<rparr>)) (pin_loop q env u as)))"
| "pin_loop q env u (MallocAddress a n # as) w =
     Option.bind (with_rt (AddToAllocationTable q env a n u) w) (pin_loop q env u as)"
| "pin_loop q env u (FreeAddress a # as) w =
     Option.bind (with_rt (RemoveFromAllocationTable q env a) w) (pin_loop q env u as)"

definition texasAddMultiToStatePin ::
  "('w, 'r) queue_ops \<Rightarrow> environment \<Rightarrow> Address list \<Rightarrow> u64 \<Rightarrow> tref option \<Rightarrow> ('w, 'r) wrapper \<Rightarrow> ('w, 'r) wrapper option" where
  "texasAddMultiToStatePin q env recorded i tr w =
     (if disableTexas w then Some w
      else case use_id i tr w of (u, w1) \<Rightarrow> pin_loop q env u (retrieveAddressesVector recorded) w1)"

section \<open>Regions of interest\<close>

definition caratGetStateWrapper ::
  "('w, 'r) queue_ops \<Rightarrow> environment \<Rightarrow> string \<Rightarrow> u64 \<Rightarrow> ('w, 'r) wrapper \<Rightarrow> (u64 \<times> ('w, 'r) wrapper) option" where
  "caratGetStateWrapper q env funcName lineNum w =
     (if disableTexas w then Some (0, w)
      else map_option (\<lambda>(i, r). (i, w\<lparr>rt := r\<rparr>)) (GetState q env funcName lineNum 0 (rt w)))"

definition caratReportStateWrapper ::
  "('w, 'r) queue_ops \<Rightarrow> environment \<Rightarrow> u64 \<Rightarrow> ('w, 'r) wrapper \<Rightarrow> ('w, 'r) wrapper option" where
  "caratReportStateWrapper q env sid w =
     (if disableTexas w then Some w
      else map_option (\<lambda>(_, r). w\<lparr>rt := r, loads := [], stores := []\<rparr>) (EndState q env sid (rt w)))"

definition endStateInvocationWrapper ::
  "('w, 'r) queue_ops \<Rightarrow> environment \<Rightarrow> u64 \<Rightarrow> ('w, 'r) wrapper \<Rightarrow> ('w, 'r) wrapper option" where
  "endStateInvocationWrapper q env sid w = map_option (\<lambda>(_, r). w\<lparr>rt := r\<rparr>) (EndStateInvocation q env sid (rt w))"

section \<open>Saving the states\<close>

definition use_to_save :: "('w, 'r) wrapper \<Rightarrow> u64 \<Rightarrow> UseToSave option" where
  "use_to_save w uid =
     map_option (\<lambda>(tr, sid). \<lparr>use_trace = map_option (trace_at (tstore w)) tr, use_staticID = sid, use_uniqueID = uid\<rparr>)
       (getTraceAndStaticID (disableCallstack w) (cstacks w) uid)"

fun all_some :: "'a option list \<Rightarrow> 'a list option" where
  "all_some [] = Some []"
| "all_some (None # xs) = None"
| "all_some (Some x # xs) = map_option (Cons x) (all_some xs)"

text \<open>
  \<open>StateCommitInfoMap[state]\<close> inserts a null pointer for a state that is not there, which is dereferenced at once; this holds
  of the null state too.
\<close>

definition getAllocationToSave ::
  "('w, 'r) wrapper \<Rightarrow> aref \<Rightarrow> u64 list option \<Rightarrow> sref option \<Rightarrow> AllocationToSave option" where
  "getAllocationToSave w a offs state =
     (let h = r_store (rt w); al = allocs h a in
      case getTraceAndStaticID (disableCallstack w) (cstacks w) (origin al) of
        None \<Rightarrow> None
      | Some (tr, sid) \<Rightarrow>
          (case Option.bind state (map_of (StateCommitInfoMap al)) of
             None \<Rightarrow> None
           | Some info \<Rightarrow>
               (let saved = \<lparr>sa_trace = map_option (trace_at (tstore w)) tr, staticID = sid, uniqueID = origin al,
                             sa_pointer = pointer al, sa_length = len al,
                             sa_offsets = (case offs of None \<Rightarrow> [] | Some os \<Rightarrow> os), sa_uses = [],
                             isDirectState = regionBasedOffsets info\<rparr> in
                if disableStateUses w then Some saved
                else case Option.bind state (\<lambda>s. map_of (allocationInfo (states h s)) a) of
                  None \<Rightarrow> Some saved
                | Some uids \<Rightarrow> map_option (\<lambda>us. saved\<lparr>sa_uses := us\<rparr>) (all_some (map (use_to_save w) uids)))))"

fun saveStateSet ::
  "('w, 'r) wrapper \<Rightarrow> sref \<Rightarrow> aref list \<Rightarrow> stateAllocationsSet \<Rightarrow> AllocationToSave list option" where
  "saveStateSet w s seen [] = Some []"
| "saveStateSet w s seen ((a, offs) # es) =
     (if a \<in> set seen then saveStateSet w s seen es
      else case getAllocationToSave w a (Some offs) (Some s) of
        None \<Rightarrow> None
      | Some sa \<Rightarrow> map_option (Cons sa) (saveStateSet w s (a # seen) es))"

fun spoor_name :: "set_name \<Rightarrow> spoor_set" where
  "spoor_name SI = Input"
| "spoor_name SO = Output"
| "spoor_name SIO = IO"
| "spoor_name SCO = CloneableOutput"
| "spoor_name STO = TransferOutput"
| "spoor_name SCIO = CloneableIO"
| "spoor_name STIO = TransferIO"

definition empty_StateToSave :: StateToSave where
  "empty_StateToSave = \<lparr>saved_functionName = [], saved_lineNumber = 0, saved_sets = (\<lambda>_. []), saved_cycles = []\<rparr>"

text \<open>The seven sets of a state, saved one after the other behind what is there.\<close>

fun save_sets :: "('w, 'r) wrapper \<Rightarrow> sref \<Rightarrow> set_name list \<Rightarrow> StateToSave \<Rightarrow> StateToSave option" where
  "save_sets w s [] st = Some st"
| "save_sets w s (n # ns) st =
     (case saveStateSet w s [] (final_spoor (states (r_store (rt w)) s) (spoor_name n)) of
        None \<Rightarrow> None
      | Some as \<Rightarrow> save_sets w s ns (st\<lparr>saved_sets := (saved_sets st)(n := saved_sets st n @ as)\<rparr>))"

fun save_states :: "('w, 'r) wrapper \<Rightarrow> (u64 \<times> sref) list \<Rightarrow> StatesToSave \<Rightarrow> StatesToSave option" where
  "save_states w [] out = Some out"
| "save_states w ((_, s) # m) out =
     (let st = states (r_store (rt w)) s;
          old = (case map_of out (stateID st) of None \<Rightarrow> empty_StateToSave | Some x \<Rightarrow> x) in
      case save_sets w s [SI, SO, SIO, SCO, STO, SCIO, STIO]
             (old\<lparr>saved_functionName := functionName st, saved_lineNumber := lineNumber st\<rparr>) of
        None \<Rightarrow> None
      | Some saved \<Rightarrow> save_states w m (um_assign (stateID st) saved out))"

text \<open>
  The main thread sends a request to look for cycles and spins until the worker has served it, which is when all queued
  batches are done; \<open>fuel\<close> bounds their number. Then it sets its variable back, on which the worker spins, and
  returns before it saves the cycles. In the serial mode the worker is the main thread itself, which waits for nobody.
\<close>

fun drain_queue ::
  "('w, 'r) queue_ops \<Rightarrow> environment \<Rightarrow> nat \<Rightarrow> ('w, 'r) runtime \<Rightarrow> ('w, 'r) runtime option" where
  "drain_queue q env 0 r = None"
| "drain_queue q env (Suc fuel) r =
     (case wpop q (texasWorkEntriesQueue r) of
        None \<Rightarrow> Some r
      | Some (b, wq) \<Rightarrow> Option.bind (serialProcessShadowBatch q env b (r\<lparr>texasWorkEntriesQueue := wq\<rparr>)) (drain_queue q env fuel))"

definition FindCycleInAllocationMapWrapper ::
  "('w, 'r) queue_ops \<Rightarrow> environment \<Rightarrow> nat \<Rightarrow> u64 \<Rightarrow> ('w, 'r) wrapper \<Rightarrow> ('w, 'r) wrapper option" where
  "FindCycleInAllocationMapWrapper q env fuel sync w =
     (if \<not> trackCycles (r_config (rt w)) then Some w
      else with_rt (\<lambda>r. Option.bind (FindCycleInAllocationMap q env sync r)
             (drain_queue q (env\<lparr>env_sync := (env_sync env)(sync := True)\<rparr>) fuel)) w)"

definition PrintJSONWrapper ::
  "('w, 'r) queue_ops \<Rightarrow> environment \<Rightarrow> nat \<Rightarrow> u64 \<Rightarrow> ('w, 'r) wrapper \<Rightarrow> (StatesToSave option \<times> ('w, 'r) wrapper) option" where
  "PrintJSONWrapper q env fuel sync w =
     (if disableTexas w then Some (None, w)
      else case FindCycleInAllocationMapWrapper q env fuel sync w of
        None \<Rightarrow> None
      | Some w1 \<Rightarrow>
          (case with_rt (ReportStatistics q env fuel) w1 of
             None \<Rightarrow> None
           | Some w2 \<Rightarrow> map_option (\<lambda>out. (Some out, w2)) (save_states w2 (stateMap (r_store (rt w2))) [])))"

section \<open>Room for entries\<close>

text \<open>How many entries the main thread can log without waiting for a buffer.\<close>

definition room :: "('r \<Rightarrow> shadowEntry list list) \<Rightarrow> ('w, 'r) runtime \<Rightarrow> nat" where
  "room relems r = SHADOW_WINDOW r - slotStart r + SHADOW_WINDOW r * length (relems (texasReadyBatchEntriesQueue r))"

definition ready_for :: "('r \<Rightarrow> shadowEntry list list) \<Rightarrow> nat \<Rightarrow> ('w, 'r) runtime \<Rightarrow> bool" where
  "ready_for relems n r \<longleftrightarrow> buffers_ok relems r \<and> n \<le> room relems r \<and> \<not> disableOptimizations (r_config r) \<and> \<not> inRT r"

lemma room_inRT [simp]:
  "room relems (r\<lparr>inRT := b\<rparr>) = room relems r" "buffers_ok relems (r\<lparr>inRT := b\<rparr>) = buffers_ok relems r"
  "entry_log welems (r\<lparr>inRT := b\<rparr>) = entry_log welems r"
  by (simp_all add: room_def buffers_ok_def entry_log_def)

lemma put_entry_room:
  assumes fifo: "queues_fifo q welems relems" and ok: "buffers_ok relems r" and pos: "0 < room relems r"
    and opt: "\<not> disableOptimizations (r_config r)"
  shows "\<exists>r' e. put_entry q env f r = Some r' \<and> entry_log welems r' = entry_log welems r @ [f e]
     \<and> buffers_ok relems r' \<and> r_store r' = r_store r \<and> activeState r' = activeState r
     \<and> r_config r' = r_config r \<and> inRT r' = inRT r \<and> Suc (room relems r') = room relems r"
proof -
  have ready: "relems (texasReadyBatchEntriesQueue r) \<noteq> []" if "slotStart r = SHADOW_WINDOW r"
    using pos that by (auto simp: room_def)
  obtain r' e where r': "put_entry q env f r = Some r'" "entry_log welems r' = entry_log welems r @ [f e]"
    "buffers_ok relems r'" "r_store r' = r_store r" "activeState r' = activeState r"
    "r_config r' = r_config r" "inRT r' = inRT r"
    using put_entry_effect [OF fifo ok ready opt] by blast
  have "Suc (room relems r') = room relems r"
  proof (cases "slotStart r \<ge> SHADOW_WINDOW r")
    case False
    then show ?thesis using r'(1) by (auto simp: put_entry_def getFreeSlot_def room_def)
  next
    case True
    then have full: "slotStart r = SHADOW_WINDOW r" using ok by (simp add: buffers_ok_def)
    let ?b = "\<lparr>numEntries = SHADOW_WINDOW r, shadowEntries = texasWorkEntries r, status = NEW_BATCH, batchNumber = curBatchNumber r\<rparr>"
    let ?r = "r\<lparr>curBatchNumber := curBatchNumber r + 1,
       texasWorkEntriesQueue := wpush q ?b (texasWorkEntriesQueue r), slotStart := 0\<rparr>"
    obtain b rq where b: "relems (texasReadyBatchEntriesQueue r) = b # relems rq"
      "waitPop q ?r = Some (?r\<lparr>texasWorkEntries := b, texasReadyBatchEntriesQueue := rq\<rparr>)"
      using waitPop_ready [OF fifo, of ?r] ready [OF full] by auto
    have "0 < SHADOW_WINDOW r" using ok by (simp add: buffers_ok_def)
    then show ?thesis
      using r'(1) b full opt by (auto simp: put_entry_def getFreeSlot_def batchFull_def Let_def room_def)
  qed
  with r' show ?thesis by blast
qed

lemma AddToState_logs:
  assumes fifo: "queues_fifo q welems relems" and ok: "ready_for relems (Suc n) r" and act: "activeState r \<noteq> None"
  shows "\<exists>r' e. AddToState q env p rw u r = Some r' \<and> entry_log welems r' = entry_log welems r @ [access_entry p rw u e]
     \<and> ready_for relems n r' \<and> activeState r' = activeState r"
proof -
  let ?r = "r\<lparr>inRT := True\<rparr>"
  have "buffers_ok relems ?r" "0 < room relems ?r" "\<not> disableOptimizations (r_config ?r)"
    using ok by (simp_all add: ready_for_def)
  from put_entry_room [OF fifo this, of env "access_entry p rw u"] obtain r' e where
    r': "put_entry q env (access_entry p rw u) ?r = Some r'" "entry_log welems r' = entry_log welems ?r @ [access_entry p rw u e]"
      "buffers_ok relems r'" "activeState r' = activeState ?r" "r_config r' = r_config ?r" "Suc (room relems r') = room relems ?r"
    by blast
  have "AddToState q env p rw u r = Some (r'\<lparr>inRT := False\<rparr>)"
    using ok act r'(1) by (auto simp: AddToState_def guarded_def ready_for_def)
  moreover have "ready_for relems n (r'\<lparr>inRT := False\<rparr>)"
    using ok r'(3,5,6) by (simp add: ready_for_def)
  ultimately show ?thesis using r'(2,4) by auto
qed

section \<open>The elements of a store\<close>

definition elements :: "nat \<Rightarrow> nat \<Rightarrow> nat \<Rightarrow> nat list" where
  "elements i n m = filter (\<lambda>k. m dvd k) [i..<n]"

lemma elements_step:
  assumes "m dvd i" "i < n" "0 < m"
  shows "elements i n m = i # elements (i + m) n m"
proof -
  have gap: "filter (\<lambda>k. m dvd k) [Suc i..<j] = []" if "j \<le> i + m" for j
  proof -
    have "\<not> m dvd k" if "i < k" "k < i + m" for k
    proof
      assume "m dvd k"
      then have "m dvd k - i" using assms(1) by (simp add: dvd_diff_nat)
      then have "m \<le> k - i" using \<open>i < k\<close> by (intro dvd_imp_le) simp_all
      with \<open>k < i + m\<close> \<open>i < k\<close> show False by simp
    qed
    then show ?thesis using that by (auto simp: filter_empty_conv)
  qed
  have "elements i n m = i # filter (\<lambda>k. m dvd k) [Suc i..<n]"
    using assms by (simp add: elements_def upt_conv_Cons)
  also have "filter (\<lambda>k. m dvd k) [Suc i..<n] = elements (i + m) n m"
  proof (cases "i + m \<le> n")
    case True
    have "[Suc i..<n] = [Suc i..<i + m] @ [i + m..<n]"
      using True assms(3) by (metis Suc_leI le_add_diff_inverse less_add_same_cancel1 upt_add_eq_append)
    then show ?thesis using gap [of "i + m"] by (simp add: elements_def)
  next
    case False
    then show ?thesis using gap [of n] by (simp add: elements_def)
  qed
  finally show ?thesis .
qed

lemma scast_index: "i < 2 ^ 31 \<Longrightarrow> (scast (of_nat i :: u32) :: u64) = of_nat i"
proof -
  assume i: "i < 2 ^ 31"
  then have "sint (of_nat i :: u32) = int i"
    by (simp add: sint_uint unsigned_of_nat take_bit_nat_eq_self signed_take_bit_int_eq_self of_nat_take_bit [symmetric])
  then show ?thesis by (simp add: scast_eq)
qed

lemma index_step:
  assumes "i + unat m < 2 ^ 64"
  shows "(ucast (of_nat i + m :: u64) :: u32) = of_nat (i + unat m)"
proof -
  have "(of_nat i + m :: u64) = of_nat (i + unat m)" by simp
  then show ?thesis using assms by (simp add: unsigned_of_nat take_bit_nat_eq_self del: of_nat_add)
qed

lemma store_loop_logs:
  assumes fifo: "queues_fifo q welems relems" and m: "0 < unat m" and small: "unat n + unat m \<le> 2 ^ 31"
  shows "unat m dvd i \<Longrightarrow> i < unat n + unat m \<Longrightarrow> ready_for relems (length (elements i (unat n) (unat m)) + k) r \<Longrightarrow>
     activeState r \<noteq> None \<Longrightarrow>
     \<exists>r' es. store_loop q env p n m u (of_nat i) r = Some r' \<and> entry_log welems r' = entry_log welems r @ es
       \<and> list_all2 (\<lambda>j e. \<exists>e0. e = access_entry (p + of_nat j) 1 u e0) (elements i (unat n) (unat m)) es
       \<and> ready_for relems k r' \<and> activeState r' = activeState r"
proof (induction "unat n - i" arbitrary: i r rule: less_induct)
  case less
  have ix: "(scast (of_nat i :: u32) :: u64) = of_nat i" using less.prems(2) small by (intro scast_index) simp
  have lt: "of_nat i < n \<longleftrightarrow> i < unat n"
    using less.prems(2) small by (simp add: word_less_nat_alt unat_of_nat take_bit_nat_eq_self)
  show ?case
  proof (cases "i < unat n")
    case False
    then have "store_loop q env p n m u (of_nat i) r = Some r" using lt by (subst store_loop.simps) (simp add: ix)
    then show ?thesis using False less.prems by (auto simp: elements_def)
  next
    case True
    note el = elements_step [OF less.prems(1) True m]
    from AddToState_logs [OF fifo _ less.prems(4), of "length (elements (i + unat m) (unat n) (unat m)) + k" env "p + of_nat i" 1 u]
      less.prems(3) el obtain r1 e where r1: "AddToState q env (p + of_nat i) 1 u r = Some r1"
        "entry_log welems r1 = entry_log welems r @ [access_entry (p + of_nat i) 1 u e]"
        "ready_for relems (length (elements (i + unat m) (unat n) (unat m)) + k) r1" "activeState r1 = activeState r"
      by auto
    have nx: "(ucast (scast (of_nat i :: u32) + m :: u64) :: u32) = of_nat (i + unat m)"
      unfolding ix by (rule index_step) (use less.prems(2) small in simp)
    have dec: "unat n - (i + unat m) < unat n - i" using True m by simp
    have "unat m dvd i + unat m" "i + unat m < unat n + unat m" using less.prems(1) True by simp_all
    from less.hyps [OF dec this r1(3)] less.prems(4) r1(4) obtain r' es where r': "store_loop q env p n m u (of_nat (i + unat m)) r1 = Some r'"
      "entry_log welems r' = entry_log welems r1 @ es"
      "list_all2 (\<lambda>j e. \<exists>e0. e = access_entry (p + of_nat j) 1 u e0) (elements (i + unat m) (unat n) (unat m)) es"
      "ready_for relems k r'" "activeState r' = activeState r1" by auto
    have "store_loop q env p n m u (of_nat i) r = Some r'"
      using True lt r1(1) r'(1) nx by (subst store_loop.simps) (simp add: ix)
    then show ?thesis using r' r1 el by auto
  qed
qed

section \<open>Accesses seen before\<close>

lemma use_id_keeps:
  assumes "use_id i tr w = (u, w1)"
  shows "rt w1 = rt w" "loads w1 = loads w" "stores w1 = stores w" "disableTexas w1 = disableTexas w"
  using assms by (auto simp: use_id_def alloc_id_def split: if_splits prod.splits)

lemma load_logs:
  assumes fifo: "queues_fifo q welems relems" and ok: "ready_for relems (Suc n) (rt w)"
    and on: "\<not> disableTexas w" "activeState (rt w) \<noteq> None"
  shows "\<exists>w' es. texasAddToStateLoad q env i p tr w = Some w' \<and> entry_log welems (rt w') = entry_log welems (rt w) @ es
     \<and> map (\<lambda>e. (op_of e, ptr e)) es = (if p \<in> set (loads w) then [] else [(Some STATE_ADD_READ, p)])
     \<and> ready_for relems n (rt w') \<and> activeState (rt w') = activeState (rt w)
     \<and> \<not> disableTexas w' \<and> set (loads w') = insert p (set (loads w)) \<and> stores w' = stores w"
proof (cases "p \<in> set (loads w)")
  case True
  then show ?thesis using ok on by (auto simp: texasAddToStateLoad_def ready_for_def)
next
  case False
  obtain u w1 where u: "use_id i tr (w\<lparr>loads := us_insert p (loads w)\<rparr>) = (u, w1)"
    by (cases "use_id i tr (w\<lparr>loads := us_insert p (loads w)\<rparr>)")
  note k = use_id_keeps [OF u]
  from AddToState_logs [OF fifo ok on(2), of env p 0 u] obtain r' e where r': "AddToState q env p 0 u (rt w) = Some r'"
    "entry_log welems r' = entry_log welems (rt w) @ [access_entry p 0 u e]" "ready_for relems n r'"
    "activeState r' = activeState (rt w)" by blast
  have "op_of (access_entry p 0 u e) = Some STATE_ADD_READ"
    by (simp add: access_entry_def entry_eval)
  then show ?thesis
    using False on r' k u by (auto simp: texasAddToStateLoad_def with_rt_def access_entry_def)
qed

text \<open>A store logs one entry for each of its elements.\<close>

definition stored_at :: "u64 \<Rightarrow> u64 \<Rightarrow> u64 \<Rightarrow> u64 list" where
  "stored_at p n m = map (\<lambda>j. p + of_nat j) (elements 0 (unat n) (unat m))"

lemma store_logs:
  assumes fifo: "queues_fifo q welems relems" and ok: "ready_for relems (length (stored_at p n m) + k) (rt w)"
    and on: "\<not> disableTexas w" "activeState (rt w) \<noteq> None" and sz: "0 < unat m" "unat n + unat m \<le> 2 ^ 31"
  shows "\<exists>w' es. texasAddToStateWithInfoWrapper q env i p n m tr w = Some w'
     \<and> entry_log welems (rt w') = entry_log welems (rt w) @ es
     \<and> map (\<lambda>e. (op_of e, ptr e)) es = (if p \<in> set (stores w) then [] else map (Pair (Some STATE_ADD_WRITE)) (stored_at p n m))
     \<and> ready_for relems k (rt w') \<and> activeState (rt w') = activeState (rt w)
     \<and> \<not> disableTexas w' \<and> set (stores w') = insert p (set (stores w)) \<and> loads w' = loads w"
proof (cases "p \<in> set (stores w)")
  case True
  then show ?thesis using ok on by (auto simp: texasAddToStateWithInfoWrapper_def ready_for_def)
next
  case False
  obtain u w1 where u: "use_id i tr (w\<lparr>stores := us_insert p (stores w)\<rparr>) = (u, w1)"
    by (cases "use_id i tr (w\<lparr>stores := us_insert p (stores w)\<rparr>)")
  note k = use_id_keeps [OF u]
  obtain r' es where r': "store_loop q env p n m u 0 (rt w) = Some r'"
    "entry_log welems r' = entry_log welems (rt w) @ es"
    "list_all2 (\<lambda>j e. \<exists>e0. e = access_entry (p + of_nat j) 1 u e0) (elements 0 (unat n) (unat m)) es"
    "ready_for relems k r'" "activeState r' = activeState (rt w)"
    using store_loop_logs [OF fifo sz, of 0 k "rt w" env p u] sz ok on(2) by (auto simp: stored_at_def)
  have acc: "op_of (access_entry a 1 u e) = Some STATE_ADD_WRITE" "ptr (access_entry a 1 u e) = a" for a e
    by (simp_all add: access_entry_def entry_eval)
  have "map (\<lambda>e. (op_of e, ptr e)) es = map (Pair (Some STATE_ADD_WRITE)) (stored_at p n m)"
    using r'(3) unfolding stored_at_def map_map by (induction rule: list_all2_induct) (auto simp: acc)
  then show ?thesis
    using False on r' k u by (auto simp: texasAddToStateWithInfoWrapper_def with_rt_def)
qed

text \<open>
  The accesses of a program, in order: the pointer, for a store the sizes of the value and of its elements, the ID and
  the call stack. An access names addresses: a load its pointer, a store one address for each element.
\<close>

datatype access = Load u64 u64 "tref option" | Store u64 u64 u64 u64 "tref option"

fun call_access ::
  "('w, 'r) queue_ops \<Rightarrow> environment \<Rightarrow> access \<Rightarrow> ('w, 'r) wrapper \<Rightarrow> ('w, 'r) wrapper option" where
  "call_access q env (Load p i tr) w = texasAddToStateLoad q env i p tr w"
| "call_access q env (Store p n m i tr) w = texasAddToStateWithInfoWrapper q env i p n m tr w"

fun run_accesses ::
  "('w, 'r) queue_ops \<Rightarrow> environment \<Rightarrow> access list \<Rightarrow> ('w, 'r) wrapper \<Rightarrow> ('w, 'r) wrapper option" where
  "run_accesses q env [] w = Some w"
| "run_accesses q env (x # xs) w = Option.bind (call_access q env x w) (run_accesses q env xs)"

fun named :: "access \<Rightarrow> (bool \<times> u64) list" where
  "named (Load p i tr) = [(False, p)]"
| "named (Store p n m i tr) = map (Pair True) (stored_at p n m)"

abbreviation all_named :: "access list \<Rightarrow> (bool \<times> u64) list" where
  "all_named xs \<equiv> concat (map named xs)"

text \<open>The first load and the first store with each pointer.\<close>

fun first_uses :: "u64 set \<Rightarrow> u64 set \<Rightarrow> access list \<Rightarrow> access list" where
  "first_uses ls ss [] = []"
| "first_uses ls ss (Load p i tr # xs) =
     (if p \<in> ls then first_uses ls ss xs else Load p i tr # first_uses (insert p ls) ss xs)"
| "first_uses ls ss (Store p n m i tr # xs) =
     (if p \<in> ss then first_uses ls ss xs else Store p n m i tr # first_uses ls (insert p ss) xs)"

definition access_op :: "bool \<times> u64 \<Rightarrow> operations option \<times> u64" where
  "access_op x = (Some (if fst x then STATE_ADD_WRITE else STATE_ADD_READ), snd x)"

fun sizes_ok :: "access \<Rightarrow> bool" where
  "sizes_ok (Load p i tr) \<longleftrightarrow> True"
| "sizes_ok (Store p n m i tr) \<longleftrightarrow> 0 < unat m \<and> unat n + unat m \<le> 2 ^ 31"

lemma ready_for_mono: "ready_for relems n r \<Longrightarrow> m \<le> n \<Longrightarrow> ready_for relems m r"
  by (simp add: ready_for_def)

lemma run_accesses_logs:
  assumes fifo: "queues_fifo q welems relems"
  shows "\<forall>x \<in> set xs. sizes_ok x \<Longrightarrow> ready_for relems (length (all_named xs)) (rt w) \<Longrightarrow> \<not> disableTexas w \<Longrightarrow> activeState (rt w) \<noteq> None \<Longrightarrow>
     \<exists>w' es. run_accesses q env xs w = Some w' \<and> entry_log welems (rt w') = entry_log welems (rt w) @ es
       \<and> map (\<lambda>e. (op_of e, ptr e)) es = map access_op (all_named (first_uses (set (loads w)) (set (stores w)) xs))"
proof (induction xs arbitrary: w)
  case (Cons x xs)
  have "\<exists>w1 es1. call_access q env x w = Some w1 \<and> entry_log welems (rt w1) = entry_log welems (rt w) @ es1
      \<and> ready_for relems (length (all_named xs)) (rt w1) \<and> activeState (rt w1) = activeState (rt w) \<and> \<not> disableTexas w1
      \<and> map access_op (all_named (first_uses (set (loads w)) (set (stores w)) (x # xs)))
        = map (\<lambda>e. (op_of e, ptr e)) es1 @ map access_op (all_named (first_uses (set (loads w1)) (set (stores w1)) xs))"
  proof (cases x)
    case (Load p i tr)
    have "ready_for relems (Suc (length (all_named xs))) (rt w)" using Cons.prems(2) Load by simp
    from load_logs [OF fifo this Cons.prems(3,4), of env i p tr] show ?thesis
      by (auto simp: Load access_op_def insert_absorb)
  next
    case (Store p n m i tr)
    have "ready_for relems (length (stored_at p n m) + length (all_named xs)) (rt w)" "0 < unat m" "unat n + unat m \<le> 2 ^ 31"
      using Cons.prems(1,2) Store by simp_all
    from store_logs [OF fifo this(1) Cons.prems(3,4) this(2,3), of env i tr] show ?thesis
      by (auto simp: Store access_op_def insert_absorb o_def)
  qed
  then obtain w1 es1 where w1: "call_access q env x w = Some w1" "entry_log welems (rt w1) = entry_log welems (rt w) @ es1"
    "ready_for relems (length (all_named xs)) (rt w1)" "activeState (rt w1) = activeState (rt w)" "\<not> disableTexas w1"
    "map access_op (all_named (first_uses (set (loads w)) (set (stores w)) (x # xs)))
      = map (\<lambda>e. (op_of e, ptr e)) es1 @ map access_op (all_named (first_uses (set (loads w1)) (set (stores w1)) xs))" by blast
  from Cons.IH [OF _ w1(3,5)] Cons.prems(1,4) w1(4) obtain w' es where w': "run_accesses q env xs w1 = Some w'"
    "entry_log welems (rt w') = entry_log welems (rt w1) @ es"
    "map (\<lambda>e. (op_of e, ptr e)) es = map access_op (all_named (first_uses (set (loads w1)) (set (stores w1)) xs))" by auto
  then show ?case using w1(1,2,6) by (intro exI [of _ w'] exI [of _ "es1 @ es"]) simp
qed simp

section \<open>Dropping them keeps the class\<close>

definition kinds :: "u64 \<Rightarrow> (bool \<times> u64) list \<Rightarrow> bool list" where
  "kinds p xs = map fst (filter (\<lambda>x. snd x = p) xs)"

text \<open>The first read and the first write, when \<open>r\<close> and \<open>w\<close> say whether there has been one.\<close>

fun firsts :: "bool \<Rightarrow> bool \<Rightarrow> bool list \<Rightarrow> bool list" where
  "firsts r w [] = []"
| "firsts r w (x # xs) =
     (if (if x then w else r) then firsts r w xs else x # (if x then firsts r True xs else firsts True w xs))"

lemma write_in_firsts: "True \<in> set (firsts r w xs) \<longleftrightarrow> \<not> w \<and> True \<in> set xs"
  by (induction r w xs rule: firsts.induct) auto

lemma invoke_firsts: "invoke (firsts False False acc) c = invoke acc c"
proof (cases acc)
  case (Cons x xs)
  then have f: "firsts False False acc = x # firsts (\<not> x) x xs" by simp
  show ?thesis
  proof (cases c)
    case None
    then show ?thesis unfolding f Cons by (cases x) (simp_all add: write_in_firsts)
  next
    case (Some k)
    then show ?thesis unfolding f Cons by (cases k; cases x) (simp_all add: write_in_firsts)
  qed
qed simp

lemma firsts_append:
  "firsts r w (xs @ ys) = firsts r w xs @ firsts (r \<or> False \<in> set xs) (w \<or> True \<in> set xs) ys"
  by (induction r w xs rule: firsts.induct) auto

lemma firsts_seen: "(False \<in> set xs \<longrightarrow> r) \<Longrightarrow> (True \<in> set xs \<longrightarrow> w) \<Longrightarrow> firsts r w xs = []"
  by (induction xs) auto

lemma in_kinds [simp]: "k \<in> set (kinds a xs) \<longleftrightarrow> (k, a) \<in> set xs"
  by (force simp: kinds_def)

lemma kinds_append [simp]: "kinds a (xs @ ys) = kinds a xs @ kinds a ys"
  by (simp add: kinds_def)

text \<open>Stores with the same pointer have the sizes that \<open>ext\<close> gives for it.\<close>

fun sized_by :: "(u64 \<Rightarrow> u64 \<times> u64) \<Rightarrow> access \<Rightarrow> bool" where
  "sized_by ext (Load p i tr) \<longleftrightarrow> True"
| "sized_by ext (Store p n m i tr) \<longleftrightarrow> ext p = (n, m)"

lemma firsts_first_uses:
  assumes "\<forall>x \<in> set xs. sized_by ext x"
    and "a \<in> ls \<longrightarrow> r" and "\<forall>p \<in> ss. a \<in> set (stored_at p (fst (ext p)) (snd (ext p))) \<longrightarrow> w"
  shows "firsts r w (kinds a (all_named (first_uses ls ss xs))) = firsts r w (kinds a (all_named xs))"
  using assms
proof (induction ls ss xs arbitrary: r w rule: first_uses.induct)
  case (1 ls ss)
  then show ?case by simp
next
  case (2 ls ss p i tr xs)
  let ?k = "kinds a (named (Load p i tr))"
  have "firsts r w ?k = [] \<and> (r \<or> False \<in> set ?k) = r \<and> (w \<or> True \<in> set ?k) = w" if "p \<in> ls"
    using that "2.prems"(2) by (cases "a = p") (simp_all add: kinds_def)
  moreover have "a \<in> insert p ls \<longrightarrow> r \<or> False \<in> set ?k" using "2.prems"(2) by auto
  ultimately show ?case
    using 2(1) [of r w] 2(2) [of "r \<or> False \<in> set ?k" "w \<or> True \<in> set ?k"] "2.prems"
    by (simp add: firsts_append del: named.simps)
next
  case (3 ls ss p n m i tr xs)
  let ?k = "kinds a (named (Store p n m i tr))"
  have e: "ext p = (n, m)" using "3.prems"(1) by simp
  have "a \<in> set (stored_at p n m) \<longrightarrow> w" if "p \<in> ss" using "3.prems"(3) that e by fastforce
  then have "firsts r w ?k = [] \<and> (r \<or> False \<in> set ?k) = r \<and> (w \<or> True \<in> set ?k) = w" if "p \<in> ss"
    using that by (intro conjI firsts_seen) auto
  moreover have "\<forall>q \<in> insert p ss. a \<in> set (stored_at q (fst (ext q)) (snd (ext q))) \<longrightarrow> w \<or> True \<in> set ?k"
    using "3.prems"(3) e by auto
  ultimately show ?case
    using 3(1) [of r w] 3(2) [of "r \<or> False \<in> set ?k" "w \<or> True \<in> set ?k"] "3.prems"
    by (simp add: firsts_append del: named.simps)
qed

text \<open>
  C3: inside one invocation of a region, without nested regions, the wrapper drops a load or a store whose pointer it has already
  seen in a load, or in a store, and this loses nothing. In an invocation that starts with no access seen, the
  runtime's log grows by exactly the entries of the first load and of the first store with each pointer, one for each
  element stored, in the order of the program; and for every address and every earlier history the class that these
  entries mean is the class that all accesses mean, provided that stores with the same pointer have the same size.
\<close>

theorem dropped_accesses_keep_class:
  assumes "queues_fifo q welems relems" and "\<forall>x \<in> set xs. sizes_ok x" and ext: "\<forall>x \<in> set xs. sized_by ext x"
    and "ready_for relems (length (all_named xs)) (rt w)" and "\<not> disableTexas w" and "activeState (rt w) \<noteq> None"
    and "loads w = []" and "stores w = []"
  shows "\<exists>w' es. run_accesses q env xs w = Some w' \<and> entry_log welems (rt w') = entry_log welems (rt w) @ es
     \<and> map (\<lambda>e. (op_of e, ptr e)) es = map access_op (all_named (first_uses {} {} xs))
     \<and> (\<forall>a hist. classify (hist @ [kinds a (all_named (first_uses {} {} xs))])
                = classify (hist @ [kinds a (all_named xs)]))"
proof -
  have "classify (hist @ [kinds a (all_named (first_uses {} {} xs))]) = classify (hist @ [kinds a (all_named xs)])" for a hist
    using firsts_first_uses [OF ext, of a "{}" False "{}" False] unfolding classify_snoc
    by (metis empty_iff invoke_firsts)
  then show ?thesis
    using run_accesses_logs [OF assms(1,2,4-6), of env] assms(7,8) by auto
qed

text \<open>
  The condition on the sizes is needed: after a store with a pointer, a larger one with the same pointer leaves no entry,
  whatever its size is.
\<close>

theorem larger_store_is_lost:
  assumes "texasAddToStateWithInfoWrapper q env i p n m tr w = Some w1" and "activeState (rt w) \<noteq> None"
  shows "texasAddToStateWithInfoWrapper q env i' p n' m' tr' w1 = Some w1"
proof (cases "disableTexas w \<or> p \<in> set (stores w)")
  case True
  then show ?thesis using assms by (auto simp: texasAddToStateWithInfoWrapper_def)
next
  case False
  obtain u w2 where u: "use_id i tr (w\<lparr>stores := us_insert p (stores w)\<rparr>) = (u, w2)"
    by (cases "use_id i tr (w\<lparr>stores := us_insert p (stores w)\<rparr>)")
  then have "p \<in> set (stores w1)"
    using assms False use_id_keeps [OF u] by (auto simp: texasAddToStateWithInfoWrapper_def with_rt_def)
  then show ?thesis by (simp add: texasAddToStateWithInfoWrapper_def)
qed

definition sample_wrapper :: "(shadowBatch list, shadowEntry list list) wrapper" where
  "sample_wrapper =
     \<lparr>rt = sample_runtime\<lparr>activeState := Some 0, SHADOW_WINDOW := 4, slotStart := 0,
        texasWorkEntries := replicate 4 (acc_entry REDUNDANT 0), texasReadyBatchEntriesQueue := []\<rparr>,
      cstacks = no_callstacks, tstore = empty_traces, loads = [], stores = [],
      disableTexas = False, disableStateUses = True, disableCallstack = True\<rparr>"

lemma sample_wrapper_ready: "ready_for (\<lambda>rq. rq) 4 (rt sample_wrapper)"
  by (simp add: ready_for_def buffers_ok_def room_def sample_wrapper_def sample_runtime_def all_on_def)

theorem dropped_accesses_keep_class_witness:
  "\<exists>w' es. run_accesses list_queues \<lparr>env_mem = (\<lambda>_. 0), env_scc = (\<lambda>_. []), env_sync = (\<lambda>_. True)\<rparr>
       [Load 64 1 None, Store 64 8 4 2 None, Load 64 3 None] sample_wrapper = Some w'
     \<and> entry_log (\<lambda>wq. wq) (rt w') = es
     \<and> map (\<lambda>e. (op_of e, ptr e)) es = [(Some STATE_ADD_READ, 64), (Some STATE_ADD_WRITE, 64), (Some STATE_ADD_WRITE, 68)]
     \<and> classify [kinds 64 [(False, 64), (True, 64), (True, 68)]] = classify [kinds 64 [(False, 64), (True, 64), (True, 68), (False, 64)]]"
proof -
  let ?xs = "[Load 64 1 None, Store 64 8 4 2 None, Load 64 3 None]"
  let ?env = "\<lparr>env_mem = (\<lambda>_. 0), env_scc = (\<lambda>_. []), env_sync = (\<lambda>_. True)\<rparr> :: environment"
  have "elements 8 8 4 = []" by (simp add: elements_def)
  then have "elements 0 8 4 = [0, 4]" using elements_step [of 4 0 8] elements_step [of 4 4 8] by simp
  then have el: "stored_at 64 8 4 = [64, 68]" by (simp add: stored_at_def)
  have on: "\<not> disableTexas sample_wrapper" "activeState (rt sample_wrapper) \<noteq> None" "loads sample_wrapper = []"
    "stores sample_wrapper = []" "entry_log (\<lambda>wq. wq) (rt sample_wrapper) = []"
    by (simp_all add: sample_wrapper_def entry_log_def sample_runtime_def)
  have sz: "\<forall>x \<in> set ?xs. sizes_ok x" "\<forall>x \<in> set ?xs. sized_by (\<lambda>_. (8, 4)) x" by simp_all
  have rd: "ready_for (\<lambda>rq. rq) (length (all_named ?xs)) (rt sample_wrapper)"
    using sample_wrapper_ready by (simp add: el numeral_eq_Suc)
  have "\<exists>w' es. run_accesses list_queues ?env ?xs sample_wrapper = Some w'
     \<and> entry_log (\<lambda>wq. wq) (rt w') = entry_log (\<lambda>wq. wq) (rt sample_wrapper) @ es
     \<and> map (\<lambda>e. (op_of e, ptr e)) es = map access_op (all_named (first_uses {} {} ?xs))
     \<and> (\<forall>a hist. classify (hist @ [kinds a (all_named (first_uses {} {} ?xs))]) = classify (hist @ [kinds a (all_named ?xs)]))"
    by (rule dropped_accesses_keep_class [OF list_queues_fifo sz rd on(1-4)])
  then obtain w' es where w': "run_accesses list_queues ?env ?xs sample_wrapper = Some w'" "entry_log (\<lambda>wq. wq) (rt w') = es"
    "map (\<lambda>e. (op_of e, ptr e)) es = map access_op (all_named (first_uses {} {} ?xs))"
    and c: "\<forall>a hist. classify (hist @ [kinds a (all_named (first_uses {} {} ?xs))]) = classify (hist @ [kinds a (all_named ?xs)])"
    using on(5) by auto
  from c [THEN spec, THEN spec, of "[]" 64]
  have "classify [kinds 64 [(False, 64), (True, 64), (True, 68)]] = classify [kinds 64 [(False, 64), (True, 64), (True, 68), (False, 64)]]"
    by (simp add: el)
  moreover have "map (\<lambda>e. (op_of e, ptr e)) es = [(Some STATE_ADD_READ, 64), (Some STATE_ADD_WRITE, 64), (Some STATE_ADD_WRITE, 68)]"
    using w'(3) by (simp add: access_op_def el)
  ultimately show ?thesis using w'(1,2) by (intro exI [of _ w'] exI [of _ es] conjI)
qed

text \<open>
  Entering a nested region does not forget the accesses of the outer one: a load of an address that the outer region has
  loaded leaves no entry in the inner region.
\<close>

theorem nested_region_misses_load:
  assumes "caratGetStateWrapper q env f l w = Some (i, w')" and "p \<in> set (loads w)"
  shows "texasAddToStateLoad q env uid p tr w' = Some w'"
  using assms by (auto simp: caratGetStateWrapper_def texasAddToStateLoad_def split: if_splits)

definition nested_wrapper :: "(shadowBatch list, shadowEntry list list) wrapper" where
  "nested_wrapper = sample_wrapper\<lparr>loads := [64],
     rt := (rt sample_wrapper)\<lparr>r_store := empty_store\<lparr>stateReductionTracking := False, next_sref := 1\<rparr>\<rparr>\<rparr>"

theorem nested_region_misses_load_witness:
  "\<exists>i w'. caratGetStateWrapper list_queues \<lparr>env_mem = (\<lambda>_. 0), env_scc = (\<lambda>_. []), env_sync = (\<lambda>_. True)\<rparr> ''f'' 1 nested_wrapper = Some (i, w')
     \<and> texasAddToStateLoad list_queues \<lparr>env_mem = (\<lambda>_. 0), env_scc = (\<lambda>_. []), env_sync = (\<lambda>_. True)\<rparr> 7 64 None w' = Some w'"
proof -
  obtain i w' where w': "caratGetStateWrapper list_queues \<lparr>env_mem = (\<lambda>_. 0), env_scc = (\<lambda>_. []), env_sync = (\<lambda>_. True)\<rparr> ''f'' 1 nested_wrapper = Some (i, w')"
    by (simp add: caratGetStateWrapper_def GetState_def enter_state_def alloc_State_def record_naive_size_def put_entry_def
        getFreeSlot_def Let_def nested_wrapper_def sample_wrapper_def sample_runtime_def empty_store_def upd_state_def)
  have "64 \<in> set (loads nested_wrapper)" by (simp add: nested_wrapper_def)
  from nested_region_misses_load [OF w' this] w' show ?thesis by blast
qed

text \<open>Pin reports a release, but the wrapper never sees it: the vector has no record of one.\<close>

theorem pin_releases_are_lost: "FreeAddress a \<notin> set (retrieveAddressesVector recorded)"
  by (induction recorded rule: retrieveAddressesVector.induct) auto

section \<open>The saved data\<close>

definition saves :: "('w, 'r) wrapper \<Rightarrow> aref \<times> offset_set \<Rightarrow> AllocationToSave \<Rightarrow> bool" where
  "saves w e sa \<longleftrightarrow> (let al = allocs (r_store (rt w)) (fst e) in
     sa_pointer sa = pointer al \<and> sa_length sa = len al \<and> uniqueID sa = origin al \<and> sa_offsets sa = snd e)"

text \<open>The static IDs that the table of call stacks, or the program itself, gives.\<close>

definition known_id :: "('w, 'r) wrapper \<Rightarrow> u64 \<Rightarrow> bool" where
  "known_id w sid \<longleftrightarrow> disableCallstack w \<or> (\<exists>d \<in> ran (dynamicTraces (cstacks w)). dt_staticID d = sid)"

definition known_saved :: "('w, 'r) wrapper \<Rightarrow> AllocationToSave \<Rightarrow> bool" where
  "known_saved w sa \<longleftrightarrow> known_id w (staticID sa) \<and> (\<forall>u \<in> set (sa_uses sa). known_id w (use_staticID u))"

lemma trace_of_known: "getTraceAndStaticID (disableCallstack w) (cstacks w) u = Some (tr, sid) \<Longrightarrow> known_id w sid"
  by (auto simp: getTraceAndStaticID_def known_id_def ran_def split: if_splits)

lemma use_to_save_known: "use_to_save w x = Some u \<Longrightarrow> known_id w (use_staticID u)"
  by (auto simp: use_to_save_def dest: trace_of_known)

lemma all_some_set: "all_some xs = Some ys \<Longrightarrow> y \<in> set ys \<Longrightarrow> Some y \<in> set xs"
  by (induction xs arbitrary: ys rule: all_some.induct) auto

lemma getAllocationToSave_saves:
  assumes "getAllocationToSave w a (Some offs) (Some s) = Some sa"
  shows "saves w (a, offs) sa" "known_saved w sa"
proof -
  obtain tr sid where t: "getTraceAndStaticID (disableCallstack w) (cstacks w) (origin (allocs (r_store (rt w)) a)) = Some (tr, sid)"
    using assms by (auto simp: getAllocationToSave_def Let_def split: option.splits)
  show "saves w (a, offs) sa"
    using assms by (auto simp: getAllocationToSave_def saves_def Let_def split: option.splits if_splits)
  have "staticID sa = sid"
    using assms t by (auto simp: getAllocationToSave_def Let_def split: option.splits if_splits)
  moreover have "known_id w (use_staticID u)" if "u \<in> set (sa_uses sa)" for u
  proof -
    have "sa_uses sa = [] \<or> (\<exists>us uids. all_some (map (use_to_save w) uids) = Some us \<and> sa_uses sa = us)"
      using assms by (auto simp: getAllocationToSave_def Let_def split: option.splits if_splits)
    with that obtain us uids where us: "all_some (map (use_to_save w) uids) = Some us" "u \<in> set us" by auto
    from all_some_set [OF us] show ?thesis
      by (auto dest: use_to_save_known [OF sym])
  qed
  ultimately show "known_saved w sa"
    using trace_of_known [OF t] by (simp add: known_saved_def)
qed

lemma saveStateSet_saves:
  "saveStateSet w s seen es = Some as \<Longrightarrow> distinct (map fst es) \<Longrightarrow> set seen \<inter> fst ` set es = {} \<Longrightarrow>
     list_all2 (saves w) es as \<and> list_all (known_saved w) as"
proof (induction w s seen es arbitrary: as rule: saveStateSet.induct)
  case (2 w s seen a offs es)
  then have a: "a \<notin> set seen" by auto
  obtain sa as' where sa: "getAllocationToSave w a (Some offs) (Some s) = Some sa"
    "saveStateSet w s (a # seen) es = Some as'" "as = sa # as'"
    using 2(3) a by (auto split: option.splits)
  have "distinct (map fst es)" "set (a # seen) \<inter> fst ` set es = {}" using 2(4,5) by auto
  from 2(2) [OF a sa(1,2) this] getAllocationToSave_saves [OF sa(1)] sa(3) show ?case by simp
qed simp

lemma save_sets_saves:
  assumes dist: "\<And>k. distinct (map fst (final_spoor (states (r_store (rt w)) s) k))"
  shows "save_sets w s ns st = Some st' \<Longrightarrow> distinct ns \<Longrightarrow>
     saved_functionName st' = saved_functionName st \<and> saved_lineNumber st' = saved_lineNumber st
     \<and> (\<forall>n. \<exists>as. saved_sets st' n = saved_sets st n @ as \<and> list_all (known_saved w) as
          \<and> (if n \<in> set ns then list_all2 (saves w) (final_spoor (states (r_store (rt w)) s) (spoor_name n)) as else as = []))"
proof (induction ns arbitrary: st)
  case (Cons n ns)
  obtain as where as: "saveStateSet w s [] (final_spoor (states (r_store (rt w)) s) (spoor_name n)) = Some as"
    "save_sets w s ns (st\<lparr>saved_sets := (saved_sets st)(n := saved_sets st n @ as)\<rparr>) = Some st'"
    using Cons.prems(1) by (auto split: option.splits)
  have sv: "list_all2 (saves w) (final_spoor (states (r_store (rt w)) s) (spoor_name n)) as" "list_all (known_saved w) as"
    using saveStateSet_saves [OF as(1) dist] by auto
  have n: "n \<notin> set ns" "distinct ns" using Cons.prems(2) by auto
  from Cons.IH [OF as(2) n(2)]
  have IH: "saved_functionName st' = saved_functionName st" "saved_lineNumber st' = saved_lineNumber st"
    "\<And>k. \<exists>bs. saved_sets st' k = ((saved_sets st)(n := saved_sets st n @ as)) k @ bs \<and> list_all (known_saved w) bs
       \<and> (if k \<in> set ns then list_all2 (saves w) (final_spoor (states (r_store (rt w)) s) (spoor_name k)) bs else bs = [])"
    by simp_all
  have "\<exists>bs. saved_sets st' k = saved_sets st k @ bs \<and> list_all (known_saved w) bs
      \<and> (if k \<in> set (n # ns) then list_all2 (saves w) (final_spoor (states (r_store (rt w)) s) (spoor_name k)) bs else bs = [])" for k
    using IH(3) [of k] sv n(1) by (cases "k = n") auto
  then show ?case using IH(1,2) by simp
qed auto

definition saved_state :: "('w, 'r) wrapper \<Rightarrow> sref \<Rightarrow> StateToSave \<Rightarrow> bool" where
  "saved_state w s st \<longleftrightarrow>
     saved_functionName st = functionName (states (r_store (rt w)) s) \<and> saved_lineNumber st = lineNumber (states (r_store (rt w)) s)
     \<and> (\<forall>n. list_all2 (saves w) (final_spoor (states (r_store (rt w)) s) (spoor_name n)) (saved_sets st n)
          \<and> list_all (known_saved w) (saved_sets st n))"

lemma save_states_saves:
  "save_states w m out = Some out' \<Longrightarrow> (\<And>x k. x \<in> set m \<Longrightarrow> distinct (map fst (final_spoor (states (r_store (rt w)) (snd x)) k))) \<Longrightarrow>
     distinct (map (\<lambda>x. stateID (states (r_store (rt w)) (snd x))) m) \<Longrightarrow>
     (\<forall>x \<in> set m. map_of out (stateID (states (r_store (rt w)) (snd x))) = None) \<Longrightarrow>
     (\<forall>x \<in> set m. \<exists>st. map_of out' (stateID (states (r_store (rt w)) (snd x))) = Some st \<and> saved_state w (snd x) st)
     \<and> (\<forall>i. i \<notin> (\<lambda>x. stateID (states (r_store (rt w)) (snd x))) ` set m \<longrightarrow> map_of out' i = map_of out i)"
proof (induction m arbitrary: out)
  case (Cons x m)
  obtain k s where x: "x = (k, s)" by (cases x)
  let ?id = "\<lambda>x. stateID (states (r_store (rt w)) (snd x))" and ?st = "states (r_store (rt w)) s"
  let ?ns = "[SI, SO, SIO, SCO, STO, SCIO, STIO]"
  have none: "map_of out (stateID ?st) = None" using Cons.prems(4) by (simp add: x)
  obtain saved where sv: "save_sets w s ?ns (empty_StateToSave\<lparr>saved_functionName := functionName ?st, saved_lineNumber := lineNumber ?st\<rparr>) = Some saved"
    "save_states w m (um_assign (stateID ?st) saved out) = Some out'"
    using Cons.prems(1) none by (auto simp: x Let_def split: option.splits)
  have all: "n \<in> set ?ns" for n by (cases n) simp_all
  have ss: "saved_state w s saved"
    using save_sets_saves [OF _ sv(1)] Cons.prems(2) [of x] all by (simp add: saved_state_def empty_StateToSave_def x)
  have fresh: "stateID ?st \<notin> ?id ` set m" using Cons.prems(3) by (auto simp: x)
  have prem: "\<forall>y \<in> set m. map_of (um_assign (stateID ?st) saved out) (?id y) = None"
  proof
    fix y assume y: "y \<in> set m"
    then have "?id y \<noteq> stateID ?st" using fresh by (metis image_eqI)
    then show "map_of (um_assign (stateID ?st) saved out) (?id y) = None" using Cons.prems(4) y by simp
  qed
  have "distinct (map ?id m)" using Cons.prems(3) by simp
  from Cons.IH [OF sv(2) _ this prem] Cons.prems(2) have IH:
    "\<forall>y \<in> set m. \<exists>st. map_of out' (?id y) = Some st \<and> saved_state w (snd y) st"
    "\<forall>i. i \<notin> ?id ` set m \<longrightarrow> map_of out' i = map_of (um_assign (stateID ?st) saved out) i" by auto
  have "map_of out' (stateID ?st) = Some saved" using IH(2) fresh by simp
  then show ?case using IH ss by (auto simp: x)
qed simp

text \<open>
  The data that a run saves is what the runtime found. When \<open>PrintJSONWrapper\<close> ends, it has saved every state of the
  runtime under its ID, with its function and line, and each of the seven sets as the list of the allocations of the
  corresponding final set, in order, with their address, length, offsets and number; and every static ID it saved comes from
  the table of call stacks.
\<close>

theorem PrintJSON_saves_states:
  assumes "PrintJSONWrapper q env fuel sync w = Some (Some out, w')"
    and "\<And>x k. x \<in> set (stateMap (r_store (rt w'))) \<Longrightarrow> distinct (map fst (final_spoor (states (r_store (rt w')) (snd x)) k))"
    and "distinct (map (\<lambda>x. stateID (states (r_store (rt w')) (snd x))) (stateMap (r_store (rt w'))))"
    and "(k, s) \<in> set (stateMap (r_store (rt w')))"
  shows "\<exists>st. map_of out (stateID (states (r_store (rt w')) s)) = Some st \<and> saved_state w' s st"
proof -
  have "save_states w' (stateMap (r_store (rt w'))) [] = Some out"
    using assms(1) by (auto simp: PrintJSONWrapper_def split: if_splits option.splits)
  from save_states_saves [OF this assms(2,3)] assms(4) show ?thesis by fastforce
qed

text \<open>
  A program that enters a region, allocates a block of eight bytes, writes it and leaves the region. The whole run, from the
  instrumentation through the batches and the worker to the saved data, is evaluated.
\<close>

definition sample_env :: environment where
  "sample_env = \<lparr>env_mem = (\<lambda>_. 0), env_scc = (\<lambda>_. []), env_sync = (\<lambda>_. True)\<rparr>"

definition start_wrapper :: "(shadowBatch list, shadowEntry list list) wrapper" where
  "start_wrapper = sample_wrapper\<lparr>disableStateUses := False, rt := (rt sample_wrapper)\<lparr>activeState := None, SHADOW_WINDOW := 8,
     r_config := all_on\<lparr>trackCycles := False\<rparr>, texasWorkEntries := replicate 8 (acc_entry REDUNDANT 0)\<rparr>\<rparr>"

definition sample_program ::
  "tref option \<Rightarrow> (shadowBatch list, shadowEntry list list) wrapper \<Rightarrow> (shadowBatch list, shadowEntry list list) wrapper option" where
  "sample_program tr w = Option.bind (caratGetStateWrapper list_queues sample_env ''f'' 3 w) (\<lambda>(i, w1).
     Option.bind (caratStateAllocWrapper list_queues sample_env 1 64 8 tr w1) (\<lambda>w2.
     Option.bind (texasAddToStateWithInfoWrapper list_queues sample_env 2 64 8 8 tr w2)
       (caratReportStateWrapper list_queues sample_env i)))"

lemma sample_program_run:
  "case Option.bind (sample_program None start_wrapper) (PrintJSONWrapper list_queues sample_env 3 0) of
     Some (Some out, w) \<Rightarrow> stateMap (r_store (rt w)) = [(0, 0)] \<and> stateID (states (r_store (rt w)) 0) = 0
       \<and> list_all (\<lambda>k. distinct (map fst (final_spoor (states (r_store (rt w)) 0) k)))
            [Input, IO, CloneableIO, TransferIO, Output, CloneableOutput, TransferOutput]
       \<and> functionName (states (r_store (rt w)) 0) = ''f'' \<and> final_spoor (states (r_store (rt w)) 0) Output = [(0, [0])]
       \<and> pointer (allocs (r_store (rt w)) 0) = 64
   | _ \<Rightarrow> False"
  by code_simp

theorem PrintJSON_saves_states_witness:
  "\<exists>w out w' st sa. sample_program None start_wrapper = Some w
     \<and> PrintJSONWrapper list_queues sample_env 3 0 w = Some (Some out, w')
     \<and> map_of out 0 = Some st \<and> saved_functionName st = ''f'' \<and> saved_sets st SO = [sa] \<and> sa_pointer sa = 64 \<and> sa_offsets sa = [0]"
proof -
  obtain w out w' where w: "sample_program None start_wrapper = Some w" "PrintJSONWrapper list_queues sample_env 3 0 w = Some (Some out, w')"
    using sample_program_run by (auto simp: bind_eq_Some_conv split: option.splits)
  have fin: "stateMap (r_store (rt w')) = [(0, 0)]" "stateID (states (r_store (rt w')) 0) = 0"
    "list_all (\<lambda>k. distinct (map fst (final_spoor (states (r_store (rt w')) 0) k)))
       [Input, IO, CloneableIO, TransferIO, Output, CloneableOutput, TransferOutput]"
    "functionName (states (r_store (rt w')) 0) = ''f''" "final_spoor (states (r_store (rt w')) 0) Output = [(0, [0])]"
    "pointer (allocs (r_store (rt w')) 0) = 64"
    using sample_program_run by (simp_all add: w)
  have "distinct (map fst (final_spoor (states (r_store (rt w')) 0) k))" for k using fin(3) by (cases k) simp_all
  with PrintJSON_saves_states [OF w(2), of 0 0] fin(1,2) obtain st where st: "map_of out 0 = Some st" "saved_state w' 0 st" by auto
  then have "saved_functionName st = ''f''"
    and "list_all2 (saves w') (final_spoor (states (r_store (rt w')) 0) (spoor_name SO)) (saved_sets st SO)"
    using fin(4) unfolding saved_state_def by metis+
  then obtain sa where "saved_functionName st = ''f''" "saved_sets st SO = [sa]" "saves w' (0, [0]) sa"
    using fin(5) by (auto simp: list_all2_Cons1)
  then show ?thesis using w st(1) fin(6) by (auto simp: saves_def Let_def)
qed

text \<open>The static IDs in the table are those that the program passed.\<close>

definition ids_in :: "u64 set \<Rightarrow> ('w, 'r) wrapper \<Rightarrow> bool" where
  "ids_in S w \<longleftrightarrow> (\<forall>d \<in> ran (dynamicTraces (cstacks w)). dt_staticID d \<in> S) \<and> \<not> disableCallstack w"

lemma ids_in_steps:
  assumes "ids_in S w"
  shows "caratGetStateWrapper q env f l w = Some (i, w') \<Longrightarrow> ids_in S w'"
    and "caratReportStateWrapper q env sid w = Some w' \<Longrightarrow> ids_in S w'"
    and "uid \<in> S \<Longrightarrow> caratStateAllocWrapper q env uid p n tr w = Some w' \<Longrightarrow> ids_in S w'"
    and "uid \<in> S \<Longrightarrow> texasAddToStateWithInfoWrapper q env uid p n m tr w = Some w' \<Longrightarrow> ids_in S w'"
    and "uid \<in> S \<Longrightarrow> texasAddToStateLoad q env uid p tr w = Some w' \<Longrightarrow> ids_in S w'"
proof -
  have id: "ids_in S w2" if "alloc_id uid tr w1 = (u, w2)" "uid \<in> S" "ids_in S w1" for u w1 w2
    using that by (auto simp: alloc_id_def ids_in_def split: prod.splits dest: saveCallstack_ids)
  have uses: "ids_in S w2" if "use_id uid tr w1 = (u, w2)" "uid \<in> S" "ids_in S w1" for u w1 w2
    using that id by (auto simp: use_id_def split: if_splits)
  show "caratGetStateWrapper q env f l w = Some (i, w') \<Longrightarrow> ids_in S w'"
    "caratReportStateWrapper q env sid w = Some w' \<Longrightarrow> ids_in S w'"
    using assms by (auto simp: caratGetStateWrapper_def caratReportStateWrapper_def ids_in_def split: if_splits)
  show "uid \<in> S \<Longrightarrow> caratStateAllocWrapper q env uid p n tr w = Some w' \<Longrightarrow> ids_in S w'"
    using assms id [of w] by (fastforce simp: caratStateAllocWrapper_def with_rt_def ids_in_def split: if_splits prod.splits)
  show "uid \<in> S \<Longrightarrow> texasAddToStateWithInfoWrapper q env uid p n m tr w = Some w' \<Longrightarrow> ids_in S w'"
    "uid \<in> S \<Longrightarrow> texasAddToStateLoad q env uid p tr w = Some w' \<Longrightarrow> ids_in S w'"
    using assms uses [of "w\<lparr>stores := us_insert p (stores w)\<rparr>"] uses [of "w\<lparr>loads := us_insert p (loads w)\<rparr>"]
    by (fastforce simp: texasAddToStateWithInfoWrapper_def texasAddToStateLoad_def with_rt_def ids_in_def
        split: if_splits prod.splits)+
qed

lemma PrintJSON_keeps:
  "PrintJSONWrapper q env fuel sync w = Some (out, w') \<Longrightarrow> cstacks w' = cstacks w \<and> disableCallstack w' = disableCallstack w"
  by (auto simp: PrintJSONWrapper_def FindCycleInAllocationMapWrapper_def with_rt_def split: if_splits option.splits)

text \<open>Saving a cycle would pass no state for its allocations, which dereferences a null pointer.\<close>

theorem saving_without_state_fails: "getAllocationToSave w a offs None = None"
  by (simp add: getAllocationToSave_def Let_def split: option.splits)

lemma saveStateSet_known: "saveStateSet w s seen es = Some as \<Longrightarrow> list_all (known_saved w) as"
proof (induction w s seen es arbitrary: as rule: saveStateSet.induct)
  case (2 w s seen a offs es)
  then show ?case
    using getAllocationToSave_saves(2) [of w a offs s] by (auto split: if_splits option.splits)
qed simp

lemma save_sets_known:
  "save_sets w s ns st = Some st' \<Longrightarrow> \<forall>n. list_all (known_saved w) (saved_sets st n) \<Longrightarrow> \<forall>n. list_all (known_saved w) (saved_sets st' n)"
proof (induction ns arbitrary: st)
  case (Cons n ns)
  obtain as where as: "saveStateSet w s [] (final_spoor (states (r_store (rt w)) s) (spoor_name n)) = Some as"
    "save_sets w s ns (st\<lparr>saved_sets := (saved_sets st)(n := saved_sets st n @ as)\<rparr>) = Some st'"
    using Cons.prems(1) by (auto split: option.splits)
  show ?case
    using Cons.IH [OF as(2)] Cons.prems(2) saveStateSet_known [OF as(1)] by simp
qed simp

lemma save_states_known:
  "save_states w m out = Some out' \<Longrightarrow> (\<And>i st n. (i, st) \<in> set out \<Longrightarrow> list_all (known_saved w) (saved_sets st n)) \<Longrightarrow>
     (i, st) \<in> set out' \<Longrightarrow> list_all (known_saved w) (saved_sets st n)"
proof (induction m arbitrary: out)
  case (Cons x m)
  obtain k s where x: "x = (k, s)" by (cases x)
  let ?st = "states (r_store (rt w)) s"
  let ?old = "case map_of out (stateID ?st) of None \<Rightarrow> empty_StateToSave | Some x \<Rightarrow> x"
  obtain saved where sv: "save_sets w s [SI, SO, SIO, SCO, STO, SCIO, STIO]
      (?old\<lparr>saved_functionName := functionName ?st, saved_lineNumber := lineNumber ?st\<rparr>) = Some saved"
    "save_states w m (um_assign (stateID ?st) saved out) = Some out'"
    using Cons.prems(1) by (auto simp: x Let_def split: option.splits)
  have "\<forall>n. list_all (known_saved w) (saved_sets ?old n)"
    using Cons.prems(2) by (cases "map_of out (stateID ?st)") (auto simp: empty_StateToSave_def dest: map_of_SomeD)
  then have "\<forall>n. list_all (known_saved w) (saved_sets saved n)" using save_sets_known [OF sv(1)] by simp
  then have "list_all (known_saved w) (saved_sets st n)" if "(i, st) \<in> set (um_assign (stateID ?st) saved out)" for i st n
    using in_um_assignD [OF that] Cons.prems(2) by auto
  then show ?case using Cons.IH [OF sv(2)] Cons.prems(3) by blast
qed simp

end
