(* ===== verification/Cat_Pass.thy ===== *)
theory Cat_Pass
  imports Guard_Runs Wrapper
begin

text \<open>
  \<open>runOnModule\<close> of \<open>CatPass.cpp\<close>: the whole pass, from the regions of interest to the instrumented module. The analyses of
  NOELLE and the types of values are the environment; the switches of the build are \<open>pass_config\<close>, the options of the
  command line \<open>pass_options\<close>. The result is the value returned, the module and the debug records of \<open>debugData.dat\<close>; the
  result is \<open>None\<close> when the pass aborts or dereferences a null pointer. The messages, \<open>printSet\<close> and the calls of
  \<open>verifyModule\<close> are left out.
\<close>

section \<open>The analyses\<close>

record pass_env =
  pe_noelle :: noelle_env
  pe_graph :: call_graph
  pe_engine :: forward_engine
  pe_funcLess :: "string \<Rightarrow> string \<Rightarrow> bool"
  pe_DT :: "string \<Rightarrow> nat \<Rightarrow> nat \<Rightarrow> bool"
  pe_PDT :: "string \<Rightarrow> nat \<Rightarrow> nat \<Rightarrow> bool"
  pe_isPure :: "string \<Rightarrow> bool"
  pe_visit :: visit_env

record analysis =
  an_visitor :: MyInstVisitor
  an_debugData :: "DebugData list"
  an_selection :: selection
  an_unique :: "string list"

definition uses_to_skip :: "pass_config \<Rightarrow> pass_env \<Rightarrow> ROIManager \<Rightarrow> string list \<Rightarrow> llvm_module \<Rightarrow> nat list option" where
  "uses_to_skip cfg pe mgr functionsToInstrumentLoadStore M =
     Option.bind
       (if disable_STORE_DFA_OPT cfg then Some []
        else getTouchSameObjectInsts (pe_engine pe) (ne_lt (pe_noelle pe)) (pe_DT pe) (pe_PDT pe) M
               (List.map_filter (getFunctionByName M) functionsToInstrumentLoadStore) (getROIs_module mgr) (enableDFAObjGranularity cfg))
       (\<lambda>touchesToSkip.
         if disable_SKIP_ROIS_LOADS_STORES cfg then Some touchesToSkip
         else map_option (\<lambda>roisLoadsStores. mergeSets [touchesToSkip, roisLoadsStores]) (getROIsLoadsStores mgr M))"

definition collect_entries :: "pass_config \<Rightarrow> pass_env \<Rightarrow> string list \<Rightarrow> string list \<Rightarrow> nat list \<Rightarrow> llvm_module \<Rightarrow> (MyInstVisitor \<times> DebugData list) option" where
  "collect_entries cfg pe functionsToInstrumentLoadStore functionsToInstrumentAllocaInst touchesToSkip M =
     Option.bind (visit_module (pe_visit pe) M functionsToInstrumentLoadStore functionsToInstrumentAllocaInst touchesToSkip) (\<lambda>IV.
     Option.bind (filterLibraryCalls M (pe_isPure pe) (if disableStateUsesInstrumentation cfg then IV\<lparr>instToEntryMap := []\<rparr> else IV)) (\<lambda>IV1.
     let IV2 = getGlobals (ve_ptrSize (pe_visit pe)) M IV1 in
     map_option (\<lambda>(heap, debugData). (IV2\<lparr>e_heap := heap\<rparr>, debugData)) (createDebugData (allEntries IV2) (e_heap IV2) [])))"

definition analyse :: "pass_config \<Rightarrow> pass_env \<Rightarrow> ROIManager \<Rightarrow> llvm_module \<Rightarrow> (analysis \<times> llvm_module) option" where
  "analyse cfg pe mgr M =
     Option.bind (getFunctionsToInstrumentLoadStore (ne_stack (pe_noelle pe)) (pe_funcLess pe) M (pe_graph pe)) (\<lambda>functionsToInstrumentLoadStore.
     Option.bind (uses_to_skip cfg pe mgr functionsToInstrumentLoadStore M) (\<lambda>touchesToSkip.
     case findFunctionsToInstrument M of (functionsToInstrumentAllocaInst, M1) \<Rightarrow>
     Option.bind (collect_entries cfg pe functionsToInstrumentLoadStore functionsToInstrumentAllocaInst touchesToSkip M1) (\<lambda>(IV, debugData).
     Option.bind (select_insts cfg (pe_noelle pe) M1 (getROIs_module mgr) (instToEntryMap IV) (e_heap IV)) (\<lambda>sel.
     Option.bind (getUniqueCallstackFunctions (ne_stack (pe_noelle pe)) (pe_graph pe)) (\<lambda>unique.
     Some (\<lparr>an_visitor = IV\<lparr>e_heap := sel_heap sel\<rparr>, an_debugData = debugData, an_selection = sel, an_unique = unique\<rparr>, M1))))))"

section \<open>The changes to the module\<close>

definition entries_at :: "MyInstVisitor \<Rightarrow> nat list \<Rightarrow> Entry list" where
  "entries_at IV refs = map ((!) (e_heap IV)) refs"

definition unless :: "bool \<Rightarrow> ('a \<Rightarrow> 'a option) \<Rightarrow> 'a \<Rightarrow> 'a option" where
  "unless c f x = (if c then Some x else f x)"

text \<open>The calls that guard the loop optimisations are commented out in the source: the sets they would get are computed only.\<close>

definition instrument_uses :: "pass_config \<Rightarrow> (val \<Rightarrow> ty) \<Rightarrow> (string \<times> nat) list \<Rightarrow> analysis \<Rightarrow> llvm_module \<Rightarrow> llvm_module option" where
  "instrument_uses cfg typeOf funcToCallstack A M =
     (let IV = an_visitor A; sel = an_selection A in
      Option.bind (unless (disable_PIN cfg) (instrumentUnkowns (entries_at IV (v_unknowns IV)) funcToCallstack) M) (\<lambda>M1.
      Option.bind (unless (disable_ONLY_READ_OPT cfg)
        (instrumentOnlyReads typeOf funcToCallstack (instToEntryMap IV) (e_heap IV) (onlyReadToInstrument sel)) M1) (\<lambda>M2.
      Option.bind (unless (disable_DIRECT_STATE cfg)
        (instrumentDirectStateLoadStore typeOf funcToCallstack (instToEntryMap IV) (e_heap IV) (directStateToInstrumentAll sel)) M2) (\<lambda>M3.
      instrumentLoadsStoresRegular funcToCallstack (instToEntryMap IV) (e_heap IV) (sel_instsToSkip sel) M3))))"

definition instrument_frees :: "analysis \<Rightarrow> llvm_module \<Rightarrow> llvm_module option" where
  "instrument_frees A M =
     (let IV = an_visitor A in
      Option.bind (instrumentDeallocs (v_deallocs IV) M) (\<lambda>M1.
      Option.bind (instrumentReturns (v_returns IV) (functionAllocaMap IV) M1) (\<lambda>M2.
      instrumentInvokes (v_invokes IV) (functionAllocaMap IV) M2)))"

definition instrument_cycles :: "analysis \<Rightarrow> llvm_module \<Rightarrow> llvm_module option" where
  "instrument_cycles A M =
     Option.bind (instrumentEscapes (v_escapes (an_visitor A)) M) (eraseDeallocs (v_deallocs (an_visitor A)))"

definition instrument_module :: "pass_config \<Rightarrow> bool \<Rightarrow> (val \<Rightarrow> ty) \<Rightarrow> analysis \<Rightarrow> llvm_module \<Rightarrow> llvm_module option" where
  "instrument_module cfg cycleFinding typeOf A M =
     (let IV = an_visitor A in
      Option.bind (callstackInstrumentation (an_unique A) M) (\<lambda>(funcToCallstack, M1).
      Option.bind (instrumentAllocations (entries_at IV (v_allocations IV)) funcToCallstack M1) (\<lambda>M2.
      Option.bind (instrumentCallocs (entries_at IV (v_callocs IV)) funcToCallstack M2) (\<lambda>M3.
      Option.bind (instrumentReallocs (entries_at IV (v_reallocs IV)) funcToCallstack M3) (\<lambda>M4.
      Option.bind (unless cycleFinding (instrument_uses cfg typeOf funcToCallstack A) M4) (\<lambda>M5.
      if cycleFinding then instrument_cycles A M5 else instrument_frees A M5))))))"

definition runOnModule :: "pass_config \<Rightarrow> pass_options \<Rightarrow> pass_env \<Rightarrow> llvm_module \<Rightarrow> (bool \<times> llvm_module \<times> DebugData list) option" where
  "runOnModule cfg opts pe M =
     Option.bind (new_ROIManager M) (\<lambda>roiManager.
     if getROIs_module roiManager = [] then Some (False, M, [])
     else Option.bind (analyse cfg pe roiManager M) (\<lambda>(A, M1).
          Option.bind (unless (disableAllInstrumentation cfg) (instrument_module cfg (cycleFindingOpt opts) (ve_typeOf (pe_visit pe)) A)
             (insertRuntimeFunctions M1)) (\<lambda>M2.
          Option.bind (setRuntimeGlobalVariables opts M2) (\<lambda>M3.
          map_option (\<lambda>M4. (True, M4, an_debugData A)) (insertEpilogue M3)))))"

section \<open>The pass only adds instrumentation\<close>

lemma adds_bind: "adds n f \<Longrightarrow> adds n g \<Longrightarrow> adds n (\<lambda>M. Option.bind (f M) g)"
  unfolding adds_def by (auto simp: bind_eq_Some_conv) (metis edits_ready edits_trans)

lemma adds_unless: "(\<not> c \<Longrightarrow> adds n f) \<Longrightarrow> adds n (unless c f)"
  by (auto simp: adds_def unless_def ready_edits_refl)

lemmas adds_steps = adds_allocations adds_callocs adds_reallocs adds_unkowns adds_only_reads adds_direct_state adds_accesses
  adds_escapes adds_deallocs adds_returns adds_invokes adds_setRuntimeGlobalVariables adds_insertEpilogue

lemma adds_instrument_uses: "adds n (instrument_uses cfg typeOf cs A)"
  unfolding instrument_uses_def [abs_def] Let_def by (intro adds_bind adds_unless adds_steps)

lemma adds_instrument_frees: "adds n (instrument_frees A)"
  unfolding instrument_frees_def [abs_def] Let_def by (intro adds_bind adds_steps)

lemma edits_callstacks:
  assumes "ready n M" "callstackInstrumentation unique M = Some (cs, N)"
  shows "edits n M N"
proof -
  obtain B U where B: "getRuntimeFunction M MEMORYTOOL_CALLSTACK = Some B" "getRuntimeFunction M MEMORYTOOL_CALLSTACK_UNIQUE = Some U"
    and "\<exists>k. fold_opt (callstack_step unique B U) (m_functions M) (0, [], M) = Some (k, cs, N)"
    using assms(2) by (auto simp: callstackInstrumentation_def bind_eq_Some_conv)
  then obtain k where run: "fold_opt (callstack_step unique B U) (m_functions M) (0, [], M) = Some (k, cs, N)" by blast
  have "m_functions M = [] @ m_functions M" "\<forall>F \<in> set (m_functions M). map_of ([] :: (string \<times> nat) list) (fname F) = None" by simp_all
  from callstack_loop [OF assms(1) this(1) getRuntimeFunction_name [OF B(1)] getRuntimeFunction_name [OF B(2)] run this(2)]
  show ?thesis by (elim conjE)
qed

lemma adds_instrument_module: "adds n (instrument_module cfg False typeOf A)"
proof -
  have rest: "adds n (\<lambda>M1. Option.bind (instrumentAllocations as cs M1) (\<lambda>M2. Option.bind (instrumentCallocs bs cs M2) (\<lambda>M3.
      Option.bind (instrumentReallocs ds cs M3) (\<lambda>M4. Option.bind (unless False (instrument_uses cfg typeOf cs A) M4) (instrument_frees A)))))"
    for as bs cs ds
    by (intro adds_bind adds_unless adds_steps adds_instrument_uses adds_instrument_frees)
  show ?thesis
    unfolding adds_def
  proof (intro allI impI)
    fix M N assume M: "ready n M" and N: "instrument_module cfg False typeOf A M = Some N"
    obtain cs L where L: "callstackInstrumentation (an_unique A) M = Some (cs, L)"
      "Option.bind (instrumentAllocations (entries_at (an_visitor A) (v_allocations (an_visitor A))) cs L) (\<lambda>M2.
         Option.bind (instrumentCallocs (entries_at (an_visitor A) (v_callocs (an_visitor A))) cs M2) (\<lambda>M3.
         Option.bind (instrumentReallocs (entries_at (an_visitor A) (v_reallocs (an_visitor A))) cs M3) (\<lambda>M4.
         Option.bind (unless False (instrument_uses cfg typeOf cs A) M4) (instrument_frees A)))) = Some N"
      using N by (auto simp: instrument_module_def Let_def bind_eq_Some_conv)
    have "edits n M L" by (rule edits_callstacks [OF M L(1)])
    then show "edits n M N" using addsD [OF rest edits_ready [OF _ M] L(2)] edits_trans by blast
  qed
qed

text \<open>
  The contract of a stage of the pass, and what a stage that keeps it leaves alone. The stages of \<open>runOnModule\<close> that run
  without cycle finding are instances.
\<close>

definition ids_below :: "llvm_module \<Rightarrow> bool" where
  "ids_below M \<longleftrightarrow> (\<forall>i \<in> set (module_insts M). iid i < nextId M)"

locale instrumenter =
  fixes n :: nat and step :: "llvm_module \<Rightarrow> llvm_module option"
  assumes only_adds: "adds n step"
begin

lemma stage_edits: "ready n M \<Longrightarrow> step M = Some N \<Longrightarrow> edits n M N"
  using addsD [OF only_adds] by blast

lemma stage_ready: "ready n M \<Longrightarrow> step M = Some N \<Longrightarrow> ready n N"
  using addsD [OF only_adds] by blast

lemma stage_numbers: "ready n M \<Longrightarrow> step M = Some N \<Longrightarrow> ids_below N"
  using stage_ready [of M N] by (simp add: ready_def module_ok_def ids_below_def)

lemma stage_trans: "edits n L M \<Longrightarrow> ready n L \<Longrightarrow> step M = Some N \<Longrightarrow> edits n L N"
  using stage_edits [of M N] edits_ready [of n L M] edits_trans [of n L M N] by simp

end

interpretation all_changes: instrumenter n "instrument_module cfg False typeOf A" for n cfg typeOf A
  by unfold_locales (rule adds_instrument_module)

interpretation switchable: instrumenter n "unless c (instrument_module cfg False typeOf A)" for n c cfg typeOf A
  by unfold_locales (rule adds_unless [OF adds_instrument_module])

interpretation start_call: instrumenter n "setRuntimeGlobalVariables opts" for n opts
  by unfold_locales (rule adds_setRuntimeGlobalVariables)

interpretation end_calls: instrumenter n insertEpilogue for n
  by unfold_locales (rule adds_insertEpilogue)

lemma edits_findFunctionsToInstrument:
  assumes "ready n M"
  shows "edits n M (snd (findFunctionsToInstrument M))"
proof -
  define f where "f = (\<lambda>F :: func. if map_of (fmetadata F) OPTIMIZE_LOCALS_KIND \<noteq> None then F\<lparr>optNone := False\<rparr> else F)"
  have same: "fname (f F) = fname F" "func_insts (f F) = func_insts F" "blocks (f F) = blocks F" "fempty (f F) = fempty F" "old_code n (f F) = old_code n F" for F
    by (simp_all add: f_def func_insts_def fempty_def old_code_def)
  have "map fname (map f Fs) = map fname Fs" "map func_insts (map f Fs) = map func_insts Fs" "map blocks (map f Fs) = map blocks Fs"
    "map (old_code n) (filter (\<lambda>F. \<not> fempty F) (map f Fs)) = map (old_code n) (filter (\<lambda>F. \<not> fempty F) Fs)" for Fs
    by (induction Fs) (simp_all add: same)
  moreover have "snd (findFunctionsToInstrument M) = M\<lparr>m_functions := map f (m_functions M)\<rparr>" by (simp add: findFunctionsToInstrument_def f_def)
  ultimately show ?thesis using assms
    unfolding edits_def ready_def module_ok_def wf_module_def program_code_def module_insts_def all_blocks_def
    by (simp del: map_map)
qed

lemma analyse_module: "analyse cfg pe mgr M = Some (A, M1) \<Longrightarrow> M1 = snd (findFunctionsToInstrument M)"
  by (cases "findFunctionsToInstrument M") (auto simp: analyse_def bind_eq_Some_conv)

text \<open>The steps of a run that finds a region.\<close>

lemma runOnModule_cases:
  assumes "runOnModule cfg opts pe M = Some (modified, N, debugData)"
  obtains (none) "\<not> modified" "N = M" "debugData = []"
  | (run) A M2 M3 where "modified" "debugData = an_debugData A"
      "unless (disableAllInstrumentation cfg) (instrument_module cfg (cycleFindingOpt opts) (ve_typeOf (pe_visit pe)) A)
         (insertRuntimeFunctions (snd (findFunctionsToInstrument M))) = Some M2"
      "setRuntimeGlobalVariables opts M2 = Some M3" "insertEpilogue M3 = Some N"
  using assms analyse_module by (fastforce simp: runOnModule_def bind_eq_Some_conv split: if_splits)

lemma edits_first_steps: "ready n M \<Longrightarrow> edits n M (insertRuntimeFunctions (snd (findFunctionsToInstrument M)))"
  using edits_findFunctionsToInstrument edits_insertRuntimeFunctions edits_ready edits_trans by blast

lemma ready_start: "module_ok M \<Longrightarrow> ready (nextId M) M"
  by (simp add: ready_def module_ok_def)

text \<open>
  C17: the pass on a whole module, when it does not look for cycles. Every function of the program keeps its
  instructions, in their order and with their operands; the blocks of \<open>phi\<close> nodes follow the splits. Everything else in the
  result is a cast, a call of the runtime, or code of a guard on a variable of its own, and the numbering of
  instructions and blocks stays a numbering.
\<close>

theorem pass_keeps_program:
  assumes M: "module_ok M" and run: "runOnModule cfg opts pe M = Some (modified, N, debugData)" and cyc: "\<not> cycleFindingOpt opts"
  shows "program_code (nextId M) N = program_code (nextId M) M \<and> module_ok N
    \<and> (\<forall>i \<in> set (module_insts N). iid i < nextId M \<or> instrumentation (nextId M) i)"
  using run
proof (cases rule: runOnModule_cases)
  case none
  then show ?thesis using M by (simp add: module_ok_def)
next
  case (run A M2 M3)
  let ?M1 = "insertRuntimeFunctions (snd (findFunctionsToInstrument M))" and ?n = "nextId M"
  have M1: "edits ?n M ?M1" by (rule edits_first_steps [OF ready_start [OF M]])
  note M0 = ready_start [OF M]
  have M2: "edits ?n M M2" using switchable.stage_trans [OF M1 M0] run(3) cyc by simp
  have "edits ?n M M3" by (rule start_call.stage_trans [OF M2 M0 run(4)])
  then have "edits ?n M N" by (rule end_calls.stage_trans [OF _ M0 run(5)])
  then show ?thesis by (simp add: edits_def)
qed

section \<open>The options reach the runtime\<close>

lemma erase_ids_below: "eraseDeallocs ds M = Some N \<Longrightarrow> ids_below M \<Longrightarrow> ids_below N"
  unfolding eraseDeallocs_def
proof (induction ds arbitrary: M)
  case (Cons d ds)
  then obtain L where L: "eraseDealloc d M = Some L" "fold_opt eraseDealloc ds L = Some N" by (auto simp: bind_eq_Some_conv)
  then have "ids_below L" using Cons.prems(2) by (auto simp: eraseDealloc_def ids_below_def module_insts_blocks all_blocks_map split: if_splits)
  then show ?case by (rule Cons.IH [OF L(2)])
qed simp

lemma instrument_module_ids:
  assumes M: "ready n M" and N: "instrument_module cfg c typeOf A M = Some N"
  shows "ids_below N"
proof (cases c)
  case False
  then show ?thesis using all_changes.stage_numbers [OF M] N by simp
next
  case True
  have rest: "adds n (\<lambda>M1. Option.bind (instrumentAllocations as cs M1) (\<lambda>M2. Option.bind (instrumentCallocs bs cs M2) (\<lambda>M3.
      Option.bind (instrumentReallocs ds cs M3) (instrumentEscapes es))))" for as bs cs ds es
    by (intro adds_bind adds_steps)
  obtain cs L K where L: "callstackInstrumentation (an_unique A) M = Some (cs, L)"
    "Option.bind (instrumentAllocations (entries_at (an_visitor A) (v_allocations (an_visitor A))) cs L) (\<lambda>M2.
       Option.bind (instrumentCallocs (entries_at (an_visitor A) (v_callocs (an_visitor A))) cs M2) (\<lambda>M3.
       Option.bind (instrumentReallocs (entries_at (an_visitor A) (v_reallocs (an_visitor A))) cs M3)
         (instrumentEscapes (v_escapes (an_visitor A))))) = Some K"
    "eraseDeallocs (v_deallocs (an_visitor A)) K = Some N"
    using N True by (auto simp: instrument_module_def Let_def unless_def instrument_cycles_def bind_eq_Some_conv)
  have "ready n K" using addsD [OF rest edits_ready [OF edits_callstacks [OF M L(1)] M] L(2)] by blast
  then show ?thesis by (intro erase_ids_below [OF L(3)]) (simp add: ready_def module_ok_def ids_below_def)
qed

lemma find_mapped: "\<forall>x \<in> set xs. P (f x) = P x \<Longrightarrow> List.find P (map f xs) = map_option f (List.find P xs)"
  by (induction xs) auto

lemma function_mapped:
  "getFunctionByName (map_blocks g M) name = map_option (\<lambda>F. F\<lparr>blocks := map (\<lambda>b. b\<lparr>insts := g (insts b)\<rparr>) (blocks F)\<rparr>) (getFunctionByName M name)"
  unfolding getFunctionByName_def map_blocks_def by (simp add: find_mapped)

lemma function_place:
  "getFunctionByName (place_at [i] p True M) name =
     map_option (\<lambda>F. F\<lparr>blocks := map (\<lambda>b. b\<lparr>insts := put_before p [i] (insts b)\<rparr>) (blocks F)\<rparr>) (getFunctionByName M name)"
proof -
  have "getFunctionByName (used_ids k L) name = getFunctionByName L name" for k L by (simp add: getFunctionByName_def)
  then show ?thesis by (simp add: place_at_def function_mapped)
qed

lemma first_inst_put:
  assumes "first_inst F = Some i"
  shows "first_inst (F\<lparr>blocks := map (\<lambda>b. b\<lparr>insts := put_before p [j] (insts b)\<rparr>) (blocks F)\<rparr>) = Some (if p = iid i then j else i)"
  using assms by (auto simp: first_inst_def split: list.splits)

lemma epilogue_keeps_first:
  assumes "getFunctionByName M name = Some F" "first_inst F = Some i" "iid i \<notin> set ps"
  shows "\<exists>G. getFunctionByName (fold (\<lambda>p N. place_at (runtime_call N None [] E []) p True N) ps M) name = Some G \<and> first_inst G = Some i"
  using assms
proof (induction ps arbitrary: M F)
  case (Cons p ps)
  have call: "runtime_call M None [] E [] = [new_inst (nextId M) (CallInst (FuncV (fname E)) []) VoidTy None]"
    by (simp add: runtime_call_def casts_def)
  let ?F = "F\<lparr>blocks := map (\<lambda>b. b\<lparr>insts := put_before p (runtime_call M None [] E []) (insts b)\<rparr>) (blocks F)\<rparr>"
  have "getFunctionByName (place_at (runtime_call M None [] E []) p True M) name = Some ?F"
    using Cons.prems(1) unfolding call function_place by simp
  moreover have "first_inst ?F = Some i" using first_inst_put [OF Cons.prems(2)] Cons.prems(3) unfolding call by simp
  ultimately show ?case using Cons.IH [of _ ?F] Cons.prems(3) by simp
qed simp

definition flags_as_asked :: "pass_options \<Rightarrow> ('w, 'r) wrapper \<Rightarrow> bool" where
  "flags_as_asked opts w \<longleftrightarrow>
     (let c = r_config (rt w) in
      stateReductionTracking (r_store (rt w)) = (\<not> disableStateInBytesOpt opts) \<and> trackInput c = (\<not> disableInputOpt opts)
      \<and> trackOutput c = (\<not> disableOutputOpt opts) \<and> trackCloneable c = (\<not> disableCloneableOpt opts)
      \<and> trackTransfer c = (\<not> disableTransferOpt opts) \<and> trackCycles c = cycleFindingOpt opts
      \<and> disableStateUses w = disableStateUsesOpt opts \<and> disableCallstack w = disableCallstackOpt opts)"

definition run_prologue :: "int list \<Rightarrow> ('w, 'r) wrapper \<Rightarrow> ('w, 'r) wrapper" where
  "run_prologue as w = prologue (as ! 0) (as ! 1) (as ! 2) (as ! 3) (as ! 4) (as ! 5) (as ! 6) (as ! 7) w"

lemma prologue_sets_flags: "flags_as_asked opts (run_prologue (prologue_args opts) w)"
  by (simp add: flags_as_asked_def run_prologue_def prologue_args_def prologue_def Let_def)

lemma exits_of_main:
  assumes "n \<in> set (getExitInstructions F)" "fname F = MAIN"
  obtains x v where "x \<in> set (func_insts F)" "iid x = n" "kind x = ReturnInst v"
proof -
  obtain x where x: "x \<in> set (func_insts F)" "iid x = n" "case kind x of CallInst _ _ \<Rightarrow> fname F = ''exit'' | ReturnInst _ \<Rightarrow> True | _ \<Rightarrow> False"
    using assms(1) by (auto simp: getExitInstructions_def)
  then have "\<exists>v. kind x = ReturnInst v" using assms(2) by (cases "kind x") (simp_all add: MAIN_def)
  then show ?thesis using x(1,2) that by blast
qed

lemma main_first:
  assumes M2: "ids_below M2" and M3: "setRuntimeGlobalVariables opts M2 = Some M3" and N: "insertEpilogue M3 = Some N"
  obtains F i where "getFunctionByName N MAIN = Some F" "first_inst F = Some i"
    "kind i = CallInst (FuncV MEMORYTOOL_PROLOGUE) (map ConstV (prologue_args opts))"
proof -
  obtain F i P where F: "getFunctionByName M2 MAIN = Some F" "first_inst F = Some i" "getRuntimeFunction M2 MEMORYTOOL_PROLOGUE = Some P"
    and M3': "M3 = place_at (runtime_call M2 None [] P (map ConstV (prologue_args opts))) (iid i) True M2"
    using M3 by (auto simp: setRuntimeGlobalVariables_def bind_eq_Some_conv)
  let ?j = "new_inst (nextId M2) (CallInst (FuncV MEMORYTOOL_PROLOGUE) (map ConstV (prologue_args opts))) VoidTy None"
  let ?G = "F\<lparr>blocks := map (\<lambda>b. b\<lparr>insts := put_before (iid i) [?j] (insts b)\<rparr>) (blocks F)\<rparr>"
  have call: "runtime_call M2 None [] P (map ConstV (prologue_args opts)) = [?j]"
    by (simp add: runtime_call_def casts_def getRuntimeFunction_name [OF F(3)])
  have G: "getFunctionByName M3 MAIN = Some ?G" using F(1) unfolding M3' call function_place by simp
  have first: "first_inst ?G = Some ?j" using first_inst_put [OF F(2)] by simp
  have name: "fname ?G = MAIN" "F \<in> set (m_functions M2)" using F(1) by (auto simp: getFunctionByName_def find_Some_iff)
  have "iid ?j \<notin> set (getExitInstructions ?G)"
  proof
    assume "iid ?j \<in> set (getExitInstructions ?G)"
    then obtain x v where x: "x \<in> set (func_insts ?G)" "iid x = iid ?j" "kind x = ReturnInst v" by (rule exits_of_main [OF _ name(1)])
    have "set (put_before p [y] xs) \<subseteq> insert y (set xs)" for p y xs by (induction xs) auto
    then have "x \<in> insert ?j (set (func_insts F))" using x(1) by (fastforce simp: func_insts_def)
    moreover have "x \<noteq> ?j" using x(3) by (auto simp: new_inst_def)
    ultimately have "x \<in> set (module_insts M2)" using func_insts_module [OF name(2)] by blast
    then show False using M2 x(2) by (auto simp: ids_below_def new_inst_def)
  qed
  from epilogue_keeps_first [OF G first this] N G show ?thesis
    using that by (fastforce simp: insertEpilogue_def bind_eq_Some_conv new_inst_def)
qed

text \<open>
  C19: the options reach the runtime. Whatever else the pass does, and also when it looks for cycles, the first instruction
  of \<open>main\<close> in the result is the call of the prologue, and its constants make the wrapper set exactly the flags that the
  options of the command line ask for.
\<close>

theorem options_reach_runtime:
  fixes w :: "('w, 'r) wrapper"
  assumes M: "module_ok M" and run: "runOnModule cfg opts pe M = Some (True, N, debugData)"
  shows "\<exists>F i as. getFunctionByName N MAIN = Some F \<and> first_inst F = Some i
    \<and> kind i = CallInst (FuncV MEMORYTOOL_PROLOGUE) (map ConstV as) \<and> length as = 8 \<and> flags_as_asked opts (run_prologue as w)"
  using run
proof (cases rule: runOnModule_cases)
  case (run A M2 M3)
  have r: "ready (nextId M) (insertRuntimeFunctions (snd (findFunctionsToInstrument M)))"
    by (rule edits_ready [OF edits_first_steps ready_start [OF M]]) (rule ready_start [OF M])
  have "ids_below M2"
    using run(3) instrument_module_ids [OF r] r by (auto simp: unless_def ids_below_def ready_def module_ok_def split: if_splits)
  from main_first [OF this run(4,5)] obtain F i where "getFunctionByName N MAIN = Some F" "first_inst F = Some i"
    "kind i = CallInst (FuncV MEMORYTOOL_PROLOGUE) (map ConstV (prologue_args opts))" by blast
  moreover have "length (prologue_args opts) = 8" by (simp add: prologue_args_def)
  ultimately show ?thesis using prologue_sets_flags by blast
qed simp

section \<open>Accesses that are never recorded\<close>

definition loop_optimised :: "selection \<Rightarrow> nat set" where
  "loop_optimised sel = set (invariantsToInstrument sel) \<union> set (mostlyInvariantsToInstrument sel) \<union> set (inductionsToInstrument sel)
     \<union> set (baseAddressMostlyInvariantsToInstrument sel)"

text \<open>The analysis without the entries of the accesses in \<open>X\<close>: what the pass would know if they were not in the program.\<close>

definition forget :: "nat set \<Rightarrow> analysis \<Rightarrow> analysis" where
  "forget X A = A\<lparr>an_visitor := (an_visitor A)\<lparr>instToEntryMap := filter (\<lambda>e. fst e \<notin> X) (instToEntryMap (an_visitor A))\<rparr>\<rparr>"

lemma forget_simps [simp]:
  "an_selection (forget X A) = an_selection A" "an_unique (forget X A) = an_unique A"
  "entries_at (an_visitor (forget X A)) = entries_at (an_visitor A)" "e_heap (an_visitor (forget X A)) = e_heap (an_visitor A)"
  "v_allocations (an_visitor (forget X A)) = v_allocations (an_visitor A)" "v_callocs (an_visitor (forget X A)) = v_callocs (an_visitor A)"
  "v_reallocs (an_visitor (forget X A)) = v_reallocs (an_visitor A)" "v_unknowns (an_visitor (forget X A)) = v_unknowns (an_visitor A)"
  "instToEntryMap (an_visitor (forget X A)) = filter (\<lambda>e. fst e \<notin> X) (instToEntryMap (an_visitor A))"
  "instrument_frees (forget X A) = instrument_frees A" "instrument_cycles (forget X A) = instrument_cycles A"
  by (simp_all add: forget_def entries_at_def fun_eq_iff instrument_frees_def instrument_cycles_def Let_def)

lemma fold_opt_cong: "(\<And>x s. x \<in> set xs \<Longrightarrow> f x s = g x s) \<Longrightarrow> fold_opt f xs s = fold_opt g xs s"
  by (induction xs arbitrary: s) (simp_all cong: bind_option_cong)

lemma fold_opt_skip: "(\<And>x s. x \<in> set xs \<Longrightarrow> \<not> P x \<Longrightarrow> f x s = Some s) \<Longrightarrow> fold_opt f (filter P xs) s = fold_opt f xs s"
  by (induction xs arbitrary: s) (simp_all cong: bind_option_cong)

lemma entry_at_forget: "n \<notin> X \<Longrightarrow> entry_at (filter (\<lambda>e. fst e \<notin> X) m) heap n = entry_at m heap n"
  unfolding entry_at_def by (induction m) auto

text \<open>The sets are apart from those a guard is made for, and in the set that the plain instrumentation skips.\<close>

lemma forget_uses:
  assumes "loop_optimised (an_selection A) \<inter> set (onlyReadToInstrument (an_selection A)) = {}"
    and "loop_optimised (an_selection A) \<inter> ds_inst ` set (directStateToInstrumentAll (an_selection A)) = {}"
    and "loop_optimised (an_selection A) \<subseteq> set (sel_instsToSkip (an_selection A))"
  shows "instrument_uses cfg typeOf cs (forget (loop_optimised (an_selection A)) A) = instrument_uses cfg typeOf cs A"
proof
  fix M
  let ?X = "loop_optimised (an_selection A)" and ?m = "instToEntryMap (an_visitor A)" and ?h = "e_heap (an_visitor A)"
  have same: "\<forall>x \<in> S. entry_at (filter (\<lambda>e. fst e \<notin> ?X) ?m) ?h x = entry_at ?m ?h x" if "?X \<inter> S = {}" for S
    using that by (intro ballI entry_at_forget) blast
  have only: "instrumentOnlyReads typeOf cs (filter (\<lambda>e. fst e \<notin> ?X) ?m) ?h (onlyReadToInstrument (an_selection A))
      = instrumentOnlyReads typeOf cs ?m ?h (onlyReadToInstrument (an_selection A))"
    unfolding instrumentOnlyReads_def [abs_def] using same [OF assms(1)]
    by (intro ext fold_opt_cong) (simp add: instrumentOnlyRead_def)
  have direct: "instrumentDirectStateLoadStore typeOf cs (filter (\<lambda>e. fst e \<notin> ?X) ?m) ?h (directStateToInstrumentAll (an_selection A))
      = instrumentDirectStateLoadStore typeOf cs ?m ?h (directStateToInstrumentAll (an_selection A))"
    unfolding instrumentDirectStateLoadStore_def [abs_def] using same [OF assms(2)]
    by (intro ext fold_opt_cong) (simp add: instrumentDirectState_def)
  have plain: "instrumentLoadsStoresRegular cs (filter (\<lambda>e. fst e \<notin> ?X) ?m) ?h (sel_instsToSkip (an_selection A))
      = instrumentLoadsStoresRegular cs ?m ?h (sel_instsToSkip (an_selection A))"
    unfolding instrumentLoadsStoresRegular_def [abs_def] using assms(3)
    by (intro ext fold_opt_skip) (auto simp: instrumentAccess_def)
  show "instrument_uses cfg typeOf cs (forget ?X A) M = instrument_uses cfg typeOf cs A M"
    by (simp add: instrument_uses_def Let_def only direct plain)
qed

text \<open>
  C21: the accesses chosen for the loop optimisations are lost. In every run of the pass they have entries, but the module that
  comes out is the one that comes out when these entries are forgotten before the module is changed: because the calls
  that would make their guards are commented out, and the plain instrumentation skips them, nothing is inserted for
  them.
\<close>

theorem optimised_accesses_lost:
  assumes order: "\<forall>x y. ne_lt (pe_noelle pe) x y \<or> ne_lt (pe_noelle pe) y x \<or> x = y"
    and run: "runOnModule cfg opts pe M = Some (True, N, debugData)"
    and mgr: "new_ROIManager M = Some mgr" and A: "analyse cfg pe mgr M = Some (A, M1)"
  shows "loop_optimised (an_selection A) \<subseteq> fst ` set (instToEntryMap (an_visitor A))
    \<and> Option.bind (unless (disableAllInstrumentation cfg)
          (instrument_module cfg (cycleFindingOpt opts) (ve_typeOf (pe_visit pe)) (forget (loop_optimised (an_selection A)) A))
          (insertRuntimeFunctions M1)) (\<lambda>M2. Option.bind (setRuntimeGlobalVariables opts M2) insertEpilogue) = Some N"
proof -
  let ?X = "loop_optimised (an_selection A)"
  have "\<exists>IV :: MyInstVisitor. select_insts cfg (pe_noelle pe) M1 (getROIs_module mgr) (instToEntryMap IV) (e_heap IV) = Some (an_selection A)
      \<and> instToEntryMap (an_visitor A) = instToEntryMap IV"
    using A by (cases "findFunctionsToInstrument M") (clarsimp simp: analyse_def bind_eq_Some_conv, rule exI, rule conjI, assumption, simp)
  then obtain IV :: MyInstVisitor where sel: "select_insts cfg (pe_noelle pe) M1 (getROIs_module mgr) (instToEntryMap IV) (e_heap IV) = Some (an_selection A)"
    and IV: "instToEntryMap (an_visitor A) = instToEntryMap IV" by blast
  have sets: "disjoint_list (chosen_sets (an_selection A))" "\<Union> (set (chosen_sets (an_selection A))) = set (sel_instsToSkip (an_selection A))"
    "set (sel_instsToSkip (an_selection A)) \<subseteq> fst ` set (instToEntryMap IV)"
    using select_insts_sets [OF _ sel] order by blast+
  then have "?X \<subseteq> set (sel_instsToSkip (an_selection A))" "?X \<inter> set (onlyReadToInstrument (an_selection A)) = {}"
    "?X \<inter> ds_inst ` set (directStateToInstrumentAll (an_selection A)) = {}"
    by (auto simp: chosen_sets_def loop_optimised_def)
  then have "instrument_uses cfg typeOf cs (forget ?X A) = instrument_uses cfg typeOf cs A" for typeOf cs by (intro forget_uses)
  then have "instrument_module cfg c typeOf (forget ?X A) = instrument_module cfg c typeOf A" for c typeOf
    by (intro ext) (cases c; simp add: instrument_module_def Let_def)
  moreover have "Option.bind (unless (disableAllInstrumentation cfg)
          (instrument_module cfg (cycleFindingOpt opts) (ve_typeOf (pe_visit pe)) A)
          (insertRuntimeFunctions M1)) (\<lambda>M2. Option.bind (setRuntimeGlobalVariables opts M2) insertEpilogue) = Some N"
    using run mgr A by (auto simp: runOnModule_def bind_eq_Some_conv split: if_splits)
  ultimately show ?thesis using sets \<open>?X \<subseteq> set (sel_instsToSkip (an_selection A))\<close> IV by auto
qed

lemma store_nothing: "store_loop q env p 0 n u 0 r = Some r"
  by (subst store_loop.simps) simp

text \<open>
  C22: stores of pointers. The size of the stored value is taken from \<open>getPrimitiveSizeInBits\<close>, which is 0 for a pointer, so
  the wrapper is told of 0 bytes: it notes the address as seen and logs no access.
\<close>

theorem pointer_stores_unrecorded:
  assumes v: "typeOf v = PointerTy" and f: "f \<in> set toInstrument" "iid i \<notin> set touchesToSkip"
    and st': "st' = visitStoreInst typeOf toInstrument touchesToSkip f i v p st"
  shows "map_of (instToEntryMap st') (iid i) = Some (length (e_heap st)) \<and> e_size (last (e_heap st')) = 0
    \<and> (\<exists>w'. texasAddToStateWithInfoWrapper q env u addr (e_size (last (e_heap st'))) n tr w = Some w' \<and> rt w' = rt w)"
proof -
  obtain path line col where place: "access_place i = (path, line, col)" by (cases "access_place i")
  have entry: "e_size (last (e_heap st')) = 0" "map_of (instToEntryMap st') (iid i) = Some (length (e_heap st))"
    using v f place by (simp_all add: st' visitStoreInst_def visitEscapeInst_def alloc_entry_def push_store_def new_Entry_def Let_def)
  then show ?thesis
    by (auto simp: texasAddToStateWithInfoWrapper_def with_rt_def store_nothing use_id_def alloc_id_def split: prod.splits)
qed

section \<open>The example\<close>

text \<open>
  A program with one region, a read and a write in it, and the analyses for it, in a build without the data flow
  optimisation, which has its own example.
\<close>

definition pass_sample :: llvm_module where
  "pass_sample =
     \<lparr>m_functions =
        [plain_func MEMORYTOOL_START_TRACKING [], plain_func MEMORYTOOL_STOP_TRACKING [],
         plain_func ''main''
           [\<lparr>bid = 0, insts = [inst_num 1 (AllocaInst (IntegerTy 64)), inst_num 2 (CallInst (FuncV MEMORYTOOL_START_TRACKING) []),
              inst_num 3 (StoreInst (InstV 2) (InstV 1)), inst_num 4 (LoadInst (ArgV ''main'' 1)),
              inst_num 5 (StoreInst (InstV 4) (ArgV ''main'' 1)), inst_num 6 (LoadInst (InstV 1)),
              inst_num 7 (CallInst (FuncV MEMORYTOOL_STOP_TRACKING) [InstV 6]), inst_num 8 (ReturnInst None)]\<rparr>]],
      m_globals = [], nextId = 9\<rparr>"

definition pass_graph :: call_graph where
  "pass_graph =
     \<lparr>cg_nodes = [''main'', MEMORYTOOL_START_TRACKING, MEMORYTOOL_STOP_TRACKING],
      callees = (\<lambda>f. if f = ''main'' then [MEMORYTOOL_START_TRACKING, MEMORYTOOL_STOP_TRACKING] else []),
      callers = (\<lambda>f. if f = ''main'' then [] else [''main'']), entryNode = ''main''\<rparr>"

definition pass_sample_env :: pass_env where
  "pass_sample_env =
     \<lparr>pe_noelle = \<lparr>ne_lt = (<), ne_roiLoop = (\<lambda>_. None), ne_loops = [], ne_hot = (\<lambda>_. 1), ne_stack = 9\<rparr>, pe_graph = pass_graph,
      pe_engine = round_robin 1, pe_funcLess = (\<noteq>), pe_DT = (\<lambda>f a b. a \<le> b), pe_PDT = (\<lambda>f a b. b \<le> a), pe_isPure = (\<lambda>_. False),
      pe_visit = visit_sample_env\<rparr>"

definition sample_config :: pass_config where
  "sample_config = \<lparr>disable_STORE_DFA_OPT = True, disable_SKIP_ROIS_LOADS_STORES = False, disable_ONLY_READ_OPT = False,
     disable_DIRECT_STATE = False, disable_LOOP_INVARIANT_STORE_OPT = False, disable_MOSTLY_LOOP_INVARIANT_STORE_OPT = False,
     disable_LOOP_INDUCTION_STORE_OPT = False, disable_BASE_ADDRESS_MOSTLY_INVARIANT_STORE_OPT = False, disable_PIN = False,
     enableDFAObjGranularity = False, disableStateUsesInstrumentation = False, disableAllInstrumentation = False\<rparr>"

definition sample_options :: pass_options where
  "sample_options = \<lparr>disableStateInBytesOpt = True, disableInputOpt = False, disableOutputOpt = False, disableCloneableOpt = False,
     disableTransferOpt = True, cycleFindingOpt = False, disableStateUsesOpt = True, disableCallstackOpt = False\<rparr>"

text \<open>What the analyses find, and the body of \<open>main\<close> after the steps that change it.\<close>

definition sample_funcs :: "string list" where
  "sample_funcs = [''main'', MEMORYTOOL_START_TRACKING, MEMORYTOOL_STOP_TRACKING]"

definition sample_heap :: "Entry list" where
  "sample_heap =
     [(new_Entry (InstV 4) (Some (ArgV ''main'' 1)) None None None 0 ''UnknownPathToFile'' [] 0 0)\<lparr>e_id := 2\<rparr>,
      (new_Entry (InstV 5) (Some (ArgV ''main'' 1)) None None None 8 ''UnknownPathToFile'' [] 0 0)\<lparr>sizeElement := 8, e_id := 1\<rparr>]"

definition sample_visitor :: MyInstVisitor where
  "sample_visitor = new_visitor\<lparr>e_heap := sample_heap, v_returns := [8], v_loads := [0], v_stores := [1], instToEntryMap := [(4, 0), (5, 1)]\<rparr>"

definition sample_records :: "DebugData list" where
  "sample_records = replicate 2 \<lparr>pathToFile = ''UnknownPathToFile'', varName = [], lineNum = 0, columnNum = 0\<rparr>"

definition sample_selection :: selection where
  "sample_selection = \<lparr>onlyReadToInstrument = [], directStateToInstrumentAll = [], invariantsToInstrument = [],
     mostlyInvariantsToInstrument = [], inductionsToInstrument = [], baseAddressMostlyInvariantsToInstrument = [],
     sel_instsToSkip = [], sel_heap = sample_heap\<rparr>"

definition sample_analysis :: analysis where
  "sample_analysis = \<lparr>an_visitor = sample_visitor, an_debugData = sample_records, an_selection = sample_selection, an_unique = sample_funcs\<rparr>"

definition sample_manager :: ROIManager where
  "sample_manager = \<lparr>startFunc = Some MEMORYTOOL_START_TRACKING, stopFunc = Some MEMORYTOOL_STOP_TRACKING, contextFunc = None,
     funcToRoisMap = [(MEMORYTOOL_START_TRACKING, []), (MEMORYTOOL_STOP_TRACKING, []), (''main'', [\<lparr>roi_start = 2, roi_stops = [7]\<rparr>])]\<rparr>"

definition body :: "nat \<Rightarrow> instr" where
  "body k = insts (hd (blocks (m_functions pass_sample ! 2))) ! k"

definition stage :: "instr list \<Rightarrow> nat \<Rightarrow> llvm_module" where
  "stage is k = (insertRuntimeFunctions pass_sample)
     \<lparr>m_functions := (m_functions (insertRuntimeFunctions pass_sample))[2 := plain_func ''main'' [\<lparr>bid = 0, insts = is\<rparr>]], nextId := k\<rparr>"

definition stack_call :: instr where
  "stack_call = new_inst 9 (CallInst (FuncV MEMORYTOOL_CALLSTACK_UNIQUE) [ConstV 0, ConstV 3]) PointerTy None"

definition sample_body :: "instr list" where
  "sample_body = [stack_call, body 0, body 1, body 2, body 3,
     new_inst 10 (CastInst (ArgV ''main'' 1)) PointerTy None,
     new_inst 11 (CallInst (FuncV TEXAS_ADD_WITH_INFO_LOAD) [ConstV 2, InstV 10, InstV 9]) VoidTy None, body 4,
     new_inst 12 (CastInst (ArgV ''main'' 1)) PointerTy None,
     new_inst 13 (CallInst (FuncV TEXAS_ADD_WITH_INFO) [ConstV 1, InstV 12, ConstV 8, ConstV 8, InstV 9]) VoidTy None, body 5, body 6]"

definition sample_prologue :: instr where
  "sample_prologue = new_inst 14 (CallInst (FuncV MEMORYTOOL_PROLOGUE) (map ConstV [0, 1, 1, 1, 0, 0, 1, 0])) VoidTy None"

definition sample_epilogue :: instr where
  "sample_epilogue = new_inst 15 (CallInst (FuncV MEMORYTOOL_EPILOGUE) []) VoidTy None"

lemma sample_analyses:
  "module_ok pass_sample" "new_ROIManager pass_sample = Some sample_manager"
  "getFunctionsToInstrumentLoadStore 9 (\<noteq>) pass_sample pass_graph = Some sample_funcs"
  "uses_to_skip sample_config pass_sample_env sample_manager sample_funcs pass_sample = Some [3, 6]"
  "findFunctionsToInstrument pass_sample = ([], pass_sample)"
  "collect_entries sample_config pass_sample_env sample_funcs [] [3, 6] pass_sample = Some (sample_visitor, sample_records)"
  "select_insts sample_config (pe_noelle pass_sample_env) pass_sample (getROIs_module sample_manager) [(4, 0), (5, 1)] sample_heap = Some sample_selection"
  "getUniqueCallstackFunctions 9 pass_graph = Some sample_funcs" "getROIs_module sample_manager \<noteq> []"
  by code_simp+

lemma sample_steps:
  "callstackInstrumentation sample_funcs (insertRuntimeFunctions pass_sample) = Some ([(''main'', 9)], stage (stack_call # map body [0..<8]) 10)"
  "instrumentLoadsStoresRegular [(''main'', 9)] [(4, 0), (5, 1)] sample_heap [] (stage (stack_call # map body [0..<8]) 10) = Some (stage (sample_body @ [body 7]) 14)"
  "instrumentReturns [8] [] (stage (sample_body @ [body 7]) 14) = Some (stage (sample_body @ [body 7]) 14)"
  "setRuntimeGlobalVariables sample_options (stage (sample_body @ [body 7]) 14) = Some (stage (sample_prologue # sample_body @ [body 7]) 15)"
  "insertEpilogue (stage (sample_prologue # sample_body @ [body 7]) 15) = Some (stage (sample_prologue # sample_body @ [sample_epilogue, body 7]) 16)"
  by code_simp+

lemma sample_analyse: "analyse sample_config pass_sample_env sample_manager pass_sample = Some (sample_analysis, pass_sample)"
  using sample_analyses(3-8)
  by (simp add: analyse_def pass_sample_env_def sample_visitor_def sample_selection_def sample_analysis_def)

lemma sample_instrumented:
  "instrument_module sample_config False typeOf sample_analysis (insertRuntimeFunctions pass_sample) = Some (stage (sample_body @ [body 7]) 14)"
  using sample_steps(1-3)
  by (simp add: instrument_module_def sample_analysis_def sample_visitor_def new_visitor_def entries_at_def unless_def instrument_uses_def
      instrument_frees_def sample_selection_def sample_config_def instrumentAllocations_def instrumentCallocs_def instrumentReallocs_def
      instrumentUnkowns_def instrumentOnlyReads_def instrumentDirectStateLoadStore_def instrumentDeallocs_def instrumentInvokes_def)

lemma sample_run:
  "runOnModule sample_config sample_options pass_sample_env pass_sample =
     Some (True, stage (sample_prologue # sample_body @ [sample_epilogue, body 7]) 16, sample_records)"
proof -
  have "\<not> disableAllInstrumentation sample_config" "\<not> cycleFindingOpt sample_options" "an_debugData sample_analysis = sample_records"
    by (simp_all add: sample_config_def sample_options_def sample_analysis_def)
  then show ?thesis
    using sample_analyses(2,9) sample_analyse sample_instrumented sample_steps(4,5) by (simp add: runOnModule_def unless_def)
qed

theorem pass_keeps_program_witness:
  "program_code 9 (stage (sample_prologue # sample_body @ [sample_epilogue, body 7]) 16) = program_code 9 pass_sample
    \<and> list_all (\<lambda>i. iid i < 9 \<or> instrumentation 9 i) (sample_prologue # sample_body @ [sample_epilogue, body 7])"
proof -
  have "\<not> cycleFindingOpt sample_options" "nextId pass_sample = 9" by (simp_all add: sample_options_def pass_sample_def)
  moreover have "set (sample_prologue # sample_body @ [sample_epilogue, body 7])
      \<subseteq> set (module_insts (stage (sample_prologue # sample_body @ [sample_epilogue, body 7]) 16))" by code_simp
  ultimately show ?thesis using pass_keeps_program [OF sample_analyses(1) sample_run] by (auto simp: list_all_iff)
qed

theorem options_reach_runtime_witness:
  "\<exists>F i as. getFunctionByName (stage (sample_prologue # sample_body @ [sample_epilogue, body 7]) 16) MAIN = Some F \<and> first_inst F = Some i
    \<and> kind i = CallInst (FuncV MEMORYTOOL_PROLOGUE) (map ConstV as)
    \<and> trackTransfer (r_config (rt (run_prologue as sample_wrapper))) = False \<and> trackInput (r_config (rt (run_prologue as sample_wrapper)))"
  using options_reach_runtime [OF sample_analyses(1) sample_run, of sample_wrapper]
  by (auto simp: flags_as_asked_def sample_options_def Let_def)

text \<open>A loop around the two accesses whose addresses do not change in it: both are lost.\<close>

definition lost_env :: pass_env where
  "lost_env = pass_sample_env\<lparr>pe_noelle := (pe_noelle pass_sample_env)\<lparr>ne_loops := [\<lparr>l_insts = [body 3, body 4], l_headerTerminator = 8,
     isLoopInvariant = (\<lambda>_. True), contributesToIV = (\<lambda>_. False), depsFrom = (\<lambda>_. []), depsTo = (\<lambda>_. []), l_govIV = None\<rparr>]\<rparr>\<rparr>"

definition lost_module :: llvm_module where
  "lost_module = stage (sample_prologue\<lparr>iid := 10\<rparr> # stack_call # map body [0..<7] @ [sample_epilogue\<lparr>iid := 11\<rparr>, body 7]) 12"

definition lost_result :: analysis where
  "lost_result = sample_analysis\<lparr>an_selection := sample_selection\<lparr>invariantsToInstrument := [4, 5], sel_instsToSkip := [4, 5]\<rparr>\<rparr>"

lemma lost_selection:
  "select_insts sample_config (pe_noelle lost_env) pass_sample (getROIs_module sample_manager) [(4, 0), (5, 1)] sample_heap
     = Some (sample_selection\<lparr>invariantsToInstrument := [4, 5], sel_instsToSkip := [4, 5]\<rparr>)"
  by code_simp

lemma lost_analysis: "analyse sample_config lost_env sample_manager pass_sample = Some (lost_result, pass_sample)"
proof -
  have "uses_to_skip sample_config lost_env sample_manager sample_funcs pass_sample = Some [3, 6]"
    "collect_entries sample_config lost_env sample_funcs [] [3, 6] pass_sample = Some (sample_visitor, sample_records)"
    using sample_analyses(4,6) by (simp_all add: uses_to_skip_def collect_entries_def lost_env_def sample_config_def pass_sample_env_def)
  then show ?thesis
    using sample_analyses(3,5,8) lost_selection
    by (simp add: analyse_def lost_env_def pass_sample_env_def sample_visitor_def sample_selection_def sample_analysis_def lost_result_def)
qed

lemma lost_steps:
  "instrumentLoadsStoresRegular [(''main'', 9)] [(4, 0), (5, 1)] sample_heap [4, 5] (stage (stack_call # map body [0..<8]) 10)
     = Some (stage (stack_call # map body [0..<8]) 10)"
  "instrumentReturns [8] [] (stage (stack_call # map body [0..<8]) 10) = Some (stage (stack_call # map body [0..<8]) 10)"
  "Option.bind (setRuntimeGlobalVariables sample_options (stage (stack_call # map body [0..<8]) 10)) insertEpilogue = Some lost_module"
  by code_simp+

lemma lost_instrumented:
  "instrument_module sample_config False typeOf lost_result (insertRuntimeFunctions pass_sample) = Some (stage (stack_call # map body [0..<8]) 10)"
  using sample_steps(1) lost_steps(1,2)
  by (simp add: instrument_module_def lost_result_def sample_analysis_def sample_visitor_def new_visitor_def entries_at_def unless_def
      instrument_uses_def instrument_frees_def sample_selection_def sample_config_def instrumentAllocations_def instrumentCallocs_def
      instrumentReallocs_def instrumentUnkowns_def instrumentOnlyReads_def instrumentDirectStateLoadStore_def instrumentDeallocs_def
      instrumentInvokes_def)

lemma lost_run: "runOnModule sample_config sample_options lost_env pass_sample = Some (True, lost_module, sample_records)"
proof -
  have "\<not> disableAllInstrumentation sample_config" "\<not> cycleFindingOpt sample_options" "an_debugData lost_result = sample_records"
    by (simp_all add: sample_config_def sample_options_def sample_analysis_def lost_result_def)
  then show ?thesis
    using sample_analyses(2,9) lost_analysis lost_instrumented lost_steps(3)
    by (auto simp: runOnModule_def unless_def bind_eq_Some_conv)
qed

theorem optimised_accesses_lost_witness:
  "5 \<in> loop_optimised (an_selection lost_result)
    \<and> Option.bind (unless (disableAllInstrumentation sample_config)
          (instrument_module sample_config (cycleFindingOpt sample_options) (ve_typeOf (pe_visit lost_env))
             (forget (loop_optimised (an_selection lost_result)) lost_result))
          (insertRuntimeFunctions pass_sample)) (\<lambda>M2. Option.bind (setRuntimeGlobalVariables sample_options M2) insertEpilogue) = Some lost_module"
proof -
  have "\<forall>x y. ne_lt (pe_noelle lost_env) x y \<or> ne_lt (pe_noelle lost_env) y x \<or> x = y" by (auto simp: lost_env_def pass_sample_env_def)
  from optimised_accesses_lost [OF this lost_run sample_analyses(2) lost_analysis] show ?thesis
    by (simp add: loop_optimised_def lost_result_def)
qed

theorem pointer_stores_unrecorded_witness:
  "let st' = visitStoreInst (\<lambda>_. PointerTy) [''main''] [] ''main'' (body 4) (InstV 4) (ArgV ''main'' 1) new_visitor in
   e_size (last (e_heap st')) = 0
   \<and> (\<exists>w'. texasAddToStateWithInfoWrapper list_queues sample_env 1 64 (e_size (last (e_heap st'))) 0 None sample_wrapper = Some w'
        \<and> rt w' = rt sample_wrapper)"
proof -
  have "''main'' \<in> set [''main'']" "iid (body 4) \<notin> set ([] :: nat list)" by simp_all
  from pointer_stores_unrecorded [of "\<lambda>_. PointerTy" "InstV 4", OF refl this refl] show ?thesis unfolding Let_def by blast
qed

end
