(* ===== verification/Mem_Trace.thy ===== *)
theory Mem_Trace
  imports Wrapper
begin

text \<open>
  The Pin tool \<open>src/utils/MemTrace/memtrace.cpp\<close>, which records what uninstrumented library code does: the accesses go
  through a log in memory that is emptied into a list when it is full or when recording stops, allocations and releases
  go to the list at once, and the program reads the list through the stubs of \<open>pin_interface.cpp\<close>. All maps of the tool are
  indexed by the thread, so the model is the state of one thread. What Pin knows of an instruction is a record; the
  headers of traces are found by their address in \<open>hdrs\<close>. Positions in the log are counted in slots of \<open>sizeof(ADDRINT)\<close>
  bytes, because every offset of the source is a multiple of it. A failed assertion, or an access outside the log, is
  \<open>None\<close>.
\<close>

section \<open>Instrumentation of a trace\<close>

datatype TCMD_TYPE = TCMD_INVALID | TCMD_IMMEDIATE | TCMD_REG_VALUE | TCMD_REG_OFFSET | TCMD_TRACE_OFFSET | TCMD_BBLOCK

datatype IARG_TYPE = IARG_MEMORYREAD_EA | IARG_MEMORYWRITE_EA | IARG_MEMORYREAD2_EA

record pin_ins =
  INS_Address :: u64
  INS_IsStackRead :: bool
  INS_IsStackWrite :: bool
  INS_IsMemoryRead :: bool
  INS_IsMemoryWrite :: bool
  INS_HasMemoryRead2 :: bool
  INS_IsStandardMemop :: bool

record REF =
  ref_ip :: u64
  ref_read :: bool

record SCRATCH_TRACE_HEADER =
  frameOffset :: nat
  s_cmds :: "TCMD_TYPE list"
  s_refs :: "REF list"
  s_calls :: "(pin_ins \<times> nat \<times> IARG_TYPE) list"

record TRACE_HEADER =
  logSlots :: nat
  h_cmds :: "TCMD_TYPE list"
  h_refs :: "REF list"

definition new_SCRATCH_TRACE_HEADER :: SCRATCH_TRACE_HEADER where
  "new_SCRATCH_TRACE_HEADER = \<lparr>frameOffset = 1, s_cmds = [], s_refs = [], s_calls = []\<rparr>"

definition new_TRACE_HEADER :: "SCRATCH_TRACE_HEADER \<Rightarrow> TRACE_HEADER" where
  "new_TRACE_HEADER scratch = \<lparr>logSlots = frameOffset scratch, h_cmds = s_cmds scratch, h_refs = s_refs scratch\<rparr>"

definition RecordLogImmediate :: "pin_ins \<Rightarrow> IARG_TYPE \<Rightarrow> SCRATCH_TRACE_HEADER \<Rightarrow> SCRATCH_TRACE_HEADER" where
  "RecordLogImmediate ins itype th =
     th\<lparr>s_cmds := s_cmds th @ [TCMD_IMMEDIATE],
        s_refs := s_refs th @ [\<lparr>ref_ip = INS_Address ins, ref_read = (itype \<noteq> IARG_MEMORYWRITE_EA)\<rparr>],
        s_calls := s_calls th @ [(ins, frameOffset th, itype)], frameOffset := frameOffset th + 1\<rparr>"

definition InstrumentINS :: "pin_ins \<Rightarrow> SCRATCH_TRACE_HEADER \<Rightarrow> SCRATCH_TRACE_HEADER" where
  "InstrumentINS ins th =
     (if INS_IsStackRead ins \<or> INS_IsStackWrite ins then th
      else let th1 = (if INS_IsMemoryRead ins \<and> INS_IsStandardMemop ins then RecordLogImmediate ins IARG_MEMORYREAD_EA th else th);
               th2 = (if INS_IsMemoryWrite ins \<and> INS_IsStandardMemop ins then RecordLogImmediate ins IARG_MEMORYWRITE_EA th1 else th1)
           in if INS_HasMemoryRead2 ins \<and> INS_IsStandardMemop ins then RecordLogImmediate ins IARG_MEMORYREAD2_EA th2 else th2)"

definition InstrumentBBL :: "pin_ins list \<Rightarrow> SCRATCH_TRACE_HEADER \<Rightarrow> SCRATCH_TRACE_HEADER" where
  "InstrumentBBL bbl th = fold InstrumentINS bbl th"

text \<open>The calls are inserted with their offset from the cursor after the space of the trace has been taken.\<close>

definition InsertCalls :: "SCRATCH_TRACE_HEADER \<Rightarrow> (pin_ins \<times> int \<times> IARG_TYPE) list" where
  "InsertCalls th = map (\<lambda>(ins, offset, itype). (ins, int offset - int (frameOffset th), itype)) (s_calls th)"

definition InstrumentTrace :: "bool \<Rightarrow> pin_ins list list \<Rightarrow> (TRACE_HEADER \<times> (pin_ins \<times> int \<times> IARG_TYPE) list) option" where
  "InstrumentTrace off trace =
     (let th = fold InstrumentBBL trace new_SCRATCH_TRACE_HEADER in
      if off \<or> s_cmds th = [] then None else Some (new_TRACE_HEADER th, InsertCalls th))"

section \<open>The log\<close>

definition BUFFER_SLOTS :: nat where
  "BUFFER_SLOTS = 1000000 div 8"

record pin_thread =
  t_data :: "u64 list"
  t_cursor :: nat
  t_addresses :: "Address list"
  toggleMemtrace :: bool
  toggleMalloc :: bool
  toggleFree :: bool
  t_stackPtr :: u64

definition ThreadStart :: "u64 \<Rightarrow> pin_thread" where
  "ThreadStart rsp_value =
     \<lparr>t_data = replicate BUFFER_SLOTS 0, t_cursor = 0, t_addresses = [], toggleMemtrace = True, toggleMalloc = True,
      toggleFree = True, t_stackPtr = rsp_value\<rparr>"

definition RecordImmediate :: "u64 \<Rightarrow> int \<Rightarrow> u64 \<Rightarrow> pin_thread \<Rightarrow> pin_thread option" where
  "RecordImmediate rsp_value offset val t =
     (let pos = int (t_cursor t) + offset in
      if 0 \<le> pos \<and> nat pos < length (t_data t)
      then Some (t\<lparr>t_data := (t_data t)[nat pos := if val > rsp_value \<and> val < t_stackPtr t then 0 else val]\<rparr>)
      else None)"

fun ExpandTrace :: "TCMD_TYPE list \<Rightarrow> REF list \<Rightarrow> nat \<Rightarrow> nat \<Rightarrow> u64 list \<times> Address list \<Rightarrow> (u64 list \<times> Address list) option" where
  "ExpandTrace [] refs ref logCursor st = Some st"
| "ExpandTrace (TCMD_IMMEDIATE # cmds) refs ref logCursor (d, out) =
     (if logCursor < length d \<and> ref < length refs
      then ExpandTrace cmds refs (ref + 1) (logCursor + 1)
             (if d ! logCursor \<noteq> 0 then (d[logCursor := 0], out @ [TouchedAddress (d ! logCursor) (\<not> ref_read (refs ! ref))]) else (d, out))
      else None)"
| "ExpandTrace (_ # cmds) refs ref logCursor st = None"

partial_function (option) expand_loop :: "(u64 \<Rightarrow> TRACE_HEADER option) \<Rightarrow> nat \<Rightarrow> u64 list \<times> Address list \<Rightarrow> (u64 list \<times> Address list) option" where
  "expand_loop hdrs logCursor st =
     (if logCursor < length (fst st)
      then if fst st ! logCursor = 0 then Some st
           else Option.bind (hdrs (fst st ! logCursor)) (\<lambda>theader.
                Option.bind (ExpandTrace (h_cmds theader) (h_refs theader) 0 (logCursor + 1) st) (\<lambda>st1.
                expand_loop hdrs (logCursor + logSlots theader) st1))
      else None)"

declare expand_loop.simps [code]

definition Expand :: "(u64 \<Rightarrow> TRACE_HEADER option) \<Rightarrow> pin_thread \<Rightarrow> pin_thread option" where
  "Expand hdrs t = map_option (\<lambda>(d, out). t\<lparr>t_data := d, t_addresses := out\<rparr>) (expand_loop hdrs 0 (t_data t, t_addresses t))"

definition TraceAllocIf :: "nat \<Rightarrow> pin_thread \<Rightarrow> bool" where
  "TraceAllocIf slots t \<longleftrightarrow> t_cursor t + slots \<ge> length (t_data t)"

definition TraceAllocThen :: "(u64 \<Rightarrow> TRACE_HEADER option) \<Rightarrow> pin_thread \<Rightarrow> pin_thread option" where
  "TraceAllocThen hdrs t = map_option (\<lambda>t. t\<lparr>t_cursor := 0\<rparr>) (Expand hdrs t)"

definition RecordTraceBegin :: "u64 \<Rightarrow> nat \<Rightarrow> pin_thread \<Rightarrow> pin_thread option" where
  "RecordTraceBegin theader slots t =
     (if t_cursor t < length (t_data t)
      then Some (t\<lparr>t_data := (t_data t)[t_cursor t := theader], t_cursor := t_cursor t + slots\<rparr>) else None)"

definition BeginTrace :: "(u64 \<Rightarrow> TRACE_HEADER option) \<Rightarrow> u64 \<Rightarrow> nat \<Rightarrow> pin_thread \<Rightarrow> pin_thread option" where
  "BeginTrace hdrs theader slots t =
     Option.bind (if TraceAllocIf slots t then TraceAllocThen hdrs t else Some t) (RecordTraceBegin theader slots)"

definition ThreadFini :: "(u64 \<Rightarrow> TRACE_HEADER option) \<Rightarrow> pin_thread \<Rightarrow> Address list option" where
  "ThreadFini hdrs t = map_option t_addresses (Expand hdrs t)"

section \<open>Switches\<close>

definition toggleon :: "pin_thread \<Rightarrow> pin_thread" where
  "toggleon t = t\<lparr>toggleMemtrace := False, toggleMalloc := False, toggleFree := False\<rparr>"

definition toggleoff :: "(u64 \<Rightarrow> TRACE_HEADER option) \<Rightarrow> pin_thread \<Rightarrow> pin_thread option" where
  "toggleoff hdrs t =
     map_option (\<lambda>t. t\<lparr>t_cursor := 0\<rparr>) (Expand hdrs (t\<lparr>toggleMemtrace := True, toggleMalloc := True, toggleFree := True\<rparr>))"

definition toggleonmemtrace :: "pin_thread \<Rightarrow> pin_thread" where
  "toggleonmemtrace t = t\<lparr>toggleMemtrace := False\<rparr>"

definition toggleoffmemtrace :: "(u64 \<Rightarrow> TRACE_HEADER option) \<Rightarrow> pin_thread \<Rightarrow> pin_thread option" where
  "toggleoffmemtrace hdrs t = map_option (\<lambda>t. t\<lparr>t_cursor := 0\<rparr>) (Expand hdrs (t\<lparr>toggleMemtrace := True\<rparr>))"

definition toggleonmalloc :: "pin_thread \<Rightarrow> pin_thread" where
  "toggleonmalloc t = t\<lparr>toggleMalloc := False\<rparr>"

definition toggleoffmalloc :: "pin_thread \<Rightarrow> pin_thread" where
  "toggleoffmalloc t = t\<lparr>toggleMalloc := True\<rparr>"

definition toggleonfree :: "pin_thread \<Rightarrow> pin_thread" where
  "toggleonfree t = t\<lparr>toggleFree := False\<rparr>"

definition toggleofffree :: "pin_thread \<Rightarrow> pin_thread" where
  "toggleofffree t = t\<lparr>toggleFree := True\<rparr>"

section \<open>Allocations, and the answers to the program\<close>

definition recordMallocSize :: "u64 \<Rightarrow> pin_thread \<Rightarrow> pin_thread" where
  "recordMallocSize n t = (if toggleMalloc t then t else t\<lparr>t_addresses := t_addresses t @ [MallocAddress 0 n]\<rparr>)"

text \<open>The cast of \<open>back()\<close> is not checked: the address is the first field of all three classes.\<close>

fun set_address :: "u64 \<Rightarrow> Address \<Rightarrow> Address" where
  "set_address a (TouchedAddress _ w) = TouchedAddress a w"
| "set_address a (MallocAddress _ n) = MallocAddress a n"
| "set_address a (FreeAddress _) = FreeAddress a"

definition recordMallocAddress :: "u64 \<Rightarrow> pin_thread \<Rightarrow> pin_thread option" where
  "recordMallocAddress a t =
     (if toggleMalloc t then Some t
      else if t_addresses t = [] then None
      else Some (t\<lparr>t_addresses := butlast (t_addresses t) @ [set_address a (last (t_addresses t))]\<rparr>))"

definition recordFreeAddress :: "u64 \<Rightarrow> pin_thread \<Rightarrow> pin_thread" where
  "recordFreeAddress a t = (if toggleFree t then t else t\<lparr>t_addresses := t_addresses t @ [FreeAddress a]\<rparr>)"











text \<open>
  The routines of the program that the tool takes over to switch it, by their names; a routine that is not hooked does
  nothing, since its body is empty.
\<close>

definition Image_switches :: "(u64 \<Rightarrow> TRACE_HEADER option) \<Rightarrow> (string \<times> (pin_thread \<Rightarrow> pin_thread option)) list" where
  "Image_switches hdrs =
     [(''startLogPinAll'', Some \<circ> toggleon), (''stopLogPinAll'', toggleoff hdrs),
      (''startLogPinMemtrace'', Some \<circ> toggleonmemtrace), (''stopLogPinMemtrace'', toggleoffmemtrace hdrs),
      (''startLogPinMalloc'', Some \<circ> toggleonmalloc), (''stopLogPinMalloc'', Some \<circ> toggleoffmalloc),
      (''startLogPinFree'', Some \<circ> toggleonfree), (''stopLogFree'', Some \<circ> toggleofffree)]"

definition call_stub :: "(u64 \<Rightarrow> TRACE_HEADER option) \<Rightarrow> string \<Rightarrow> pin_thread \<Rightarrow> pin_thread option" where
  "call_stub hdrs name t = (case map_of (Image_switches hdrs) name of Some f \<Rightarrow> f t | None \<Rightarrow> Some t)"

section \<open>Headers of traces\<close>

definition header_ok :: "TRACE_HEADER \<Rightarrow> bool" where
  "header_ok h \<longleftrightarrow> logSlots h = Suc (length (h_cmds h)) \<and> length (h_refs h) = length (h_cmds h) \<and> set (h_cmds h) \<subseteq> {TCMD_IMMEDIATE}"

definition scratch_ok :: "SCRATCH_TRACE_HEADER \<Rightarrow> bool" where
  "scratch_ok th \<longleftrightarrow> header_ok (new_TRACE_HEADER th) \<and> map (fst \<circ> snd) (s_calls th) = [1..<frameOffset th]
     \<and> length (s_calls th) = length (s_cmds th)"

lemma scratch_ok_record: "scratch_ok th \<Longrightarrow> scratch_ok (RecordLogImmediate ins itype th)"
  by (auto simp: scratch_ok_def header_ok_def new_TRACE_HEADER_def RecordLogImmediate_def)

lemma scratch_ok_trace: "scratch_ok (fold InstrumentBBL trace new_SCRATCH_TRACE_HEADER)"
proof -
  have ins: "scratch_ok th \<Longrightarrow> scratch_ok (InstrumentINS ins th)" for ins th
    by (simp add: InstrumentINS_def Let_def scratch_ok_record)
  have "scratch_ok th \<Longrightarrow> scratch_ok (InstrumentBBL bbl th)" for bbl th
    unfolding InstrumentBBL_def by (induction bbl arbitrary: th) (simp_all add: ins)
  then have "scratch_ok th \<Longrightarrow> scratch_ok (fold InstrumentBBL trace th)" for th
    by (induction trace arbitrary: th) simp_all
  then show ?thesis by (simp add: scratch_ok_def header_ok_def new_TRACE_HEADER_def new_SCRATCH_TRACE_HEADER_def)
qed

text \<open>The calls of a trace write the slots behind its header, one each, in order.\<close>

lemma InstrumentTrace_calls:
  assumes "InstrumentTrace off trace = Some (h, calls)"
  shows "header_ok h" "length calls = length (h_cmds h)" "k < length calls \<Longrightarrow> fst (snd (calls ! k)) = int (Suc k) - int (logSlots h)"
proof -
  define th where "th = fold InstrumentBBL trace new_SCRATCH_TRACE_HEADER"
  have h: "h = new_TRACE_HEADER th" "calls = InsertCalls th"
    using assms by (auto simp: InstrumentTrace_def Let_def th_def split: if_splits)
  have ok: "scratch_ok th" unfolding th_def by (rule scratch_ok_trace)
  show "header_ok h" "length calls = length (h_cmds h)" using ok by (simp_all add: h scratch_ok_def InsertCalls_def new_TRACE_HEADER_def)
  assume k: "k < length calls"
  then have l: "k < length (s_calls th)" by (simp add: h InsertCalls_def)
  have len: "length [1..<frameOffset th] = length (s_calls th)" using ok unfolding scratch_ok_def by (metis length_map)
  have "fst (snd (s_calls th ! k)) = [1..<frameOffset th] ! k" using ok l unfolding scratch_ok_def by (metis comp_apply nth_map)
  also have "\<dots> = Suc k" using l len by simp
  finally show "fst (snd (calls ! k)) = int (Suc k) - int (logSlots h)"
    using l by (simp add: h InsertCalls_def new_TRACE_HEADER_def split_def)
qed

section \<open>Emptying the log\<close>

definition touched :: "REF list \<Rightarrow> u64 list \<Rightarrow> Address list" where
  "touched refs vs = concat (map2 (\<lambda>v r. if v = 0 then [] else [TouchedAddress v (\<not> ref_read r)]) vs refs)"

lemma ExpandTrace_data:
  assumes "set cmds \<subseteq> {TCMD_IMMEDIATE}" "length vs = length cmds" "length refs = k + length cmds"
  shows "ExpandTrace cmds refs k (length pre) (pre @ vs @ rest, out) =
    Some (pre @ replicate (length vs) 0 @ rest, out @ touched (drop k refs) vs)"
  using assms
proof (induction cmds arbitrary: pre vs k out)
  case (Cons c cmds)
  obtain v vs' where vs: "vs = v # vs'" using Cons.prems(2) by (cases vs) auto
  have c: "c = TCMD_IMMEDIATE" using Cons.prems(1) by simp
  have ih: "ExpandTrace cmds refs (Suc k) (length (pre @ [0])) ((pre @ [0]) @ vs' @ rest, out') =
      Some ((pre @ [0]) @ replicate (length vs') 0 @ rest, out' @ touched (drop (Suc k) refs) vs')" for out'
    using Cons.prems vs by (intro Cons.IH) auto
  have refs: "drop k refs = refs ! k # drop (Suc k) refs" using Cons.prems(3) by (simp add: Cons_nth_drop_Suc)
  have upd: "(pre @ v # vs' @ rest)[length pre := 0] = pre @ 0 # vs' @ rest" by (simp add: list_update_append)
  show ?case
    using ih Cons.prems(3) by (cases "v = 0") (simp_all add: c vs refs upd touched_def nth_append)
qed (simp add: touched_def)

abbreviation slot_image :: "u64 \<times> u64 list \<Rightarrow> u64 list" where
  "slot_image tr \<equiv> fst tr # snd tr"

definition trace_ok :: "(u64 \<Rightarrow> TRACE_HEADER option) \<Rightarrow> u64 \<times> u64 list \<Rightarrow> bool" where
  "trace_ok hdrs tr \<longleftrightarrow> fst tr \<noteq> 0 \<and> (\<exists>h. hdrs (fst tr) = Some h \<and> header_ok h \<and> length (snd tr) = length (h_cmds h))"

definition trace_touched :: "(u64 \<Rightarrow> TRACE_HEADER option) \<Rightarrow> u64 \<times> u64 list \<Rightarrow> Address list" where
  "trace_touched hdrs tr = touched (h_refs (the (hdrs (fst tr)))) (snd tr)"

definition emptied :: "u64 \<times> u64 list \<Rightarrow> u64 list" where
  "emptied tr = fst tr # replicate (length (snd tr)) 0"

lemma expand_loop_traces:
  assumes "\<forall>tr \<in> set trs. trace_ok hdrs tr"
  shows "expand_loop hdrs (length pre) (pre @ concat (map slot_image trs) @ rest, out) =
    expand_loop hdrs (length (pre @ concat (map emptied trs)))
      (pre @ concat (map emptied trs) @ rest, out @ concat (map (trace_touched hdrs) trs))"
  using assms
proof (induction trs arbitrary: pre out)
  case (Cons tr trs)
  obtain p vs where tr: "tr = (p, vs)" by (cases tr)
  obtain h where h: "hdrs p = Some h" "header_ok h" "length vs = length (h_cmds h)" "p \<noteq> 0"
    using Cons.prems by (auto simp: trace_ok_def tr)
  let ?rest = "concat (map slot_image trs) @ rest"
  have "ExpandTrace (h_cmds h) (h_refs h) 0 (length (pre @ [p])) ((pre @ [p]) @ vs @ ?rest, out) =
      Some ((pre @ [p]) @ replicate (length vs) 0 @ ?rest, out @ touched (drop 0 (h_refs h)) vs)"
    using h by (intro ExpandTrace_data) (simp_all add: header_ok_def)
  then have step: "ExpandTrace (h_cmds h) (h_refs h) 0 (Suc (length pre)) (pre @ p # vs @ ?rest, out) =
      Some (pre @ p # replicate (length vs) 0 @ ?rest, out @ trace_touched hdrs tr)"
    by (simp add: trace_touched_def tr h(1))
  have next_pos: "length pre + logSlots h = length (pre @ emptied tr)" using h by (simp add: emptied_def tr header_ok_def)
  have "expand_loop hdrs (length pre) (pre @ concat (map slot_image (tr # trs)) @ rest, out) =
      expand_loop hdrs (length (pre @ emptied tr)) ((pre @ emptied tr) @ ?rest, out @ trace_touched hdrs tr)"
    using step h(1,4) by (subst expand_loop.simps) (simp add: tr next_pos [simplified tr] emptied_def)
  also have "\<dots> = expand_loop hdrs (length ((pre @ emptied tr) @ concat (map emptied trs)))
      ((pre @ emptied tr) @ concat (map emptied trs) @ rest, (out @ trace_touched hdrs tr) @ concat (map (trace_touched hdrs) trs))"
    using Cons.prems by (intro Cons.IH) simp
  finally show ?case by simp
qed simp

text \<open>
  Emptying the log leaves the headers where they were. A walk that runs into the old ones reads headers only, and
  reports an address only where one header lies in the data of another.
\<close>

definition old_slot :: "(u64 \<Rightarrow> TRACE_HEADER option) \<Rightarrow> nat \<Rightarrow> nat \<Rightarrow> u64 \<Rightarrow> bool" where
  "old_slot hdrs n j v \<longleftrightarrow> v = 0 \<or> (\<exists>h. hdrs v = Some h \<and> header_ok h \<and> j + logSlots h < n)"

definition old_from :: "(u64 \<Rightarrow> TRACE_HEADER option) \<Rightarrow> nat \<Rightarrow> u64 list \<Rightarrow> bool" where
  "old_from hdrs i d \<longleftrightarrow> (\<forall>j. i \<le> j \<and> j < length d \<longrightarrow> old_slot hdrs (length d) j (d ! j))"

lemma old_fromD: "old_from hdrs i d \<Longrightarrow> i \<le> j \<Longrightarrow> j < length d \<Longrightarrow> old_slot hdrs (length d) j (d ! j)"
  by (simp add: old_from_def)

definition genuine :: "(u64 \<Rightarrow> TRACE_HEADER option) \<Rightarrow> Address \<Rightarrow> bool" where
  "genuine hdrs a \<longleftrightarrow> (case a of TouchedAddress x w \<Rightarrow> hdrs x = None | _ \<Rightarrow> True)"

lemma touched_old: "\<forall>v \<in> set vs. v = 0 \<or> hdrs v \<noteq> None \<Longrightarrow> \<forall>a \<in> set (touched refs vs). \<not> genuine hdrs a"
  by (auto simp: touched_def genuine_def split: if_splits dest!: set_zip_leftD)

lemma expand_old:
  assumes "old_from hdrs i d" "i < length d"
  shows "\<exists>d' ph. expand_loop hdrs i (d, out) = Some (d', out @ ph) \<and> length d' = length d \<and> old_from hdrs i d'
    \<and> take i d' = take i d \<and> (\<forall>a \<in> set ph. \<not> genuine hdrs a)"
  using assms
proof (induction "length d - i" arbitrary: i d out rule: less_induct)
  case less
  show ?case
  proof (cases "d ! i = 0")
    case True
    then show ?thesis using less.prems by (intro exI [of _ d] exI [of _ "[]"]) (simp add: expand_loop.simps)
  next
    case False
    obtain h where h: "hdrs (d ! i) = Some h" "header_ok h" "i + logSlots h < length d"
      using less.prems False by (auto simp: old_from_def old_slot_def)
    let ?n = "length (h_cmds h)"
    let ?pre = "take (Suc i) d" and ?vs = "take ?n (drop (Suc i) d)" and ?rest = "drop (Suc i + ?n) d"
    have n: "logSlots h = Suc ?n" using h(2) by (simp add: header_ok_def)
    have len: "length ?vs = ?n" "length ?pre = Suc i" using h(3) n less.prems(2) by simp_all
    have d: "d = ?pre @ ?vs @ ?rest" by (metis add.commute append_take_drop_id drop_drop)
    let ?d = "?pre @ replicate (length ?vs) 0 @ ?rest"
    have "ExpandTrace (h_cmds h) (h_refs h) 0 (length ?pre) (?pre @ ?vs @ ?rest, out) = Some (?d, out @ touched (drop 0 (h_refs h)) ?vs)"
      using h(2) len(1) by (intro ExpandTrace_data) (simp_all add: header_ok_def)
    then have step: "ExpandTrace (h_cmds h) (h_refs h) 0 (Suc i) (d, out) = Some (?d, out @ touched (h_refs h) ?vs)"
      using d len(2) by simp
    have dlen: "length ?d = length d" using len h(3) n by simp
    have nth: "?d ! j = d ! j \<or> ?d ! j = 0" if "j < length d" for j
      using that len h(3) n by (auto simp: nth_append)
    then have old: "old_from hdrs i ?d" using less.prems(1) unfolding old_from_def dlen by (auto simp: old_slot_def) metis
    then have old2: "old_from hdrs (i + logSlots h) ?d" by (simp add: old_from_def)
    have dec: "length ?d - (i + logSlots h) < length d - i" using h(3) dlen n by simp
    obtain d' ph where ih: "expand_loop hdrs (i + logSlots h) (?d, out @ touched (h_refs h) ?vs) = Some (d', (out @ touched (h_refs h) ?vs) @ ph)"
      "length d' = length ?d" "old_from hdrs (i + logSlots h) d'" "take (i + logSlots h) d' = take (i + logSlots h) ?d" "\<forall>a \<in> set ph. \<not> genuine hdrs a"
      using less.hyps [OF dec old2, of "out @ touched (h_refs h) ?vs"] h(3) dlen by auto
    have "\<forall>v \<in> set ?vs. v = 0 \<or> hdrs v \<noteq> None"
    proof
      fix v assume "v \<in> set ?vs"
      then obtain m where "m < ?n" "v = d ! (Suc i + m)" "Suc i + m < length d" using len by (auto simp: in_set_conv_nth)
      then show "v = 0 \<or> hdrs v \<noteq> None" using old_fromD [OF less.prems(1), of "Suc i + m"] by (auto simp: old_slot_def)
    qed
    note ph = touched_old [OF this, of "h_refs h"]
    have run: "expand_loop hdrs i (d, out) = Some (d', out @ touched (h_refs h) ?vs @ ph)"
      using False less.prems(2) h(1) step ih(1) by (subst expand_loop.simps) simp
    have same: "d' ! j = ?d ! j" if "j < i + logSlots h" for j
      using ih(4) that by (metis nth_take)
    have "old_from hdrs i d'"
      unfolding old_from_def
    proof (intro allI impI)
      fix j assume j: "i \<le> j \<and> j < length d'"
      show "old_slot hdrs (length d') j (d' ! j)"
      proof (cases "j < i + logSlots h")
        case True
        have "old_slot hdrs (length ?d) j (?d ! j)" using old_fromD [OF old] j unfolding ih(2) by blast
        then show ?thesis unfolding ih(2) same [OF True] .
      next
        case False
        then show ?thesis using old_fromD [OF ih(3), of j] j by simp
      qed
    qed
    moreover have "take i d' = take i d"
    proof -
      have "take i d' = take i (take (i + logSlots h) d')" by simp
      also have "\<dots> = take i ?d" unfolding ih(4) take_take by (simp only: min.absorb1 le_add1)
      also have "\<dots> = take i d" using less.prems(2) by simp
      finally show ?thesis .
    qed
    ultimately show ?thesis using run ih(2,5) dlen ph by (intro exI [of _ d'] exI [of _ "touched (h_refs h) ?vs @ ph"]) auto
  qed
qed

section \<open>One trace after the other\<close>

definition fits :: "(u64 \<Rightarrow> TRACE_HEADER option) \<Rightarrow> nat \<Rightarrow> bool" where
  "fits hdrs n \<longleftrightarrow> (\<forall>p h. hdrs p = Some h \<longrightarrow> p \<noteq> 0 \<and> header_ok h \<and> logSlots h < n)"

text \<open>Headers that the instrumentation makes, at addresses that are not null, fit; and a new thread has an empty log.\<close>

lemma instrumented_headers_fit:
  assumes "\<And>p h. hdrs p = Some h \<Longrightarrow> p \<noteq> 0 \<and> logSlots h < n \<and> (\<exists>off trace calls. InstrumentTrace off trace = Some (h, calls))"
  shows "fits hdrs n"
  unfolding fits_def using assms InstrumentTrace_calls(1) by blast

lemma ThreadStart_ready:
  "t_cursor (ThreadStart r) = 0" "t_data (ThreadStart r) \<noteq> []" "old_from hdrs 0 (t_data (ThreadStart r))"
  by (simp_all add: ThreadStart_def BUFFER_SLOTS_def old_from_def old_slot_def)

text \<open>The log holds the traces of the current round, and behind the cursor what earlier rounds left.\<close>

definition log_inv :: "(u64 \<Rightarrow> TRACE_HEADER option) \<Rightarrow> (u64 \<times> u64 list) list \<Rightarrow> pin_thread \<Rightarrow> bool" where
  "log_inv hdrs trs t \<longleftrightarrow>
     take (t_cursor t) (t_data t) = concat (map slot_image trs) \<and> (\<forall>tr \<in> set trs. trace_ok hdrs tr)
     \<and> old_from hdrs (t_cursor t) (t_data t) \<and> t_cursor t < length (t_data t)"

lemma emptied_old:
  assumes "\<forall>tr \<in> set trs. trace_ok hdrs tr" "length (concat (map emptied trs)) < n" "j < length (concat (map emptied trs))"
  shows "old_slot hdrs n (k + j) (concat (map emptied trs) ! j) \<or> n \<le> k + length (concat (map emptied trs))"
  using assms
proof (induction trs arbitrary: j k)
  case (Cons tr trs)
  obtain h where h: "hdrs (fst tr) = Some h" "header_ok h" "length (snd tr) = length (h_cmds h)"
    using Cons.prems(1) by (auto simp: trace_ok_def)
  show ?case
  proof (cases "j < length (emptied tr)")
    case True
    then show ?thesis using h
      by (cases j) (auto simp: emptied_def old_slot_def header_ok_def nth_append)
  next
    case False
    then obtain m where m: "j = length (emptied tr) + m" by (metis le_add_diff_inverse not_less)
    then show ?thesis using Cons.IH [of m "k + length (emptied tr)"] Cons.prems by (simp add: nth_append add.assoc)
  qed
qed simp

lemma Expand_inv:
  assumes "log_inv hdrs trs t"
  obtains d ph where "Expand hdrs t = Some (t\<lparr>t_data := d, t_addresses := t_addresses t @ concat (map (trace_touched hdrs) trs) @ ph\<rparr>)"
    "length d = length (t_data t)" "old_from hdrs 0 d" "\<forall>a \<in> set ph. \<not> genuine hdrs a"
    "take (t_cursor t) d = concat (map emptied trs)"
proof -
  let ?c = "t_cursor t" and ?pre = "concat (map emptied trs)" and ?out = "t_addresses t @ concat (map (trace_touched hdrs) trs)"
  have ok: "\<forall>tr \<in> set trs. trace_ok hdrs tr" and c: "?c < length (t_data t)"
    and cur: "take ?c (t_data t) = concat (map slot_image trs)" and old: "old_from hdrs ?c (t_data t)"
    using assms by (auto simp: log_inv_def)
  have lens: "length (concat (map emptied trs)) = length (concat (map slot_image trs))"
    by (induction trs) (simp_all add: emptied_def)
  have len: "length ?pre = ?c" using arg_cong [OF cur, of length] c lens by simp
  let ?d = "?pre @ drop ?c (t_data t)"
  have data: "t_data t = concat (map slot_image trs) @ drop ?c (t_data t)" by (metis append_take_drop_id cur)
  have "expand_loop hdrs 0 (t_data t, t_addresses t) = expand_loop hdrs ?c (?d, ?out)"
    using expand_loop_traces [OF ok, of "[]" "drop ?c (t_data t)" "t_addresses t"] len data by simp
  moreover have dlen: "length ?d = length (t_data t)" using len c by simp
  moreover have "old_from hdrs ?c ?d" using old len dlen by (auto simp: old_from_def nth_append)
  ultimately obtain d ph where d: "expand_loop hdrs 0 (t_data t, t_addresses t) = Some (d, ?out @ ph)" "length d = length (t_data t)"
    "old_from hdrs ?c d" "take ?c d = take ?c ?d" "\<forall>a \<in> set ph. \<not> genuine hdrs a"
    using expand_old [of hdrs ?c ?d ?out] c by auto
  have "old_from hdrs 0 d"
    unfolding old_from_def
  proof (intro allI impI)
    fix j assume j: "0 \<le> j \<and> j < length d"
    show "old_slot hdrs (length d) j (d ! j)"
    proof (cases "j < ?c")
      case True
      then have "d ! j = ?pre ! j" using d(4) len by (metis append_eq_conv_conj nth_take)
      then show ?thesis using emptied_old [OF ok, of "length d" j 0] True len c d(2) by simp
    qed (use d(3) j in \<open>simp add: old_from_def\<close>)
  qed
  moreover have "Expand hdrs t = Some (t\<lparr>t_data := d, t_addresses := t_addresses t @ concat (map (trace_touched hdrs) trs) @ ph\<rparr>)"
    using d(1) by (simp add: Expand_def)
  moreover have "take ?c d = concat (map emptied trs)" using d(4) len by simp
  ultimately show ?thesis using that d(2,5) by blast
qed

text \<open>
  The execution of an instrumented trace: it takes its space, then those of its calls run that control reaches, in their
  order, each with the stack pointer and the address of the access. The offset of call \<open>k\<close> is the one that \<open>InsertCalls\<close>
  gives it (\<open>InstrumentTrace_calls\<close>).
\<close>

fun record_calls :: "TRACE_HEADER \<Rightarrow> nat \<Rightarrow> (u64 \<times> u64) option list \<Rightarrow> pin_thread \<Rightarrow> pin_thread option" where
  "record_calls h k [] t = Some t"
| "record_calls h k (None # xs) t = record_calls h (Suc k) xs t"
| "record_calls h k (Some (rsp, v) # xs) t =
     Option.bind (RecordImmediate rsp (int (Suc k) - int (logSlots h)) v t) (record_calls h (Suc k) xs)"

definition run_trace :: "(u64 \<Rightarrow> TRACE_HEADER option) \<Rightarrow> u64 \<times> (u64 \<times> u64) option list \<Rightarrow> pin_thread \<Rightarrow> pin_thread option" where
  "run_trace hdrs tr t =
     Option.bind (hdrs (fst tr)) (\<lambda>h. Option.bind (BeginTrace hdrs (fst tr) (logSlots h) t) (record_calls h 0 (snd tr)))"

fun run_traces :: "(u64 \<Rightarrow> TRACE_HEADER option) \<Rightarrow> (u64 \<times> (u64 \<times> u64) option list) list \<Rightarrow> pin_thread \<Rightarrow> pin_thread option" where
  "run_traces hdrs [] t = Some t"
| "run_traces hdrs (tr # trs) t = Option.bind (run_trace hdrs tr t) (run_traces hdrs trs)"

definition stored :: "u64 \<Rightarrow> u64 \<times> u64 \<Rightarrow> u64" where
  "stored stack x = (if snd x > fst x \<and> snd x < stack then 0 else snd x)"

definition overwritten :: "u64 \<Rightarrow> u64 list \<Rightarrow> (u64 \<times> u64) option list \<Rightarrow> u64 list" where
  "overwritten stack vs xs = map2 (\<lambda>v x. case x of None \<Rightarrow> v | Some y \<Rightarrow> stored stack y) vs xs"

lemma record_calls_data:
  assumes "length vs = length xs" "t_data t = pre @ vs @ rest" "t_cursor t + Suc k = length pre + logSlots h"
  shows "record_calls h k xs t = Some (t\<lparr>t_data := pre @ overwritten (t_stackPtr t) vs xs @ rest\<rparr>)"
  using assms
proof (induction xs arbitrary: k vs pre t)
  case (Cons x xs)
  obtain v vs' where vs: "vs = v # vs'" using Cons.prems(1) by (cases vs) auto
  show ?case
  proof (cases x)
    case None
    have "record_calls h (Suc k) xs t = Some (t\<lparr>t_data := (pre @ [v]) @ overwritten (t_stackPtr t) vs' xs @ rest\<rparr>)"
      using Cons.prems vs by (intro Cons.IH) auto
    then show ?thesis by (simp add: None vs overwritten_def)
  next
    case (Some y)
    obtain rsp a where y: "y = (rsp, a)" by (cases y)
    let ?t = "t\<lparr>t_data := (pre @ [stored (t_stackPtr t) y]) @ vs' @ rest\<rparr>"
    have pos: "int (t_cursor t) + (int (Suc k) - int (logSlots h)) = int (length pre)" using Cons.prems(3) by linarith
    then have "RecordImmediate rsp (int (Suc k) - int (logSlots h)) a t = Some ?t"
      using Cons.prems(2) unfolding RecordImmediate_def Let_def pos by (simp add: vs y stored_def list_update_append)
    moreover have "record_calls h (Suc k) xs ?t = Some (?t\<lparr>t_data := (pre @ [stored (t_stackPtr t) y]) @ overwritten (t_stackPtr ?t) vs' xs @ rest\<rparr>)"
      using Cons.prems vs by (intro Cons.IH) auto
    ultimately show ?thesis by (simp add: Some y vs overwritten_def)
  qed
qed (simp add: overwritten_def)

text \<open>What a trace recorded: the accesses that are not to the stack between the two stack pointers.\<close>

definition recorded :: "u64 \<Rightarrow> REF list \<Rightarrow> (u64 \<times> u64) option list \<Rightarrow> Address list" where
  "recorded stack refs xs =
     concat (map2 (\<lambda>x r. case x of None \<Rightarrow> [] | Some y \<Rightarrow> if stored stack y = 0 then [] else [TouchedAddress (snd y) (\<not> ref_read r)]) xs refs)"

lemma filter_concat: "filter P (concat xss) = concat (map (filter P) xss)"
  by (induction xss) simp_all

lemma overwritten_recorded:
  assumes "length vs = length xs" "\<forall>v \<in> set vs. v = 0 \<or> hdrs v \<noteq> None" "\<forall>y. Some y \<in> set xs \<longrightarrow> hdrs (snd y) = None"
  shows "filter (genuine hdrs) (touched refs (overwritten stack vs xs)) = recorded stack refs xs"
  using assms
proof (induction vs xs arbitrary: refs rule: list_induct2)
  case (Cons v vs x xs)
  have ih: "filter (genuine hdrs) (touched rs (overwritten stack vs xs)) = recorded stack rs xs" for rs
    using Cons.prems by (intro Cons.IH) simp_all
  have v: "v = 0 \<or> hdrs v \<noteq> None" and x: "\<And>y. x = Some y \<Longrightarrow> hdrs (snd y) = None" using Cons.prems by auto
  have step: "touched (r # rs) (overwritten stack (v # vs) (x # xs)) =
      (case x of None \<Rightarrow> touched [r] [v] | Some y \<Rightarrow> touched [r] [stored stack y]) @ touched rs (overwritten stack vs xs)" for r rs
    by (cases x) (simp_all add: touched_def overwritten_def)
  have rstep: "recorded stack (r # rs) (x # xs) = recorded stack [r] [x] @ recorded stack rs xs" for r rs by (simp add: recorded_def)
  have one: "filter (genuine hdrs) (case x of None \<Rightarrow> touched [r] [v] | Some y \<Rightarrow> touched [r] [stored stack y]) = recorded stack [r] [x]" for r
    using v x by (cases x) (auto simp: touched_def recorded_def genuine_def stored_def)
  show ?case by (cases refs) (simp_all only: step rstep one ih filter_append, simp_all add: touched_def recorded_def)
qed (simp add: touched_def overwritten_def recorded_def)

lemma BeginTrace_inv:
  assumes inv: "log_inv hdrs trs t" and p: "hdrs p = Some h" and fits: "fits hdrs (length (t_data t))"
  obtains t' trs' vs where "BeginTrace hdrs p (logSlots h) t = Some t'" "log_inv hdrs (trs' @ [(p, vs)]) t'"
    "\<forall>v \<in> set vs. v = 0 \<or> hdrs v \<noteq> None" "length vs = length (h_cmds h)" "length (t_data t') = length (t_data t)" "t_stackPtr t' = t_stackPtr t"
    "filter (genuine hdrs) (t_addresses t' @ concat (map (trace_touched hdrs) trs')) =
       filter (genuine hdrs) (t_addresses t @ concat (map (trace_touched hdrs) trs))"
proof -
  have h: "p \<noteq> 0" "header_ok h" "logSlots h < length (t_data t)" using fits p by (auto simp: fits_def)
  have room: "\<exists>t1 trs1. (if TraceAllocIf (logSlots h) t then TraceAllocThen hdrs t else Some t) = Some t1 \<and> log_inv hdrs trs1 t1
      \<and> t_cursor t1 + logSlots h < length (t_data t1) \<and> length (t_data t1) = length (t_data t) \<and> t_stackPtr t1 = t_stackPtr t
      \<and> filter (genuine hdrs) (t_addresses t1 @ concat (map (trace_touched hdrs) trs1)) =
          filter (genuine hdrs) (t_addresses t @ concat (map (trace_touched hdrs) trs))"
  proof (cases "TraceAllocIf (logSlots h) t")
    case True
    obtain d ph where e: "Expand hdrs t = Some (t\<lparr>t_data := d, t_addresses := t_addresses t @ concat (map (trace_touched hdrs) trs) @ ph\<rparr>)"
      "length d = length (t_data t)" "old_from hdrs 0 d" "\<forall>a \<in> set ph. \<not> genuine hdrs a"
      "take (t_cursor t) d = concat (map emptied trs)" by (rule Expand_inv [OF inv])
    let ?t1 = "t\<lparr>t_data := d, t_addresses := t_addresses t @ concat (map (trace_touched hdrs) trs) @ ph, t_cursor := 0\<rparr>"
    have "log_inv hdrs [] ?t1" using e(2,3) h(3) by (auto simp: log_inv_def)
    moreover have "filter (genuine hdrs) ph = []" using e(4) by (simp add: filter_empty_conv)
    ultimately show ?thesis using True e(1,2) h(3) by (intro exI [of _ ?t1] exI [of _ "[]"]) (simp add: TraceAllocThen_def)
  next
    case False
    then show ?thesis using inv by (intro exI [of _ t] exI [of _ trs]) (simp add: TraceAllocIf_def)
  qed
  then obtain t1 trs1 where t1: "(if TraceAllocIf (logSlots h) t then TraceAllocThen hdrs t else Some t) = Some t1" "log_inv hdrs trs1 t1"
    "t_cursor t1 + logSlots h < length (t_data t1)" "length (t_data t1) = length (t_data t)" "t_stackPtr t1 = t_stackPtr t"
    "filter (genuine hdrs) (t_addresses t1 @ concat (map (trace_touched hdrs) trs1)) =
       filter (genuine hdrs) (t_addresses t @ concat (map (trace_touched hdrs) trs))" by blast
  let ?c = "t_cursor t1" and ?n = "length (h_cmds h)" and ?d = "(t_data t1)[t_cursor t1 := p]"
  let ?t' = "t1\<lparr>t_data := ?d, t_cursor := ?c + logSlots h\<rparr>" and ?vs = "take ?n (drop (Suc ?c) (t_data t1))"
  have n: "logSlots h = Suc ?n" using h(2) by (simp add: header_ok_def)
  have run: "BeginTrace hdrs p (logSlots h) t = Some ?t'"
    unfolding BeginTrace_def t1(1) using t1(3) by (simp add: RecordTraceBegin_def)
  have old1: "old_from hdrs ?c (t_data t1)" using t1(2) by (simp add: log_inv_def)
  have vs: "\<forall>v \<in> set ?vs. v = 0 \<or> hdrs v \<noteq> None" "length ?vs = ?n"
  proof
    fix v assume "v \<in> set ?vs"
    then obtain m where "v = t_data t1 ! (Suc ?c + m)" "Suc ?c + m < length (t_data t1)" by (auto simp: in_set_conv_nth)
    then show "v = 0 \<or> hdrs v \<noteq> None" using old_fromD [OF old1, of "Suc ?c + m"] by (auto simp: old_slot_def)
  qed (use t1(3) n in simp)
  have "take (?c + logSlots h) ?d = take ?c (t_data t1) @ p # ?vs"
    using t1(3) n by (simp add: upd_conv_take_nth_drop take_Cons')
  then have "log_inv hdrs (trs1 @ [(p, ?vs)]) ?t'"
    using t1(2,3) h p vs(2) n by (auto simp: log_inv_def trace_ok_def old_from_def)
  then show ?thesis using that run vs t1(4-6) by simp
qed

definition trace_runs :: "(u64 \<Rightarrow> TRACE_HEADER option) \<Rightarrow> u64 \<times> (u64 \<times> u64) option list \<Rightarrow> bool" where
  "trace_runs hdrs tr \<longleftrightarrow>
     (case hdrs (fst tr) of None \<Rightarrow> False | Some h \<Rightarrow> length (snd tr) = length (h_cmds h) \<and> (\<forall>y. Some y \<in> set (snd tr) \<longrightarrow> hdrs (snd y) = None))"

definition trace_recorded :: "(u64 \<Rightarrow> TRACE_HEADER option) \<Rightarrow> u64 \<Rightarrow> u64 \<times> (u64 \<times> u64) option list \<Rightarrow> Address list" where
  "trace_recorded hdrs stack tr = recorded stack (h_refs (the (hdrs (fst tr)))) (snd tr)"

lemma run_trace_inv:
  assumes inv: "log_inv hdrs trs t" and tr: "trace_runs hdrs tr" and fits: "fits hdrs (length (t_data t))"
  shows "\<exists>t' trs'. run_trace hdrs tr t = Some t' \<and> log_inv hdrs trs' t' \<and> length (t_data t') = length (t_data t) \<and> t_stackPtr t' = t_stackPtr t
    \<and> filter (genuine hdrs) (t_addresses t' @ concat (map (trace_touched hdrs) trs')) =
        filter (genuine hdrs) (t_addresses t @ concat (map (trace_touched hdrs) trs)) @ trace_recorded hdrs (t_stackPtr t) tr"
proof -
  obtain p xs where tr': "tr = (p, xs)" by (cases tr)
  obtain h where h: "hdrs p = Some h" "length xs = length (h_cmds h)" "\<forall>y. Some y \<in> set xs \<longrightarrow> hdrs (snd y) = None"
    using tr by (auto simp: trace_runs_def tr' split: option.splits)
  have hok: "header_ok h" "p \<noteq> 0" using fits h(1) by (auto simp: fits_def)
  obtain t1 trs1 vs where t1: "BeginTrace hdrs p (logSlots h) t = Some t1" "log_inv hdrs (trs1 @ [(p, vs)]) t1"
    "\<forall>v \<in> set vs. v = 0 \<or> hdrs v \<noteq> None" "length vs = length (h_cmds h)" "length (t_data t1) = length (t_data t)" "t_stackPtr t1 = t_stackPtr t"
    "filter (genuine hdrs) (t_addresses t1 @ concat (map (trace_touched hdrs) trs1)) =
       filter (genuine hdrs) (t_addresses t @ concat (map (trace_touched hdrs) trs))"
    by (rule BeginTrace_inv [OF inv h(1) fits])
  let ?pre = "concat (map slot_image trs1) @ [p]" and ?rest = "drop (t_cursor t1) (t_data t1)" and ?vs = "overwritten (t_stackPtr t) vs xs"
  have cur: "take (t_cursor t1) (t_data t1) = ?pre @ vs" "t_cursor t1 < length (t_data t1)" using t1(2) by (simp_all add: log_inv_def)
  have data: "t_data t1 = ?pre @ vs @ ?rest" using append_take_drop_id [of "t_cursor t1" "t_data t1"] unfolding cur(1) by simp
  have "t_cursor t1 + Suc 0 = length ?pre + logSlots h"
    using arg_cong [OF cur(1), of length] cur(2) t1(4) hok(1) by (simp add: header_ok_def)
  from record_calls_data [OF _ data this, of xs] have run: "record_calls h 0 xs t1 = Some (t1\<lparr>t_data := ?pre @ ?vs @ ?rest\<rparr>)"
    using t1(4,6) h(2) by simp
  let ?t = "t1\<lparr>t_data := ?pre @ ?vs @ ?rest\<rparr>"
  have lv: "length ?vs = length vs" using t1(4) h(2) by (simp add: overwritten_def)
  have len: "length (t_data ?t) = length (t_data t1)" using arg_cong [OF data, of length] lv by simp
  have c: "length (?pre @ ?vs) = t_cursor t1" using arg_cong [OF cur(1), of length] cur(2) lv by simp
  have "old_from hdrs (t_cursor t1) (t_data ?t)"
    unfolding old_from_def len
  proof (intro allI impI)
    fix j assume j: "t_cursor t1 \<le> j \<and> j < length (t_data t1)"
    have "t_data ?t ! j = t_data t1 ! j" using j c cur(2) by (simp add: nth_append add.commute flip: append_assoc)
    moreover have "old_from hdrs (t_cursor t1) (t_data t1)" using t1(2) by (simp add: log_inv_def)
    ultimately show "old_slot hdrs (length (t_data t1)) j (t_data ?t ! j)" using old_fromD [of hdrs "t_cursor t1" "t_data t1" j] j by simp
  qed
  moreover have "take (t_cursor t1) (t_data ?t) = concat (map slot_image (trs1 @ [(p, ?vs)]))"
    using append_eq_conv_conj [of "?pre @ ?vs" ?rest "(?pre @ ?vs) @ ?rest"] unfolding c by simp
  moreover have "\<forall>tr \<in> set (trs1 @ [(p, ?vs)]). trace_ok hdrs tr"
    using t1(2,4) h(1) hok lv by (auto simp: log_inv_def trace_ok_def)
  ultimately have "log_inv hdrs (trs1 @ [(p, ?vs)]) ?t" using cur(2) len by (simp add: log_inv_def)
  moreover have "filter (genuine hdrs) (trace_touched hdrs (p, ?vs)) = trace_recorded hdrs (t_stackPtr t) tr"
    using overwritten_recorded [OF _ t1(3) h(3), of "h_refs h" "t_stackPtr t"] t1(4) h(1,2) by (simp add: trace_touched_def trace_recorded_def tr')
  moreover have "run_trace hdrs tr t = Some ?t" using t1(1) h(1) run by (simp add: run_trace_def tr')
  ultimately show ?thesis using t1(5-7) len by (intro exI [of _ ?t] exI [of _ "trs1 @ [(p, ?vs)]"]) (simp flip: append_assoc)
qed

text \<open>
  C23: what the tool records. For every sequence of traces, however often the log fills up in between and wherever
  control leaves a trace early, recording and emptying the log never run outside it or into a failed assertion; and the
  list that the program gets holds, apart from addresses of the tool's own headers, exactly the accesses that were
  executed and are not to the stack, in their order and with their kind.
\<close>

theorem pin_records_accesses:
  fixes t :: pin_thread
  assumes fits: "fits hdrs (length (t_data t))" and start: "t_cursor t = 0" "t_data t \<noteq> []" "old_from hdrs 0 (t_data t)"
    and trs: "\<forall>tr \<in> set trs. trace_runs hdrs tr"
  shows "\<exists>t1 t'. run_traces hdrs trs t = Some t1 \<and> toggleoff hdrs t1 = Some t'
    \<and> filter (genuine hdrs) (t_addresses t') =
        filter (genuine hdrs) (t_addresses t) @ concat (map (trace_recorded hdrs (t_stackPtr t)) trs)
    \<and> t_cursor t' = 0 \<and> length (t_data t') = length (t_data t) \<and> old_from hdrs 0 (t_data t')"
proof -
  have "\<exists>t1 cur'. run_traces hdrs trs t = Some t1 \<and> log_inv hdrs cur' t1 \<and> length (t_data t1) = length (t_data t)
      \<and> filter (genuine hdrs) (t_addresses t1 @ concat (map (trace_touched hdrs) cur')) =
          filter (genuine hdrs) (t_addresses t @ concat (map (trace_touched hdrs) cur)) @ concat (map (trace_recorded hdrs (t_stackPtr t)) trs)"
    if "log_inv hdrs cur t" for cur
    using that trs fits
  proof (induction trs arbitrary: t cur)
    case (Cons tr trs)
    obtain t2 cur2 where t2: "run_trace hdrs tr t = Some t2" "log_inv hdrs cur2 t2" "length (t_data t2) = length (t_data t)" "t_stackPtr t2 = t_stackPtr t"
      "filter (genuine hdrs) (t_addresses t2 @ concat (map (trace_touched hdrs) cur2)) =
         filter (genuine hdrs) (t_addresses t @ concat (map (trace_touched hdrs) cur)) @ trace_recorded hdrs (t_stackPtr t) tr"
      using run_trace_inv [OF Cons.prems(1) _ Cons.prems(3), of tr] Cons.prems(2) by auto
    show ?case using Cons.IH [OF t2(2)] Cons.prems(2,3) t2 by (simp del: filter_append)
  qed auto
  moreover have "log_inv hdrs [] t" using start by (simp add: log_inv_def)
  ultimately obtain t1 cur where t1: "run_traces hdrs trs t = Some t1" "log_inv hdrs cur t1" "length (t_data t1) = length (t_data t)"
    "filter (genuine hdrs) (t_addresses t1 @ concat (map (trace_touched hdrs) cur)) =
       filter (genuine hdrs) (t_addresses t) @ concat (map (trace_recorded hdrs (t_stackPtr t)) trs)"
    by (metis (no_types, lifting) append_Nil2 concat.simps(1) list.simps(8))
  let ?off = "t1\<lparr>toggleMemtrace := True, toggleMalloc := True, toggleFree := True\<rparr>"
  have "log_inv hdrs cur ?off" using t1(2) by (simp add: log_inv_def)
  then obtain d ph where d: "Expand hdrs ?off = Some (?off\<lparr>t_data := d, t_addresses := t_addresses ?off @ concat (map (trace_touched hdrs) cur) @ ph\<rparr>)"
    "length d = length (t_data ?off)" "old_from hdrs 0 d" "\<forall>a \<in> set ph. \<not> genuine hdrs a"
    "take (t_cursor ?off) d = concat (map emptied cur)" by (rule Expand_inv)
  have "filter (genuine hdrs) ph = []" using d(4) by (simp add: filter_empty_conv)
  then show ?thesis using t1 d by (auto simp: toggleoff_def)
qed

definition phantom_headers :: "u64 \<Rightarrow> TRACE_HEADER option" where
  "phantom_headers p =
     (if p = 4096 then Some \<lparr>logSlots = 2, h_cmds = [TCMD_IMMEDIATE], h_refs = [\<lparr>ref_ip = 1, ref_read = True\<rparr>]\<rparr>
      else if p = 8192 then Some \<lparr>logSlots = 3, h_cmds = [TCMD_IMMEDIATE, TCMD_IMMEDIATE],
                                  h_refs = [\<lparr>ref_ip = 2, ref_read = True\<rparr>, \<lparr>ref_ip = 3, ref_read = False\<rparr>]\<rparr>
      else None)"

definition small_log :: pin_thread where
  "small_log = \<lparr>t_data = replicate 8 0, t_cursor = 0, t_addresses = [], toggleMemtrace = False, toggleMalloc = False, toggleFree = False,
     t_stackPtr = 0\<rparr>"

section \<open>Headers left in the log\<close>

definition slots :: "(u64 \<times> (u64 \<times> u64) option list) list \<Rightarrow> nat" where
  "slots trs = sum_list (map (\<lambda>tr. Suc (length (snd tr))) trs)"

lemma slots_simps [simp]: "slots [] = 0" "slots (tr # trs) = Suc (length (snd tr)) + slots trs" "slots (a @ b) = slots a + slots b"
  by (simp_all add: slots_def)

text \<open>What a sequence of traces makes of the part of the log it is recorded in.\<close>

fun written :: "u64 \<Rightarrow> (u64 \<times> (u64 \<times> u64) option list) list \<Rightarrow> u64 list \<Rightarrow> (u64 \<times> u64 list) list" where
  "written stack [] old = []"
| "written stack ((p, xs) # trs) old =
     (p, overwritten stack (take (length xs) (tl old)) xs) # written stack trs (drop (Suc (length xs)) old)"

lemma written_append: "written stack (a @ b) old = written stack a old @ written stack b (drop (slots a) old)"
  by (induction stack a old rule: written.induct) (simp_all add: add.commute)

lemma length_written:
  "slots trs \<le> length old \<Longrightarrow> length (concat (map slot_image (written stack trs old))) = slots trs"
  "slots trs \<le> length old \<Longrightarrow> length (concat (map emptied (written stack trs old))) = slots trs"
  by (induction stack trs old rule: written.induct) (simp_all add: overwritten_def emptied_def)

lemma written_ok:
  assumes "fits hdrs n" "slots trs \<le> length old" "\<forall>tr \<in> set trs. trace_runs hdrs tr"
  shows "\<forall>tr \<in> set (written stack trs old). trace_ok hdrs tr"
  using assms(2,3)
proof (induction stack trs old rule: written.induct)
  case (2 stack p xs trs old)
  obtain h where h: "hdrs p = Some h" "length xs = length (h_cmds h)"
    using 2(3) by (auto simp: trace_runs_def split: option.splits)
  then have "p \<noteq> 0" "header_ok h" using assms(1) by (auto simp: fits_def)
  then show ?case using 2 h by (simp add: trace_ok_def overwritten_def)
qed simp

lemma run_trace_room:
  assumes fits: "fits hdrs n" and tr: "trace_runs hdrs (p, xs)" and data: "t_data t = pre @ old" "length pre = t_cursor t"
    and room: "Suc (length xs) < length old"
  shows "run_trace hdrs (p, xs) t =
    Some (t\<lparr>t_data := pre @ p # overwritten (t_stackPtr t) (take (length xs) (tl old)) xs @ drop (Suc (length xs)) old,
            t_cursor := t_cursor t + Suc (length xs)\<rparr>)"
proof -
  obtain h where h: "hdrs p = Some h" "length xs = length (h_cmds h)" using tr by (auto simp: trace_runs_def split: option.splits)
  then have n: "logSlots h = Suc (length xs)" using fits by (auto simp: fits_def header_ok_def)
  obtain x old' where old: "old = x # old'" using room by (cases old) auto
  let ?vs = "take (length xs) old'" and ?rest = "drop (length xs) old'"
  let ?t1 = "t\<lparr>t_data := pre @ p # old', t_cursor := t_cursor t + Suc (length xs)\<rparr>"
  have "BeginTrace hdrs p (logSlots h) t = Some ?t1"
    using data room by (simp add: BeginTrace_def TraceAllocIf_def RecordTraceBegin_def n old list_update_append)
  moreover have "record_calls h 0 xs ?t1 = Some (?t1\<lparr>t_data := (pre @ [p]) @ overwritten (t_stackPtr ?t1) ?vs xs @ ?rest\<rparr>)"
    using data room by (intro record_calls_data) (simp_all add: old n)
  ultimately show ?thesis by (simp add: run_trace_def h(1) old)
qed

lemma run_traces_room:
  assumes "fits hdrs n" "\<forall>tr \<in> set trs. trace_runs hdrs tr" "t_data t = pre @ old" "length pre = t_cursor t" "slots trs < length old"
  shows "run_traces hdrs trs t =
    Some (t\<lparr>t_data := pre @ concat (map slot_image (written (t_stackPtr t) trs old)) @ drop (slots trs) old,
            t_cursor := t_cursor t + slots trs\<rparr>)"
  using assms(2-)
proof (induction trs arbitrary: t pre old)
  case (Cons tr trs)
  obtain p xs where tr: "tr = (p, xs)" by (cases tr)
  let ?im = "p # overwritten (t_stackPtr t) (take (length xs) (tl old)) xs" and ?old = "drop (Suc (length xs)) old"
  let ?t1 = "t\<lparr>t_data := (pre @ ?im) @ ?old, t_cursor := t_cursor t + Suc (length xs)\<rparr>"
  have room: "Suc (length xs) < length old" using Cons.prems(4) by (simp add: tr)
  have "run_trace hdrs tr t = Some ?t1" using run_trace_room [OF assms(1) _ Cons.prems(2,3) room] Cons.prems(1) by (simp add: tr)
  moreover have "run_traces hdrs trs ?t1 = Some (?t1\<lparr>t_data := (pre @ ?im) @ concat (map slot_image (written (t_stackPtr ?t1) trs ?old)) @ drop (slots trs) ?old,
      t_cursor := t_cursor ?t1 + slots trs\<rparr>)"
    using Cons.prems room by (intro Cons.IH) (simp_all add: tr overwritten_def)
  ultimately show ?case by (simp add: tr add.commute)
qed simp

text \<open>One recording that fits into the log: what it adds to the list, and the headers it leaves behind.\<close>

definition recording :: "(u64 \<Rightarrow> TRACE_HEADER option) \<Rightarrow> (u64 \<times> (u64 \<times> u64) option list) list \<Rightarrow> pin_thread \<Rightarrow> pin_thread option" where
  "recording hdrs trs t = Option.bind (run_traces hdrs trs (toggleon t)) (toggleoff hdrs)"

lemma recording_room:
  fixes t :: pin_thread
  assumes fits: "fits hdrs (length (t_data t))" and start: "t_cursor t = 0" "old_from hdrs 0 (t_data t)"
    and trs: "\<forall>tr \<in> set trs. trace_runs hdrs tr" "slots trs < length (t_data t)"
  obtains t' ph where "recording hdrs trs t = Some t'" "t_cursor t' = 0" "old_from hdrs 0 (t_data t')"
    "length (t_data t') = length (t_data t)" "t_stackPtr t' = t_stackPtr t"
    "t_addresses t' = t_addresses t @ concat (map (trace_touched hdrs) (written (t_stackPtr t) trs (t_data t))) @ ph"
    "take (slots trs) (t_data t') = concat (map emptied (written (t_stackPtr t) trs (t_data t)))"
proof -
  let ?W = "written (t_stackPtr t) trs (t_data t)"
  let ?t1 = "(toggleon t)\<lparr>t_data := concat (map slot_image ?W) @ drop (slots trs) (t_data t), t_cursor := slots trs\<rparr>"
  let ?off = "?t1\<lparr>toggleMemtrace := True, toggleMalloc := True, toggleFree := True\<rparr>"
  have run: "run_traces hdrs trs (toggleon t) = Some ?t1"
    using run_traces_room [OF fits trs(1), of "toggleon t" "[]"] start(1) trs(2) by (simp add: toggleon_def)
  have len: "length (concat (map slot_image ?W)) = slots trs" by (rule length_written(1)) (use trs(2) in simp)
  then have dlen: "length (t_data ?off) = length (t_data t)" using trs(2) by simp
  have "old_from hdrs (slots trs) (t_data ?off)"
    using start(2) len dlen trs(2) by (auto simp: old_from_def nth_append)
  moreover have "\<forall>tr \<in> set ?W. trace_ok hdrs tr" by (rule written_ok [OF fits less_imp_le [OF trs(2)] trs(1)])
  ultimately have "log_inv hdrs ?W ?off" using len dlen trs(2) by (simp add: log_inv_def)
  then obtain d ph where d: "Expand hdrs ?off = Some (?off\<lparr>t_data := d, t_addresses := t_addresses ?off @ concat (map (trace_touched hdrs) ?W) @ ph\<rparr>)"
    "length d = length (t_data ?off)" "old_from hdrs 0 d" "\<forall>a \<in> set ph. \<not> genuine hdrs a" "take (t_cursor ?off) d = concat (map emptied ?W)"
    by (rule Expand_inv)
  show ?thesis
  proof (rule that)
    show "recording hdrs trs t = Some (?off\<lparr>t_data := d, t_addresses := t_addresses ?off @ concat (map (trace_touched hdrs) ?W) @ ph, t_cursor := 0\<rparr>)"
      unfolding recording_def run using d(1) by (simp add: toggleoff_def)
  qed (use d dlen in \<open>simp_all add: toggleon_def\<close>)
qed

lemma touched_nth:
  "k < length vs \<Longrightarrow> length refs = length vs \<Longrightarrow> vs ! k \<noteq> 0 \<Longrightarrow> TouchedAddress (vs ! k) (\<not> ref_read (refs ! k)) \<in> set (touched refs vs)"
  by (force simp: touched_def set_zip)

text \<open>
  C24: addresses that no access had. Emptying the log does not clear the headers, and a trace does not clear its slots when
  it takes them. So whenever two recordings follow each other in a log that neither of them fills, and the slot of an access
  that the second does not execute is the place where a trace of the first began, the second adds the address of that trace's
  header to the list, as an access of the kind the slot is for, although no access of either recording went to it.
\<close>

theorem phantom_addresses:
  fixes t :: pin_thread
  assumes "fits hdrs (length (t_data t))" "t_cursor t = 0" "old_from hdrs 0 (t_data t)"
    and "\<forall>tr \<in> set (a @ (q, ys) # b). trace_runs hdrs tr" "slots (a @ (q, ys) # b) < length (t_data t)"
    and "\<forall>tr \<in> set (c @ (p, xs) # e). trace_runs hdrs tr" "slots (c @ (p, xs) # e) < length (t_data t)"
    and "hdrs p = Some h" "k < length xs" "xs ! k = None" "slots c + Suc k = slots a"
  shows "\<exists>t1 t2 new. recording hdrs (a @ (q, ys) # b) t = Some t1 \<and> recording hdrs (c @ (p, xs) # e) t1 = Some t2
    \<and> t_addresses t2 = t_addresses t1 @ new \<and> TouchedAddress q (\<not> ref_read (h_refs h ! k)) \<in> set new
    \<and> (\<forall>tr \<in> set (a @ (q, ys) # b) \<union> set (c @ (p, xs) # e). \<forall>y. Some y \<in> set (snd tr) \<longrightarrow> snd y \<noteq> q)"
proof -
  let ?r1 = "a @ (q, ys) # b" and ?r2 = "c @ (p, xs) # e"
  obtain t1 ph1 where t1: "recording hdrs ?r1 t = Some t1" "t_cursor t1 = 0" "old_from hdrs 0 (t_data t1)"
    "length (t_data t1) = length (t_data t)" "t_stackPtr t1 = t_stackPtr t"
    "t_addresses t1 = t_addresses t @ concat (map (trace_touched hdrs) (written (t_stackPtr t) ?r1 (t_data t))) @ ph1"
    "take (slots ?r1) (t_data t1) = concat (map emptied (written (t_stackPtr t) ?r1 (t_data t)))"
    by (rule recording_room [OF assms(1-5)])
  let ?W = "written (t_stackPtr t1) ?r2 (t_data t1)"
  obtain t2 ph2 where t2: "recording hdrs ?r2 t1 = Some t2" "t_cursor t2 = 0" "old_from hdrs 0 (t_data t2)"
    "length (t_data t2) = length (t_data t1)" "t_stackPtr t2 = t_stackPtr t1"
    "t_addresses t2 = t_addresses t1 @ concat (map (trace_touched hdrs) ?W) @ ph2"
    "take (slots ?r2) (t_data t2) = concat (map emptied ?W)"
    by (rule recording_room [of hdrs t1 ?r2]) (use assms t1(2-4) in simp_all)
  have hq: "hdrs q \<noteq> None" "q \<noteq> 0" using assms(1,4) by (auto simp: trace_runs_def fits_def split: option.splits)
  have hp: "length xs = length (h_cmds h)" "length (h_refs h) = length xs"
    using assms(1,6,8) by (auto simp: trace_runs_def fits_def header_ok_def)
  have left: "t_data t1 ! slots a = q"
  proof -
    have "t_data t1 ! slots a = take (slots ?r1) (t_data t1) ! slots a" by simp
    also have "\<dots> = q"
      unfolding t1(7) written_append using length_written(2) [of a "t_data t" "t_stackPtr t"] assms(5)
      by (simp add: nth_append emptied_def)
    finally show ?thesis .
  qed
  let ?vs = "take (length xs) (tl (drop (slots c) (t_data t1)))"
  have len: "length ?vs = length xs" using assms(7) t1(4) by simp
  have "?vs ! k = t_data t1 ! (slots c + Suc k)" using assms(7,9) t1(4) by (simp add: nth_tl)
  then have "overwritten (t_stackPtr t1) ?vs xs ! k = q" using assms(9,10,11) left len by (simp add: overwritten_def)
  then have "TouchedAddress q (\<not> ref_read (h_refs h ! k)) \<in> set (touched (h_refs h) (overwritten (t_stackPtr t1) ?vs xs))"
    using touched_nth [of k "overwritten (t_stackPtr t1) ?vs xs" "h_refs h"] hp(2) hq(2) len assms(9) by (simp add: overwritten_def)
  then have "TouchedAddress q (\<not> ref_read (h_refs h ! k)) \<in> set (concat (map (trace_touched hdrs) ?W) @ ph2)"
    using assms(8) by (simp add: written_append trace_touched_def)
  moreover have "\<forall>tr \<in> set ?r1 \<union> set ?r2. \<forall>y. Some y \<in> set (snd tr) \<longrightarrow> snd y \<noteq> q"
  proof (intro ballI allI impI)
    fix tr y assume tr: "tr \<in> set ?r1 \<union> set ?r2" and y: "Some y \<in> set (snd tr)"
    have "trace_runs hdrs tr" using tr assms(4,6) by blast
    then have "hdrs (snd y) = None" using y by (cases y) (auto simp: trace_runs_def split: option.splits)
    then show "snd y \<noteq> q" using hq(1) by auto
  qed
  ultimately show ?thesis using t1(1) t2(1,6) by (intro exI [of _ t1] exI [of _ t2] exI [of _ "concat (map (trace_touched hdrs) ?W) @ ph2"] conjI)
qed

lemma phantom_log_facts:
  "fits phantom_headers 8" "old_from phantom_headers 0 (t_data small_log)" "trace_runs phantom_headers (4096, [Some (0, 64)])"
  "trace_runs phantom_headers (8192, [Some (0, 80), None])"
  by (auto simp: fits_def old_from_def old_slot_def trace_runs_def phantom_headers_def small_log_def header_ok_def stored_def genuine_def nth_Cons split: nat.splits if_splits)

theorem pin_records_accesses_witness:
  "\<exists>t1 t'. run_traces phantom_headers [(4096, [Some (0, 64)]), (8192, [Some (0, 80), None])] small_log = Some t1
    \<and> toggleoff phantom_headers t1 = Some t'
    \<and> filter (genuine phantom_headers) (t_addresses t') = [TouchedAddress 64 False, TouchedAddress 80 False]"
proof -
  let ?trs = "[(4096, [Some (0, 64)]), (8192, [Some (0, 80), None])] :: (u64 \<times> (u64 \<times> u64) option list) list"
  have "concat (map (trace_recorded phantom_headers 0) ?trs) = [TouchedAddress 64 False, TouchedAddress 80 False]"
    by (simp add: trace_recorded_def recorded_def phantom_headers_def genuine_def stored_def)
  then show ?thesis
    using pin_records_accesses [of phantom_headers small_log ?trs] phantom_log_facts by (auto simp: small_log_def)
qed

theorem phantom_addresses_witness:
  "\<exists>t1 t2 new. recording phantom_headers [(4096, [Some (0, 64)]), (4096, [Some (0, 72)])] small_log = Some t1
    \<and> recording phantom_headers [(8192, [Some (0, 80), None])] t1 = Some t2
    \<and> t_addresses t2 = t_addresses t1 @ new \<and> TouchedAddress 4096 True \<in> set new"
proof -
  let ?h = "\<lparr>logSlots = 3, h_cmds = [TCMD_IMMEDIATE, TCMD_IMMEDIATE], h_refs = [\<lparr>ref_ip = 2, ref_read = True\<rparr>, \<lparr>ref_ip = 3, ref_read = False\<rparr>]\<rparr>"
  have "trace_runs phantom_headers (4096, [Some (0, 72)])"
    by (simp add: trace_runs_def phantom_headers_def)
  then show ?thesis
    using phantom_addresses [of phantom_headers small_log "[(4096, [Some (0, 64)])]" 4096 "[Some (0, 72)]" "[]" "[]" 8192 "[Some (0, 80), None]" "[]" ?h 1]
      phantom_log_facts by (auto simp: small_log_def phantom_headers_def)
qed

section \<open>What the program receives\<close>






section \<open>Allocations\<close>

theorem malloc_recorded:
  "\<not> toggleMalloc t \<Longrightarrow> recordMallocAddress a (recordMallocSize n t) = Some (t\<lparr>t_addresses := t_addresses t @ [MallocAddress a n]\<rparr>)"
  by (simp add: recordMallocSize_def recordMallocAddress_def)

text \<open>
  When the log is emptied between the entry of \<open>malloc\<close> and its return, its accesses are the end of the list: the block
  stays without an address, and the last access gets the address of the block.
\<close>

theorem malloc_address_misplaced:
  assumes "\<not> toggleMalloc t" and "Expand hdrs (recordMallocSize n t) = Some t1"
    and "t_addresses t1 = t_addresses (recordMallocSize n t) @ touches @ [TouchedAddress b w]" and "\<not> toggleMalloc t1"
  shows "\<exists>t2. recordMallocAddress a t1 = Some t2
    \<and> t_addresses t2 = t_addresses t @ [MallocAddress 0 n] @ touches @ [TouchedAddress a w]"
  using assms by (auto simp: recordMallocSize_def recordMallocAddress_def butlast_append)

theorem stop_free_does_nothing:
  "call_stub hdrs ''startLogPinFree'' t = Some (t\<lparr>toggleFree := False\<rparr>)" and "call_stub hdrs ''stopLogPinFree'' t = Some t"
  by (simp_all add: call_stub_def Image_switches_def toggleonfree_def)

end
