(* ===== verification/Spec2Isabelle.thy ===== *)
theory Spec2Isabelle
  imports Batch_Master User_Patcher Splay_Tree_C Report_Tools Cat_Pass Mem_Trace
begin

text \<open>
  CARMOT: a model of the compiler pass, the wrapper, the Pin tool, the TEXAS runtime and the report tools, with the
  theorems that make them correct.

  \<^bold>\<open>The program.\<close> CARMOT characterises what the code inside a region of interest does to memory. The pass in \<open>src/src\<close> adds
  calls to an LLVM module: at allocations, releases, loads, stores, calls of library code and at the entry of every
  function. The calls reach the wrapper (\<open>src/include/wrapper.cpp\<close>), which numbers call stacks, drops accesses already
  seen in the current invocation of the region and forwards the rest to the TEXAS runtime (\<open>src/extra/texas/src/runtime\<close>).
  The runtime logs every event in a batch of shadow entries; another thread cleans a batch, which turns the reads and
  writes of an address into the class that its whole history means (input, output, cloneable and their combinations),
  and executes it on the table of allocations and on the states of the regions. At the end the wrapper saves the
  states, and the tools of \<open>src/utils/prettyPrint\<close> print them as a report or as pragmas. The runtime can also pack and move
  the allocations of a state.

  \<^bold>\<open>The compiler pass.\<close> Each theory models the files it is named with, function by function and under the names of the
  source; LLVM modules are records and datatypes of \<open>LLVM_Module\<close>, and an instruction is known by its number.
  \<^item> \<open>LLVM_Module\<close>, \<open>Module_Edit\<close>: \<open>Utils.cpp\<close>, sizes of types, entries, inserting instructions. \<open>edits n M N\<close> says that \<open>N\<close>
    is \<open>M\<close> with instrumentation numbered from \<open>n\<close> added.
  \<^item> \<open>Roi_Manager\<close>: \<open>ROIManager.cpp\<close>. The regions are exactly the direct calls of the start function, each with stops that
    use its state ID; without a start function an indirect call is taken for one.
  \<^item> \<open>Touch_Same_Object\<close>: \<open>TouchSameObject.cpp\<close>. A skipped access repeats an earlier access on every path to it, for every
    solution of the data flow equations.
  \<^item> \<open>Call_Graph_Pass\<close>: the walks of \<open>CatPass.cpp\<close>, \<open>ClusterCallstackInstrumentation.cpp\<close> and of the tagging passes. They compute
    exactly reachability, and the functions to which a chain of functions with one caller leads.
  \<^item> \<open>Inst_Visitor\<close>: the visitor of \<open>CatPass.cpp\<close> and the numbering of entries, which leads back to the source position.
  \<^item> \<open>Select_Insts\<close>: the analyses of \<open>OnlyRead.cpp\<close>, \<open>DirectState.cpp\<close>, \<open>Invariant.cpp\<close>, \<open>MostlyInvariant.cpp\<close>, \<open>Induction.cpp\<close>,
    \<open>BaseAddressMostlyInvariant.cpp\<close>; the sets they choose are disjoint.
  \<^item> \<open>Instrument\<close>: every \<open>instrument\<close> function of \<open>CatPass.cpp\<close>, \<open>LoadStoreInstrumentation.cpp\<close>, prologue and epilogue. Each load and
    store that is not skipped gets exactly one call with its number and address.
  \<^item> \<open>Guards\<close>, \<open>Guard_Runs\<close>: the blocks that the optimisations put in front of an access, and an interpreter that runs them
    over a whole execution: what the runtime hears is stated on the runs of equal addresses.
  \<^item> \<open>Cat_Pass\<close>: \<open>runOnModule\<close>. The program is kept, the options reach the runtime, and two groups of
    accesses are lost.

  \<^bold>\<open>The runtime.\<close> Objects live in stores (maps from references to records), so that aliasing is that of the code.
  \<^item> \<open>Texas_Helpers\<close>, \<open>Texas_Objects\<close>, \<open>State_Commit\<close>: \<open>HelperFunctions\<close>, \<open>Allocation\<close>, \<open>State\<close>: operation codes, constructors, and how
    pending offsets move from allocations to the sets of a state, conserved.
  \<^item> \<open>Allocation_Table\<close>: both tables of \<open>AllocationTable.cpp\<close> with their masks; look-up finds a block exactly when one contains
    the address, but for the highest ordered block, which the entry at the highest address makes up for; the cycles of the connection graph.
  \<^item> \<open>Clean_Batch\<close>: \<open>cleanBatch\<close> refines the classification of access histories (\<open>classify\<close>), over sequences of batches.
  \<^item> \<open>Shadow_Worker\<close>: \<open>Shadow.cpp\<close>; every handler, and that a well-formed batch is executed to its end without a null access,
    as long as the other side of the handshake for cycles answers.
  \<^item> \<open>Texas_Runtime\<close>: the entry points of \<open>texas.cpp\<close>; batching refines an append-only log; the single-shadow mode drains it.
  \<^item> \<open>Batch_Master\<close>: the master thread as a step relation with the main thread, the cleaner and the shadows.
  \<^item> \<open>State_Packer\<close>, \<open>State_Optimizer\<close>, \<open>Patching\<close>, \<open>User_Patcher\<close>: packing, ordering and moving the allocations of a state.

  \<^bold>\<open>Wrapper and reports.\<close>
  \<^item> \<open>Trace_Table\<close>: the caches of call stacks and the numbers under which uses are saved. \<open>Wrapper\<close>: the calls the pass inserts;
    within one invocation, dropping repeated accesses does not change the class of an address.
  \<^item> \<open>Mem_Trace\<close>: the Pin tool \<open>src/utils/MemTrace/memtrace.cpp\<close>, which records library code that the pass cannot instrument. Its
    log refines the sequence of executed accesses, but for its own headers; the loop that fetches the list ends, unless the copy of eight bytes into
    \<open>type\<close> hits something the program still uses.
  \<^item> \<open>Report_Sets\<close>, \<open>Report_Tools\<close>: the saved data, the clean-up of the seven sets and all printers. The theorem of this
    theory joins them to the wrapper: what a run saves can be printed.
  \<^item> \<open>Splay_Tree_C\<close>: the splay tree benchmark of the runtime, with its driver.

  \<^bold>\<open>Interfaces.\<close> \<open>Carmot_Prelude\<close> holds words, the containers of the C++ library and the locale \<open>keyed_store\<close> for its maps;
  \<open>parent_walk\<close> (\<open>Shadow_Worker\<close>) is the contract of an operation that is applied to a state and its ancestors, \<open>trace_provider\<close>
  (\<open>Trace_Table\<close>) that of a cache of call stacks, \<open>key_set\<close> (\<open>Splay_Tree_C\<close>) that of a set with look-up, \<open>instrumenter\<close> (\<open>Cat_Pass\<close>)
  that of a stage of the pass. Each is interpreted on the definitions of the model.

  \<^bold>\<open>Parameters.\<close> Code that is not in the repository is an argument: the thread-safe queues (\<open>queue_ops\<close>, with the law \<open>queues_fifo\<close>),
  the strongly connected components of Boost, the call graph, loops, dependences, profiles, dominators and the data
  flow engine of NOELLE, the types of LLVM values, \<open>addr2line\<close> and the source files. So is what another thread does about the
  synchronisation variable of a request for cycles (\<open>env_sync\<close>: the variable exists and is set back), and the bytes that
  compilers place next to a variable (\<open>behind_type\<close>). Where a theorem needs a law of such an
  argument, its witness uses a concrete function that has it.

  \<^bold>\<open>Bounds and fuel.\<close> Sizes, addresses and offsets are 64-bit words and wrap. Loops over data are structural; \<open>store_loop\<close>
  and the walks that need not end are partial functions or have a bound on the depth of the recursion, whose absence of a
  result is a stack overflow: theorems say how large it has to be (more than the nodes of the call graph, of the operand
  graph, or of the parents of a state). A null dereference, an abort, and a blocking wait are the result \<open>None\<close>.

  \<^bold>\<open>Not modelled.\<close> Intel Pin is a vendored distribution; what the tool learns from it of an instruction is a record. The passes
  in \<open>src/utils\<close> that clone functions, promote allocas and mark regions, and the older TEXAS passes, are glue around LLVM
  transformations (\<open>CloneFunction\<close>, \<open>PromoteMemToReg\<close>) whose code is not in the repository. \<open>inject.cpp\<close> forwards to functions that no
  file defines. Of the test programs of the runtime only the splay tree is modelled; the others are containers of
  their own that the program does not use. Data races of the parallel mode beyond the order of batches, the statistics and debug printing, Boost
  serialization and \<open>verifyModule\<close> are left out. The statistics and counter switches of the wrapper are off, and so is
  \<open>MEMORYTOOL_DISABLE_TRACKING_OPTIONS\<close>, which one target of its Makefile sets and which makes \<open>prologue\<close> ignore its arguments.
\<close>

section \<open>From a run to its report\<close>

text \<open>
  C4: a report can be printed for every run that ends. When the static IDs under which the wrapper numbered call
  stacks all have a record in the debug data of the compiler, \<open>prettyPrint\<close> does not abort on the data that
  \<open>PrintJSONWrapper\<close> saved, whatever the program did.
\<close>

theorem saved_data_prints:
  assumes "PrintJSONWrapper q env fuel sync w = Some (Some out, w')" and "\<not> disableCallstack w"
    and "\<And>d. d \<in> ran (dynamicTraces (cstacks w)) \<Longrightarrow> 1 \<le> unat (dt_staticID d) \<and> unat (dt_staticID d) \<le> length recs"
  shows "prettyPrint a2l recs out \<noteq> None"
proof -
  have sv: "save_states w' (stateMap (r_store (rt w'))) [] = Some out" and k: "cstacks w' = cstacks w" "\<not> disableCallstack w'"
    using assms(1,2) PrintJSON_keeps [OF assms(1)] by (auto simp: PrintJSONWrapper_def split: if_splits option.splits)
  have id: "getDebugData recs sid \<noteq> None" if "known_id w' sid" for sid
    using that k assms(3) by (auto simp: known_id_def getDebugData_def)
  have "known_alloc (getDebugData recs) a" if "(i, st) \<in> set out" "a \<in> set (saved_sets st n)" for i st n a
  proof -
    have "list_all (known_saved w') (saved_sets st n)" by (rule save_states_known [OF sv _ that(1)]) simp
    then have "known_saved w' a" using that(2) by (simp add: list_all_iff)
    then show ?thesis using id unfolding known_saved_def known_alloc_def by blast
  qed
  then show ?thesis
    unfolding prettyPrint_def printStates_None printAllocation_None by blast
qed

definition traced_wrapper :: "(shadowBatch list, shadowEntry list list) wrapper" where
  "traced_wrapper = start_wrapper\<lparr>disableCallstack := False, tstore := sample_traces\<rparr>"

lemma traced_run:
  "case Option.bind (sample_program (Some 1) traced_wrapper) (PrintJSONWrapper list_queues sample_env 3 0) of
     Some (Some out, w) \<Rightarrow> True | _ \<Rightarrow> False"
  by code_simp

theorem saved_data_prints_witness:
  "\<exists>w out w'. sample_program (Some 1) traced_wrapper = Some w
     \<and> PrintJSONWrapper list_queues sample_env 3 0 w = Some (Some out, w')
     \<and> prettyPrint (\<lambda>_. []) [\<lparr>pathToFile = ''a.c'', varName = ''x'', lineNum = 1, columnNum = 1\<rparr>,
          \<lparr>pathToFile = ''a.c'', varName = [], lineNum = 2, columnNum = 1\<rparr>] out \<noteq> None"
proof -
  let ?recs = "[\<lparr>pathToFile = ''a.c'', varName = ''x'', lineNum = 1, columnNum = 1\<rparr>,
    \<lparr>pathToFile = ''a.c'', varName = [], lineNum = 2, columnNum = 1\<rparr>]"
  obtain w out w' where w: "sample_program (Some 1) traced_wrapper = Some w"
    "PrintJSONWrapper list_queues sample_env 3 0 w = Some (Some out, w')"
    using traced_run by (auto simp: bind_eq_Some_conv split: option.splits)
  have start: "ids_in {1, 2} traced_wrapper"
    by (simp add: ids_in_def traced_wrapper_def start_wrapper_def sample_wrapper_def no_callstacks_def)
  obtain i w1 w2 w3 where steps: "caratGetStateWrapper list_queues sample_env ''f'' 3 traced_wrapper = Some (i, w1)"
    "caratStateAllocWrapper list_queues sample_env 1 64 8 (Some 1) w1 = Some w2"
    "texasAddToStateWithInfoWrapper list_queues sample_env 2 64 8 8 (Some 1) w2 = Some w3"
    "caratReportStateWrapper list_queues sample_env i w3 = Some w"
    using w(1) by (auto simp: sample_program_def bind_eq_Some_conv)
  note w1 = ids_in_steps(1) [OF start steps(1)]
  note w2 = ids_in_steps(3) [OF w1 _ steps(2)]
  note w3 = ids_in_steps(4) [OF w2 _ steps(3)]
  have "ids_in {1, 2} w" by (rule ids_in_steps(2) [OF w3 steps(4)]) simp_all
  then have ids: "\<not> disableCallstack w"
    "\<And>d. d \<in> ran (dynamicTraces (cstacks w)) \<Longrightarrow> 1 \<le> unat (dt_staticID d) \<and> unat (dt_staticID d) \<le> length ?recs"
    by (auto simp: ids_in_def)
  from saved_data_prints [OF w(2) ids] w show ?thesis by blast
qed

end
